(* ===== verification/Prelude.thy ===== *)
theory Prelude
  imports Main "HOL-Library.Word"
begin

text \<open>
  Shared vocabulary of the development: the machine types of the SH-4 target (little endian,
  32-bit \<open>int\<close>, \<open>long\<close> and pointers, signed \<open>char\<close>), byte-level loads and stores, xor sums,
  and the generic lemmas on lists and words that several components use.
\<close>

unbundle bit_operations_syntax

type_synonym u8 = "8 word"
type_synonym u16 = "16 word"
type_synonym u32 = "32 word"
type_synonym u64 = "64 word"

text \<open>A flat byte-addressed memory, for the routines that work through pointers.\<close>

type_synonym mem = "nat \<Rightarrow> u8"

named_theorems byte_simps "loads, stores and byte order"
named_theorems xor_simps "algebra of exclusive or"

section \<open>Exclusive or\<close>

lemmas xor_ac = xor.assoc xor.commute xor.left_commute

lemma xor_self_word [simp, xor_simps]: "(x :: 'a::len word) XOR x = 0"
  by simp

lemma xor_cancel_left [simp, xor_simps]: "(x :: 'a::len word) XOR (x XOR y) = y"
  by (simp only: xor.assoc [symmetric] xor_self_eq xor.left_neutral)

lemma xor_cancel_right [simp, xor_simps]: "((y :: 'a::len word) XOR x) XOR x = y"
  by (simp only: xor.assoc xor_self_eq xor.right_neutral)

lemma xor_cancel_mid [simp, xor_simps]: "((y :: 'a::len word) XOR x) XOR y = x"
  by (simp only: xor.commute [of y x] xor.assoc xor_self_eq xor.right_neutral)

lemma xor_eq_0_iff_word: "(x :: 'a::len word) XOR y = 0 \<longleftrightarrow> x = y"
proof
  assume "x XOR y = 0"
  then have "x XOR (x XOR y) = x" by simp
  then show "x = y" by simp
qed simp

text \<open>The xor of a list of words.\<close>

primrec xsum :: "'a::len word list \<Rightarrow> 'a word" where
  "xsum [] = 0"
| "xsum (x # xs) = x XOR xsum xs"

lemma xsum_append [simp]: "xsum (xs @ ys) = xsum xs XOR xsum ys"
  by (induction xs) (simp_all add: xor.assoc)

lemma xsum_map_xor: "xsum (map (\<lambda>i. f i XOR g i) is) = xsum (map f is) XOR xsum (map g is)"
  by (induction "is") (simp_all add: xor_ac)

lemma xsum_map_zero: "(\<And>i. i \<in> set is \<Longrightarrow> f i = 0) \<Longrightarrow> xsum (map f is) = 0"
  by (induction "is") simp_all

lemma xsum_map_single:
  assumes "distinct is" and "j \<in> set is" and "\<And>i. i \<noteq> j \<Longrightarrow> f i = 0"
  shows "xsum (map f is) = f j"
  using assms
proof (induction "is")
  case Nil
  then show ?case by simp
next
  case (Cons i "is")
  show ?case
  proof (cases "i = j")
    case True
    with Cons.prems have "xsum (map f is) = 0"
      by (intro xsum_map_zero) (metis distinct.simps(2))
    with True show ?thesis by simp
  next
    case False
    with Cons show ?thesis by auto
  qed
qed

section \<open>Bytes and words\<close>

text \<open>The four bytes of a 32-bit value, least significant first (\<open>p_byt[i]\<close> on this target).\<close>

definition byte_of :: "u32 \<Rightarrow> nat \<Rightarrow> u8" where
  "byte_of w i = ucast (drop_bit (8 * i) w)"

text \<open>A little-endian 32-bit load from a byte array.\<close>

definition le32 :: "u8 list \<Rightarrow> nat \<Rightarrow> u32" where
  "le32 bs i = ucast (bs ! i) OR push_bit 8 (ucast (bs ! (i + 1)))
     OR push_bit 16 (ucast (bs ! (i + 2))) OR push_bit 24 (ucast (bs ! (i + 3)))"

text \<open>The bytes of a word in little-endian order.\<close>

definition le32_bytes :: "u32 \<Rightarrow> u8 list" where
  "le32_bytes w = [byte_of w 0, byte_of w 1, byte_of w 2, byte_of w 3]"

lemma length_le32_bytes [simp]: "length (le32_bytes w) = 4"
  by (simp add: le32_bytes_def)

lemma byte_of_xor [byte_simps]: "byte_of (x XOR y) i = byte_of x i XOR byte_of y i"
  unfolding byte_of_def by (simp add: bit_eq_iff bit_simps)

lemma ucast_u8_u32_u8 [simp, byte_simps]: "(ucast (ucast (x :: u8) :: u32) :: u8) = x"
  by (rule bit_word_eqI) (simp add: bit_simps)

lemma byte_of_0 [byte_simps]: "byte_of 0 i = 0"
  by (simp add: byte_of_def)

lemma byte_of_le32 [byte_simps]:
  assumes "j < 4"
  shows "byte_of (le32 bs i) j = bs ! (i + j)"
proof (rule bit_word_eqI)
  fix n assume n: "n < LENGTH(8)"
  from assms consider "j = 0" | "j = 1" | "j = 2" | "j = 3" by linarith
  then show "bit (byte_of (le32 bs i) j) n = bit (bs ! (i + j)) n"
    using n by cases (auto simp: le32_def byte_of_def bit_simps dest: bit_imp_le_length)
qed

lemma word32_eq_bytes:
  assumes "\<And>j. j < 4 \<Longrightarrow> byte_of x j = byte_of y j"
  shows "x = y"
proof (rule bit_word_eqI)
  fix n assume "n < LENGTH(32)"
  then have "n div 8 < 4" by simp
  then have "bit (byte_of x (n div 8)) (n mod 8) = bit (byte_of y (n div 8)) (n mod 8)"
    by (simp add: assms)
  then show "bit x n = bit y n" by (simp add: byte_of_def bit_simps)
qed

lemma le32_le32_bytes: "le32 (le32_bytes w) 0 = w"
  by (rule word32_eq_bytes) (auto simp: byte_of_le32 le32_bytes_def nth_Cons' less_Suc_eq numeral_eq_Suc)

lemma le32_of_bytes:
  assumes "b ! i = byte_of w 0" "b ! (i + 1) = byte_of w 1" "b ! (i + 2) = byte_of w 2" "b ! (i + 3) = byte_of w 3"
  shows "le32 b i = w"
proof (rule word32_eq_bytes)
  fix j :: nat assume j: "j < 4"
  then have "j = 0 \<or> j = 1 \<or> j = 2 \<or> j = 3" by linarith
  then show "byte_of (le32 b i) j = byte_of w j" using assms byte_of_le32 [OF j, of b i] by auto
qed

lemma sint_small: "n < 2 ^ 31 \<Longrightarrow> sint (word_of_nat n :: u32) = int n"
  by (simp add: signed_of_nat signed_take_bit_int_eq_self)

section \<open>Buffers\<close>

text \<open>\<open>memcpy(buf + off, xs, n)\<close> on a buffer held as a list.\<close>

definition blit :: "'a list \<Rightarrow> nat \<Rightarrow> 'a list \<Rightarrow> 'a list" where
  "blit buf off xs = take off buf @ xs @ drop (off + length xs) buf"

lemma length_blit [simp]: "off + length xs \<le> length b \<Longrightarrow> length (blit b off xs) = length b"
  by (simp add: blit_def)

lemma nth_blit:
  "off + length xs \<le> length b \<Longrightarrow> i < length b \<Longrightarrow>
   blit b off xs ! i = (if off \<le> i \<and> i < off + length xs then xs ! (i - off) else b ! i)"
  by (auto simp: blit_def nth_append min_def)

lemma take_blit: "off + length xs \<le> length b \<Longrightarrow> take (off + length xs) (blit b off xs) = take off b @ xs"
  by (simp add: blit_def)

text \<open>A byte array viewed as memory, overwritten from an offset on.\<close>

definition overwrite :: "(nat \<Rightarrow> 'a) \<Rightarrow> nat \<Rightarrow> 'a list \<Rightarrow> nat \<Rightarrow> 'a" where
  "overwrite m off xs = (\<lambda>a. if off \<le> a \<and> a < off + length xs then xs ! (a - off) else m a)"

lemma overwrite_Nil [simp]: "overwrite m off [] = m"
  by (rule ext) (auto simp: overwrite_def)

lemma overwrite_append:
  "overwrite (overwrite m off xs) (off + length xs) ys = overwrite m off (xs @ ys)"
  by (rule ext) (auto simp: overwrite_def nth_append)

section \<open>Tables of additive functions\<close>

text \<open>
  The table of an additive function on bytes is built by doubling from its columns, so that a
  constant table of the code is checked with one xor per entry.
\<close>

definition xor_table :: "'a::len word list \<Rightarrow> 'a word list" where
  "xor_table cs = fold (\<lambda>c t. t @ map ((XOR) c) t) cs [0]"

lemma xor_table_Nil [simp]: "xor_table [] = [0]"
  by (simp add: xor_table_def)

lemma xor_table_snoc: "xor_table (cs @ [c]) = xor_table cs @ map ((XOR) c) (xor_table cs)"
  by (simp add: xor_table_def)

lemma length_xor_table [simp]: "length (xor_table cs) = 2 ^ length cs"
  by (induction cs rule: rev_induct) (simp_all add: xor_table_snoc)

lemma nth_xor_table:
  "n < 2 ^ length cs \<Longrightarrow>
   xor_table cs ! n = xsum (map (\<lambda>i. if bit n i then cs ! i else 0) [0..<length cs])"
proof (induction cs arbitrary: n rule: rev_induct)
  case Nil
  then show ?case by simp
next
  case (snoc c cs)
  let ?l = "length cs"
  have m: "xsum (map (\<lambda>i. if bit n i then (cs @ [c]) ! i else 0) [0..<?l])
      = xsum (map (\<lambda>i. if bit n i then cs ! i else 0) [0..<?l])"
    by (rule arg_cong [where f = xsum], rule map_cong) (simp_all add: nth_append)
  show ?case
  proof (cases "n < 2 ^ ?l")
    case True
    then have "\<not> bit n ?l" by (simp add: bit_iff_odd)
    with True m snoc.IH [of n] show ?thesis by (simp add: xor_table_snoc nth_append)
  next
    case False
    let ?k = "n - 2 ^ ?l"
    from False snoc.prems have k: "n = ?k + 2 ^ ?l" "?k < 2 ^ ?l" by simp_all
    then have "n div 2 ^ ?l = 1"
      using False snoc.prems by (intro div_nat_eqI) simp_all
    then have b: "bit n ?l" by (simp add: bit_iff_odd)
    have t: "?k = take_bit ?l n" using k by (metis mod_add_self2 mod_less take_bit_eq_mod)
    have "xsum (map (\<lambda>i. if bit ?k i then cs ! i else 0) [0..<?l])
      = xsum (map (\<lambda>i. if bit n i then cs ! i else 0) [0..<?l])"
      unfolding t by (rule arg_cong [where f = xsum], rule map_cong) (simp_all add: bit_take_bit_iff)
    with False m b k(2) snoc.IH [of ?k] show ?thesis
      by (simp add: xor_table_snoc nth_append xor.commute)
  qed
qed

lemma bit_xsum_bits:
  "bit (xsum (map (\<lambda>i. if bit x i then 2 ^ i else 0) [0..<k]) :: 'a::len word) n
    \<longleftrightarrow> n < k \<and> n < LENGTH('a) \<and> bit x n"
  by (induction k) (auto simp: bit_xor_iff bit_exp_iff less_Suc_eq)

text \<open>A byte is the xor of its bits, so an additive function is the xor of its columns.\<close>

lemma word8_as_xsum: "(x :: u8) = xsum (map (\<lambda>i. if bit x i then 2 ^ i else 0) [0..<8])"
proof (rule bit_word_eqI)
  fix n :: nat assume "n < LENGTH(8)"
  then show "bit x n = bit (xsum (map (\<lambda>i. if bit x i then 2 ^ i else 0) [0..<8]) :: u8) n"
    by (subst bit_xsum_bits) simp
qed

lemma additive_word8:
  assumes "f 0 = 0" "\<And>x y :: u8. f (x XOR y) = f x XOR f y"
  shows "f x = xsum (map (\<lambda>i. if bit x i then f (2 ^ i) else 0) [0..<8])"
proof -
  have "f (xsum xs) = xsum (map f xs)" for xs
    by (induction xs) (simp_all add: assms)
  then have "f (xsum (map (\<lambda>i. if bit x i then 2 ^ i else 0) [0..<8]))
      = xsum (map (\<lambda>i. if bit x i then f (2 ^ i) else 0) [0..<8])"
    by (simp add: comp_def if_distrib [of f] assms(1) cong: if_cong)
  then show ?thesis by (simp only: word8_as_xsum [symmetric])
qed

lemma nth_xor_table_word8:
  assumes "length cs = 8"
  shows "xor_table cs ! unat (x :: u8) = xsum (map (\<lambda>i. if bit x i then cs ! i else 0) [0..<8])"
proof -
  have "unat x < 2 ^ length cs" using unsigned_less [of x] by (simp add: assms)
  from nth_xor_table [OF this] show ?thesis by (simp add: assms bit_unsigned_iff)
qed

lemma additive_xor_table:
  assumes "f 0 = 0" "\<And>x y :: u8. f (x XOR y) = f x XOR f y"
  shows "xor_table (map (\<lambda>i. f (2 ^ i)) [0..<8]) ! unat x = f x"
proof -
  have "unat x < 2 ^ 8" using unsigned_less [of x] by simp
  then show ?thesis
    unfolding additive_word8 [of f, OF assms, of x] 
    by (subst nth_xor_table) (auto intro!: arg_cong [where f = xsum] map_cong simp: bit_unsigned_iff)
qed

section \<open>Streaming updates\<close>

text \<open>
  An accumulator that consumes a byte stream piecewise: the contract shared by the checksums and
  the digests, whose callers feed a buffer in whatever pieces it arrives.
\<close>

locale digest_stream =
  fixes init :: 's
    and upd :: "'s \<Rightarrow> 'b list \<Rightarrow> 's"
    and fin :: "'s \<Rightarrow> 'd"
    and digest :: "'b list \<Rightarrow> 'd"
    and rep :: "'b list \<Rightarrow> 's \<Rightarrow> bool"
    and ok :: "'b list \<Rightarrow> bool"
  assumes rep_init: "rep [] init"
    and rep_upd: "rep xs s \<Longrightarrow> ok ys \<Longrightarrow> rep (xs @ ys) (upd s ys)"
    and rep_fin: "rep xs s \<Longrightarrow> fin s = digest xs"
begin

lemma rep_chunks:
  "rep xs s \<Longrightarrow> \<forall>c \<in> set cs. ok c \<Longrightarrow> rep (xs @ concat cs) (fold (\<lambda>c s. upd s c) cs s)"
proof (induction cs arbitrary: xs s)
  case (Cons c cs)
  from Cons.IH [of "xs @ c" "upd s c"] Cons.prems show ?case by (simp add: rep_upd)
qed simp

lemma streamed:
  "\<forall>c \<in> set cs. ok c \<Longrightarrow> fin (fold (\<lambda>c s. upd s c) cs init) = digest (concat cs)"
  using rep_chunks [OF rep_init, of cs] by (simp add: rep_fin)

lemma one_shot: "ok xs \<Longrightarrow> fin (upd init xs) = digest xs"
  using streamed [of "[xs]"] by simp

end

section \<open>Finite checks\<close>

lemma all_less_list_all: "(\<forall>i<n. P i) \<longleftrightarrow> list_all P [0..<n]"
  by (auto simp: list_all_iff)

lemma word8_cases_unat:
  assumes "list_all (\<lambda>i. P (word_of_nat i :: u8)) [0..<256]"
  shows "P x"
proof -
  have "unat x < 256" using unsigned_less [of x] by simp
  then have "unat x \<in> set [0..<256]" by simp
  with assms have "P (word_of_nat (unat x))" unfolding list_all_iff by (rule bspec)
  then show ?thesis by simp
qed

end
