(* ===== verification/Ecc.thy ===== *)
theory Ecc
  imports Prelude
begin

text \<open>
  The NAND error-correcting code of \<open>cpu/sh/ecc.c\<close>: \<open>ecc_gen\<close> computes the three ECC bytes of
  a 128, 256 or 512 byte block, \<open>ecc_correct\<close> compares two codes and repairs a one-bit error.
  The data block is a byte list, read as little-endian \<open>unsigned long\<close>s as on the SH-4; the
  18-entry array \<open>parity_bits\<close> is a list of 32-bit words.
\<close>

section \<open>Model\<close>

datatype ecc_size = ECC_128 | ECC_256 | ECC_512

datatype ecc_check = E_UN_CHK | E_NO_CHK | E_D1_CHK | E_C1_CHK

record ecc_t =
  ecc_byte0 :: u8
  ecc_byte1 :: u8
  ecc_byte2 :: u8

fun size_of :: "ecc_size \<Rightarrow> nat" where
  "size_of ECC_128 = 128"
| "size_of ECC_256 = 256"
| "size_of ECC_512 = 512"

definition byte_parity_table :: "u8 list" where
  "byte_parity_table =
  [0x00, 0x2B, 0x2D, 0x06, 0x33, 0x18, 0x1E, 0x35,
   0x35, 0x1E, 0x18, 0x33, 0x06, 0x2D, 0x2B, 0x00,
   0x4B, 0x60, 0x66, 0x4D, 0x78, 0x53, 0x55, 0x7E,
   0x7E, 0x55, 0x53, 0x78, 0x4D, 0x66, 0x60, 0x4B,
   0x4D, 0x66, 0x60, 0x4B, 0x7E, 0x55, 0x53, 0x78,
   0x78, 0x53, 0x55, 0x7E, 0x4B, 0x60, 0x66, 0x4D,
   0x06, 0x2D, 0x2B, 0x00, 0x35, 0x1E, 0x18, 0x33,
   0x33, 0x18, 0x1E, 0x35, 0x00, 0x2B, 0x2D, 0x06,
   0x53, 0x78, 0x7E, 0x55, 0x60, 0x4B, 0x4D, 0x66,
   0x66, 0x4D, 0x4B, 0x60, 0x55, 0x7E, 0x78, 0x53,
   0x18, 0x33, 0x35, 0x1E, 0x2B, 0x00, 0x06, 0x2D,
   0x2D, 0x06, 0x00, 0x2B, 0x1E, 0x35, 0x33, 0x18,
   0x1E, 0x35, 0x33, 0x18, 0x2D, 0x06, 0x00, 0x2B,
   0x2B, 0x00, 0x06, 0x2D, 0x18, 0x33, 0x35, 0x1E,
   0x55, 0x7E, 0x78, 0x53, 0x66, 0x4D, 0x4B, 0x60,
   0x60, 0x4B, 0x4D, 0x66, 0x53, 0x78, 0x7E, 0x55,
   0x55, 0x7E, 0x78, 0x53, 0x66, 0x4D, 0x4B, 0x60,
   0x60, 0x4B, 0x4D, 0x66, 0x53, 0x78, 0x7E, 0x55,
   0x1E, 0x35, 0x33, 0x18, 0x2D, 0x06, 0x00, 0x2B,
   0x2B, 0x00, 0x06, 0x2D, 0x18, 0x33, 0x35, 0x1E,
   0x18, 0x33, 0x35, 0x1E, 0x2B, 0x00, 0x06, 0x2D,
   0x2D, 0x06, 0x00, 0x2B, 0x1E, 0x35, 0x33, 0x18,
   0x53, 0x78, 0x7E, 0x55, 0x60, 0x4B, 0x4D, 0x66,
   0x66, 0x4D, 0x4B, 0x60, 0x55, 0x7E, 0x78, 0x53,
   0x06, 0x2D, 0x2B, 0x00, 0x35, 0x1E, 0x18, 0x33,
   0x33, 0x18, 0x1E, 0x35, 0x00, 0x2B, 0x2D, 0x06,
   0x4D, 0x66, 0x60, 0x4B, 0x7E, 0x55, 0x53, 0x78,
   0x78, 0x53, 0x55, 0x7E, 0x4B, 0x60, 0x66, 0x4D,
   0x4B, 0x60, 0x66, 0x4D, 0x78, 0x53, 0x55, 0x7E,
   0x7E, 0x55, 0x53, 0x78, 0x4D, 0x66, 0x60, 0x4B,
   0x00, 0x2B, 0x2D, 0x06, 0x33, 0x18, 0x1E, 0x35,
   0x35, 0x1E, 0x18, 0x33, 0x06, 0x2D, 0x2B, 0x00]"

definition bit_count_table :: "u8 list" where
  "bit_count_table =
  [0, 1, 1, 2, 1, 2, 2, 3,
   1, 2, 2, 3, 2, 3, 3, 4,
   1, 2, 2, 3, 2, 3, 3, 4,
   2, 3, 3, 4, 3, 4, 4, 5,
   1, 2, 2, 3, 2, 3, 3, 4,
   2, 3, 3, 4, 3, 4, 4, 5,
   2, 3, 3, 4, 3, 4, 4, 5,
   3, 4, 4, 5, 4, 5, 5, 6,
   1, 2, 2, 3, 2, 3, 3, 4,
   2, 3, 3, 4, 3, 4, 4, 5,
   2, 3, 3, 4, 3, 4, 4, 5,
   3, 4, 4, 5, 4, 5, 5, 6,
   2, 3, 3, 4, 3, 4, 4, 5,
   3, 4, 4, 5, 4, 5, 5, 6,
   3, 4, 4, 5, 4, 5, 5, 6,
   4, 5, 5, 6, 5, 6, 6, 7,
   1, 2, 2, 3, 2, 3, 3, 4,
   2, 3, 3, 4, 3, 4, 4, 5,
   2, 3, 3, 4, 3, 4, 4, 5,
   3, 4, 4, 5, 4, 5, 5, 6,
   2, 3, 3, 4, 3, 4, 4, 5,
   3, 4, 4, 5, 4, 5, 5, 6,
   3, 4, 4, 5, 4, 5, 5, 6,
   4, 5, 5, 6, 5, 6, 6, 7,
   2, 3, 3, 4, 3, 4, 4, 5,
   3, 4, 4, 5, 4, 5, 5, 6,
   3, 4, 4, 5, 4, 5, 5, 6,
   4, 5, 5, 6, 5, 6, 6, 7,
   3, 4, 4, 5, 4, 5, 5, 6,
   4, 5, 5, 6, 5, 6, 6, 7,
   4, 5, 5, 6, 5, 6, 6, 7,
   5, 6, 6, 7, 6, 7, 7, 8]"

text \<open>
  \<open>COL_LOOP_STEP(c__f, c__e, c__o, c__t)\<close>: the two array cells are named by their indices.
\<close>

definition COL_LOOP_STEP :: "bool \<Rightarrow> nat \<Rightarrow> nat \<Rightarrow> u32 \<Rightarrow> u32 list \<Rightarrow> u32 list" where
  "COL_LOOP_STEP f e od t pb =
     (let pb = pb[od := pb ! od XOR (if f then t else 1)]
      in pb[e := pb ! e XOR (if f then 1 else t)])"

text \<open>The body of the column loop; the cases of its \<open>switch\<close> fall through.\<close>

definition ecc_column :: "ecc_size \<Rightarrow> nat \<Rightarrow> u32 \<Rightarrow> u32 list \<Rightarrow> u32 list" where
  "ecc_column sz i t pb =
     (let pb = (if sz = ECC_512 then COL_LOOP_STEP (bit i 6) 16 17 t pb else pb);
          pb = (if sz = ECC_512 \<or> sz = ECC_256 then COL_LOOP_STEP (bit i 5) 14 15 t pb else pb);
          pb = COL_LOOP_STEP (bit i 0) 4 5 t pb;
          pb = COL_LOOP_STEP (bit i 1) 6 7 t pb;
          pb = COL_LOOP_STEP (bit i 2) 8 9 t pb;
          pb = COL_LOOP_STEP (bit i 3) 10 11 t pb
      in COL_LOOP_STEP (bit i 4) 12 13 t pb)"

fun num_parity_bits :: "ecc_size \<Rightarrow> nat" where
  "num_parity_bits ECC_128 = 14"
| "num_parity_bits ECC_256 = 16"
| "num_parity_bits ECC_512 = 18"

text \<open>\<open>for(int_cnt = 0; int_cnt < size/sizeof(unsigned long); int_cnt++)\<close>, from zeroed cells.\<close>

definition ecc_columns :: "u8 list \<Rightarrow> ecc_size \<Rightarrow> u32 list" where
  "ecc_columns data sz =
     fold (\<lambda>i pb. ecc_column sz i (le32 data (4 * i)) pb) [0..<size_of sz div 4]
       (replicate (num_parity_bits sz) 0)"

text \<open>\<open>p_byt[0] ^= (p_byt[1] ^ p_byt[2] ^ p_byt[3])\<close>: the low byte of a cell is replaced.\<close>

definition fold_low_byte :: "u32 \<Rightarrow> u32" where
  "fold_low_byte w =
     (w AND 0xFFFFFF00) OR ucast (byte_of w 0 XOR (byte_of w 1 XOR byte_of w 2 XOR byte_of w 3))"

text \<open>The cells after the line parities are set and the others are folded to their low byte.\<close>

definition ecc_lines :: "ecc_size \<Rightarrow> u32 list \<Rightarrow> u32 list" where
  "ecc_lines sz pb =
     (let reg32 = pb ! 12 XOR pb ! 13;
          byte_a = byte_of reg32 3;
          byte_b = byte_of reg32 2;
          byte_c = byte_of reg32 1;
          byte_d = byte_of reg32 0;
          pb = pb[0 := ucast (byte_d XOR byte_b), 1 := ucast (byte_c XOR byte_a),
                  2 := ucast (byte_d XOR byte_c), 3 := ucast (byte_b XOR byte_a)]
      in fold (\<lambda>k pb. pb[k := fold_low_byte (pb ! k)]) [4..<num_parity_bits sz] pb)"

text \<open>\<open>byte_parity_table[(unsigned char)parity_bits[bit_cnt]] & 0x01\<close>.\<close>

definition parity_of :: "u32 \<Rightarrow> u8" where
  "parity_of w = byte_parity_table ! unat (ucast w :: u8) AND 1"

text \<open>One of the three final loops: bits \<open>lo..<hi\<close> packed into a byte.\<close>

definition ecc_pack :: "u32 list \<Rightarrow> nat \<Rightarrow> nat \<Rightarrow> u8" where
  "ecc_pack pb lo hi = fold (\<lambda>k r. r OR push_bit (k - lo) (parity_of (pb ! k))) [lo..<hi] 0"

definition ecc_byte_reg :: "u32 list \<Rightarrow> u8" where
  "ecc_byte_reg pb =
     (let reg32 = pb ! 12 XOR pb ! 13
      in drop_bit 1 (byte_parity_table !
           unat (byte_of reg32 3 XOR byte_of reg32 2 XOR byte_of reg32 1 XOR byte_of reg32 0)))"

definition ecc_gen :: "u8 list \<Rightarrow> ecc_size \<Rightarrow> ecc_t" where
  "ecc_gen p_data sz =
     (let cols = ecc_columns p_data sz;
          byte_reg = ecc_byte_reg cols;
          pb = ecc_lines sz cols;
          n = num_parity_bits sz;
          b2 = ecc_pack pb 16 n
      in \<lparr>ecc_byte0 = ecc_pack pb 0 8,
          ecc_byte1 = ecc_pack pb 8 (min 16 n),
          ecc_byte2 = push_bit 2 byte_reg OR (b2 AND 0x03)\<rparr>)"

section \<open>Detection and correction\<close>

fun error_bit_count :: "ecc_size \<Rightarrow> u8" where
  "error_bit_count ECC_128 = 10"
| "error_bit_count ECC_256 = 11"
| "error_bit_count ECC_512 = 12"

definition bit_count :: "u8 \<Rightarrow> u8" where
  "bit_count x = bit_count_table ! unat x"

definition odd_xor_even :: "u8 \<Rightarrow> u8" where
  "odd_xor_even x = drop_bit 1 (x AND 0xAA) XOR (x AND 0x55)"

definition ecc_bit_cnt :: "ecc_size \<Rightarrow> u8 \<Rightarrow> u8 \<Rightarrow> u8 \<Rightarrow> u8" where
  "ecc_bit_cnt sz x0 x1 x2 =
     (if sz = ECC_512
      then bit_count (odd_xor_even x0) + bit_count (odd_xor_even x1) + bit_count (odd_xor_even x2)
      else bit_count x0 + bit_count x1 + bit_count x2)"

definition ecc_bit_addr :: "u8 \<Rightarrow> u8" where
  "ecc_bit_addr x2 =
     (drop_bit 3 x2 AND 0x01) OR (drop_bit 4 x2 AND 0x02) OR (drop_bit 5 x2 AND 0x04)"

text \<open>The byte address is built in an \<open>unsigned int\<close>; the \<open>switch\<close> falls through.\<close>

definition ecc_byte_addr :: "ecc_size \<Rightarrow> u8 \<Rightarrow> u8 \<Rightarrow> u8 \<Rightarrow> u32" where
  "ecc_byte_addr sz x0 x1 x2 =
     (let y0 = ucast x0 :: u32; y1 = ucast x1 :: u32; y2 = ucast x2 :: u32;
          a = (drop_bit 1 y0 AND 0x01) OR (drop_bit 2 y0 AND 0x02);
          a = (if sz = ECC_512 then a OR (push_bit 7 y2 AND 0x100) else a);
          a = (if sz = ECC_512 \<or> sz = ECC_256 then a OR (y1 AND 0x80) else a)
      in a OR ((drop_bit 3 y0 AND 0x04) OR (drop_bit 4 y0 AND 0x08)
               OR (push_bit 3 y1 AND 0x10) OR (push_bit 2 y1 AND 0x20) OR (push_bit 1 y1 AND 0x40)))"

text \<open>
  \<open>ecc_correct\<close> returns the verdict and the (possibly repaired) block. The store
  \<open>p_data[byte_addr02] ^= \<dots>\<close> is a list update; \<open>ecc_byte_addr_bound\<close> shows the index is in range.
\<close>

definition ecc_correct ::
    "u8 list \<Rightarrow> ecc_t \<Rightarrow> ecc_t \<Rightarrow> ecc_size \<Rightarrow> ecc_check \<times> u8 list" where
  "ecc_correct p_data old_ecc new_ecc sz =
     (let x0 = ecc_byte0 new_ecc XOR ecc_byte0 old_ecc;
          x1 = ecc_byte1 new_ecc XOR ecc_byte1 old_ecc;
          x2 = ecc_byte2 new_ecc XOR ecc_byte2 old_ecc
      in if x0 OR x1 OR x2 = 0 then (E_NO_CHK, p_data)
         else
           let bit_cnt02 = ecc_bit_cnt sz x0 x1 x2 in
           if bit_cnt02 = error_bit_count sz then
             let bit_addr02 = ecc_bit_addr x2;
                 byte_addr02 = unat (ecc_byte_addr sz x0 x1 x2)
             in (E_D1_CHK,
                 p_data[byte_addr02 := p_data ! byte_addr02 XOR push_bit (unat bit_addr02) 1])
           else if bit_cnt02 = 1 then (E_C1_CHK, p_data)
           else (E_UN_CHK, p_data))"


section \<open>The column loop\<close>

text \<open>Every parity cell from the fifth on is the xor of its contributions over the words.\<close>

definition contrib :: "nat \<Rightarrow> u32 \<Rightarrow> nat \<Rightarrow> u32" where
  "contrib i t c = (if bit i ((c - 4) div 2) = odd c then t else 1)"

lemma length_COL_LOOP_STEP [simp]: "length (COL_LOOP_STEP f e od t pb) = length pb"
  by (simp add: COL_LOOP_STEP_def Let_def)

lemma nth_COL_LOOP_STEP:
  assumes "e < length pb" "od < length pb" "e \<noteq> od"
  shows "COL_LOOP_STEP f e od t pb ! c =
     (if c = od then pb ! c XOR (if f then t else 1)
      else if c = e then pb ! c XOR (if f then 1 else t) else pb ! c)"
  using assms by (simp add: COL_LOOP_STEP_def Let_def nth_list_update)

fun column_order :: "ecc_size \<Rightarrow> nat list" where
  "column_order ECC_128 = [0, 1, 2, 3, 4]"
| "column_order ECC_256 = [5, 0, 1, 2, 3, 4]"
| "column_order ECC_512 = [6, 5, 0, 1, 2, 3, 4]"

definition column_steps :: "nat \<Rightarrow> u32 \<Rightarrow> nat list \<Rightarrow> u32 list \<Rightarrow> u32 list" where
  "column_steps i t ks = fold (\<lambda>k. COL_LOOP_STEP (bit i k) (4 + 2 * k) (5 + 2 * k) t) ks"

lemma ecc_column_steps: "ecc_column sz i t pb = column_steps i t (column_order sz) pb"
  by (cases sz) (simp_all add: ecc_column_def column_steps_def)

lemma length_column_steps [simp]: "length (column_steps i t ks pb) = length pb"
  by (induction ks arbitrary: pb) (simp_all add: column_steps_def)

lemma nth_column_steps:
  assumes "distinct ks" "\<forall>k \<in> set ks. 5 + 2 * k < length pb"
  shows "column_steps i t ks pb ! c =
    (if 4 \<le> c \<and> (c - 4) div 2 \<in> set ks then pb ! c XOR contrib i t c else pb ! c)"
  using assms
proof (induction ks arbitrary: pb)
  case Nil
  then show ?case by (simp add: column_steps_def)
next
  case (Cons k ks)
  let ?pb = "COL_LOOP_STEP (bit i k) (4 + 2 * k) (5 + 2 * k) t pb"
  have pair: "4 \<le> c \<and> (c - 4) div 2 = k \<longleftrightarrow> c = 4 + 2 * k \<or> c = 5 + 2 * k" by presburger
  have step: "?pb ! c = (if c = 5 + 2 * k then pb ! c XOR (if bit i k then t else 1)
      else if c = 4 + 2 * k then pb ! c XOR (if bit i k then 1 else t) else pb ! c)"
    using Cons.prems by (subst nth_COL_LOOP_STEP) auto
  have cs: "column_steps i t (k # ks) pb ! c = column_steps i t ks ?pb ! c"
    by (simp add: column_steps_def)
  show ?case
  proof (cases "4 \<le> c \<and> (c - 4) div 2 = k")
    case True
    then have "contrib i t c = (if bit i k = odd c then t else 1)"
      by (simp add: contrib_def)
    with True Cons step cs show ?thesis
      by (auto simp: pair)
  next
    case False
    with Cons step cs show ?thesis by (auto simp: pair)
  qed
qed

lemma length_ecc_column [simp]: "length (ecc_column sz i t pb) = length pb"
  by (simp add: ecc_column_steps)

lemma nth_ecc_column:
  assumes "length pb = num_parity_bits sz" "c < length pb"
  shows "ecc_column sz i t pb ! c = (if 4 \<le> c then pb ! c XOR contrib i t c else pb ! c)"
proof -
  have "(c - 4) div 2 \<in> set (column_order sz)" if "4 \<le> c"
    using that assms by (cases sz) (simp_all, presburger+)
  moreover have "distinct (column_order sz)"
    and "\<forall>k \<in> set (column_order sz). 5 + 2 * k < length pb"
    using assms by (cases sz; simp)+
  ultimately show ?thesis
    unfolding ecc_column_steps by (subst nth_column_steps) auto
qed

lemma fold_ecc_column:
  assumes "length pb = num_parity_bits sz"
  shows "length (fold (\<lambda>i. ecc_column sz i (w i)) is pb) = num_parity_bits sz"
    and "4 \<le> c \<Longrightarrow> c < num_parity_bits sz \<Longrightarrow>
      fold (\<lambda>i. ecc_column sz i (w i)) is pb ! c
        = pb ! c XOR xsum (map (\<lambda>i. contrib i (w i) c) is)"
  using assms by (induction "is" arbitrary: pb) (simp_all add: nth_ecc_column xor.assoc)

lemma length_ecc_columns [simp]: "length (ecc_columns data sz) = num_parity_bits sz"
  by (simp add: ecc_columns_def fold_ecc_column)

lemma nth_ecc_columns:
  "4 \<le> c \<Longrightarrow> c < num_parity_bits sz \<Longrightarrow>
   ecc_columns data sz ! c =
     xsum (map (\<lambda>i. contrib i (le32 data (4 * i)) c) [0..<size_of sz div 4])"
  by (simp add: ecc_columns_def fold_ecc_column)

section \<open>One flipped data bit\<close>

text \<open>\<open>flip_at\<close> is the error model: bit \<open>b\<close> of byte \<open>n\<close> of the block is inverted.\<close>

definition flip_at :: "u8 list \<Rightarrow> nat \<Rightarrow> nat \<Rightarrow> u8 list" where
  "flip_at data n b = data[n := data ! n XOR 2 ^ b]"

lemma length_flip_at [simp]: "length (flip_at data n b) = length data"
  by (simp add: flip_at_def)

definition flip_word :: "nat \<Rightarrow> nat \<Rightarrow> u32" where
  "flip_word n b = push_bit (8 * (n mod 4)) (ucast (2 ^ b :: u8))"

lemma byte_of_flip_word:
  assumes "j < 4"
  shows "byte_of (flip_word n b) j = (if j = n mod 4 then 2 ^ b else 0)"
proof -
  have m: "n mod 4 < 4" by simp
  show ?thesis
  proof (rule bit_word_eqI)
    fix k assume k: "k < LENGTH(8)"
    have "8 * (n mod 4) \<le> k + 8 * j \<and> k + 8 * j - 8 * (n mod 4) < 8 \<longleftrightarrow> j = n mod 4"
      using k by auto
    with assms k show "bit (byte_of (flip_word n b) j) k = bit (if j = n mod 4 then 2 ^ b else 0 :: u8) k"
      by (auto simp: byte_of_def flip_word_def bit_simps)
  qed
qed

lemma le32_flip_at:
  assumes "length data = 4 * k" "i < k" "n < length data"
  shows "le32 (flip_at data n b) (4 * i) =
    le32 data (4 * i) XOR (if i = n div 4 then flip_word n b else 0)"
proof (rule word32_eq_bytes)
  fix j :: nat assume j: "j < 4"
  then have "4 * i + j = n \<longleftrightarrow> i = n div 4 \<and> j = n mod 4" by auto
  with j assms show "byte_of (le32 (flip_at data n b) (4 * i)) j = byte_of
      (le32 data (4 * i) XOR (if i = n div 4 then flip_word n b else 0)) j"
    by (auto simp: byte_simps byte_of_flip_word flip_at_def nth_list_update)
qed

lemma ecc_columns_flip:
  assumes "length data = size_of sz" "n < size_of sz" "4 \<le> c" "c < num_parity_bits sz"
  shows "ecc_columns (flip_at data n b) sz ! c =
    ecc_columns data sz ! c XOR
      (if bit (n div 4) ((c - 4) div 2) = odd c then flip_word n b else 0)"
proof -
  let ?m = "size_of sz div 4"
  let ?d = "\<lambda>i. if i = n div 4 then
      (if bit (n div 4) ((c - 4) div 2) = odd c then flip_word n b else 0) else 0"
  have k: "length data = 4 * ?m" "n div 4 < ?m"
    using assms by (cases sz; simp)+
  have "map (\<lambda>i. contrib i (le32 (flip_at data n b) (4 * i)) c) [0..<?m]
      = map (\<lambda>i. contrib i (le32 data (4 * i)) c XOR ?d i) [0..<?m]"
    using k assms(1,2) by (intro map_cong) (auto simp: contrib_def le32_flip_at flip_word_def)
  moreover have "xsum (map ?d [0..<?m]) = ?d (n div 4)"
    using k(2) by (intro xsum_map_single) auto
  moreover have "?d (n div 4) = (if bit (n div 4) ((c - 4) div 2) = odd c then flip_word n b else 0)"
    by simp
  ultimately show ?thesis
    using assms(3,4) by (simp only: nth_ecc_columns xsum_map_xor)
qed

section \<open>Parities\<close>

definition byte_xor :: "u32 \<Rightarrow> u8" where
  "byte_xor w = byte_of w 0 XOR (byte_of w 1 XOR byte_of w 2 XOR byte_of w 3)"

lemma byte_xor_xor [xor_simps]: "byte_xor (x XOR y) = byte_xor x XOR byte_xor y"
  by (simp add: byte_xor_def byte_of_xor xor_ac)

lemma byte_xor_0 [simp]: "byte_xor 0 = 0"
  by (simp add: byte_xor_def byte_of_0)

lemma ucast_fold_low_byte: "ucast (fold_low_byte w) = byte_xor w"
proof -
  have "(ucast (w AND 0xFFFFFF00) :: u8) = 0"
  proof (rule bit_word_eqI)
    fix n assume "n < LENGTH(8)"
    then have "\<not> bit (0xFFFFFF00 :: u32) n"
      by (auto simp: less_Suc_eq numeral_eq_Suc)
    then show "bit (ucast (w AND 0xFFFFFF00) :: u8) n = bit (0 :: u8) n"
      by (simp add: bit_simps)
  qed
  then show ?thesis
    by (auto intro!: bit_word_eqI simp: fold_low_byte_def byte_xor_def bit_simps bit_eq_iff)
qed

definition col :: "nat \<Rightarrow> u8" where
  "col i = [0x2B, 0x2D, 0x33, 0x35, 0x4B, 0x4D, 0x53, 0x55] ! i"

lemma byte_parity_table_cols:
  "byte_parity_table = xor_table [0x2B, 0x2D, 0x33, 0x35, 0x4B, 0x4D, 0x53, 0x55]"
  by (simp add: byte_parity_table_def xor_table_def)

lemma byte_parity_table_linear:
  "byte_parity_table ! unat (x :: u8) = xsum (map (\<lambda>i. if bit x i then col i else 0) [0..<8])"
  unfolding byte_parity_table_cols col_def by (rule nth_xor_table_word8) simp

lemma byte_parity_table_xor:
  "byte_parity_table ! unat (x XOR y :: u8) = byte_parity_table ! unat x XOR byte_parity_table ! unat y"
  unfolding byte_parity_table_linear
  by (subst xsum_map_xor [symmetric], rule arg_cong [where f = xsum], rule map_cong)
     (auto simp: bit_simps)

definition par8 :: "u8 \<Rightarrow> bool" where
  "par8 x = bit (byte_parity_table ! unat x) 0"

lemma par8_xor [xor_simps]: "par8 (x XOR y) = (par8 x \<noteq> par8 y)"
  by (simp add: par8_def byte_parity_table_xor bit_xor_iff)

lemma par8_0 [simp]: "\<not> par8 0"
  by code_simp

lemma par8_bit:
  assumes "b < 8"
  shows "par8 (2 ^ b)"
proof -
  have "list_all (\<lambda>b. par8 (2 ^ b)) [0..<8]" by code_simp
  with assms show ?thesis by (auto simp: list_all_iff)
qed

lemma bit_parity_of: "bit (parity_of w) m \<longleftrightarrow> m = 0 \<and> par8 (ucast w)"
  by (auto simp: parity_of_def par8_def bit_simps)

lemma bit_ecc_pack:
  "bit (ecc_pack pb lo hi) m \<longleftrightarrow> m < 8 \<and> lo + m < hi \<and> par8 (ucast (pb ! (lo + m)))"
proof (induction hi)
  case 0
  then show ?case by (simp add: ecc_pack_def)
next
  case (Suc hi)
  show ?case
  proof (cases "lo \<le> hi")
    case True
    then have "ecc_pack pb lo (Suc hi) = ecc_pack pb lo hi OR push_bit (hi - lo) (parity_of (pb ! hi))"
      by (simp add: ecc_pack_def)
    with Suc True show ?thesis
      by (auto simp: bit_simps bit_parity_of less_Suc_eq le_Suc_eq dest!: le_antisym)
  next
    case False
    then show ?thesis by (simp add: ecc_pack_def)
  qed
qed

lemma length_ecc_lines [simp]: "length (ecc_lines sz pb) = length pb"
proof -
  have "length (fold (\<lambda>k pb. pb[k := fold_low_byte (pb ! k)]) ks pb) = length pb" for ks pb
    by (induction ks arbitrary: pb) simp_all
  then show ?thesis by (simp add: ecc_lines_def Let_def)
qed

lemma fold_low_bytes_nth:
  "k < length pb \<Longrightarrow> distinct ks \<Longrightarrow>
   fold (\<lambda>k pb. pb[k := fold_low_byte (pb ! k)]) ks pb ! k
     = (if k \<in> set ks then fold_low_byte (pb ! k) else pb ! k)"
proof (induction ks arbitrary: pb)
  case (Cons a ks)
  then show ?case by (cases "a = k") auto
qed simp

text \<open>What a parity cell holds once the lines are built: the parity of selected bytes.\<close>

definition line_byte :: "u32 \<Rightarrow> nat \<Rightarrow> u8" where
  "line_byte r k = (if k = 0 then byte_of r 0 XOR byte_of r 2
     else if k = 1 then byte_of r 1 XOR byte_of r 3
     else if k = 2 then byte_of r 0 XOR byte_of r 1 else byte_of r 2 XOR byte_of r 3)"

lemma ecc_lines_cell:
  assumes "length pb = num_parity_bits sz" "k < length pb"
  shows "(ucast (ecc_lines sz pb ! k) :: u8) =
    (if k < 4 then line_byte (pb ! 12 XOR pb ! 13) k else byte_xor (pb ! k))"
proof (cases "k < 4")
  case True
  then consider "k = 0" | "k = 1" | "k = 2" | "k = 3" by linarith
  then show ?thesis using assms
    by cases (simp_all add: ecc_lines_def Let_def fold_low_bytes_nth line_byte_def xor.commute)
next
  case False
  with assms show ?thesis
    by (simp add: ecc_lines_def Let_def fold_low_bytes_nth ucast_fold_low_byte)
qed

lemma bit_div4: "bit (n div 4) j = bit (n::nat) (j + 2)"
  by (simp add: bit_iff_odd div_mult2_eq [symmetric] power_add)

lemma line_byte_xor: "line_byte (x XOR y) k = line_byte x k XOR line_byte y k"
  by (simp add: line_byte_def byte_of_xor xor_ac)

lemma line_byte_flip_word:
  assumes "k < 4" "b < 8"
  shows "par8 (line_byte (flip_word n b) k) = (bit n (k div 2) = odd k)"
proof -
  have b0: "bit n 0 = odd n" "bit n 1 = odd (n div 2)"
    by (simp_all add: bit_iff_odd)
  have p: "par8 (line_byte (flip_word n b) 0) = (n mod 4 = 0 \<or> n mod 4 = 2)"
    "par8 (line_byte (flip_word n b) 1) = (n mod 4 = 1 \<or> n mod 4 = 3)"
    "par8 (line_byte (flip_word n b) 2) = (n mod 4 = 0 \<or> n mod 4 = 1)"
    "par8 (line_byte (flip_word n b) 3) = (n mod 4 = 2 \<or> n mod 4 = 3)"
    using assms(2) by (auto simp: line_byte_def byte_of_flip_word par8_bit)
  have m: "(n mod 4 = 0 \<or> n mod 4 = 2) = even n" "(n mod 4 = 1 \<or> n mod 4 = 3) = odd n"
    "(n mod 4 = 0 \<or> n mod 4 = 1) = even (n div 2)" "(n mod 4 = 2 \<or> n mod 4 = 3) = odd (n div 2)"
    by presburger+
  from assms(1) consider "k = 0" | "k = 1" | "k = 2" | "k = 3" by linarith
  then show ?thesis
    by cases (simp_all only: p m b0, simp_all add: b0 [unfolded One_nat_def])
qed

lemma byte_xor_flip_word: "b < 8 \<Longrightarrow> byte_xor (flip_word n b) = 2 ^ b"
proof -
  assume b: "b < 8"
  have "n mod 4 < 4" by simp
  then consider "n mod 4 = 0" | "n mod 4 = 1" | "n mod 4 = 2" | "n mod 4 = 3" by linarith
  then show ?thesis using b by cases (simp_all add: byte_xor_def byte_of_flip_word)
qed

lemma ecc_reg_flip:
  assumes "length data = size_of sz" "n < size_of sz"
  shows "ecc_columns (flip_at data n b) sz ! 12 XOR ecc_columns (flip_at data n b) sz ! 13
    = (ecc_columns data sz ! 12 XOR ecc_columns data sz ! 13) XOR flip_word n b"
proof -
  have "13 < num_parity_bits sz" by (cases sz) simp_all
  with assms show ?thesis
    by (cases "bit (n div 4) 4") (simp_all add: ecc_columns_flip xor_ac)
qed

text \<open>A flip of bit \<open>b\<close> of byte \<open>n\<close> toggles the odd or the even cell of every pair.\<close>

lemma ecc_cell_flip:
  assumes "length data = size_of sz" "n < size_of sz" "b < 8" "k < num_parity_bits sz"
  shows "par8 (ucast (ecc_lines sz (ecc_columns (flip_at data n b) sz) ! k))
    = (par8 (ucast (ecc_lines sz (ecc_columns data sz) ! k)) \<noteq> (bit n (k div 2) = odd k))"
proof (cases "k < 4")
  case True
  with assms show ?thesis
    by (simp add: ecc_lines_cell ecc_reg_flip line_byte_xor line_byte_flip_word xor_simps)
next
  case False
  then have "(k - 4) div 2 + 2 = k div 2" by simp
  with False assms show ?thesis
    by (auto simp: ecc_lines_cell ecc_columns_flip xor_simps byte_xor_flip_word par8_bit bit_div4)
qed

section \<open>Syndromes\<close>

text \<open>
  The difference of the codes of a block and of the block with one flipped bit: for each address
  bit the pair \<open>01\<close> or \<open>10\<close>.
\<close>

definition pairs :: "nat \<Rightarrow> nat \<Rightarrow> u8" where
  "pairs m x = xsum (map (\<lambda>k. push_bit (2 * k + of_bool (bit x k)) 1) [0..<m])"

lemma bit_pairs: "bit (pairs m x) j \<longleftrightarrow> j < 8 \<and> j < 2 * m \<and> (bit x (j div 2) = odd j)"
proof (induction m)
  case 0
  then show ?case by (simp add: pairs_def)
next
  case (Suc m)
  have "bit (push_bit (2 * m + of_bool (bit x m)) 1 :: u8) j \<longleftrightarrow>
      j < 8 \<and> j div 2 = m \<and> (bit x m = odd j)"
    by (cases "bit x m"; simp add: bit_simps; presburger)
  moreover have "j < 2 * Suc m \<longleftrightarrow> j < 2 * m \<or> j div 2 = m" "j < 2 * m \<Longrightarrow> j div 2 \<noteq> m" by auto
  moreover have "pairs (Suc m) x = pairs m x XOR push_bit (2 * m + of_bool (bit x m)) 1"
    unfolding pairs_def by simp
  ultimately show ?case
    using Suc by (auto simp: bit_xor_iff)
qed

definition syn0 :: "nat \<Rightarrow> u8" where "syn0 n = pairs 4 n"

definition syn1 :: "ecc_size \<Rightarrow> nat \<Rightarrow> u8" where
  "syn1 sz n = pairs (if sz = ECC_128 then 3 else 4) (n div 16)"

definition syn2 :: "ecc_size \<Rightarrow> nat \<Rightarrow> nat \<Rightarrow> u8" where
  "syn2 sz n b = (if sz = ECC_512 then pairs 1 (n div 256) else 0) XOR push_bit 2 (pairs 3 b)"

lemma ecc_byte_reg_flip:
  assumes "length data = size_of sz" "n < size_of sz" "b < 8"
  shows "ecc_byte_reg (ecc_columns (flip_at data n b) sz)
    = ecc_byte_reg (ecc_columns data sz) XOR pairs 3 b"
proof -
  let ?r = "ecc_columns data sz ! 12 XOR ecc_columns data sz ! 13"
  have eq: "ecc_byte_reg pb = drop_bit 1 (byte_parity_table ! unat (byte_xor (pb ! 12 XOR pb ! 13)))"
    for pb by (simp add: ecc_byte_reg_def Let_def byte_xor_def xor_ac)
  have "list_all (\<lambda>b. drop_bit 1 (byte_parity_table ! unat (2 ^ b :: u8)) = pairs 3 b) [0..<8]"
    by code_simp
  then have "drop_bit 1 (byte_parity_table ! unat (2 ^ b :: u8)) = pairs 3 b"
    using assms(3) by (auto simp: list_all_iff)
  then show ?thesis
    using assms by (simp add: eq ecc_reg_flip byte_xor_xor byte_xor_flip_word byte_parity_table_xor)
qed

lemma bit_div_pow: "bit (n div 2 ^ i) j = bit (n::nat) (j + i)"
  by (simp add: bit_iff_odd div_mult2_eq [symmetric] power_add mult.commute)

lemma bit_ecc_pack_flip:
  assumes "length data = size_of sz" "n < size_of sz" "b < 8" "hi \<le> num_parity_bits sz"
  shows "bit (ecc_pack (ecc_lines sz (ecc_columns (flip_at data n b) sz)) lo hi) m
    = (bit (ecc_pack (ecc_lines sz (ecc_columns data sz)) lo hi) m \<noteq>
       (m < 8 \<and> lo + m < hi \<and> (bit n ((lo + m) div 2) = odd (lo + m))))"
  using assms by (auto simp: bit_ecc_pack ecc_cell_flip)

lemma ecc_byte0_flip:
  assumes "length data = size_of sz" "n < size_of sz" "b < 8"
  shows "ecc_byte0 (ecc_gen (flip_at data n b) sz) = ecc_byte0 (ecc_gen data sz) XOR syn0 n"
proof -
  have "8 \<le> num_parity_bits sz" by (cases sz) simp_all
  with assms show ?thesis
    by (intro bit_word_eqI) (auto simp: ecc_gen_def Let_def bit_xor_iff bit_ecc_pack_flip syn0_def bit_pairs)
qed

lemma ecc_byte1_flip:
  assumes "length data = size_of sz" "n < size_of sz" "b < 8"
  shows "ecc_byte1 (ecc_gen (flip_at data n b) sz) = ecc_byte1 (ecc_gen data sz) XOR syn1 sz n"
proof (rule bit_word_eqI)
  fix m assume m: "m < LENGTH(8)"
  let ?hi = "min 16 (num_parity_bits sz)"
  have h: "(8 + m) div 2 = 4 + m div 2" by simp
  have p: "(m < 8 \<and> 8 + m < ?hi \<and> (bit n ((8 + m) div 2) = odd (8 + m))) = bit (syn1 sz n) m"
    using bit_div_pow [of n 4 "m div 2"] m
    unfolding h by (cases sz) (simp_all add: syn1_def bit_pairs add.commute)
  have "?hi \<le> num_parity_bits sz" by simp
  from bit_ecc_pack_flip [OF assms this, of 8 m]
  show "bit (ecc_byte1 (ecc_gen (flip_at data n b) sz)) m
      = bit (ecc_byte1 (ecc_gen data sz) XOR syn1 sz n) m"
    unfolding p by (simp add: ecc_gen_def Let_def bit_xor_iff)
qed

lemma ecc_byte2_flip:
  assumes "length data = size_of sz" "n < size_of sz" "b < 8"
  shows "ecc_byte2 (ecc_gen (flip_at data n b) sz) = ecc_byte2 (ecc_gen data sz) XOR syn2 sz n b"
proof (rule bit_word_eqI)
  fix m assume m: "m < LENGTH(8)"
  let ?p = "\<lambda>d. ecc_pack (ecc_lines sz (ecc_columns d sz)) 16 (num_parity_bits sz)"
  have h: "(16 + m) div 2 = 8 + m div 2" by simp
  have p: "(m < 8 \<and> 16 + m < num_parity_bits sz \<and> (bit n ((16 + m) div 2) = odd (16 + m))) =
      (sz = ECC_512 \<and> bit (pairs 1 (n div 256)) m)"
    using bit_div_pow [of n 8 "m div 2"] m
    unfolding h by (cases sz) (simp_all add: bit_pairs add.commute)
  have b2: "bit (?p (flip_at data n b)) m =
      (bit (?p data) m \<noteq> (sz = ECC_512 \<and> bit (pairs 1 (n div 256)) m))"
    using bit_ecc_pack_flip [OF assms order_refl, of 16 m] unfolding p .
  have lo: "bit (?p d AND 3) m = bit (?p d) m" for d
  proof -
    have "m < 2" if "bit (?p d) m" using that by (cases sz) (simp_all add: bit_ecc_pack)
    moreover have "bit (3 :: u8) m" if "m < 2"
      using that by (cases m) simp_all
    ultimately show ?thesis by (auto simp: bit_and_iff)
  qed
  have hi: "m < 2" if "bit (?p d) m \<or> bit (pairs 1 x) m" for d x
    using that by (cases sz) (auto simp: bit_ecc_pack bit_pairs)
  have c: "bit (push_bit 2 x :: u8) m \<Longrightarrow> 2 \<le> m" for x by (simp add: bit_push_bit_iff)
  have "bit (ecc_byte2 (ecc_gen d sz)) m =
      (bit (push_bit 2 (ecc_byte_reg (ecc_columns d sz))) m \<or> bit (?p d) m)" for d
    by (simp only: ecc_gen_def Let_def ecc_t.select_convs bit_or_iff lo)
  moreover have "bit (syn2 sz n b) m =
      ((sz = ECC_512 \<and> bit (pairs 1 (n div 256)) m) \<noteq> bit (push_bit 2 (pairs 3 b)) m)"
    by (simp add: syn2_def bit_xor_iff)
  moreover have "push_bit 2 (ecc_byte_reg (ecc_columns (flip_at data n b) sz))
      = push_bit 2 (ecc_byte_reg (ecc_columns data sz)) XOR push_bit 2 (pairs 3 b)"
    using ecc_byte_reg_flip [OF assms] by (simp add: push_bit_xor)
  ultimately show "bit (ecc_byte2 (ecc_gen (flip_at data n b) sz)) m
      = bit (ecc_byte2 (ecc_gen data sz) XOR syn2 sz n b) m"
    using b2 c hi by (fastforce simp: bit_xor_iff)
qed

section \<open>Counting the syndrome bits\<close>

lemma pairs_mod: "pairs m x = pairs m (x mod 2 ^ m)"
proof (rule bit_word_eqI)
  fix j assume "j < LENGTH(8)"
  have "bit (x mod 2 ^ m) (j div 2) = bit x (j div 2)" if "j < 2 * m"
  proof -
    from that have "j div 2 < m" by auto
    then show ?thesis by (simp add: bit_take_bit_iff flip: take_bit_eq_mod)
  qed
  then show "bit (pairs m x) j = bit (pairs m (x mod 2 ^ m)) j"
    by (auto simp: bit_pairs)
qed

lemma bit_count_pairs:
  "bit_count (pairs 4 x) = 4" "bit_count (pairs 3 x) = 3" "bit_count (pairs 1 x) = 1"
  "bit_count (odd_xor_even (pairs 4 x)) = 4"
proof -
  have m: "x mod 16 < 16" "x mod 8 < 8" "x mod 2 < 2" by simp_all
  have "list_all (\<lambda>x. bit_count (pairs 4 x) = 4 \<and> bit_count (odd_xor_even (pairs 4 x)) = 4) [0..<16]"
    "list_all (\<lambda>x. bit_count (pairs 3 x) = 3) [0..<8]"
    "list_all (\<lambda>x. bit_count (pairs 1 x) = 1) [0..<2]"
    by code_simp+
  then show "bit_count (pairs 4 x) = 4" "bit_count (pairs 3 x) = 3" "bit_count (pairs 1 x) = 1"
    "bit_count (odd_xor_even (pairs 4 x)) = 4"
    using m pairs_mod [of 4 x] pairs_mod [of 3 x] pairs_mod [of 1 x]
    by (simp_all add: list_all_iff)
qed

lemma bit_count_syn2:
  "bit_count (push_bit 2 (pairs 3 b)) = 3"
  "bit_count (odd_xor_even (pairs 1 x XOR push_bit 2 (pairs 3 b))) = 4"
proof -
  have m: "b mod 8 < 8" "x mod 2 < 2" by simp_all
  have "list_all (\<lambda>b. bit_count (push_bit 2 (pairs 3 b)) = 3 \<and>
      list_all (\<lambda>x. bit_count (odd_xor_even (pairs 1 x XOR push_bit 2 (pairs 3 b))) = 4) [0..<2]) [0..<8]"
    by code_simp
  then show "bit_count (push_bit 2 (pairs 3 b)) = 3"
    "bit_count (odd_xor_even (pairs 1 x XOR push_bit 2 (pairs 3 b))) = 4"
    using m pairs_mod [of 1 x] pairs_mod [of 3 b]
    by (simp_all add: list_all_iff)
qed

lemma ecc_bit_cnt_syn: "ecc_bit_cnt sz (syn0 n) (syn1 sz n) (syn2 sz n b) = error_bit_count sz"
  using bit_count_syn2
  by (cases sz) (simp_all add: ecc_bit_cnt_def syn0_def syn1_def syn2_def bit_count_pairs)

lemma syn_nonzero: "syn0 n OR x \<noteq> 0"
proof -
  have "bit (syn0 n) 0 \<or> bit (syn0 n) 1" by (simp add: syn0_def bit_pairs)
  then have "bit (syn0 n OR x) 0 \<or> bit (syn0 n OR x) 1" by (auto simp: bit_or_iff)
  then show ?thesis by auto
qed

lemma ecc_bit_addr_syn:
  assumes "b < 8"
  shows "unat (ecc_bit_addr (syn2 sz n b)) = b"
proof -
  have m: "n div 256 mod 2 < 2" by simp
  have "list_all (\<lambda>b. unat (ecc_bit_addr (push_bit 2 (pairs 3 b))) = b \<and>
      list_all (\<lambda>x. unat (ecc_bit_addr (pairs 1 x XOR push_bit 2 (pairs 3 b))) = b) [0..<2]) [0..<8]"
    by code_simp
  then show ?thesis
    using assms m pairs_mod [of 1 "n div 256"] by (auto simp: list_all_iff syn2_def)
qed

lemma bit_drop_mask:
  "bit (drop_bit s (ucast (x :: u8)) AND 2 ^ k :: u32) m \<longleftrightarrow> m = k \<and> m < 32 \<and> bit x (k + s)"
  by (auto simp: bit_and_iff bit_exp_iff bit_drop_bit_eq bit_unsigned_iff add.commute
      dest: bit_imp_le_length)

lemma bit_push_mask:
  "bit (push_bit s (ucast (x :: u8)) AND 2 ^ k :: u32) m
    \<longleftrightarrow> m = k \<and> m < 32 \<and> s \<le> k \<and> bit x (k - s)"
  by (auto simp: bit_and_iff bit_exp_iff bit_push_bit_iff bit_unsigned_iff dest: bit_imp_le_length)

lemma bit_ecc_byte_addr:
  assumes "m < 32"
  shows "bit (ecc_byte_addr sz x0 x1 x2) m \<longleftrightarrow>
    m = 0 \<and> bit x0 1 \<or> m = 1 \<and> bit x0 3 \<or> sz = ECC_512 \<and> m = 8 \<and> bit x2 1 \<or>
    sz \<noteq> ECC_128 \<and> m = 7 \<and> bit x1 7 \<or> m = 2 \<and> bit x0 5 \<or> m = 3 \<and> bit x0 7 \<or>
    m = 4 \<and> bit x1 1 \<or> m = 5 \<and> bit x1 3 \<or> m = 6 \<and> bit x1 5"
proof -
  have d: "bit (drop_bit 1 (ucast x0) AND 0x01 :: u32) m = (m = 0 \<and> bit x0 1)"
    "bit (drop_bit 2 (ucast x0) AND 0x02 :: u32) m = (m = 1 \<and> bit x0 3)"
    "bit (push_bit 7 (ucast x2) AND 0x100 :: u32) m = (m = 8 \<and> bit x2 1)"
    "bit (ucast x1 AND 0x80 :: u32) m = (m = 7 \<and> bit x1 7)"
    "bit (drop_bit 3 (ucast x0) AND 0x04 :: u32) m = (m = 2 \<and> bit x0 5)"
    "bit (drop_bit 4 (ucast x0) AND 0x08 :: u32) m = (m = 3 \<and> bit x0 7)"
    "bit (push_bit 3 (ucast x1) AND 0x10 :: u32) m = (m = 4 \<and> bit x1 1)"
    "bit (push_bit 2 (ucast x1) AND 0x20 :: u32) m = (m = 5 \<and> bit x1 3)"
    "bit (push_bit 1 (ucast x1) AND 0x40 :: u32) m = (m = 6 \<and> bit x1 5)"
    using assms bit_drop_mask [of 1 x0 0 m] bit_drop_mask [of 2 x0 1 m] bit_push_mask [of 7 x2 8 m]
      bit_drop_mask [of 0 x1 7 m] bit_drop_mask [of 3 x0 2 m] bit_drop_mask [of 4 x0 3 m]
      bit_push_mask [of 3 x1 4 m] bit_push_mask [of 2 x1 5 m] bit_push_mask [of 1 x1 6 m]
    by (simp_all add: eval_nat_numeral)
  show ?thesis
    by (cases sz; simp only: ecc_byte_addr_def Let_def bit_or_iff d if_True if_False
        simp_thms ecc_size.distinct disj_assoc)
qed

text \<open>The repaired byte lies inside the block whatever the codes are.\<close>

lemma ecc_byte_addr_bound: "unat (ecc_byte_addr sz x0 x1 x2) < size_of sz"
proof -
  have p: "size_of sz = 2 ^ (case sz of ECC_128 \<Rightarrow> 7 | ECC_256 \<Rightarrow> 8 | ECC_512 \<Rightarrow> 9)"
    by (cases sz) simp_all
  have "take_bit (case sz of ECC_128 \<Rightarrow> 7 | ECC_256 \<Rightarrow> 8 | ECC_512 \<Rightarrow> 9) (ecc_byte_addr sz x0 x1 x2)
      = ecc_byte_addr sz x0 x1 x2"
    by (rule bit_word_eqI) (cases sz; auto simp: bit_take_bit_iff bit_ecc_byte_addr)
  then have "take_bit (case sz of ECC_128 \<Rightarrow> 7 | ECC_256 \<Rightarrow> 8 | ECC_512 \<Rightarrow> 9)
      (unat (ecc_byte_addr sz x0 x1 x2)) = unat (ecc_byte_addr sz x0 x1 x2)"
    by (metis unsigned_take_bit_eq)
  then show ?thesis unfolding p by (metis take_bit_nat_less_exp)
qed

lemma ecc_byte_addr_syn:
  assumes "n < size_of sz"
  shows "unat (ecc_byte_addr sz (syn0 n) (syn1 sz n) (syn2 sz n b)) = n"
proof -
  have hi: "\<not> bit n m" if "size_of sz \<le> 2 ^ m" for m
    using assms that by (simp add: bit_iff_odd)
  have z: "\<not> bit n m" if "sz = ECC_128 \<and> 7 \<le> m \<or> sz \<noteq> ECC_512 \<and> 8 \<le> m \<or> 9 \<le> m" for m
  proof (rule hi)
    have "(2::nat) ^ 7 \<le> 2 ^ m" if "7 \<le> m" using that by (intro power_increasing) simp_all
    moreover have "(2::nat) ^ 8 \<le> 2 ^ m" if "8 \<le> m" using that by (intro power_increasing) simp_all
    moreover have "(2::nat) ^ 9 \<le> 2 ^ m" if "9 \<le> m" using that by (intro power_increasing) simp_all
    ultimately show "size_of sz \<le> 2 ^ m" using that by (cases sz) auto
  qed
  have d: "bit (n div 16) j = bit n (j + 4)" "bit (n div 256) j = bit n (j + 8)" for j
    using bit_div_pow [of n 4 j] bit_div_pow [of n 8 j] by simp_all
  have "ecc_byte_addr sz (syn0 n) (syn1 sz n) (syn2 sz n b) = word_of_nat n"
  proof (rule bit_word_eqI)
    fix m assume m: "m < LENGTH(32)"
    then consider "m = 0" | "m = 1" | "m = 2" | "m = 3" | "m = 4" | "m = 5" | "m = 6" | "m = 7"
      | "m = 8" | "9 \<le> m" by linarith
    then show "bit (ecc_byte_addr sz (syn0 n) (syn1 sz n) (syn2 sz n b)) m = bit (word_of_nat n :: u32) m"
      using m z by cases (auto simp: bit_ecc_byte_addr syn0_def syn1_def syn2_def bit_pairs d
          bit_of_nat_iff bit_xor_iff bit_push_bit_iff)
  qed
  moreover have "n < 2 ^ 32" using assms by (cases sz) simp_all
  ultimately show ?thesis by (simp add: unsigned_of_nat take_bit_nat_eq_self)
qed

section \<open>What the code corrects and what it detects\<close>

text \<open>The verdict depends on the two codes only through their xor.\<close>

lemma ecc_correct_syndrome:
  assumes "ecc_byte0 new = ecc_byte0 old XOR s0" "ecc_byte1 new = ecc_byte1 old XOR s1"
    "ecc_byte2 new = ecc_byte2 old XOR s2"
  shows "ecc_correct data old new sz =
     (if s0 OR s1 OR s2 = 0 then (E_NO_CHK, data)
      else if ecc_bit_cnt sz s0 s1 s2 = error_bit_count sz then
        (E_D1_CHK, flip_at data (unat (ecc_byte_addr sz s0 s1 s2)) (unat (ecc_bit_addr s2)))
      else if ecc_bit_cnt sz s0 s1 s2 = 1 then (E_C1_CHK, data)
      else (E_UN_CHK, data))"
  unfolding ecc_correct_def assms Let_def xor_cancel_mid flip_at_def by simp

text \<open>C21: For every block size, every block, and every bit of it: when the block read back differs from
  the one written in that bit only, \<open>ecc_correct\<close> given the code computed when the block was written and the
  code of the block read back returns \<open>E_D1_CHK\<close> and restores the block.\<close>

theorem ecc_single_bit_corrected:
  assumes "length data = size_of sz" "n < size_of sz" "b < 8"
  shows "ecc_correct (flip_at data n b) (ecc_gen data sz) (ecc_gen (flip_at data n b) sz) sz
    = (E_D1_CHK, data)"
proof -
  have "flip_at (flip_at data n b) n b = data"
    using assms by (simp add: flip_at_def xor.assoc)
  then show ?thesis
    using assms syn_nonzero [of n]
    by (subst ecc_correct_syndrome [OF ecc_byte0_flip [OF assms] ecc_byte1_flip [OF assms]
          ecc_byte2_flip [OF assms]])
       (simp add: ecc_bit_cnt_syn ecc_bit_addr_syn ecc_byte_addr_syn)
qed

theorem ecc_single_bit_corrected_witness:
  "ecc_correct (flip_at (replicate 128 0xA5) 77 3) (ecc_gen (replicate 128 0xA5) ECC_128)
     (ecc_gen (flip_at (replicate 128 0xA5) 77 3) ECC_128) ECC_128 = (E_D1_CHK, replicate 128 0xA5)"
  by (rule ecc_single_bit_corrected) simp_all

text \<open>Equal codes give \<open>E_NO_CHK\<close> and leave the block as it is.\<close>

lemma ecc_no_error: "ecc_correct data old old sz = (E_NO_CHK, data)"
  by (subst ecc_correct_syndrome [of old old 0 0 0]) simp_all

lemma bit_count_parity: "even (unat (bit_count x)) = (\<not> par8 x)"
  by (rule word8_cases_unat [where P = "\<lambda>x :: u8. even (unat (bit_count x)) = (\<not> par8 x)"]) code_simp

lemma even_unat_add: "even (unat (x + y :: u8)) = (even (unat x) = even (unat y))"
  by (simp add: unat_word_ariths dvd_mod_iff)

lemma par8_pairs:
  "par8 (pairs 4 x) = False" "par8 (pairs 3 x) = True" "par8 (push_bit 2 (pairs 3 x)) = True"
proof -
  have m: "x mod 16 < 16" "x mod 8 < 8" by simp_all
  have "list_all (\<lambda>x. par8 (pairs 4 x) = False) [0..<16]"
    "list_all (\<lambda>x. par8 (pairs 3 x) = True \<and> par8 (push_bit 2 (pairs 3 x)) = True) [0..<8]"
    by code_simp+
  then show "par8 (pairs 4 x) = False" "par8 (pairs 3 x) = True" "par8 (push_bit 2 (pairs 3 x)) = True"
    using m pairs_mod [of 4 x] pairs_mod [of 3 x] by (simp_all add: list_all_iff)
qed

lemma odd_xor_even_xor: "odd_xor_even (x XOR y) = odd_xor_even x XOR odd_xor_even y"
  by (rule bit_word_eqI) (auto simp: odd_xor_even_def bit_simps)

lemma odd_xor_even_pairs:
  "odd_xor_even (pairs 4 x) = 0x55"
  "odd_xor_even (pairs 1 y XOR push_bit 2 (pairs 3 b)) = 0x55"
proof -
  have m: "x mod 16 < 16" "b mod 8 < 8" "y mod 2 < 2" by simp_all
  have "list_all (\<lambda>x. odd_xor_even (pairs 4 x) = 0x55) [0..<16]"
    "list_all (\<lambda>b. list_all (\<lambda>y. odd_xor_even (pairs 1 y XOR push_bit 2 (pairs 3 b)) = 0x55) [0..<2]) [0..<8]"
    by code_simp+
  then show "odd_xor_even (pairs 4 x) = 0x55"
    "odd_xor_even (pairs 1 y XOR push_bit 2 (pairs 3 b)) = 0x55"
    using m pairs_mod [of 4 x] pairs_mod [of 1 y] pairs_mod [of 3 b] by (simp_all add: list_all_iff)
qed

lemma ecc_bit_cnt_two_flips:
  assumes "sz \<noteq> ECC_128"
  shows "ecc_bit_cnt sz (syn0 n XOR syn0 n') (syn1 sz n XOR syn1 sz n') (syn2 sz n b XOR syn2 sz n' b')
      \<notin> {error_bit_count sz, 1}"
proof (cases sz)
  case ECC_256
  have "even (unat (ecc_bit_cnt sz (syn0 n XOR syn0 n') (syn1 sz n XOR syn1 sz n')
      (syn2 sz n b XOR syn2 sz n' b')))"
    by (simp add: ECC_256 ecc_bit_cnt_def even_unat_add bit_count_parity par8_xor syn0_def syn1_def
        syn2_def par8_pairs)
  then show ?thesis unfolding ECC_256 by auto
next
  case ECC_512
  have z: "bit_count 0 = 0" by code_simp
  have "odd_xor_even (syn0 n) = 0x55" "odd_xor_even (syn1 ECC_512 n) = 0x55"
    "odd_xor_even (syn2 ECC_512 n b) = 0x55" for n b
    by (simp_all only: syn0_def syn1_def syn2_def odd_xor_even_pairs if_True if_False simp_thms
        ecc_size.distinct)
  with z show ?thesis
    by (simp add: ECC_512 ecc_bit_cnt_def odd_xor_even_xor)
next
  case ECC_128
  with assms show ?thesis by simp
qed

lemma two_flips_nonzero:
  assumes "n < size_of sz" "n' < size_of sz" "b < 8" "b' < 8" "n \<noteq> n' \<or> b \<noteq> b'"
  shows "(syn0 n XOR syn0 n') OR (syn1 sz n XOR syn1 sz n') OR (syn2 sz n b XOR syn2 sz n' b') \<noteq> 0"
proof
  assume z: "(syn0 n XOR syn0 n') OR (syn1 sz n XOR syn1 sz n') OR (syn2 sz n b XOR syn2 sz n' b') = 0"
  have or0: "x OR y = 0 \<longleftrightarrow> x = 0 \<and> y = 0" for x y :: u8
    by (auto simp: bit_eq_iff bit_or_iff)
  have e: "syn0 n = syn0 n'" "syn1 sz n = syn1 sz n'" and s2: "syn2 sz n b = syn2 sz n' b'"
    using z unfolding or0 xor_eq_0_iff_word by blast+
  have "n = n'"
    using ecc_byte_addr_syn [OF assms(1), of b, symmetric] unfolding e s2
    by (rule trans) (rule ecc_byte_addr_syn [OF assms(2)])
  moreover have "b = b'"
    using ecc_bit_addr_syn [OF assms(3), of sz n, symmetric] unfolding s2
    by (rule trans) (rule ecc_bit_addr_syn [OF assms(4)])
  ultimately show False using assms(5) by simp
qed

lemma two_flips_syndrome:
  assumes "length data = size_of sz" "n < size_of sz" "b < 8" "n' < size_of sz" "b' < 8"
  shows "ecc_byte0 (ecc_gen (flip_at (flip_at data n b) n' b') sz)
      = ecc_byte0 (ecc_gen data sz) XOR (syn0 n XOR syn0 n')"
    and "ecc_byte1 (ecc_gen (flip_at (flip_at data n b) n' b') sz)
      = ecc_byte1 (ecc_gen data sz) XOR (syn1 sz n XOR syn1 sz n')"
    and "ecc_byte2 (ecc_gen (flip_at (flip_at data n b) n' b') sz)
      = ecc_byte2 (ecc_gen data sz) XOR (syn2 sz n b XOR syn2 sz n' b')"
  using assms by (simp_all only: length_flip_at ecc_byte0_flip ecc_byte1_flip ecc_byte2_flip xor.assoc)

text \<open>C24: With 256 and 512 byte blocks any two flipped data bits are detected: the verdict is
  \<open>E_UN_CHK\<close> and the block is not touched.\<close>

theorem ecc_double_bit_detected:
  assumes "length data = size_of sz" "sz \<noteq> ECC_128"
    "n < size_of sz" "b < 8" "n' < size_of sz" "b' < 8" "n \<noteq> n' \<or> b \<noteq> b'"
  shows "let bad = flip_at (flip_at data n b) n' b'
    in ecc_correct bad (ecc_gen data sz) (ecc_gen bad sz) sz = (E_UN_CHK, bad)"
  unfolding Let_def
  using two_flips_nonzero [OF assms(3,5,4,6,7)] ecc_bit_cnt_two_flips [OF assms(2), of n n' b b']
  by (subst ecc_correct_syndrome [OF two_flips_syndrome [OF assms(1,3-6)]]) simp

theorem ecc_double_bit_detected_witness:
  "let bad = flip_at (flip_at (replicate 256 0x3C) 1 0) 254 7
   in ecc_correct bad (ecc_gen (replicate 256 0x3C) ECC_256) (ecc_gen bad ECC_256) ECC_256 = (E_UN_CHK, bad)"
  by (rule ecc_double_bit_detected) simp_all

text \<open>The other error model: one of the 24 bits of the stored code is inverted.\<close>

definition flip_code :: "nat \<Rightarrow> ecc_t \<Rightarrow> ecc_t" where
  "flip_code k e =
    (if k < 8 then e\<lparr>ecc_byte0 := ecc_byte0 e XOR 2 ^ k\<rparr>
     else if k < 16 then e\<lparr>ecc_byte1 := ecc_byte1 e XOR 2 ^ (k - 8)\<rparr>
     else e\<lparr>ecc_byte2 := ecc_byte2 e XOR 2 ^ (k - 16)\<rparr>)"

lemma bit_count_single:
  assumes "k < 8"
  shows "bit_count (2 ^ k) = 1" "bit_count (odd_xor_even (2 ^ k)) = 1"
proof -
  have "list_all (\<lambda>k. bit_count (2 ^ k) = 1 \<and> bit_count (odd_xor_even (2 ^ k)) = 1) [0..<8]"
    by code_simp
  with assms show "bit_count (2 ^ k) = 1" "bit_count (odd_xor_even (2 ^ k)) = 1"
    by (simp_all add: list_all_iff)
qed

text \<open>One flipped bit in the stored code, the data being intact, is recognised as \<open>E_C1_CHK\<close> and the
  block is left as it is.\<close>

theorem ecc_code_bit_error:
  assumes "k < 24"
  shows "ecc_correct data (flip_code k code) code sz = (E_C1_CHK, data)"
proof -
  let ?s = "\<lambda>lo. if lo \<le> k \<and> k < lo + 8 then 2 ^ (k - lo) else 0 :: u8"
  have z: "bit_count 0 = 0" "odd_xor_even 0 = 0" by code_simp+
  have s: "ecc_byte0 code = ecc_byte0 (flip_code k code) XOR ?s 0"
    "ecc_byte1 code = ecc_byte1 (flip_code k code) XOR ?s 8"
    "ecc_byte2 code = ecc_byte2 (flip_code k code) XOR ?s 16"
    using assms by (auto simp: flip_code_def)
  have nz: "(2::u8) ^ j \<noteq> 0" if "j < 8" for j using that by simp
  consider "k < 8" | "8 \<le> k" "k < 16" | "16 \<le> k" "k < 24" using assms by linarith
  then have "?s 0 OR ?s 8 OR ?s 16 \<noteq> 0 \<and> ecc_bit_cnt sz (?s 0) (?s 8) (?s 16) = 1"
    by cases (simp_all add: nz z bit_count_single ecc_bit_cnt_def)
  moreover have "error_bit_count sz \<noteq> 1" by (cases sz) simp_all
  ultimately show ?thesis by (subst ecc_correct_syndrome [OF s]) simp
qed

theorem ecc_code_bit_error_witness:
  "ecc_correct (replicate 128 0) (flip_code 13 (ecc_gen (replicate 128 0) ECC_128))
     (ecc_gen (replicate 128 0) ECC_128) ECC_128 = (E_C1_CHK, replicate 128 0)"
  by (rule ecc_code_bit_error) simp

text \<open>The 128 byte code does not detect every two-bit error: for every block, bit 0 of the bytes 1 and 30
  flipped together is taken for a one-bit error, and the correction flips a third bit and reports success.\<close>

theorem ecc_128_miscorrects:
  assumes "length data = 128"
  shows "let bad = flip_at (flip_at data 1 0) 30 0; res = flip_at bad 31 0
    in ecc_correct bad (ecc_gen data ECC_128) (ecc_gen bad ECC_128) ECC_128 = (E_D1_CHK, res)
       \<and> res \<noteq> data \<and> res \<noteq> bad"
proof -
  let ?s0 = "syn0 1 XOR syn0 30" and ?s1 = "syn1 ECC_128 1 XOR syn1 ECC_128 30"
    and ?s2 = "syn2 ECC_128 1 0 XOR syn2 ECC_128 30 0"
  note s = two_flips_syndrome [of data ECC_128 1 0 30 0]
  have n: "?s0 OR ?s1 OR ?s2 \<noteq> 0"
    and c: "ecc_bit_cnt ECC_128 ?s0 ?s1 ?s2 = error_bit_count ECC_128"
    and a: "unat (ecc_byte_addr ECC_128 ?s0 ?s1 ?s2) = 31" and b: "unat (ecc_bit_addr ?s2) = 0"
    by code_simp+
  have "res = flip_at (flip_at (flip_at data 1 0) 30 0) 31 0 \<Longrightarrow> res ! 31 = data ! 31 XOR 1 \<and> res ! 1 = data ! 1 XOR 1" for res
    using assms by (simp add: flip_at_def)
  then have "flip_at (flip_at (flip_at data 1 0) 30 0) 31 0 \<noteq> data"
    by (metis xor_cancel_left xor_self_word zero_neq_one)
  moreover have "flip_at bad 31 0 \<noteq> bad" if "length bad = 128" for bad
  proof
    assume "flip_at bad 31 0 = bad"
    then have "flip_at bad 31 0 ! 31 = bad ! 31" by simp
    then have "bad ! 31 XOR 1 = bad ! 31" using that by (simp add: flip_at_def)
    then show False by (metis xor_cancel_left xor_self_word zero_neq_one)
  qed
  ultimately show ?thesis
    unfolding Let_def using assms n c a b
    by (subst ecc_correct_syndrome [OF s]) simp_all
qed

theorem ecc_128_miscorrects_witness:
  "let bad = flip_at (flip_at (replicate 128 0) 1 0) 30 0; res = flip_at bad 31 0
   in ecc_correct bad (ecc_gen (replicate 128 0) ECC_128) (ecc_gen bad ECC_128) ECC_128 = (E_D1_CHK, res)
      \<and> res \<noteq> replicate 128 0 \<and> res \<noteq> bad"
  by (rule ecc_128_miscorrects) simp

end
