(* ===== verification/Crc32.thy ===== *)
theory Crc32
  imports Prelude
begin

text \<open>
  The CRC-32 of \<open>lib_generic/crc32.c\<close>: the static table, the generator of the table, the loop
  unrolled eight times. The reference is the bit-serial shift register over the reflected
  polynomial; \<open>buf\<close> is the list of the \<open>len\<close> bytes read, \<open>uLong\<close> is 32 bits wide.
\<close>

section \<open>Model\<close>

definition crc_poly_terms :: "nat list" where
  "crc_poly_terms = [0, 1, 2, 4, 5, 7, 8, 10, 11, 12, 16, 22, 23, 26]"

definition crc_poly :: u32 where
  "crc_poly = fold (\<lambda>p poly. poly OR push_bit (31 - p) 1) crc_poly_terms 0"

text \<open>\<open>c = c & 1 ? poly ^ (c >> 1) : c >> 1\<close>\<close>

definition crc_shift :: "u32 \<Rightarrow> u32" where
  "crc_shift c = (if c AND 1 \<noteq> 0 then crc_poly XOR drop_bit 1 c else drop_bit 1 c)"

definition make_crc_table :: "u32 list" where
  "make_crc_table = map (\<lambda>n. (crc_shift ^^ 8) (word_of_nat n)) [0..<256]"

definition crc_table :: "u32 list" where
  "crc_table =
  [0x00000000, 0x77073096, 0xee0e612c, 0x990951ba, 0x076dc419,
   0x706af48f, 0xe963a535, 0x9e6495a3, 0x0edb8832, 0x79dcb8a4,
   0xe0d5e91e, 0x97d2d988, 0x09b64c2b, 0x7eb17cbd, 0xe7b82d07,
   0x90bf1d91, 0x1db71064, 0x6ab020f2, 0xf3b97148, 0x84be41de,
   0x1adad47d, 0x6ddde4eb, 0xf4d4b551, 0x83d385c7, 0x136c9856,
   0x646ba8c0, 0xfd62f97a, 0x8a65c9ec, 0x14015c4f, 0x63066cd9,
   0xfa0f3d63, 0x8d080df5, 0x3b6e20c8, 0x4c69105e, 0xd56041e4,
   0xa2677172, 0x3c03e4d1, 0x4b04d447, 0xd20d85fd, 0xa50ab56b,
   0x35b5a8fa, 0x42b2986c, 0xdbbbc9d6, 0xacbcf940, 0x32d86ce3,
   0x45df5c75, 0xdcd60dcf, 0xabd13d59, 0x26d930ac, 0x51de003a,
   0xc8d75180, 0xbfd06116, 0x21b4f4b5, 0x56b3c423, 0xcfba9599,
   0xb8bda50f, 0x2802b89e, 0x5f058808, 0xc60cd9b2, 0xb10be924,
   0x2f6f7c87, 0x58684c11, 0xc1611dab, 0xb6662d3d, 0x76dc4190,
   0x01db7106, 0x98d220bc, 0xefd5102a, 0x71b18589, 0x06b6b51f,
   0x9fbfe4a5, 0xe8b8d433, 0x7807c9a2, 0x0f00f934, 0x9609a88e,
   0xe10e9818, 0x7f6a0dbb, 0x086d3d2d, 0x91646c97, 0xe6635c01,
   0x6b6b51f4, 0x1c6c6162, 0x856530d8, 0xf262004e, 0x6c0695ed,
   0x1b01a57b, 0x8208f4c1, 0xf50fc457, 0x65b0d9c6, 0x12b7e950,
   0x8bbeb8ea, 0xfcb9887c, 0x62dd1ddf, 0x15da2d49, 0x8cd37cf3,
   0xfbd44c65, 0x4db26158, 0x3ab551ce, 0xa3bc0074, 0xd4bb30e2,
   0x4adfa541, 0x3dd895d7, 0xa4d1c46d, 0xd3d6f4fb, 0x4369e96a,
   0x346ed9fc, 0xad678846, 0xda60b8d0, 0x44042d73, 0x33031de5,
   0xaa0a4c5f, 0xdd0d7cc9, 0x5005713c, 0x270241aa, 0xbe0b1010,
   0xc90c2086, 0x5768b525, 0x206f85b3, 0xb966d409, 0xce61e49f,
   0x5edef90e, 0x29d9c998, 0xb0d09822, 0xc7d7a8b4, 0x59b33d17,
   0x2eb40d81, 0xb7bd5c3b, 0xc0ba6cad, 0xedb88320, 0x9abfb3b6,
   0x03b6e20c, 0x74b1d29a, 0xead54739, 0x9dd277af, 0x04db2615,
   0x73dc1683, 0xe3630b12, 0x94643b84, 0x0d6d6a3e, 0x7a6a5aa8,
   0xe40ecf0b, 0x9309ff9d, 0x0a00ae27, 0x7d079eb1, 0xf00f9344,
   0x8708a3d2, 0x1e01f268, 0x6906c2fe, 0xf762575d, 0x806567cb,
   0x196c3671, 0x6e6b06e7, 0xfed41b76, 0x89d32be0, 0x10da7a5a,
   0x67dd4acc, 0xf9b9df6f, 0x8ebeeff9, 0x17b7be43, 0x60b08ed5,
   0xd6d6a3e8, 0xa1d1937e, 0x38d8c2c4, 0x4fdff252, 0xd1bb67f1,
   0xa6bc5767, 0x3fb506dd, 0x48b2364b, 0xd80d2bda, 0xaf0a1b4c,
   0x36034af6, 0x41047a60, 0xdf60efc3, 0xa867df55, 0x316e8eef,
   0x4669be79, 0xcb61b38c, 0xbc66831a, 0x256fd2a0, 0x5268e236,
   0xcc0c7795, 0xbb0b4703, 0x220216b9, 0x5505262f, 0xc5ba3bbe,
   0xb2bd0b28, 0x2bb45a92, 0x5cb36a04, 0xc2d7ffa7, 0xb5d0cf31,
   0x2cd99e8b, 0x5bdeae1d, 0x9b64c2b0, 0xec63f226, 0x756aa39c,
   0x026d930a, 0x9c0906a9, 0xeb0e363f, 0x72076785, 0x05005713,
   0x95bf4a82, 0xe2b87a14, 0x7bb12bae, 0x0cb61b38, 0x92d28e9b,
   0xe5d5be0d, 0x7cdcefb7, 0x0bdbdf21, 0x86d3d2d4, 0xf1d4e242,
   0x68ddb3f8, 0x1fda836e, 0x81be16cd, 0xf6b9265b, 0x6fb077e1,
   0x18b74777, 0x88085ae6, 0xff0f6a70, 0x66063bca, 0x11010b5c,
   0x8f659eff, 0xf862ae69, 0x616bffd3, 0x166ccf45, 0xa00ae278,
   0xd70dd2ee, 0x4e048354, 0x3903b3c2, 0xa7672661, 0xd06016f7,
   0x4969474d, 0x3e6e77db, 0xaed16a4a, 0xd9d65adc, 0x40df0b66,
   0x37d83bf0, 0xa9bcae53, 0xdebb9ec5, 0x47b2cf7f, 0x30b5ffe9,
   0xbdbdf21c, 0xcabac28a, 0x53b39330, 0x24b4a3a6, 0xbad03605,
   0xcdd70693, 0x54de5729, 0x23d967bf, 0xb3667a2e, 0xc4614ab8,
   0x5d681b02, 0x2a6f2b94, 0xb40bbe37, 0xc30c8ea1, 0x5a05df1b,
   0x2d02ef8d]"

text \<open>\<open>DO1\<close>: the index is \<open>((int)crc ^ (*buf++)) & 0xff\<close>.\<close>

definition DO1 :: "u32 \<Rightarrow> u8 \<Rightarrow> u32" where
  "DO1 crc b = crc_table ! unat ((crc XOR ucast b) AND 0xff) XOR drop_bit 8 crc"

definition DO2 :: "u32 \<Rightarrow> u8 \<Rightarrow> u8 \<Rightarrow> u32" where
  "DO2 crc b0 b1 = DO1 (DO1 crc b0) b1"

definition DO4 :: "u32 \<Rightarrow> u8 \<Rightarrow> u8 \<Rightarrow> u8 \<Rightarrow> u8 \<Rightarrow> u32" where
  "DO4 crc b0 b1 b2 b3 = DO2 (DO2 crc b0 b1) b2 b3"

definition DO8 :: "u32 \<Rightarrow> u8 \<Rightarrow> u8 \<Rightarrow> u8 \<Rightarrow> u8 \<Rightarrow> u8 \<Rightarrow> u8 \<Rightarrow> u8 \<Rightarrow> u8 \<Rightarrow> u32" where
  "DO8 crc b0 b1 b2 b3 b4 b5 b6 b7 = DO4 (DO4 crc b0 b1 b2 b3) b4 b5 b6 b7"

text \<open>\<open>while (len >= 8) { DO8(buf); len -= 8; } if (len) do { DO1(buf); } while (--len);\<close>\<close>

fun crc_tail :: "u32 \<Rightarrow> u8 list \<Rightarrow> u32" where
  "crc_tail crc [] = crc"
| "crc_tail crc (b # buf) = crc_tail (DO1 crc b) buf"

function crc_loop :: "u32 \<Rightarrow> u8 list \<Rightarrow> u32" where
  "crc_loop crc buf =
     (if 8 \<le> length buf
      then crc_loop (DO8 crc (buf ! 0) (buf ! 1) (buf ! 2) (buf ! 3) (buf ! 4) (buf ! 5) (buf ! 6) (buf ! 7))
             (drop 8 buf)
      else crc_tail crc buf)"
  by pat_completeness auto
termination by (relation "measure (\<lambda>(crc, buf). length buf)") auto

declare crc_loop.simps [simp del]

definition crc32 :: "u32 \<Rightarrow> u8 list \<Rightarrow> u32" where
  "crc32 crc buf = crc_loop (crc XOR 0xffffffff) buf XOR 0xffffffff"

definition crc32_no_comp :: "u32 \<Rightarrow> u8 list \<Rightarrow> u32" where
  "crc32_no_comp crc buf = crc_loop crc buf"

section \<open>The table\<close>

lemma crc_poly_value: "crc_poly = 0xedb88320"
  by code_simp


lemma crc_table_cols: "crc_table = xor_table [0x77073096, 0xee0e612c, 0x076dc419, 0x0edb8832,
     0x1db71064, 0x3b6e20c8, 0x76dc4190, 0xedb88320]"
  by (simp add: crc_table_def xor_table_def)

lemma crc_shift_alt: "crc_shift c = (if bit c 0 then crc_poly else 0) XOR drop_bit 1 c"
  by (simp add: crc_shift_def and_one_eq odd_iff_mod_2_eq_one bit_0)

lemma crc_shift_xor: "crc_shift (x XOR y) = crc_shift x XOR crc_shift y"
  by (auto simp: crc_shift_alt bit_xor_iff drop_bit_xor xor_ac)

lemma crc_shifts_xor: "(crc_shift ^^ k) (x XOR y) = (crc_shift ^^ k) x XOR (crc_shift ^^ k) y"
  by (induction k arbitrary: x y) (simp_all add: crc_shift_xor)

lemma crc_shifts_0: "(crc_shift ^^ k) 0 = 0"
  by (induction k) (simp_all add: crc_shift_alt)

lemma crc_shifts_drop:
  "(\<And>i. i < k \<Longrightarrow> \<not> bit x i) \<Longrightarrow> (crc_shift ^^ k) x = drop_bit k x"
  by (induction k) (simp_all add: crc_shift_alt bit_drop_bit_eq drop_bit_drop_bit)

lemma crc_shifts_push: "k < 32 \<Longrightarrow> (crc_shift ^^ k) (push_bit k (of_bool b)) = of_bool b"
  by (subst crc_shifts_drop) (auto simp: bit_push_bit_iff intro!: bit_word_eqI simp: bit_simps)

lemma crc_shift8:
  "(crc_shift ^^ 8) x = crc_shift (crc_shift (crc_shift (crc_shift
     (crc_shift (crc_shift (crc_shift (crc_shift x)))))))"
  by (simp add: eval_nat_numeral)

lemma crc_table_shift: "crc_table ! unat (x :: u8) = (crc_shift ^^ 8) (ucast x)"
proof -
  have c: "map (\<lambda>i. (crc_shift ^^ 8) (ucast (2 ^ i :: u8))) [0..<8] = [0x77073096, 0xee0e612c, 0x076dc419, 0x0edb8832,
     0x1db71064, 0x3b6e20c8, 0x76dc4190, 0xedb88320]"
    by (simp add: upt_rec crc_shift8 crc_shift_def crc_poly_value)
  show ?thesis
    unfolding crc_table_cols c [symmetric]
    by (rule additive_xor_table) (simp_all add: crc_shifts_0 unsigned_xor_eq crc_shifts_xor)
qed

text \<open>One table step is eight steps of the shift register.\<close>

lemma DO1_shift: "DO1 crc b = (crc_shift ^^ 8) (crc XOR ucast b)"
proof -
  let ?y = "crc XOR ucast b"
  let ?lo = "ucast (ucast ?y :: u8) :: u32"
  have idx: "unat (?y AND 0xff) = unat (ucast ?y :: u8)"
    by (simp add: unsigned_ucast_eq take_bit_eq_mask mask_eq_exp_minus_1 unsigned_and_eq)
  have split: "?y = ?lo XOR push_bit 8 (drop_bit 8 crc)"
    by (rule bit_word_eqI) (auto simp: bit_simps dest: bit_imp_le_length)
  have hi: "(crc_shift ^^ 8) (push_bit 8 (drop_bit 8 crc)) = drop_bit 8 crc"
    using bit_imp_le_length [of crc "8 + n" for n]
    by (subst crc_shifts_drop) (force simp: bit_simps intro!: bit_word_eqI)+
  have "(crc_shift ^^ 8) ?y = (crc_shift ^^ 8) ?lo XOR drop_bit 8 crc"
    by (subst split) (simp only: crc_shifts_xor hi)
  then show ?thesis
    by (simp only: DO1_def idx crc_table_shift)
qed

section \<open>The loops\<close>

lemma crc_tail_append: "crc_tail c (xs @ ys) = crc_tail (crc_tail c xs) ys"
  by (induction xs arbitrary: c) simp_all

lemma list8:
  assumes "8 \<le> length xs"
  shows "xs = [xs ! 0, xs ! 1, xs ! 2, xs ! 3, xs ! 4, xs ! 5, xs ! 6, xs ! 7] @ drop 8 xs"
proof -
  have "take 8 xs = map ((!) xs) [0..<8]"
    using assms by (intro nth_equalityI) simp_all
  also have "\<dots> = [xs ! 0, xs ! 1, xs ! 2, xs ! 3, xs ! 4, xs ! 5, xs ! 6, xs ! 7]"
    by (simp add: upt_rec numeral_eq_Suc)
  finally show ?thesis by (metis append_take_drop_id)
qed

lemma crc_loop_tail: "crc_loop c buf = crc_tail c buf"
proof (induction c buf rule: crc_loop.induct)
  case (1 c buf)
  show ?case
  proof (cases "8 \<le> length buf")
    case True
    have "crc_tail c buf = crc_tail c ([buf ! 0, buf ! 1, buf ! 2, buf ! 3, buf ! 4, buf ! 5,
        buf ! 6, buf ! 7] @ drop 8 buf)"
      using list8 [OF True] by simp
    with True 1 show ?thesis
      by (subst crc_loop.simps) (simp add: DO8_def DO4_def DO2_def)
  qed (simp add: crc_loop.simps)
qed

lemma crc32_Nil [simp]: "crc32 c [] = c"
  by (simp add: crc32_def crc_loop_tail)

lemma crc32_append: "crc32 (crc32 c xs) ys = crc32 c (xs @ ys)"
  by (simp add: crc32_def crc_loop_tail crc_tail_append)

interpretation crc: digest_stream c crc32 "\<lambda>c. c" "crc32 c" "\<lambda>xs s. s = crc32 c xs" "\<lambda>_. True" for c
  by unfold_locales (simp_all add: crc32_append)

text \<open>A buffer may be summed in any pieces, as the callers do with non-contiguous data.\<close>

lemma crc32_chunks: "fold (\<lambda>xs c. crc32 c xs) cs c = crc32 c (concat cs)"
  using crc.streamed [of cs c] by simp

section \<open>The bit-serial reference\<close>

text \<open>The shift register consumes the message bit by bit, each byte from its least significant bit.\<close>

primrec crc_serial :: "u32 \<Rightarrow> bool list \<Rightarrow> u32" where
  "crc_serial c [] = c"
| "crc_serial c (b # bs) = crc_serial (crc_shift (c XOR of_bool b)) bs"

definition byte_bits :: "u8 \<Rightarrow> bool list" where
  "byte_bits b = map (bit b) [0..<8]"

definition message_bits :: "u8 list \<Rightarrow> bool list" where
  "message_bits buf = concat (map byte_bits buf)"

lemma crc_serial_append: "crc_serial c (xs @ ys) = crc_serial (crc_serial c xs) ys"
  by (induction xs arbitrary: c) simp_all

lemma crc_serial_word:
  "k \<le> 32 \<Longrightarrow> crc_serial c (map (bit w) [0..<k]) = (crc_shift ^^ k) (c XOR take_bit k (w :: u32))"
proof (induction k)
  case 0
  then show ?case by simp
next
  case (Suc k)
  have "take_bit (Suc k) w = take_bit k w XOR push_bit k (of_bool (bit w k))"
    by (rule bit_word_eqI) (auto simp: bit_simps less_Suc_eq)
  moreover have "(crc_shift ^^ k) (push_bit k (of_bool (bit w k))) = of_bool (bit w k)"
    using Suc.prems by (intro crc_shifts_push) simp
  ultimately show ?case
    using Suc by (simp add: crc_serial_append crc_shifts_xor crc_shift_xor xor_ac)
qed

lemma crc_serial_byte: "crc_serial c (byte_bits b) = DO1 c b"
proof -
  have "byte_bits b = map (bit (ucast b :: u32)) [0..<8]"
    by (simp add: byte_bits_def bit_unsigned_iff)
  moreover have "take_bit 8 (ucast b :: u32) = ucast b"
    by (rule bit_word_eqI) (auto simp: bit_simps dest: bit_imp_le_length)
  ultimately show ?thesis by (simp add: crc_serial_word DO1_shift)
qed

lemma crc_tail_serial: "crc_tail c buf = crc_serial c (message_bits buf)"
  by (induction buf arbitrary: c) (simp_all add: message_bits_def crc_serial_append crc_serial_byte)

lemma crc32_serial:
  "crc32 c buf = NOT (crc_serial (NOT c) (message_bits buf))"
proof -
  have "(0xffffffff :: u32) = - 1" by simp
  then have "x XOR 0xffffffff = NOT x" for x :: u32
    by (simp only:) (rule bit_word_eqI, simp add: bit_simps)
  then show ?thesis by (simp add: crc32_def crc_loop_tail crc_tail_serial)
qed

text \<open>C27: The unrolled, table-driven \<open>crc32\<close> computes the CRC of the shift register that
  consumes the buffer bit by bit over the polynomial of \<open>make_crc_table\<close>, complemented before and after.\<close>

theorem crc32_bit_serial:
  "crc32 c buf = NOT (crc_serial (NOT c) (message_bits buf))"
  by (rule crc32_serial)

section \<open>Error detection\<close>

lemma crc_shift_inj: "crc_shift x = crc_shift y \<Longrightarrow> x = y"
proof -
  assume e: "crc_shift x = crc_shift y"
  have top: "bit (crc_shift z) 31 = bit z 0" for z
    using bit_imp_le_length [of z 32] by (auto simp: crc_shift_alt crc_poly_value bit_xor_iff bit_drop_bit_eq)
  from e top have b0: "bit x 0 = bit y 0" by metis
  have d: "drop_bit 1 x = drop_bit 1 y"
    using e unfolding crc_shift_alt b0
    by (metis xor_cancel_left)
  show "x = y"
  proof (rule bit_word_eqI)
    fix n show "bit x n = bit y n"
      using b0 d by (cases n) (simp, metis bit_drop_bit_eq comp_apply plus_1_eq_Suc)
  qed
qed

lemma crc_shifts_inj: "(crc_shift ^^ k) x = (crc_shift ^^ k) y \<Longrightarrow> x = y"
  by (induction k) (auto dest: crc_shift_inj)

lemma crc_serial_inj: "crc_serial c bs = crc_serial d bs \<Longrightarrow> c = d"
proof (induction bs arbitrary: c d)
  case (Cons b bs)
  have "crc_shift (c XOR of_bool b) = crc_shift (d XOR of_bool b)"
    by (rule Cons.IH) (use Cons.prems in \<open>simp only: crc_serial.simps\<close>)
  then have "c XOR of_bool b = d XOR of_bool b" by (rule crc_shift_inj)
  then show ?case by (metis xor_cancel_right)
qed simp

lemma crc_serial_window:
  assumes "length x = length y" "length x \<le> 32" "crc_serial c x = crc_serial c y"
  shows "x = y"
proof -
  let ?w = "\<lambda>bs. horner_sum of_bool 2 bs :: u32"
  have m: "bs = map (bit (?w bs)) [0..<length bs]" if "length bs \<le> 32" for bs
    using that by (intro nth_equalityI) (simp_all add: bit_horner_sum_bit_word_iff)
  have t: "take_bit (length bs) (?w bs) = ?w bs" if "length bs \<le> 32" for bs
    by (rule bit_word_eqI) (auto simp: bit_take_bit_iff bit_horner_sum_bit_word_iff)
  have "c XOR ?w x = c XOR ?w y"
    using assms m [of x] m [of y] t [of x] t [of y] crc_serial_word [of "length x" c "?w x"]
      crc_serial_word [of "length y" c "?w y"] by (metis crc_shifts_inj)
  then have "?w x = ?w y" by (metis xor_cancel_left)
  with m [of x] m [of y] assms show ?thesis by metis
qed

lemma crc32_window:
  assumes "message_bits sent = p @ x @ s" "message_bits received = p @ y @ s"
    "length x = length y" "length x \<le> 32" "x \<noteq> y"
  shows "crc32 c received \<noteq> crc32 c sent"
proof
  assume "crc32 c received = crc32 c sent"
  then have "crc_serial (crc_serial (crc_serial (NOT c) p) y) s
      = crc_serial (crc_serial (crc_serial (NOT c) p) x) s"
    unfolding crc32_serial assms(1,2) crc_serial_append by simp
  then have "crc_serial (crc_serial (NOT c) p) x = crc_serial (crc_serial (NOT c) p) y"
    by (metis crc_serial_inj)
  with crc_serial_window [OF assms(3,4)] assms(5) show False by simp
qed

text \<open>In particular a change of one byte.\<close>

lemma byte_bits_inj: "byte_bits a = byte_bits b \<longleftrightarrow> a = b"
  unfolding byte_bits_def by (auto simp: list_eq_iff_nth_eq intro!: bit_word_eqI)

lemma crc32_byte_changed:
  assumes "i < length xs" "xs ! i \<noteq> b"
  shows "crc32 c (xs[i := b]) \<noteq> crc32 c xs"
proof (rule crc32_window)
  show "message_bits xs = message_bits (take i xs) @ byte_bits (xs ! i) @ message_bits (drop (Suc i) xs)"
    using assms(1) by (subst id_take_nth_drop [OF assms(1)]) (simp add: message_bits_def)
  show "message_bits (xs[i := b]) = message_bits (take i xs) @ byte_bits b @ message_bits (drop (Suc i) xs)"
    by (simp add: message_bits_def upd_conv_take_nth_drop [OF assms(1)])
  show "byte_bits (xs ! i) \<noteq> byte_bits b" using assms(2) by (simp add: byte_bits_inj)
qed (simp_all add: byte_bits_def)

text \<open>C31: Any change of a buffer that is confined to 32 consecutive bits changes its CRC, whatever
  the buffer, its length and the starting value.\<close>

theorem crc32_burst_detected:
  assumes "message_bits sent = p @ x @ s" "message_bits received = p @ y @ s"
    "length x = length y" "length x \<le> 32" "x \<noteq> y"
  shows "crc32 c received \<noteq> crc32 c sent"
  using assms by (rule crc32_window)

theorem crc32_burst_detected_witness: "crc32 0 [0x12, 0xFF, 0x34] \<noteq> crc32 0 [0x12, 0x00, 0x34]"
  by (rule crc32_burst_detected [where p = "byte_bits 0x12" and x = "byte_bits 0x00"
        and y = "byte_bits 0xFF" and s = "byte_bits 0x34"])
     (simp_all add: message_bits_def byte_bits_def upt_rec)

text \<open>The 256 constants of the static table are the ones \<open>make_crc_table\<close> computes.\<close>

theorem crc_table_generated: "make_crc_table = crc_table"
proof (rule nth_equalityI)
  show "length make_crc_table = length crc_table"
    by (simp add: make_crc_table_def crc_table_cols)
  fix n assume "n < length make_crc_table"
  then have "n < 256" by (simp add: make_crc_table_def)
  moreover from this have "unat (word_of_nat n :: u8) = n" "(ucast (word_of_nat n :: u8) :: u32) = word_of_nat n"
    by (simp_all add: unsigned_of_nat take_bit_nat_eq_self)
  ultimately show "make_crc_table ! n = crc_table ! n"
    using crc_table_shift [of "word_of_nat n"] by (simp add: make_crc_table_def)
qed

end
