(* ===== verification/Sha1.thy ===== *)
theory Sha1
  imports Prelude
begin

text \<open>
  The SHA-1 of \<open>board/st/pdk7105/swUpdate.c\<close>, which authenticates every update image: the context,
  \<open>sha1_starts\<close>, \<open>sha1_process\<close> with its circular 16-word schedule and the macros \<open>S\<close>, \<open>R\<close>,
  \<open>F\<close>, \<open>P\<close>, \<open>sha1_update\<close> with its block buffer, \<open>sha1_finish\<close>, \<open>soft_sha_1\<close>. The reference is the
  digest of FIPS 180: padding, the 80-word schedule, 80 rounds.
\<close>

section \<open>Model\<close>

text \<open>\<open>GET_ULONG_BE\<close> and \<open>PUT_ULONG_BE\<close>; the latter as the list of the four bytes written.\<close>

definition GET_ULONG_BE :: "u8 list \<Rightarrow> nat \<Rightarrow> u32" where
  "GET_ULONG_BE b i = ucast (b ! (i + 3)) OR push_bit 8 (ucast (b ! (i + 2)))
     OR push_bit 16 (ucast (b ! (i + 1))) OR push_bit 24 (ucast (b ! (i + 0)))"

definition PUT_ULONG_BE :: "u32 \<Rightarrow> u8 list" where
  "PUT_ULONG_BE n = [ucast (drop_bit 24 n), ucast (drop_bit 16 n), ucast (drop_bit 8 n), ucast n]"

record sha1_context =
  total0 :: u32
  total1 :: u32
  sha_state :: "u32 list"
  sha_buffer :: "u8 list"

text \<open>\<open>sha1_starts\<close> sets the counters and the chaining value and leaves the buffer alone.\<close>

definition sha1_starts :: "sha1_context \<Rightarrow> sha1_context" where
  "sha1_starts ctx = ctx\<lparr>total0 := 0, total1 := 0,
     sha_state := [0x67452301, 0xEFCDAB89, 0x98BADCFE, 0x10325476, 0xC3D2E1F0]\<rparr>"

text \<open>\<open>S(x,n)\<close>\<close>

definition sha1_S :: "u32 \<Rightarrow> nat \<Rightarrow> u32" where
  "sha1_S x n = push_bit n x OR drop_bit (32 - n) (x AND 0xFFFFFFFF)"

text \<open>\<open>R(t)\<close> computes the next schedule word in place of the one sixteen steps older.\<close>

definition sha1_R :: "nat \<Rightarrow> u32 list \<Rightarrow> u32 list" where
  "sha1_R t W =
     (let temp = W ! ((t - 3) mod 16) XOR W ! ((t - 8) mod 16)
                 XOR W ! ((t - 14) mod 16) XOR W ! (t mod 16)
      in W[t mod 16 := sha1_S temp 1])"

text \<open>The schedule before step \<open>t\<close> reads \<open>W[t & 0x0F]\<close>: the first 16 words are used as they are.\<close>

definition next_W :: "nat \<Rightarrow> u32 list \<Rightarrow> u32 list" where
  "next_W t W = (if t < 16 then W else sha1_R t W)"

text \<open>The macro \<open>F\<close> and the constant \<open>K\<close> of the four groups of twenty steps.\<close>

definition sha1_F :: "nat \<Rightarrow> u32 \<Rightarrow> u32 \<Rightarrow> u32 \<Rightarrow> u32" where
  "sha1_F t x y z =
     (if t < 20 then z XOR (x AND (y XOR z))
      else if t < 40 then x XOR y XOR z
      else if t < 60 then (x AND y) OR (z AND (x OR y))
      else x XOR y XOR z)"

definition sha1_K :: "nat \<Rightarrow> u32" where
  "sha1_K t = (if t < 20 then 0x5A827999 else if t < 40 then 0x6ED9EBA1
          else if t < 60 then 0x8F1BBCDC else 0xCA62C1D6)"

text \<open>\<open>P(a,b,c,d,e,x)\<close>: the new values of the variables passed as \<open>e\<close> and \<open>b\<close>.\<close>

definition sha1_P :: "nat \<Rightarrow> u32 \<Rightarrow> u32 \<Rightarrow> u32 \<Rightarrow> u32 \<Rightarrow> u32 \<Rightarrow> u32 \<Rightarrow> u32 \<times> u32" where
  "sha1_P t a b c d e x = (e + (sha1_S a 5 + sha1_F t b c d + sha1_K t + x), sha1_S b 30)"

type_synonym sha_regs = "u32 \<times> u32 \<times> u32 \<times> u32 \<times> u32"

text \<open>
  Five consecutive steps \<open>P(A,B,C,D,E,..) P(E,A,B,C,D,..) \<dots> P(B,C,D,E,A,..)\<close>, as the source
  writes them sixteen times.
\<close>

definition sha1_P5 :: "nat \<Rightarrow> sha_regs \<times> u32 list \<Rightarrow> sha_regs \<times> u32 list" where
  "sha1_P5 t s = (case s of ((A, B, C, D, E), W) \<Rightarrow>
     let W = next_W t W;
         (E, B) = sha1_P t A B C D E (W ! (t mod 16));
         W = next_W (t + 1) W;
         (D, A) = sha1_P (t + 1) E A B C D (W ! ((t + 1) mod 16));
         W = next_W (t + 2) W;
         (C, E) = sha1_P (t + 2) D E A B C (W ! ((t + 2) mod 16));
         W = next_W (t + 3) W;
         (B, D) = sha1_P (t + 3) C D E A B (W ! ((t + 3) mod 16));
         W = next_W (t + 4) W;
         (A, C) = sha1_P (t + 4) B C D E A (W ! ((t + 4) mod 16))
     in ((A, B, C, D, E), W))"

definition sha1_process :: "u32 list \<Rightarrow> u8 list \<Rightarrow> u32 list" where
  "sha1_process st data =
     (let W = map (\<lambda>i. GET_ULONG_BE data (4 * i)) [0..<16];
          ((A, B, C, D, E), W) =
            fold sha1_P5 [0, 5, 10, 15, 20, 25, 30, 35, 40, 45, 50, 55, 60, 65, 70, 75]
              ((st ! 0, st ! 1, st ! 2, st ! 3, st ! 4), W)
      in [st ! 0 + A, st ! 1 + B, st ! 2 + C, st ! 3 + D, st ! 4 + E])"

text \<open>\<open>while( ilen >= 64 )\<close>: the chaining value and the input that is left.\<close>

function sha1_blocks :: "u32 list \<Rightarrow> u8 list \<Rightarrow> u32 list \<times> u8 list" where
  "sha1_blocks st input =
     (if 64 \<le> length input then sha1_blocks (sha1_process st (take 64 input)) (drop 64 input)
      else (st, input))"
  by pat_completeness auto
termination by (relation "measure (\<lambda>(st, input). length input)") auto

declare sha1_blocks.simps [simp del]

definition sha1_update :: "sha1_context \<Rightarrow> u8 list \<Rightarrow> sha1_context" where
  "sha1_update ctx input =
     (let ilen = word_of_nat (length input) :: u32 in
      if ilen \<le> 0 then ctx
      else
        let left = unat (total0 ctx AND 0x3F);
            fill = 64 - left;
            t0 = total0 ctx + ilen;
            t1 = (if t0 < ilen then total1 ctx + 1 else total1 ctx);
            ctx = ctx\<lparr>total0 := t0, total1 := t1\<rparr>;
            (ctx, input, left) =
              (if left \<noteq> 0 \<and> fill \<le> length input
               then (let b = blit (sha_buffer ctx) left (take fill input)
                     in (ctx\<lparr>sha_buffer := b, sha_state := sha1_process (sha_state ctx) b\<rparr>,
                         drop fill input, 0))
               else (ctx, input, left));
            (st, input) = sha1_blocks (sha_state ctx) input;
            ctx = ctx\<lparr>sha_state := st\<rparr>
        in if input \<noteq> [] then ctx\<lparr>sha_buffer := blit (sha_buffer ctx) left input\<rparr> else ctx)"

definition sha_padding :: "u8 list" where
  "sha_padding = 0x80 # replicate 63 0"

text \<open>\<open>sha1_finish\<close>: the digest it writes to \<open>output\<close>.\<close>

definition sha1_finish :: "sha1_context \<Rightarrow> u8 list" where
  "sha1_finish ctx =
     (let high = drop_bit 29 (total0 ctx) OR push_bit 3 (total1 ctx);
          low = push_bit 3 (total0 ctx);
          msglen = PUT_ULONG_BE high @ PUT_ULONG_BE low;
          last = unat (total0 ctx AND 0x3F);
          padn = (if last < 56 then 56 - last else 120 - last);
          ctx = sha1_update ctx (take padn sha_padding);
          ctx = sha1_update ctx msglen
      in concat (map PUT_ULONG_BE (sha_state ctx)))"

text \<open>
  \<open>sha1\<close> works on a context on the stack, whose initial contents \<open>ctx\<close> are arbitrary;
  \<open>soft_sha_1\<close> returns the digest and the constant status.
\<close>

definition sha1 :: "sha1_context \<Rightarrow> u8 list \<Rightarrow> u8 list" where
  "sha1 ctx input = sha1_finish (sha1_update (sha1_starts ctx) input)"

definition soft_sha_1 :: "sha1_context \<Rightarrow> u8 list \<Rightarrow> u32 \<times> u8 list" where
  "soft_sha_1 ctx i_pdata = (0, sha1 ctx i_pdata)"

section \<open>Reference: FIPS 180\<close>

definition rotl :: "nat \<Rightarrow> u32 \<Rightarrow> u32" where
  "rotl n x = word_rotl n x"

fun sched :: "u32 list \<Rightarrow> nat \<Rightarrow> u32" where
  "sched M t = (if t < 16 then M ! t
     else rotl 1 (sched M (t - 3) XOR sched M (t - 8) XOR sched M (t - 14) XOR sched M (t - 16)))"

declare sched.simps [simp del]

definition Ch :: "u32 \<Rightarrow> u32 \<Rightarrow> u32 \<Rightarrow> u32" where
  "Ch x y z = (x AND y) XOR (NOT x AND z)"

definition Parity :: "u32 \<Rightarrow> u32 \<Rightarrow> u32 \<Rightarrow> u32" where
  "Parity x y z = x XOR y XOR z"

definition Maj :: "u32 \<Rightarrow> u32 \<Rightarrow> u32 \<Rightarrow> u32" where
  "Maj x y z = (x AND y) XOR (x AND z) XOR (y AND z)"

definition f_fips :: "nat \<Rightarrow> u32 \<Rightarrow> u32 \<Rightarrow> u32 \<Rightarrow> u32" where
  "f_fips t = (if t \<le> 19 then Ch else if t \<le> 39 then Parity else if t \<le> 59 then Maj else Parity)"

definition K_fips :: "nat \<Rightarrow> u32" where
  "K_fips t = [0x5A827999, 0x6ED9EBA1, 0x8F1BBCDC, 0xCA62C1D6] ! (t div 20)"

fun round_fips :: "u32 list \<Rightarrow> nat \<Rightarrow> sha_regs \<Rightarrow> sha_regs" where
  "round_fips M t (a, b, c, d, e) =
     (rotl 5 a + f_fips t b c d + e + K_fips t + sched M t, a, rotl 30 b, c, d)"

definition be_words :: "u8 list \<Rightarrow> u32 list" where
  "be_words block = map (\<lambda>i. GET_ULONG_BE block (4 * i)) [0..<16]"

fun compress_fips :: "u32 list \<Rightarrow> u8 list \<Rightarrow> u32 list" where
  "compress_fips [h0, h1, h2, h3, h4] block =
     (case fold (round_fips (be_words block)) [0..<80] (h0, h1, h2, h3, h4) of
        (a, b, c, d, e) \<Rightarrow> [h0 + a, h1 + b, h2 + c, h3 + d, h4 + e])"
| "compress_fips h block = h"

text \<open>The message is followed by a one bit, the fewest zeros, and its length in bits as 64 bits.\<close>

definition pad_fips :: "u8 list \<Rightarrow> u8 list" where
  "pad_fips m = m @ [0x80] @ replicate (nat ((55 - int (length m)) mod 64)) 0
     @ rev (map (\<lambda>i. ucast (drop_bit (8 * i) (8 * word_of_nat (length m) :: u64))) [0..<8])"

function blocks_fips :: "u32 list \<Rightarrow> u8 list \<Rightarrow> u32 list" where
  "blocks_fips h m = (if 64 \<le> length m then blocks_fips (compress_fips h (take 64 m)) (drop 64 m) else h)"
  by pat_completeness auto
termination by (relation "measure (\<lambda>(h, m). length m)") auto

declare blocks_fips.simps [simp del]

definition H0 :: "u32 list" where
  "H0 = [0x67452301, 0xEFCDAB89, 0x98BADCFE, 0x10325476, 0xC3D2E1F0]"

definition sha1_fips :: "u8 list \<Rightarrow> u8 list" where
  "sha1_fips m = concat (map PUT_ULONG_BE (blocks_fips H0 (pad_fips m)))"

section \<open>The compression function\<close>

lemma mask32: "(0xFFFFFFFF :: u32) = -1" by simp

lemma S_rotl: "0 < n \<Longrightarrow> n < 32 \<Longrightarrow> sha1_S x n = rotl n x"
  unfolding sha1_S_def rotl_def mask32
  by (rule bit_word_eqI) (auto simp: bit_simps mod_if add.commute [of 32] dest: bit_imp_le_length)

lemma F_fips: "sha1_F t x y z = f_fips t x y z"
  by (rule bit_word_eqI) (auto simp: sha1_F_def f_fips_def Ch_def Parity_def Maj_def bit_simps)

lemma K_K_fips: 
  assumes "t < 80" shows "sha1_K t = K_fips t"
proof -
  consider "t < 20" "t div 20 = 0" | "20 \<le> t" "t < 40" "t div 20 = 1" | "40 \<le> t" "t < 60" "t div 20 = 2"
    | "60 \<le> t" "t div 20 = 3" using assms by linarith
  then show ?thesis by cases (simp_all add: sha1_K_def K_fips_def)
qed

text \<open>The circular buffer holds the sixteen latest schedule words.\<close>

definition W_ok :: "u32 list \<Rightarrow> nat \<Rightarrow> u32 list \<Rightarrow> bool" where
  "W_ok M t W \<longleftrightarrow> length W = 16 \<and>
     (\<forall>i. i < max t 16 \<and> max t 16 \<le> i + 16 \<longrightarrow> W ! (i mod 16) = sched M i)"

lemma W_ok_init: "length M = 16 \<Longrightarrow> W_ok M 0 M"
  by (simp add: W_ok_def sched.simps)

lemma length_sha1_R [simp]: "length (sha1_R t W) = length W"
  by (simp add: sha1_R_def Let_def)

lemma W_ok_next:
  assumes "W_ok M t W"
  shows "W_ok M (Suc t) (next_W t W)" and "next_W t W ! (t mod 16) = sched M t"
proof -
  have len: "length W = 16" and W: "\<And>i. i < max t 16 \<Longrightarrow> max t 16 \<le> i + 16 \<Longrightarrow> W ! (i mod 16) = sched M i"
    using assms by (simp_all add: W_ok_def)
  show 2: "next_W t W ! (t mod 16) = sched M t"
  proof (cases "t < 16")
    case True
    then show ?thesis using W [of t] by (simp add: next_W_def)
  next
    case False
    then have "t mod 16 = (t - 16) mod 16" by (simp add: mod_if)
    with False W [of "t - 3"] W [of "t - 8"] W [of "t - 14"] W [of "t - 16"] len show ?thesis
      by (subst sched.simps) (simp add: next_W_def sha1_R_def S_rotl)
  qed
  show "W_ok M (Suc t) (next_W t W)"
  proof (cases "t < 16")
    case True
    then show ?thesis using assms by (simp add: W_ok_def next_W_def max_def)
  next
    case False
    have "next_W t W ! (i mod 16) = sched M i" if "i < Suc t" "Suc t \<le> i + 16" for i
    proof (cases "i = t")
      case True
      with 2 show ?thesis by simp
    next
      case ne: False
      have "i mod 16 \<noteq> t mod 16"
      proof
        assume "i mod 16 = t mod 16"
        with that have "16 dvd t - i" by (metis less_Suc_eq_le mod_eq_dvd_iff_nat)
        moreover have "0 < t - i" "t - i < 16" using that ne by simp_all
        ultimately show False by (metis nat_dvd_not_less)
      qed
      with False that ne W [of i] show ?thesis
        by (simp add: next_W_def sha1_R_def Let_def)
    qed
    with False len show ?thesis by (simp add: W_ok_def next_W_def)
  qed
qed

lemma P_round:
  assumes "t < 80"
  shows "(case sha1_P t a b c d e (sched M t) of (e', b') \<Rightarrow> (e', a, b', c, d)) = round_fips M t (a, b, c, d, e)"
  using assms by (simp add: sha1_P_def S_rotl F_fips K_K_fips ac_simps)

lemma P5_rounds:
  assumes "W_ok M t W" "t + 4 < 80"
  shows "\<exists>W'. sha1_P5 t (r, W) = (fold (round_fips M) [t..<t + 5] r, W') \<and> W_ok M (t + 5) W'"
proof -
  define W1 where "W1 = next_W t W"
  define W2 where "W2 = next_W (t + 1) W1"
  define W3 where "W3 = next_W (t + 2) W2"
  define W4 where "W4 = next_W (t + 3) W3"
  define W5 where "W5 = next_W (t + 4) W4"
  have n: "Suc t = t + 1" "Suc (t + 1) = t + 2" "Suc (t + 2) = t + 3" "Suc (t + 3) = t + 4" "Suc (t + 4) = t + 5"
    by simp_all
  note o1 = W_ok_next(1) [OF assms(1), folded W1_def, unfolded n]
  note o2 = W_ok_next(1) [OF o1, folded W2_def, unfolded n]
  note o3 = W_ok_next(1) [OF o2, folded W3_def, unfolded n]
  note o4 = W_ok_next(1) [OF o3, folded W4_def, unfolded n]
  note o5 = W_ok_next(1) [OF o4, folded W5_def, unfolded n]
  have w: "W1 ! (t mod 16) = sched M t" "W2 ! ((t + 1) mod 16) = sched M (t + 1)"
    "W3 ! ((t + 2) mod 16) = sched M (t + 2)" "W4 ! ((t + 3) mod 16) = sched M (t + 3)"
    "W5 ! ((t + 4) mod 16) = sched M (t + 4)"
    using W_ok_next(2) [OF assms(1)] W_ok_next(2) [OF o1] W_ok_next(2) [OF o2]
      W_ok_next(2) [OF o3] W_ok_next(2) [OF o4]
    by (simp_all only: W1_def W2_def W3_def W4_def W5_def)
  obtain a b c d e where r: "r = (a, b, c, d, e)" by (cases r)
  have u: "[t..<t + 5] = [t, t + 1, t + 2, t + 3, t + 4]" by (simp add: upt_rec)
  have p: "sha1_P s a b c d e x = (rotl 5 a + f_fips s b c d + e + K_fips s + x, rotl 30 b)"
    if "s < 80" for s a b c d e x
    using that by (simp add: sha1_P_def S_rotl F_fips K_K_fips ac_simps)
  have "sha1_P5 t (r, W) = (fold (round_fips M) [t..<t + 5] r, W5)"
    unfolding u r sha1_P5_def Let_def prod.case W1_def [symmetric] W2_def [symmetric]
      W3_def [symmetric] W4_def [symmetric] W5_def [symmetric] w
    using assms(2) by (simp add: p)
  with o5 show ?thesis by blast
qed

lemma fold_P5:
  assumes "W_ok M 0 W"
  shows "n \<le> 16 \<Longrightarrow> \<exists>W'. fold sha1_P5 (map (\<lambda>k. 5 * k) [0..<n]) (r, W) = (fold (round_fips M) [0..<5 * n] r, W')
    \<and> W_ok M (5 * n) W'"
proof (induction n)
  case 0
  then show ?case using assms by simp
next
  case (Suc n)
  then obtain W' where "fold sha1_P5 (map (\<lambda>k. 5 * k) [0..<n]) (r, W) = (fold (round_fips M) [0..<5 * n] r, W')"
    "W_ok M (5 * n) W'" by auto
  moreover have "[0..<5 * Suc n] = [0..<5 * n] @ [5 * n..<5 * n + 5]"
    by (metis add.commute le_add2 mult_Suc_right plus_nat.add_0 upt_add_eq_append zero_le)
  ultimately show ?case using P5_rounds [of M "5 * n" W' "fold (round_fips M) [0..<5 * n] r"] Suc.prems
    by (simp add: add.commute)
qed

lemma sha1_process_compress:
  assumes "length st = 5"
  shows "sha1_process st block = compress_fips st block"
proof -
  let ?M = "be_words block"
  obtain h0 h1 h2 h3 h4 where st: "st = [h0, h1, h2, h3, h4]"
    using assms by (auto simp: numeral_eq_Suc length_Suc_conv)
  have "length ?M = 16" by (simp add: be_words_def)
  from fold_P5 [OF W_ok_init [OF this], of 16 "(h0, h1, h2, h3, h4)"]
  obtain W' where f: "fold sha1_P5 (map (\<lambda>k. 5 * k) [0..<16]) ((h0, h1, h2, h3, h4), ?M)
      = (fold (round_fips ?M) [0..<80] (h0, h1, h2, h3, h4), W')" by auto
  have u: "[0, 5, 10, 15, 20, 25, 30, 35, 40, 45, 50, 55, 60, 65, 70, 75] = map (\<lambda>k. 5 * k) [0..<16::nat]"
    by (simp add: upt_rec)
  have p: "sha1_process st block = (case fold sha1_P5 (map (\<lambda>k. 5 * k) [0..<16]) ((h0, h1, h2, h3, h4), ?M) of
      ((A, B, C, D, E), W) \<Rightarrow> [h0 + A, h1 + B, h2 + C, h3 + D, h4 + E])"
    unfolding sha1_process_def st Let_def be_words_def [symmetric] u
    by (simp split: prod.split)
  show ?thesis
    unfolding p f by (simp add: st split: prod.split)
qed

text \<open>One call of \<open>sha1_process\<close>, with its unrolled rounds and its circular schedule, is the FIPS 180
  compression of the block.\<close>

lemma sha1_process_fips:
  assumes "length st = 5"
  shows "sha1_process st block = compress_fips st block"
  using assms by (rule sha1_process_compress)

theorem sha1_process_fips_witness: "sha1_process H0 (replicate 64 0) = compress_fips H0 (replicate 64 0)"
  by (rule sha1_process_fips) (simp add: H0_def)

section \<open>Blocks and the buffer\<close>

lemma length_H0 [simp]: "length H0 = 5"
  by (simp add: H0_def)

lemma length_compress_fips [simp]: "length (compress_fips h b) = length h"
  by (cases "(h, b)" rule: compress_fips.cases) (simp_all split: prod.split)

lemma length_blocks_fips [simp]: "length (blocks_fips h m) = length h"
  by (induction h m rule: blocks_fips.induct) (subst blocks_fips.simps, simp)

lemma blocks_fips_short: "length m < 64 \<Longrightarrow> blocks_fips h m = h"
  by (subst blocks_fips.simps) simp

lemma blocks_fips_long:
  "64 \<le> length m \<Longrightarrow> blocks_fips h m = blocks_fips (compress_fips h (take 64 m)) (drop 64 m)"
  by (subst blocks_fips.simps) simp

lemma blocks_fips_append:
  "64 dvd length xs \<Longrightarrow> blocks_fips h (xs @ ys) = blocks_fips (blocks_fips h xs) ys"
proof (induction h xs rule: blocks_fips.induct)
  case (1 h m)
  show ?case
  proof (cases "64 \<le> length m")
    case True
    have "64 dvd length (drop 64 m)" using "1.prems" by simp
    with True 1(1) blocks_fips_long [of "m @ ys" h] blocks_fips_long [of m h] show ?thesis by simp
  next
    case False
    then have "length m < 64" by simp
    with "1.prems" have "m = []" by (metis dvd_imp_le length_0_conv not_gr0 not_le)
    then show ?thesis by (simp add: blocks_fips_short)
  qed
qed

lemma sha1_blocks_fips:
  "length st = 5 \<Longrightarrow> sha1_blocks st m = (blocks_fips st m, drop (length m - length m mod 64) m)"
proof (induction st m rule: sha1_blocks.induct)
  case (1 st m)
  show ?case
  proof (cases "64 \<le> length m")
    case True
    have "sha1_blocks st m = sha1_blocks (compress_fips st (take 64 m)) (drop 64 m)"
      using True 1(2) by (subst sha1_blocks.simps) (simp add: sha1_process_compress)
    also have "\<dots> = (blocks_fips (compress_fips st (take 64 m)) (drop 64 m),
        drop (length m - 64 - (length m - 64) mod 64) (drop 64 m))"
      using 1 True by (simp add: sha1_process_compress)
    finally show ?thesis using True blocks_fips_long [OF True, of st] by (simp add: le_mod_geq)
  next
    case False
    then show ?thesis by (subst sha1_blocks.simps) (simp add: blocks_fips_short)
  qed
qed

text \<open>The full blocks of a message and what follows them.\<close>

definition full :: "'b list \<Rightarrow> 'b list" where
  "full m = take (length m - length m mod 64) m"

definition rest :: "'b list \<Rightarrow> 'b list" where
  "rest m = drop (length m - length m mod 64) m"

lemma full_rest: "full m @ rest m = m" "64 dvd length (full m)" "length (rest m) = length m mod 64"
proof -
  show "full m @ rest m = m" by (simp add: full_def rest_def)
  have "length m - length m mod 64 = 64 * (length m div 64)" by (simp add: minus_mod_eq_mult_div)
  then show "64 dvd length (full m)" by (simp add: full_def)
  show "length (rest m) = length m mod 64" by (simp add: rest_def)
qed

lemma full_rest_eq:
  assumes "64 dvd length xs" "length ys < 64"
  shows "full (xs @ ys) = xs" "rest (xs @ ys) = ys"
proof -
  from assms have "length (xs @ ys) mod 64 = length ys" by (auto simp: dvd_def)
  then show "full (xs @ ys) = xs" "rest (xs @ ys) = ys" by (simp_all add: full_def rest_def)
qed

lemma full_append:
  assumes "64 dvd length xs"
  shows "full (xs @ ys) = xs @ full ys" "rest (xs @ ys) = rest ys"
proof -
  have "64 dvd length (xs @ full ys)" using assms full_rest(2) [of ys] by simp
  moreover have "length (rest ys) < 64" by (simp add: full_rest)
  moreover have "xs @ ys = (xs @ full ys) @ rest ys" by (simp add: full_rest)
  ultimately show "full (xs @ ys) = xs @ full ys" "rest (xs @ ys) = rest ys"
    using full_rest_eq by metis+
qed

text \<open>
  A context represents the message consumed so far: the byte count over both counters, the chaining
  value of its full blocks, and the incomplete block at the start of the buffer.
\<close>

definition sha_rep :: "u8 list \<Rightarrow> sha1_context \<Rightarrow> bool" where
  "sha_rep m ctx \<longleftrightarrow> total0 ctx = word_of_nat (length m)
     \<and> total1 ctx = word_of_nat (length m div 2 ^ 32)
     \<and> sha_state ctx = blocks_fips H0 (full m)
     \<and> length (sha_buffer ctx) = 64 \<and> take (length (rest m)) (sha_buffer ctx) = rest m"

lemma unat_and_63: "unat (word_of_nat n AND 0x3F :: u32) = n mod 64"
proof -
  have "word_of_nat n AND 0x3F = take_bit 6 (word_of_nat n :: u32)"
    by (simp add: take_bit_eq_mask mask_eq_exp_minus_1)
  also have "\<dots> = word_of_nat (n mod 64)"
    by (simp only: take_bit_of_nat) (simp add: take_bit_eq_mod)
  finally show ?thesis by (simp add: unsigned_of_nat take_bit_nat_eq_self)
qed

lemma carry_nat:
  fixes n k N :: nat
  assumes "0 < k" "k < N"
  shows "(n + k) mod N < k \<longleftrightarrow> (n + k) div N = Suc (n div N)"
    and "(n + k) div N = n div N \<or> (n + k) div N = Suc (n div N)"
proof -
  have r: "n mod N < N" using assms by simp
  have d: "(n + k) div N = n div N + (n mod N + k) div N" "(n + k) mod N = (n mod N + k) mod N"
    using assms(2) by (simp_all add: div_add1_eq [of n k] mod_add_left_eq)
  have e: "(n mod N + k) div N = (if n mod N + k < N then 0 else 1)"
  proof (cases "n mod N + k < N")
    case False
    then have "(n mod N + k) div N = 1"
      using add_strict_mono [OF r assms(2)] by (intro div_nat_eqI) simp_all
    with False show ?thesis by simp
  qed simp
  have m: "(n mod N + k) mod N = (if n mod N + k < N then n mod N + k else n mod N + k - N)"
    using add_strict_mono [OF r assms(2)] by (cases "n mod N + k < N") (simp_all add: le_mod_geq)
  show "(n + k) mod N < k \<longleftrightarrow> (n + k) div N = Suc (n div N)"
    and "(n + k) div N = n div N \<or> (n + k) div N = Suc (n div N)"
    unfolding d e m using r assms by (simp_all, arith)
qed

lemma carry:
  assumes "0 < k" "k < 2 ^ 32"
  shows "word_of_nat n + word_of_nat k < (word_of_nat k :: u32)
    \<longleftrightarrow> (n + k) div 2 ^ 32 = Suc (n div 2 ^ 32)"
proof -
  have "word_of_nat n + word_of_nat k < (word_of_nat k :: u32) \<longleftrightarrow> (n + k) mod 2 ^ 32 < k"
    using assms(2)
    by (simp only: word_less_nat_alt of_nat_add [symmetric] unsigned_of_nat take_bit_eq_mod) simp
  then show ?thesis using carry_nat(1) [OF assms] by simp
qed

lemma sha_rep_tail:
  assumes "length (sha_buffer c) = 64" "total0 c = word_of_nat (length m)"
    "total1 c = word_of_nat (length m div 2 ^ 32)" "sha_state c = blocks_fips H0 (full m)" "r = rest m"
    "b = sha_buffer c"
  shows "sha_rep m (let c = c in if r \<noteq> [] then c\<lparr>sha_buffer := blit b 0 r\<rparr> else c)"
proof -
  have "length (rest m) < 64" by (simp add: full_rest)
  with assms show ?thesis by (simp add: sha_rep_def blit_def)
qed

lemma sha_rep_update:
  assumes "sha_rep m ctx" "length ys < 2 ^ 32"
  shows "sha_rep (m @ ys) (sha1_update ctx ys)"
proof (cases "ys = []")
  case True
  with assms show ?thesis by (simp add: sha1_update_def)
next
  case False
  let ?l = "length m mod 64" and ?f = "64 - length m mod 64"
  let ?k = "word_of_nat (length ys) :: u32"
  have t: "total0 ctx = word_of_nat (length m)" "total1 ctx = word_of_nat (length m div 2 ^ 32)"
    and st: "sha_state ctx = blocks_fips H0 (full m)"
    and buf: "length (sha_buffer ctx) = 64" "take ?l (sha_buffer ctx) = rest m"
    using assms(1) by (simp_all add: sha_rep_def full_rest)
  have k: "\<not> ?k \<le> 0"
    using False assms(2) by (simp add: word_le_nat_alt unsigned_of_nat take_bit_nat_eq_self)
  have left: "unat (total0 ctx AND 0x3F) = ?l" by (simp only: t unat_and_63)
  define t1 where "t1 = (if total0 ctx + ?k < ?k then total1 ctx + 1 else total1 ctx)"
  have t1: "t1 = word_of_nat (length (m @ ys) div 2 ^ 32)"
    using carry [of "length ys" "length m"] carry_nat(2) [of "length ys" "2 ^ 32" "length m"] False assms(2)
    by (auto simp: t1_def t)
  have t0: "total0 ctx + ?k = word_of_nat (length (m @ ys))" by (simp add: t)
  have l64: "?l < 64" by simp
  show ?thesis
  proof (cases "?l \<noteq> 0 \<and> ?f \<le> length ys")
    case True
    let ?b = "blit (sha_buffer ctx) ?l (take ?f ys)" and ?ys = "drop ?f ys"
    have b: "length ?b = 64" "?b = rest m @ take ?f ys"
      using True buf by (simp_all add: blit_def full_rest)
    have e: "m @ ys = (full m @ ?b) @ ?ys" using full_rest(1) [of m] b(2) by (metis append.assoc append_take_drop_id)
    have d: "64 dvd length (full m @ ?b)" using full_rest(2) [of m] b(1) by simp
    have fr: "full (m @ ys) = (full m @ ?b) @ full ?ys" "rest (m @ ys) = rest ?ys"
      unfolding e by (rule full_append [OF d])+
    have p: "sha1_process (sha_state ctx) ?b = blocks_fips H0 (full m @ ?b)"
      using b(1) by (subst blocks_fips_append [OF full_rest(2)], subst (2) blocks_fips.simps)
        (simp add: st sha1_process_compress blocks_fips_short)
    have fs: "blocks_fips h ?ys = blocks_fips h (full ?ys)" for h
      using blocks_fips_append [OF full_rest(2) [of ?ys], of h "rest ?ys"] full_rest(1,3) [of ?ys]
      by (simp add: blocks_fips_short)
    have bb: "blocks_fips H0 (full m @ ?b @ full ?ys) = blocks_fips (blocks_fips H0 (full m @ ?b)) (full ?ys)"
      using blocks_fips_append [OF d, of H0 "full ?ys"] by simp
    have u: "sha1_update ctx ys = (let c = ctx\<lparr>total0 := total0 ctx + ?k, total1 := t1,
        sha_buffer := ?b, sha_state := blocks_fips H0 (full (m @ ys))\<rparr> in
        if rest ?ys \<noteq> [] then c\<lparr>sha_buffer := blit ?b 0 (rest ?ys)\<rparr> else c)"
      using True k left p
      by (simp add: sha1_update_def Let_def t1_def sha1_blocks_fips fs fr(1)
          bb flip: rest_def)
    show ?thesis
      unfolding u by (rule sha_rep_tail) (simp_all add: b(1) t0 t1 fr del: length_append)
  next
    case no: False
    show ?thesis
    proof (cases "?l = 0")
      case True
      then have r: "rest m = []" "full m = m" using full_rest [of m] by (simp_all add: full_def)
      have d: "64 dvd length m" using True by presburger
      have fr: "full (m @ ys) = m @ full ys" "rest (m @ ys) = rest ys"
        by (rule full_append [OF d])+
      have fs: "blocks_fips h ys = blocks_fips h (full ys)" for h
        using blocks_fips_append [OF full_rest(2) [of ys], of h "rest ys"] full_rest(1,3) [of ys]
        by (simp add: blocks_fips_short)
      have u: "sha1_update ctx ys = (let c = ctx\<lparr>total0 := total0 ctx + ?k, total1 := t1,
          sha_state := blocks_fips H0 (full (m @ ys))\<rparr> in
          if rest ys \<noteq> [] then c\<lparr>sha_buffer := blit (sha_buffer ctx) 0 (rest ys)\<rparr> else c)"
        using True k left st r
        by (simp add: sha1_update_def Let_def t1_def sha1_blocks_fips fs fr(1)
            blocks_fips_append [OF d] flip: rest_def)
      show ?thesis
        unfolding u by (rule sha_rep_tail) (simp_all add: buf t0 t1 fr)
    next
      case l0: False
      with no have short: "?l + length ys < 64" by simp
      have e: "m @ ys = full m @ (rest m @ ys)" using full_rest(1) [of m] by (metis append.assoc)
      have fr: "full (m @ ys) = full m" "rest (m @ ys) = rest m @ ys"
        using full_rest_eq [OF full_rest(2) [of m], of "rest m @ ys"] short full_rest(3) [of m]
        unfolding e by simp_all
      have u: "sha1_update ctx ys = ctx\<lparr>total0 := total0 ctx + ?k, total1 := t1,
          sha_state := blocks_fips H0 (full (m @ ys)), sha_buffer := blit (sha_buffer ctx) ?l ys\<rparr>"
        using no l0 False k left short
        by (simp add: sha1_update_def Let_def t1_def sha1_blocks_fips fr(1) st blocks_fips_short)
      show ?thesis
        using buf short by (simp add: u sha_rep_def t0 t1 fr st blit_def full_rest)
    qed
  qed
qed

section \<open>The digest\<close>

lemma sha_rep_starts: "length (sha_buffer ctx) = 64 \<Longrightarrow> sha_rep [] (sha1_starts ctx)"
  by (simp add: sha_rep_def sha1_starts_def full_def rest_def H0_def blocks_fips_short)

lemma length_bits:
  "PUT_ULONG_BE (drop_bit 29 (word_of_nat n) OR push_bit 3 (word_of_nat (n div 2 ^ 32)))
     @ PUT_ULONG_BE (push_bit 3 (word_of_nat n))
   = rev (map (\<lambda>i. ucast (drop_bit (8 * i) (8 * word_of_nat n :: u64))) [0..<8])"
proof -
  let ?w = "8 * word_of_nat n :: u64"
  have w: "?w = push_bit 3 (word_of_nat n)" by (simp add: push_bit_eq_mult)
  have bw: "bit ?w k \<longleftrightarrow> k < 64 \<and> 3 \<le> k \<and> bit n (k - 3)" for k
    unfolding w by (auto simp: bit_push_bit_iff bit_of_nat_iff)
  have lo: "push_bit 3 (word_of_nat n :: u32) = ucast ?w"
    by (rule bit_word_eqI) (auto simp: bit_simps bw)
  have hi: "drop_bit 29 (word_of_nat n) OR push_bit 3 (word_of_nat (n div 2 ^ 32)) = (ucast (drop_bit 32 ?w) :: u32)"
  proof (rule bit_word_eqI)
    fix k :: nat assume "k < LENGTH(32)"
    moreover have "bit (n div 2 ^ 32) (k - 3) = bit n (k - 3 + 32)"
      by (metis add.commute bit_drop_bit_eq comp_apply drop_bit_eq_div)
    ultimately show "bit (drop_bit 29 (word_of_nat n) OR push_bit 3 (word_of_nat (n div 2 ^ 32)) :: u32) k
        = bit (ucast (drop_bit 32 ?w) :: u32) k"
      by (cases "3 \<le> k") (auto simp: bit_simps bw bit_or_iff)
  qed
  have b: "PUT_ULONG_BE (ucast (drop_bit 32 x)) @ PUT_ULONG_BE (ucast x)
      = rev (map (\<lambda>i. ucast (drop_bit (8 * i) x)) [0..<8])" for x :: u64
  proof -
    have c: "(ucast (drop_bit j (ucast y :: u32)) :: u8) = ucast (drop_bit j y)"
      if "j \<le> 24" for j and y :: u64
      using that by (intro bit_word_eqI) (auto simp: bit_simps)
    have c0: "(ucast (ucast y :: u32) :: u8) = ucast y" for y :: u64
      using c [of 0 y] by simp
    have u: "[0..<8] = [0, 1, 2, 3, 4, 5, 6, 7::nat]" by (simp add: upt_rec)
    show ?thesis unfolding u by (simp add: PUT_ULONG_BE_def c c0 drop_bit_drop_bit)
  qed
  show ?thesis unfolding lo hi b ..
qed

lemma pad_length_nat:
  fixes n :: nat
  defines "p \<equiv> (if n mod 64 < 56 then 56 - n mod 64 else 120 - n mod 64)"
  shows "nat ((55 - int n) mod 64) = p - 1" "0 < p" "p \<le> 64" "(n + p + 8) mod 64 = 0"
proof -
  have r: "n mod 64 < 64" by simp
  show pos: "0 < p" "p \<le> 64" using r by (auto simp: p_def)
  obtain q r' where q: "n = 64 * q + r'" "n mod 64 = r'" "r' < 64"
    using r by (metis mult_div_mod_eq)
  have "n + p + 8 = 64 * (q + (if r' < 56 then 1 else 2))"
    using q by (simp add: p_def)
  then obtain c where np: "n + p + 8 = 64 * c" ..
  then show "(n + p + 8) mod 64 = 0" by simp
  have "55 - int n = int p - 1 + (1 - int c) * 64"
    using arg_cong [OF np, of int] by simp
  then have "(55 - int n) mod 64 = (int p - 1) mod 64"
    by (simp only: mod_mult_self1)
  then show "nat ((55 - int n) mod 64) = p - 1"
    using pos by simp
qed

lemma sha1_finish_fips:
  assumes "sha_rep m ctx"
  shows "sha1_finish ctx = sha1_fips m"
proof -
  let ?n = "length m"
  let ?p = "if ?n mod 64 < 56 then 56 - ?n mod 64 else 120 - ?n mod 64"
  have t: "total0 ctx = word_of_nat ?n" "total1 ctx = word_of_nat (?n div 2 ^ 32)"
    using assms by (simp_all add: sha_rep_def)
  let ?len = "PUT_ULONG_BE (drop_bit 29 (total0 ctx) OR push_bit 3 (total1 ctx))
     @ PUT_ULONG_BE (push_bit 3 (total0 ctx))"
  have "take ?p sha_padding = 0x80 # replicate (?p - 1) 0"
    using pad_length_nat(2,3) [of ?n] by (cases ?p) (simp_all add: sha_padding_def min_def)
  then have pad: "(m @ take ?p sha_padding) @ ?len = pad_fips m"
    unfolding t length_bits by (simp add: pad_fips_def pad_length_nat(1))
  have l1: "length (take ?p sha_padding) < 2 ^ 32"
    by (simp add: sha_padding_def)
  have l2: "length ?len < 2 ^ 32" by (simp add: PUT_ULONG_BE_def)
  define ctx' where "ctx' = sha1_update (sha1_update ctx (take ?p sha_padding)) ?len"
  have "sha_rep (pad_fips m) ctx'"
    unfolding ctx'_def pad [symmetric]
    by (intro sha_rep_update assms l1 l2)
  moreover have "64 dvd length (pad_fips m)"
    using pad_length_nat(2-4) [of ?n]
    by (simp only: dvd_eq_mod_eq_0 pad [symmetric])
       (simp add: PUT_ULONG_BE_def sha_padding_def min_def add.commute add.left_commute)
  then have "full (pad_fips m) = pad_fips m" by (simp add: full_def)
  ultimately have "sha_state ctx' = blocks_fips H0 (pad_fips m)" by (simp add: sha_rep_def)
  moreover have "sha1_finish ctx = concat (map PUT_ULONG_BE (sha_state ctx'))"
    by (simp only: sha1_finish_def Let_def ctx'_def t unat_and_63)
  ultimately show ?thesis by (simp add: sha1_fips_def)
qed

definition blank_ctx :: sha1_context where
  "blank_ctx = \<lparr>total0 = 0, total1 = 0, sha_state = [], sha_buffer = replicate 64 0\<rparr>"

interpretation sha: digest_stream "sha1_starts blank_ctx" sha1_update sha1_finish sha1_fips sha_rep
    "\<lambda>ys. length ys < 2 ^ 32"
  by unfold_locales (simp_all add: sha_rep_starts blank_ctx_def sha_rep_update sha1_finish_fips)

lemma soft_sha_1_digest:
  assumes "length i_pdata < 2 ^ 32" "length (sha_buffer ctx) = 64"
  shows "soft_sha_1 ctx i_pdata = (0, sha1_fips i_pdata)"
proof -
  have "sha_rep ([] @ i_pdata) (sha1_update (sha1_starts ctx) i_pdata)"
    using assms by (intro sha_rep_update sha_rep_starts)
  then show ?thesis by (simp add: soft_sha_1_def sha1_def sha1_finish_fips)
qed

text \<open>C15: For every input the length argument can express and whatever the stack context held,
  \<open>soft_sha_1\<close> returns 0 and writes the FIPS 180 digest of the input.\<close>

theorem soft_sha_1_fips:
  assumes "length i_pdata < 2 ^ 32" "length (sha_buffer ctx) = 64"
  shows "soft_sha_1 ctx i_pdata = (0, sha1_fips i_pdata)"
  using assms by (rule soft_sha_1_digest)

theorem soft_sha_1_fips_witness: "soft_sha_1 blank_ctx [0x61, 0x62, 0x63] = (0, sha1_fips [0x61, 0x62, 0x63])"
  by (rule soft_sha_1_fips) (simp_all add: blank_ctx_def)

text \<open>C17: Feeding a message to \<open>sha1_update\<close> in pieces of any lengths gives the digest of the whole,
  also past \<open>2^32\<close> bytes, where the low counter wraps.\<close>

theorem sha1_streaming:
  assumes "\<forall>c \<in> set pieces. length c < 2 ^ 32"
  shows "sha1_finish (fold (\<lambda>c s. sha1_update s c) pieces (sha1_starts blank_ctx)) = sha1_fips (concat pieces)"
  using assms by (rule sha.streamed)

theorem sha1_streaming_witness:
  "sha1_finish (fold (\<lambda>c s. sha1_update s c) [[1], [], [2, 3]] (sha1_starts blank_ctx)) = sha1_fips (concat [[1], [], [2, 3]])"
  by (rule sha1_streaming) simp

end
