(* ===== verification/Spi.thy ===== *)
theory Spi
  imports Prelude
begin

text \<open>
  The SPI serial flash driver of \<open>cpu/sh/spi.c\<close> (\<open>CONFIG_SOFT_SPI\<close>, \<open>CONFIG_SPI_FLASH_ST\<close>): the
  bit-banged exchange of one byte, \<open>spi_xfer\<close>, the status poll, the probe, \<open>spi_read\<close>, the
  read-merge-erase-program cycle \<open>my_spi_write\<close> and \<open>spi_write\<close>, with the flash helpers of
  \<open>common/cmd_spi.c\<close> and \<open>eeprom_read\<close>/\<open>eeprom_write\<close> of \<open>common/cmd_eeprom.c\<close> on top.
  The port pins are operations of the hardware and a parameter; what the driver relies on of the
  chip is the predicate \<open>m25p\<close>, the documented behaviour of its commands.
\<close>

section \<open>Model\<close>

text \<open>\<open>SPI_SCL\<close>, \<open>SPI_SDA\<close>, \<open>SPI_READ\<close> and \<open>spi_chipsel[0]\<close>.\<close>

record 'p pins =
  SPI_SCL :: "bool \<Rightarrow> 'p \<Rightarrow> 'p"
  SPI_SDA :: "bool \<Rightarrow> 'p \<Rightarrow> 'p"
  SPI_READ :: "'p \<Rightarrow> bool"
  chipsel :: "bool \<Rightarrow> 'p \<Rightarrow> 'p"

text \<open>The static variables: page, erase and device size, and the sector buffer.\<close>

record spi_dev =
  pageSize :: u32
  eraseSize :: u32
  deviceSize :: u32
  buff :: "u8 list"

definition spi_bit :: "'p pins \<Rightarrow> u32 \<Rightarrow> nat \<Rightarrow> u32 \<times> 'p \<Rightarrow> u32 \<times> 'p" where
  "spi_bit pn out i s = (case s of (inw, p) \<Rightarrow>
     let p = SPI_SCL pn False p;
         p = SPI_SDA pn (out AND push_bit i 1 \<noteq> 0) p;
         p = SPI_SCL pn True p;
         inw = push_bit 1 inw OR of_bool (SPI_READ pn p)
     in (inw, p))"

definition spi_xfer_one_word :: "'p pins \<Rightarrow> u32 \<Rightarrow> 'p \<Rightarrow> u32 \<times> 'p" where
  "spi_xfer_one_word pn out p = fold (spi_bit pn out) [7, 6, 5, 4, 3, 2, 1, 0] (0, p)"

text \<open>The transfer loop: each byte out, the byte that comes in is stored as a \<open>uchar\<close>.\<close>

fun xfer_bytes :: "'p pins \<Rightarrow> u8 list \<Rightarrow> 'p \<Rightarrow> u8 list \<times> 'p" where
  "xfer_bytes pn [] p = ([], p)"
| "xfer_bytes pn (b # bs) p =
     (let (d, p) = spi_xfer_one_word pn (ucast b) p;
          (ds, p) = xfer_bytes pn bs p
      in (ucast d # ds, p))"

text \<open>
  \<open>spi_xfer\<close>: the status, the bytes stored to \<open>din\<close>, the bus. \<open>sel\<close> tells whether a chip select
  function was passed.
\<close>

definition spi_xfer :: "'p pins \<Rightarrow> bool \<Rightarrow> int \<Rightarrow> u8 list \<Rightarrow> 'p \<Rightarrow> int \<times> u8 list \<times> 'p" where
  "spi_xfer pn sel bitlen dout p =
     (let bytelen = nat (bitlen div 8) in
      if bitlen mod 8 \<noteq> 0 then (1, [], p)
      else
        let p = (if sel then chipsel pn True p else p);
            (din, p) = xfer_bytes pn (take bytelen dout) p;
            p = (if sel then chipsel pn False p else p)
        in (0, din, p))"

definition spi_read_status :: "'p pins \<Rightarrow> 'p \<Rightarrow> u8 \<times> 'p" where
  "spi_read_status pn p =
     (let (_, data, p) = spi_xfer pn True (2 * 8) [0x05, 0x00] p in (data ! 1, p))"

text \<open>\<open>while (spi_read_status(chipsel) & SR_WIP) ;\<close> may poll forever: \<open>None\<close>.\<close>

partial_function (option) spi_wait_till_ready :: "'p pins \<Rightarrow> 'p \<Rightarrow> 'p option" where
  "spi_wait_till_ready pn p =
     (let (status, p) = spi_read_status pn p
      in if status AND 1 \<noteq> 0 then spi_wait_till_ready pn p else Some p)"

definition known_devid :: "u8 list \<Rightarrow> bool" where
  "known_devid devid \<longleftrightarrow>
     \<not> (\<not> (devid ! 1 = 0xef \<or> devid ! 1 = 0x20) \<or> \<not> (devid ! 2 = 0x40 \<or> devid ! 2 = 0x20) \<or>
        (devid ! 3 \<noteq> 0x14 \<and> devid ! 3 \<noteq> 0x15 \<and> devid ! 3 \<noteq> 0x16 \<and> devid ! 3 \<noteq> 0x17 \<and> devid ! 3 \<noteq> 0x18))"

definition spi_probe_serial_flash :: "'p pins \<Rightarrow> spi_dev \<Rightarrow> 'p \<Rightarrow> int \<times> spi_dev \<times> 'p" where
  "spi_probe_serial_flash pn dev p =
     (let (status, p) = spi_read_status pn p in
      if status = 0xff \<or> status AND 0x60 \<noteq> 0x00 then (-1, dev, p)
      else
        let (_, devid, p) = spi_xfer pn True (8 * 8) [0x9f, 0, 0, 0, 0, 0, 0, 0] p in
        if \<not> known_devid devid then (-1, dev, p)
        else
          let dev = dev\<lparr>pageSize := 256, eraseSize := push_bit 10 4,
                deviceSize := push_bit (unat (devid ! 3)) 1\<rparr>;
              dev = (if devid ! 3 = 0x18 then dev\<lparr>eraseSize := push_bit 10 256\<rparr> else dev)
          in (0, dev, p))"

definition spi_init :: "'p pins \<Rightarrow> spi_dev \<Rightarrow> 'p \<Rightarrow> spi_dev \<times> 'p" where
  "spi_init pn dev p =
     (let p = chipsel pn False p;
          (_, dev, p) = spi_probe_serial_flash pn dev p
      in (dev, p))"

text \<open>\<open>for(;alen>0;--alen) { offset <<= 8; offset |= *addr++; }\<close> over the \<open>alen\<close> address bytes.\<close>

definition get_binary_offset :: "u8 list \<Rightarrow> u32" where
  "get_binary_offset addr = fold (\<lambda>b offset. push_bit 8 offset OR ucast b) addr 0"

definition get_dataflash_offset :: "spi_dev \<Rightarrow> u32 \<Rightarrow> u32" where
  "get_dataflash_offset dev addr =
     (if pageSize dev = 528
      then push_bit 10 (addr div pageSize dev) OR (addr mod pageSize dev)
      else addr)"

text \<open>\<open>(offset>>16) & 0xffu, (offset>>8) & 0xffu, (offset>>0) & 0xffu\<close>\<close>

definition addr24 :: "u32 \<Rightarrow> u8 list" where
  "addr24 offset = [ucast (drop_bit 16 offset AND 0xff), ucast (drop_bit 8 offset AND 0xff),
     ucast (drop_bit 0 offset AND 0xff)]"

text \<open>The result and the bytes stored to \<open>buffer\<close>.\<close>

definition spi_read :: "'p pins \<Rightarrow> spi_dev \<Rightarrow> u8 list \<Rightarrow> int \<Rightarrow> 'p \<Rightarrow> int \<times> u8 list \<times> 'p" where
  "spi_read pn dev addr len p =
     (let start = get_binary_offset addr;
          offset = get_dataflash_offset dev start;
          last = start + word_of_int len - 1
      in if len < 1 then (len, [], p)
         else if deviceSize dev \<le> last then (0, [], p)
         else
           let p = chipsel pn True p;
               (_, p) = xfer_bytes pn (0x03 # addr24 offset) p;
               (buffer, p) = xfer_bytes pn (replicate (nat len) 0x00) p;
               p = chipsel pn False p
           in (len, buffer, p))"

text \<open>The loop that programs \<open>n\<close> pages from \<open>page_base\<close> on.\<close>

fun program_pages :: "'p pins \<Rightarrow> spi_dev \<Rightarrow> nat \<Rightarrow> u32 \<Rightarrow> u8 list \<Rightarrow> 'p \<Rightarrow> 'p option" where
  "program_pages pn dev 0 page_base ptr p = Some p"
| "program_pages pn dev (Suc n) page_base ptr p =
     (let (_, _, p) = spi_xfer pn True (1 * 8) [0x06] p;
          p = chipsel pn True p;
          (_, p) = xfer_bytes pn (0x02 # addr24 page_base) p;
          (_, p) = xfer_bytes pn (take (unat (pageSize dev)) ptr) p;
          p = chipsel pn False p
      in case spi_wait_till_ready pn p of None \<Rightarrow> None
         | Some p \<Rightarrow> program_pages pn dev n (page_base + pageSize dev)
                       (drop (unat (pageSize dev)) ptr) p)"

text \<open>\<open>my_spi_write\<close> writes the \<open>len\<close> bytes of \<open>buffer\<close> within one erase sector.\<close>

definition my_spi_write :: "'p pins \<Rightarrow> spi_dev \<Rightarrow> u32 \<Rightarrow> u8 list \<Rightarrow> 'p \<Rightarrow> (spi_dev \<times> 'p) option" where
  "my_spi_write pn dev address buffer p =
     (let pages = eraseSize dev div pageSize dev;
          sector = (address div eraseSize dev) * eraseSize dev;
          (dev, ptr, p) =
            (if word_of_nat (length buffer) \<noteq> eraseSize dev
             then let offset = address - sector;
                      (_, old, p) = spi_read pn dev (addr24 sector) (sint (eraseSize dev)) p;
                      merged = blit (blit (buff dev) 0 old) (unat offset) buffer
                  in (dev\<lparr>buff := merged\<rparr>, merged, p)
             else (dev, buffer, p));
          (_, _, p) = spi_xfer pn True (1 * 8) [0x06] p;
          (_, _, p) = spi_xfer pn True (4 * 8) (0x20 # addr24 sector) p
      in case spi_wait_till_ready pn p of None \<Rightarrow> None
         | Some p \<Rightarrow> map_option (\<lambda>p. (dev, p)) (program_pages pn dev (unat pages) sector ptr p))"

text \<open>\<open>while(sector<lsector)\<close>: \<open>n\<close> whole erase blocks, from \<open>ptr\<close> and \<open>buffer\<close> on.\<close>

fun write_sectors ::
    "'p pins \<Rightarrow> nat \<Rightarrow> spi_dev \<Rightarrow> u32 \<Rightarrow> u8 list \<Rightarrow> 'p \<Rightarrow> (spi_dev \<times> u32 \<times> u8 list \<times> 'p) option" where
  "write_sectors pn 0 dev ptr buffer p = Some (dev, ptr, buffer, p)"
| "write_sectors pn (Suc n) dev ptr buffer p =
     (case my_spi_write pn dev ptr (take (unat (eraseSize dev)) buffer) p of None \<Rightarrow> None
      | Some (dev, p) \<Rightarrow>
          write_sectors pn n dev (ptr + eraseSize dev) (drop (unat (eraseSize dev)) buffer) p)"

text \<open>The row of dots printed every 16 KiB is left out.\<close>

definition spi_write :: "'p pins \<Rightarrow> spi_dev \<Rightarrow> u8 list \<Rightarrow> u8 list \<Rightarrow> int \<Rightarrow> 'p \<Rightarrow> (int \<times> spi_dev \<times> 'p) option" where
  "spi_write pn dev addr buffer len p =
     (let first = get_binary_offset addr;
          last = first + word_of_int len - 1;
          lsector = (first + word_of_int len) div eraseSize dev;
          sector = first div eraseSize dev;
          byte = first mod eraseSize dev;
          ptr = first
      in if len < 1 then Some (len, dev, p)
         else if deviceSize dev \<le> last then Some (0, dev, p)
         else
           case (if byte \<noteq> 0
                 then let sz = min (word_of_int len) (eraseSize dev - byte) in
                      map_option (\<lambda>(dev, p). (dev, sector + 1, ptr + sz, drop (unat sz) buffer, p))
                        (my_spi_write pn dev first (take (unat sz) buffer) p)
                 else Some (dev, sector, ptr, buffer, p)) of
             None \<Rightarrow> None
           | Some (dev, sector, ptr, buffer, p) \<Rightarrow>
               (case write_sectors pn (unat lsector - unat sector) dev ptr buffer p of
                  None \<Rightarrow> None
                | Some (dev, ptr, buffer, p) \<Rightarrow>
                    if ptr \<le> last
                    then map_option (\<lambda>(dev, p). (len, dev, p))
                           (my_spi_write pn dev ptr (take (unat (last - ptr + 1)) buffer) p)
                    else Some (len, dev, p)))"

section \<open>Bus transactions\<close>

text \<open>Chip select asserted, bytes exchanged, chip select released.\<close>

definition transact :: "'p pins \<Rightarrow> u8 list \<Rightarrow> 'p \<Rightarrow> u8 list \<times> 'p" where
  "transact pn outs p =
     (let (ins, p) = xfer_bytes pn outs (chipsel pn True p) in (ins, chipsel pn False p))"

lemma xfer_bytes_append:
  "xfer_bytes pn (xs @ ys) p =
     (let (a, p) = xfer_bytes pn xs p; (b, p) = xfer_bytes pn ys p in (a @ b, p))"
  by (induction xs arbitrary: p) (simp_all split: prod.split)

lemma length_xfer_bytes [simp]: "length (fst (xfer_bytes pn xs p)) = length xs"
  by (induction xs arbitrary: p) (simp_all split: prod.split, metis fst_conv)

lemma length_transact: "transact pn outs p = (ins, p') \<Longrightarrow> length ins = length outs"
  using length_xfer_bytes [of pn outs "chipsel pn True p"]
  by (cases "xfer_bytes pn outs (chipsel pn True p)") (simp add: transact_def)

lemma spi_xfer_transact:
  assumes "bitlen = 8 * int (length dout)"
  shows "spi_xfer pn True bitlen dout p = (let (ins, p) = transact pn dout p in (0, ins, p))"
  using assms by (simp add: spi_xfer_def transact_def split: prod.split)

text \<open>The driver asserts chip select around two runs of bytes: one transaction.\<close>

lemma two_runs_transact:
  "(let q = chipsel pn True p; (_, q) = xfer_bytes pn xs q; (ins, q) = xfer_bytes pn ys q
    in (ins, chipsel pn False q))
   = (let (ins, q) = transact pn (xs @ ys) p in (drop (length xs) ins, q))"
proof -
  obtain bs q where q: "xfer_bytes pn xs (chipsel pn True p) = (bs, q)" by fastforce
  then have "length bs = length xs" by (metis length_xfer_bytes fst_conv)
  then show ?thesis
    by (simp add: transact_def xfer_bytes_append q split: prod.split)
qed

section \<open>What the driver relies on of the chip\<close>

text \<open>
  The view of a chip: its contents, the write enable latch, the number of status reads for which a
  started operation will still report itself busy, and whether the bus is idle.
\<close>

record 'p chip =
  contents :: "'p \<Rightarrow> nat \<Rightarrow> u8"
  write_enabled :: "'p \<Rightarrow> bool"
  busy_reads :: "'p \<Rightarrow> nat"
  bus_idle :: "'p \<Rightarrow> bool"

definition rdsr_ok :: "'p pins \<Rightarrow> 'p chip \<Rightarrow> bool" where
  "rdsr_ok pn ch \<longleftrightarrow> (\<forall>p. bus_idle ch p \<longrightarrow> (\<exists>x s p'. transact pn [0x05, 0x00] p = ([x, s], p') \<and>
     (bit s 0 \<longleftrightarrow> 0 < busy_reads ch p) \<and> bus_idle ch p' \<and> contents ch p' = contents ch p \<and> write_enabled ch p' = write_enabled ch p
     \<and> busy_reads ch p' = busy_reads ch p - 1))"

definition wren_ok :: "'p pins \<Rightarrow> 'p chip \<Rightarrow> bool" where
  "wren_ok pn ch \<longleftrightarrow> (\<forall>p. bus_idle ch p \<and> busy_reads ch p = 0 \<longrightarrow> (let p' = snd (transact pn [0x06] p) in
     bus_idle ch p' \<and> busy_reads ch p' = 0 \<and> write_enabled ch p' \<and> contents ch p' = contents ch p))"

definition read_ok :: "'p pins \<Rightarrow> nat \<Rightarrow> 'p chip \<Rightarrow> bool" where
  "read_ok pn N ch \<longleftrightarrow> (\<forall>p a n. bus_idle ch p \<and> busy_reads ch p = 0 \<and> a + n \<le> N \<longrightarrow>
     (let (ins, p') = transact pn ((0x03 # addr24 (word_of_nat a)) @ replicate n 0x00) p in
        drop 4 ins = map (\<lambda>i. contents ch p (a + i)) [0..<n] \<and>
        bus_idle ch p' \<and> busy_reads ch p' = 0 \<and> write_enabled ch p' = write_enabled ch p \<and> contents ch p' = contents ch p))"

definition erase_ok :: "'p pins \<Rightarrow> nat \<Rightarrow> 'p chip \<Rightarrow> bool" where
  "erase_ok pn N ch \<longleftrightarrow> (\<forall>p a. bus_idle ch p \<and> busy_reads ch p = 0 \<and> write_enabled ch p \<and> a < N \<longrightarrow>
     (let p' = snd (transact pn (0x20 # addr24 (word_of_nat a)) p) in
        bus_idle ch p' \<and> contents ch p' = (\<lambda>x. if x div 4096 = a div 4096 then 0xff else contents ch p x)))"

definition program_ok :: "'p pins \<Rightarrow> nat \<Rightarrow> 'p chip \<Rightarrow> bool" where
  "program_ok pn N ch \<longleftrightarrow> (\<forall>p a data. bus_idle ch p \<and> busy_reads ch p = 0 \<and> write_enabled ch p \<and> a < N \<and>
       a mod 256 + length data \<le> 256 \<longrightarrow>
     (let p' = snd (transact pn ((0x02 # addr24 (word_of_nat a)) @ data) p) in
        bus_idle ch p' \<and> contents ch p' =
          (\<lambda>x. if a \<le> x \<and> x < a + length data then contents ch p x AND data ! (x - a) else contents ch p x)))"

definition m25p :: "'p pins \<Rightarrow> nat \<Rightarrow> 'p chip \<Rightarrow> bool" where
  "m25p pn N ch \<longleftrightarrow>
     rdsr_ok pn ch \<and> wren_ok pn ch \<and> read_ok pn N ch \<and> erase_ok pn N ch \<and> program_ok pn N ch"

text \<open>The driver's variables after probing a chip with 4 KiB sectors.\<close>

definition dev_ok :: "spi_dev \<Rightarrow> nat \<Rightarrow> bool" where
  "dev_ok dev N \<longleftrightarrow> pageSize dev = 256 \<and> eraseSize dev = 4096 \<and> deviceSize dev = word_of_nat N \<and>
     4096 dvd N \<and> 0 < N \<and> N \<le> 2 ^ 24 \<and> length (buff dev) = 256 * 1024"

section \<open>Addresses\<close>

lemma get_binary_offset_addr24:
  assumes "a < 2 ^ 24"
  shows "get_binary_offset (addr24 (word_of_nat a)) = word_of_nat a"
proof (rule bit_word_eqI)
  fix n assume n: "n < LENGTH(32)"
  have m: "(0xff :: u32) = mask 8" by (simp add: mask_eq_exp_minus_1)
  have "\<not> bit a k" if "24 \<le> k" for k
  proof -
    have "(2::nat) ^ 24 \<le> 2 ^ k" using that by (intro power_increasing) simp_all
    with assms show ?thesis by (simp add: bit_iff_odd)
  qed
  then have h: "bit (word_of_nat a :: u32) k \<longleftrightarrow> k < 24 \<and> bit a k" for k
    by (auto simp: bit_of_nat_iff) (meson not_less)
  have "bit (get_binary_offset (addr24 (word_of_nat a))) n \<longleftrightarrow>
    (n < 24 \<and> bit a n)"
    using n by (cases "16 \<le> n"; auto simp: get_binary_offset_def addr24_def bit_or_iff bit_push_bit_iff bit_ucast_iff
        bit_and_iff bit_drop_bit_eq m bit_mask_iff h)
  then show "bit (get_binary_offset (addr24 (word_of_nat a))) n = bit (word_of_nat a :: u32) n"
    by (simp add: h)
qed

lemma unat_small: "n < 2 ^ 32 \<Longrightarrow> unat (word_of_nat n :: u32) = n"
  by (simp add: unsigned_of_nat take_bit_nat_eq_self)

lemma unat_eq_imp: "unat x = unat y \<Longrightarrow> (x :: u32) = y"
  by (simp add: word_unat_eq_iff)

lemma word_div_nat: "n < 2 ^ 32 \<Longrightarrow> m < 2 ^ 32 \<Longrightarrow> (word_of_nat n :: u32) div word_of_nat m = word_of_nat (n div m)"
  by (rule unat_eq_imp) (simp add: unat_div unat_small le_less_trans [OF div_le_dividend])

lemma word_mod_nat: "n < 2 ^ 32 \<Longrightarrow> m < 2 ^ 32 \<Longrightarrow> (word_of_nat n :: u32) mod word_of_nat m = word_of_nat (n mod m)"
  by (rule unat_eq_imp) (simp add: unat_mod unat_small le_less_trans [OF mod_less_eq_dividend])

lemma word_sub_nat: "m \<le> n \<Longrightarrow> n < 2 ^ 32 \<Longrightarrow> (word_of_nat n :: u32) - word_of_nat m = word_of_nat (n - m)"
  by (simp add: of_nat_diff)

section \<open>Polling, reading and writing\<close>

lemma spi_read_status_transact:
  "spi_read_status pn p = (let (ins, p) = transact pn [0x05, 0x00] p in (ins ! 1, p))"
  by (simp add: spi_read_status_def spi_xfer_transact split: prod.split)

lemma spi_wait_ready:
  assumes "rdsr_ok pn ch" "bus_idle ch p"
  shows "\<exists>p'. spi_wait_till_ready pn p = Some p' \<and> bus_idle ch p' \<and> busy_reads ch p' = 0 \<and>
     contents ch p' = contents ch p \<and> write_enabled ch p' = write_enabled ch p"
  using assms(2)
proof (induction "busy_reads ch p" arbitrary: p rule: less_induct)
  case less
  obtain x s p1 where t: "transact pn [0x05, 0x00] p = ([x, s], p1)"
    "bit s 0 \<longleftrightarrow> 0 < busy_reads ch p" and k: "bus_idle ch p1" "contents ch p1 = contents ch p" "write_enabled ch p1 = write_enabled ch p"
    "busy_reads ch p1 = busy_reads ch p - 1"
    using assms(1) less.prems unfolding rdsr_ok_def by blast
  have st: "spi_read_status pn p = (s, p1)" by (simp add: spi_read_status_transact t(1))
  have s0: "s AND 1 \<noteq> 0 \<longleftrightarrow> bit s 0" by (simp add: and_one_eq odd_iff_mod_2_eq_one bit_0)
  show ?case
  proof (cases "0 < busy_reads ch p")
    case True
    then have "spi_wait_till_ready pn p = spi_wait_till_ready pn p1"
      using s0 t(2) by (subst spi_wait_till_ready.simps) (simp add: st)
    with less.hyps [of p1] k True show ?thesis by simp
  next
    case False
    then have "spi_wait_till_ready pn p = Some p1"
      using s0 t(2) by (subst spi_wait_till_ready.simps) (simp add: st)
    with k False show ?thesis by simp
  qed
qed

lemma spi_read_contents:
  assumes "read_ok pn N ch" "dev_ok dev N" "bus_idle ch p" "busy_reads ch p = 0" "a + n \<le> N" "0 < n"
  shows "\<exists>p'. spi_read pn dev (addr24 (word_of_nat a)) (int n) p
      = (int n, map (\<lambda>i. contents ch p (a + i)) [0..<n], p') \<and>
     bus_idle ch p' \<and> busy_reads ch p' = 0 \<and> write_enabled ch p' = write_enabled ch p \<and> contents ch p' = contents ch p"
proof -
  have N: "N \<le> 2 ^ 24" "pageSize dev \<noteq> 528" "deviceSize dev = word_of_nat N"
    using assms(2) by (simp_all add: dev_ok_def)
  have start: "get_binary_offset (addr24 (word_of_nat a)) = word_of_nat a"
    using assms(5,6) N(1) by (intro get_binary_offset_addr24) simp
  have "word_of_nat a + word_of_int (int n) - 1 = (word_of_nat (a + n - 1) :: u32)"
    using assms(6) by (simp add: of_nat_diff)
  moreover have "unat (word_of_nat (a + n - 1) :: u32) = a + n - 1" "unat (word_of_nat N :: u32) = N"
    using assms(5,6) N(1) by (intro unat_small; simp)+
  then have "\<not> word_of_nat N \<le> (word_of_nat (a + n - 1) :: u32)"
    unfolding word_le_nat_alt using assms(5,6) by simp
  moreover obtain ins p' where t: "transact pn ((0x03 # addr24 (word_of_nat a)) @ replicate n 0x00) p = (ins, p')"
    by fastforce
  have r: "drop 4 ins = map (\<lambda>i. contents ch p (a + i)) [0..<n]"
    "bus_idle ch p'" "busy_reads ch p' = 0" "write_enabled ch p' = write_enabled ch p" "contents ch p' = contents ch p"
    using assms(1) [unfolded read_ok_def, rule_format, of p a n] assms(3-5)
    by (simp_all only: t Let_def prod.case simp_thms)
  have "(let q = chipsel pn True p; (_, q) = xfer_bytes pn (0x03 # addr24 (word_of_nat a)) q;
         (ins, q) = xfer_bytes pn (replicate n 0x00) q in (ins, chipsel pn False q))
      = (drop 4 ins, p')"
    unfolding two_runs_transact t by (simp add: addr24_def eval_nat_numeral)
  ultimately have "spi_read pn dev (addr24 (word_of_nat a)) (int n) p = (int n, drop 4 ins, p')"
    using assms(6) N start
    by (simp add: spi_read_def get_dataflash_offset_def Let_def split: prod.splits)
  with r show ?thesis by simp
qed

lemma program_pages_contents:
  assumes "m25p pn N ch" "dev_ok dev N"
  shows "bus_idle ch p \<Longrightarrow> busy_reads ch p = 0 \<Longrightarrow> a mod 256 = 0 \<Longrightarrow> a + 256 * n \<le> N \<Longrightarrow> 256 * n \<le> length ptr \<Longrightarrow>
    \<exists>p'. program_pages pn dev n (word_of_nat a) ptr p = Some p' \<and> bus_idle ch p' \<and> busy_reads ch p' = 0 \<and>
      contents ch p' = (\<lambda>x. if a \<le> x \<and> x < a + 256 * n then contents ch p x AND ptr ! (x - a) else contents ch p x)"
proof (induction n arbitrary: p a ptr)
  case 0
  then show ?case by (auto simp: fun_eq_iff)
next
  case (Suc n)
  have ps: "unat (pageSize dev) = 256" "pageSize dev = word_of_nat 256" using assms(2) by (simp_all add: dev_ok_def)
  let ?q = "snd (transact pn [0x06] p)"
  have q: "bus_idle ch ?q" "busy_reads ch ?q = 0" "write_enabled ch ?q" "contents ch ?q = contents ch p"
    using assms(1) Suc.prems by (simp_all add: m25p_def wren_ok_def Let_def)
  have x: "spi_xfer pn True 8 [6] p = (0, fst (transact pn [0x06] p), ?q)"
    by (simp add: spi_xfer_transact split: prod.split)
  let ?d = "take 256 ptr"
  let ?r = "snd (transact pn ((0x02 # addr24 (word_of_nat a)) @ ?d) ?q)"
  have ld: "length ?d = 256" using Suc.prems by simp
  have r: "bus_idle ch ?r" "contents ch ?r = (\<lambda>x. if a \<le> x \<and> x < a + 256 then contents ch p x AND ?d ! (x - a) else contents ch p x)"
    using program_ok_def [THEN iffD1, rule_format, of pn N ch ?q a ?d] assms(1) q Suc.prems
    by (simp_all only: m25p_def ld Let_def simp_thms) simp_all
  have two: "chipsel pn False (snd (xfer_bytes pn ?d (snd (xfer_bytes pn (0x02 # addr24 (word_of_nat a)) (chipsel pn True ?q))))) = ?r"
    using two_runs_transact [of pn ?q "0x02 # addr24 (word_of_nat a)" ?d]
    by (simp add: Let_def split: prod.splits)
  define r0 where "r0 = ?r"
  note r = r [folded r0_def] and two = two [folded r0_def]
  obtain s where s: "spi_wait_till_ready pn r0 = Some s" "bus_idle ch s" "busy_reads ch s = 0" "contents ch s = contents ch r0"
    using spi_wait_ready [of pn ch r0] assms(1) r(1) by (auto simp: m25p_def)
  have "program_pages pn dev (Suc n) (word_of_nat a) ptr p
      = program_pages pn dev n (word_of_nat (a + 256)) (drop 256 ptr) s"
    using x two s(1) by (simp add: ps Let_def split_beta)
  moreover have "(a + 256) mod 256 = 0" "256 * n \<le> length ptr - 256" using Suc.prems by simp_all
  then obtain p' where "program_pages pn dev n (word_of_nat (a + 256)) (drop 256 ptr) s = Some p'"
    and p': "bus_idle ch p'" "busy_reads ch p' = 0"
    "contents ch p' = (\<lambda>x. if a + 256 \<le> x \<and> x < a + 256 + 256 * n then contents ch s x AND drop 256 ptr ! (x - (a + 256))
       else contents ch s x)"
    using Suc.IH [of s "a + 256" "drop 256 ptr"] s Suc.prems by auto
  moreover have "contents ch p' = (\<lambda>x. if a \<le> x \<and> x < a + 256 * Suc n then contents ch p x AND ptr ! (x - a) else contents ch p x)"
    unfolding p'(3) s(4) r(2) using Suc.prems(5) by (intro ext) auto
  ultimately show ?case by (intro exI [of _ p']) simp_all
qed

lemma my_spi_write_contents:
  assumes m: "m25p pn N ch" and d: "dev_ok dev N" and p: "bus_idle ch p" "busy_reads ch p = 0"
    and a: "a < N" "buffer \<noteq> []" "a mod 4096 + length buffer \<le> 4096"
  shows "\<exists>dev' p'. my_spi_write pn dev (word_of_nat a) buffer p = Some (dev', p') \<and> dev_ok dev' N \<and>
     bus_idle ch p' \<and> busy_reads ch p' = 0 \<and> contents ch p' = overwrite (contents ch p) a buffer"
proof -
  define sec where "sec = a div 4096 * 4096"
  have sz: "pageSize dev = word_of_nat 256" "eraseSize dev = word_of_nat 4096" "N \<le> 2 ^ 24" "length (buff dev) = 262144"
    using d by (simp_all add: dev_ok_def)
  have sec: "sec + a mod 4096 = a" "sec + 4096 \<le> N" "sec mod 256 = 0" "sec div 4096 = a div 4096"
  proof -
    show "sec + a mod 4096 = a" by (simp add: sec_def div_mult_mod_eq)
    obtain k where k: "N = 4096 * k" using d by (auto simp: dev_ok_def dvd_def)
    then have "a div 4096 < k" using a(1) by (simp add: less_mult_imp_div_less mult.commute)
    then show "sec + 4096 \<le> N" unfolding k sec_def by (simp add: algebra_simps)
    have "sec = 256 * (16 * (a div 4096))" by (simp add: sec_def)
    then show "sec mod 256 = 0" by simp
    show "sec div 4096 = a div 4096" by (simp add: sec_def)
  qed
  have a24: "a < 2 ^ 32" "sec < 2 ^ 32" using a(1) sz(3) sec by simp_all
  have sw: "(word_of_nat a :: u32) div word_of_nat 4096 * word_of_nat 4096 = word_of_nat sec"
    using a24 by (simp add: word_div_nat sec_def del: of_nat_numeral)
  have pg: "(word_of_nat 4096 :: u32) div word_of_nat 256 = word_of_nat 16"
    by (subst word_div_nat) simp_all
  have off: "unat (word_of_nat a - word_of_nat sec :: u32) = a mod 4096"
  proof -
    have "sec \<le> a" "a - sec = a mod 4096" using sec(1) by simp_all
    moreover have "a mod 4096 < 2 ^ 32" by (rule less_trans [of _ 4096]) simp_all
    ultimately show ?thesis using a24 by (simp only: word_sub_nat unat_small)
  qed
  have len: "word_of_nat (length buffer) = (word_of_nat 4096 :: u32) \<longleftrightarrow> length buffer = 4096"
  proof
    assume "word_of_nat (length buffer) = (word_of_nat 4096 :: u32)"
    then have "unat (word_of_nat (length buffer) :: u32) = unat (word_of_nat 4096 :: u32)" by simp
    then show "length buffer = 4096" using a(3) by (simp add: unat_small)
  qed simp
  define stage where "stage = (if length buffer \<noteq> 4096
     then let (_, old, p) = spi_read pn dev (addr24 (word_of_nat sec)) 4096 p;
              merged = blit (blit (buff dev) 0 old) (a mod 4096) buffer
          in (dev\<lparr>buff := merged\<rparr>, merged, p)
     else (dev, buffer, p))"
  obtain dev1 ptr p1 where stage: "stage = (dev1, ptr, p1)" by (cases stage) auto
  have s: "dev_ok dev1 N \<and> bus_idle ch p1 \<and> busy_reads ch p1 = 0 \<and> contents ch p1 = contents ch p \<and> 4096 \<le> length ptr \<and>
    (\<forall>x. sec \<le> x \<and> x < sec + 4096 \<longrightarrow> ptr ! (x - sec) = overwrite (contents ch p) a buffer x)"
  proof (cases "length buffer = 4096")
    case True
    with a(3) have a0: "a mod 4096 = 0" by simp
    with sec(1) have "a = sec" by simp
    with True stage d p show ?thesis by (auto simp: stage_def overwrite_def)
  next
    case False
    from m have "read_ok pn N ch" by (simp add: m25p_def)
    from spi_read_contents [OF this d p sec(2)] obtain q where
      r: "spi_read pn dev (addr24 (word_of_nat sec)) 4096 p = (4096, map (\<lambda>i. contents ch p (sec + i)) [0..<4096], q)"
      "bus_idle ch q" "busy_reads ch q = 0" "contents ch q = contents ch p" by auto
    let ?old = "map (\<lambda>i. contents ch p (sec + i)) [0..<4096]"
    let ?mg = "blit (blit (buff dev) 0 ?old) (a mod 4096) buffer"
    have st: "dev1 = dev\<lparr>buff := ?mg\<rparr>" "ptr = ?mg" "p1 = q"
      using False stage r(1) by (auto simp: stage_def Let_def)
    have lb: "length (blit (buff dev) 0 ?old) = 262144" "length ?mg = 262144"
      using sz(4) a(3) by simp_all
    have "?mg ! (x - sec) = overwrite (contents ch p) a buffer x" if "sec \<le> x" "x < sec + 4096" for x
    proof -
      have "blit (buff dev) 0 ?old ! (x - sec) = contents ch p x"
        using that sz(4) by (subst nth_blit) (simp_all, linarith)
      then have "?mg ! (x - sec) =
          (if a mod 4096 \<le> x - sec \<and> x - sec < a mod 4096 + length buffer then buffer ! (x - sec - a mod 4096) else contents ch p x)"
        using that lb a(3) by (subst nth_blit) simp_all
      moreover have "a mod 4096 \<le> x - sec \<longleftrightarrow> a \<le> x" "x - sec < a mod 4096 + length buffer \<longleftrightarrow> x < a + length buffer"
        "x - sec - a mod 4096 = x - a"
        using that sec(1) by linarith+
      ultimately show ?thesis by (simp add: overwrite_def)
    qed
    with r lb d show ?thesis by (simp add: st dev_ok_def)
  qed
  let ?q = "snd (transact pn [0x06] p1)"
  have q: "bus_idle ch ?q" "busy_reads ch ?q = 0" "write_enabled ch ?q" "contents ch ?q = contents ch p"
    using m s by (simp_all add: m25p_def wren_ok_def Let_def)
  define r where "r = snd (transact pn (0x20 # addr24 (word_of_nat sec)) ?q)"
  have "bus_idle ch r \<and> contents ch r = (\<lambda>x. if x div 4096 = sec div 4096 then 0xff else contents ch ?q x)"
    using erase_ok_def [THEN iffD1, rule_format, of pn N ch ?q sec] m q sec(2)
    by (simp add: m25p_def r_def Let_def)
  then have r: "bus_idle ch r" "contents ch r = (\<lambda>x. if x div 4096 = a div 4096 then 0xff else contents ch p x)"
    unfolding q(4) sec(4) by simp_all
  obtain t where t: "spi_wait_till_ready pn r = Some t" "bus_idle ch t" "busy_reads ch t = 0" "contents ch t = contents ch r"
    using spi_wait_ready [of pn ch r] m r(1) by (auto simp: m25p_def)
  obtain p' where p': "program_pages pn dev1 16 (word_of_nat sec) ptr t = Some p'" "bus_idle ch p'" "busy_reads ch p' = 0"
    "contents ch p' = (\<lambda>x. if sec \<le> x \<and> x < sec + 4096 then contents ch t x AND ptr ! (x - sec) else contents ch t x)"
    using program_pages_contents [OF m, of dev1 t sec 16 ptr] s t sec by auto
  have x1: "spi_xfer pn True (1 * 8) [6] p1 = (0, fst (transact pn [6] p1), ?q)"
    by (simp add: spi_xfer_transact split: prod.split)
  have x2: "spi_xfer pn True (4 * 8) (0x20 # addr24 (word_of_nat sec)) ?q
      = (0, fst (transact pn (0x20 # addr24 (word_of_nat sec)) ?q), r)"
    unfolding r_def by (subst spi_xfer_transact) (simp_all add: addr24_def split: prod.split)
  have e: "sint (word_of_nat 4096 :: u32) = 4096" "unat (word_of_nat 16 :: u32) = 16" by simp_all
  have "my_spi_write pn dev (word_of_nat a) buffer p = Some (dev1, p')"
    unfolding my_spi_write_def Let_def sz(1,2) pg sw off len e stage [unfolded stage_def Let_def] prod.case x1 x2 t(1)
      option.case p'(1) by simp
  moreover have "contents ch p' = overwrite (contents ch p) a buffer"
  proof
    fix x
    have in_sec: "x div 4096 = a div 4096 \<longleftrightarrow> sec \<le> x \<and> x < sec + 4096"
      unfolding sec_def by (metis add.commute div_nat_eqI div_times_less_eq_dividend dividend_less_div_times mult.commute mult_Suc zero_less_numeral)
    have m1: "(0xff :: u8) = - 1" by simp
    have ff: "0xff AND y = y" for y :: u8 unfolding m1 by (rule and.left_neutral)
    show "contents ch p' x = overwrite (contents ch p) a buffer x"
    proof (cases "sec \<le> x \<and> x < sec + 4096")
      case True
      then show ?thesis using s in_sec by (simp add: p'(4) t(4) r(2) ff)
    next
      case False
      then have "overwrite (contents ch p) a buffer x = contents ch p x"
        using sec(1) a(3) by (auto simp: overwrite_def)
      with False in_sec show ?thesis by (auto simp: p'(4) t(4) r(2))
    qed
  qed
  ultimately show ?thesis using s p' by auto
qed

lemma write_sectors_contents:
  assumes m: "m25p pn N ch"
  shows "dev_ok dev N \<Longrightarrow> bus_idle ch p \<Longrightarrow> busy_reads ch p = 0 \<Longrightarrow> a mod 4096 = 0 \<Longrightarrow> a + 4096 * n \<le> N \<Longrightarrow>
    4096 * n \<le> length buffer \<Longrightarrow>
    \<exists>dev' p'. write_sectors pn n dev (word_of_nat a) buffer p
        = Some (dev', word_of_nat (a + 4096 * n), drop (4096 * n) buffer, p') \<and> dev_ok dev' N \<and>
      bus_idle ch p' \<and> busy_reads ch p' = 0 \<and> contents ch p' = overwrite (contents ch p) a (take (4096 * n) buffer)"
proof (induction n arbitrary: dev a buffer p)
  case 0
  then show ?case by simp
next
  case (Suc n)
  have sz: "eraseSize dev = 4096" using Suc.prems by (simp add: dev_ok_def)
  have un: "unat (4096 :: u32) = 4096" by simp
  obtain dev1 p1 where 1: "my_spi_write pn dev (word_of_nat a) (take 4096 buffer) p = Some (dev1, p1)"
    "dev_ok dev1 N" "bus_idle ch p1" "busy_reads ch p1 = 0" "contents ch p1 = overwrite (contents ch p) a (take 4096 buffer)"
  proof -
    have "buffer \<noteq> []" using Suc.prems by auto
    with my_spi_write_contents [OF m Suc.prems(1-3), of a "take 4096 buffer"] Suc.prems that
    show thesis by auto
  qed
  have sz1: "eraseSize dev1 = 4096" using 1(2) by (simp add: dev_ok_def)
  have "(a + 4096) mod 4096 = 0" "4096 * n \<le> length (drop 4096 buffer)" "a + 4096 + 4096 * n \<le> N"
    using Suc.prems by simp_all
  from Suc.IH [OF 1(2-4) this(1,3,2)] obtain dev' p' where
    2: "write_sectors pn n dev1 (word_of_nat (a + 4096)) (drop 4096 buffer) p1
        = Some (dev', word_of_nat (a + 4096 + 4096 * n), drop (4096 * n) (drop 4096 buffer), p')" "dev_ok dev' N"
    "bus_idle ch p'" "busy_reads ch p' = 0" "contents ch p' = overwrite (contents ch p1) (a + 4096) (take (4096 * n) (drop 4096 buffer))"
    by auto
  have len: "length (take 4096 buffer) = 4096" using Suc.prems by simp
  have "contents ch p' = overwrite (contents ch p) a (take 4096 buffer @ take (4096 * n) (drop 4096 buffer))"
    using overwrite_append [of "contents ch p" a "take 4096 buffer"] unfolding 2(5) 1(5) len by simp
  also have "take 4096 buffer @ take (4096 * n) (drop 4096 buffer) = take (4096 * Suc n) buffer"
    by (simp add: take_add)
  finally have "contents ch p' = overwrite (contents ch p) a (take (4096 * Suc n) buffer)" .
  moreover have "write_sectors pn (Suc n) dev (word_of_nat a) buffer p
      = Some (dev', word_of_nat (a + 4096 * Suc n), drop (4096 * Suc n) buffer, p')"
    using 1(1) 2(1) unfolding write_sectors.simps 1(1) option.case prod.case sz sz1 un by (simp add: add.commute add.left_commute)
  ultimately show ?case using 2 by blast
qed

definition head_len :: "nat \<Rightarrow> nat \<Rightarrow> nat" where
  "head_len a n = (if a mod 4096 = 0 then 0 else min n (4096 - a mod 4096))"

definition next_sector :: "nat \<Rightarrow> nat" where
  "next_sector a = (if a mod 4096 = 0 then a div 4096 else a div 4096 + 1)"

lemma sector_walk:
  fixes a n :: nat
  defines "m \<equiv> (a + n) div 4096 - next_sector a"
  assumes n: "0 < n"
  shows "head_len a n \<le> n"
    "m = 0 \<and> head_len a n = n \<or>
      (a + head_len a n) mod 4096 = 0 \<and> a + head_len a n + 4096 * m = 4096 * ((a + n) div 4096)"
proof -
  let ?b = "a mod 4096" and ?s = "a div 4096" and ?l = "(a + n) div 4096"
  show "head_len a n \<le> n" by (simp add: head_len_def)
  have dm: "a = 4096 * ?s + ?b" "a + n = 4096 * ?l + (a + n) mod 4096" "(a + n) mod 4096 < 4096" "?b < 4096" by simp_all
  show "m = 0 \<and> head_len a n = n \<or>
      (a + head_len a n) mod 4096 = 0 \<and> a + head_len a n + 4096 * m = 4096 * ?l"
  proof (cases "?b = 0")
    case True
    then have k: "head_len a n = 0" "m = ?l - ?s" by (simp_all add: head_len_def next_sector_def m_def)
    moreover have "?s \<le> ?l" by (simp add: div_le_mono)
    ultimately have "a + head_len a n + 4096 * m = 4096 * ?l" using True dm(1) by linarith
    then show ?thesis using True k by simp
  next
    case False
    then have k: "head_len a n = min n (4096 - ?b)" "m = ?l - (?s + 1)"
      by (simp_all add: head_len_def next_sector_def m_def)
    show ?thesis
    proof (cases "n \<le> 4096 - ?b")
      case True
      then have "?l \<le> ?s + 1" using dm by linarith
      with True k show ?thesis by simp
    next
      case f: False
      obtain q r where qr: "?s = q" "?b = r" "a = 4096 * q + r" using dm(1) by blast
      then have "a + (4096 - ?b) = 4096 * (q + 1)" using dm(4) by simp
      then have e: "a + head_len a n = 4096 * (?s + 1)" using k(1) f qr(1) by simp
      moreover have "?s + 1 \<le> ?l" using f dm by linarith
      moreover have "4096 * (i + 1) + 4096 * (j - (i + 1)) = 4096 * j" if "i + 1 \<le> j" for i j :: nat
        using that by (simp add: algebra_simps)
      ultimately have "a + head_len a n + 4096 * m = 4096 * ?l" unfolding k(2) e by blast
      moreover have "(a + head_len a n) mod 4096 = 0" unfolding e by simp
      ultimately show ?thesis by simp
    qed
  qed
qed

lemma unat_24: "k \<le> 2 ^ 24 \<Longrightarrow> unat (word_of_nat k :: u32) = k"
  by (intro unat_small) simp

lemma spi_write_head:
  assumes m: "m25p pn N ch" and d: "dev_ok dev N" and p: "bus_idle ch p" "busy_reads ch p = 0"
    and a: "a + length data \<le> N" "data \<noteq> []"
  shows "\<exists>dev1 p1. (if (word_of_nat (a mod 4096) :: u32) \<noteq> 0
        then let sz = min (word_of_int (int (length data))) (word_of_nat 4096 - word_of_nat (a mod 4096) :: u32) in
          map_option (\<lambda>(dev, p). (dev, word_of_nat (a div 4096) + 1 :: u32, word_of_nat a + sz, drop (unat sz) data, p))
            (my_spi_write pn dev (word_of_nat a) (take (unat sz) data) p)
        else Some (dev, word_of_nat (a div 4096), word_of_nat a, data, p))
      = Some (dev1, word_of_nat (next_sector a), word_of_nat (a + head_len a (length data)), drop (head_len a (length data)) data, p1) \<and>
      dev_ok dev1 N \<and> bus_idle ch p1 \<and> busy_reads ch p1 = 0 \<and>
      contents ch p1 = overwrite (contents ch p) a (take (head_len a (length data)) data)"
proof -
  let ?n = "length data" and ?b = "a mod 4096"
  have N: "N \<le> 2 ^ 24" using d by (simp add: dev_ok_def)
  have b4: "?b < 4096" by simp
  have ub: "unat (word_of_nat ?b :: u32) = ?b"
    by (rule unat_24, rule less_imp_le, rule less_trans [OF b4]) simp
  have b0: "(word_of_nat ?b :: u32) \<noteq> 0 \<longleftrightarrow> ?b \<noteq> 0"
    using ub unat_eq_0 [of "word_of_nat ?b :: u32"] by (simp only:)
  show ?thesis
  proof (cases "?b = 0")
    case True
    then show ?thesis using d p b0 by (simp add: head_len_def next_sector_def)
  next
    case False
    define sz where "sz = min ?n (4096 - ?b)"
    have w: "(word_of_nat 4096 :: u32) - word_of_nat ?b = word_of_nat (4096 - ?b)"
      using b4 by (intro word_sub_nat) simp_all
    have "unat (word_of_nat ?n :: u32) = ?n" using a N by (intro unat_24) linarith
    moreover have "unat (word_of_nat (4096 - ?b) :: u32) = 4096 - ?b" by (intro unat_24) simp
    ultimately have "min (word_of_nat ?n) (word_of_nat (4096 - ?b)) = (word_of_nat sz :: u32)"
      by (auto simp: sz_def min_def word_le_nat_alt)
    then have mn: "min (word_of_int (int ?n)) (word_of_nat 4096 - word_of_nat ?b) = (word_of_nat sz :: u32)"
      by (simp only: w of_int_of_nat_eq)
    have us: "unat (word_of_nat sz :: u32) = sz" using a N by (intro unat_24) (simp add: sz_def)
    have "?b + min ?n (4096 - ?b) \<le> 4096" using b4 by linarith
    then have "?b + length (take sz data) \<le> 4096" by (simp add: sz_def)
    moreover have "take sz data \<noteq> []" using a b4 by (auto simp: sz_def)
    moreover have "a < N" using a by (cases data) simp_all
    ultimately obtain dev1 p1 where "my_spi_write pn dev (word_of_nat a) (take sz data) p = Some (dev1, p1)"
      "dev_ok dev1 N" "bus_idle ch p1" "busy_reads ch p1 = 0" "contents ch p1 = overwrite (contents ch p) a (take sz data)"
      using my_spi_write_contents [OF m d p] by blast
    with False b0 show ?thesis unfolding mn Let_def us
      by (simp add: head_len_def next_sector_def sz_def add.commute)
  qed
qed

lemma write_sectors_run:
  assumes m: "m25p pn N ch" and d: "dev_ok dev1 N" "bus_idle ch p1" "busy_reads ch p1 = 0"
    and c1: "contents ch p1 = overwrite M a (take k data)" and k: "k \<le> length data" "a + length data \<le> N"
    and g: "j = 0 \<or> (a + k) mod 4096 = 0" "k + 4096 * j \<le> length data"
  shows "\<exists>dev2 p2. write_sectors pn j dev1 (word_of_nat (a + k)) (drop k data) p1
      = Some (dev2, word_of_nat (a + k + 4096 * j), drop (k + 4096 * j) data, p2) \<and>
      dev_ok dev2 N \<and> bus_idle ch p2 \<and> busy_reads ch p2 = 0 \<and>
      contents ch p2 = overwrite M a (take (k + 4096 * j) data)"
proof (cases "j = 0")
  case True
  then show ?thesis using d c1 by simp
next
  case False
  then have al: "(a + k) mod 4096 = 0" using g by simp
  have "a + k + 4096 * j \<le> N" "4096 * j \<le> length (drop k data)" using g k by simp_all
  from write_sectors_contents [OF m d al this] obtain dev2 p2 where
    w2: "write_sectors pn j dev1 (word_of_nat (a + k)) (drop k data) p1
      = Some (dev2, word_of_nat (a + k + 4096 * j), drop (4096 * j) (drop k data), p2)"
    "dev_ok dev2 N" "bus_idle ch p2" "busy_reads ch p2 = 0"
    "contents ch p2 = overwrite (contents ch p1) (a + k) (take (4096 * j) (drop k data))"
    by blast
  have lk: "length (take k data) = k" using k(1) by simp
  have "contents ch p2 = overwrite M a (take k data @ take (4096 * j) (drop k data))"
    using overwrite_append [of M a "take k data"] unfolding w2(5) c1 lk by simp
  moreover have "take k data @ take (4096 * j) (drop k data) = take (k + 4096 * j) data"
    by (simp add: take_add)
  moreover have "drop (4096 * j) (drop k data) = drop (k + 4096 * j) data" by (simp add: add.commute)
  ultimately show ?thesis using w2 by simp
qed

lemma spi_write_last:
  assumes m: "m25p pn N ch" and d: "dev_ok dev2 N" "bus_idle ch p2" "busy_reads ch p2 = 0"
    and c2: "contents ch p2 = overwrite M a (take (c - a) data)"
    and c: "a \<le> c" "c < a + length data" "c = 4096 * ((a + length data) div 4096)" and N: "a + length data \<le> N"
  shows "\<exists>dev' p'. my_spi_write pn dev2 (word_of_nat c)
        (take (unat (word_of_nat (a + length data - 1) - word_of_nat c + 1 :: u32)) (drop (c - a) data)) p2 = Some (dev', p') \<and>
      dev_ok dev' N \<and> bus_idle ch p' \<and> busy_reads ch p' = 0 \<and> contents ch p' = overwrite M a data"
proof -
  let ?n = "length data" and ?r = "drop (c - a) data"
  have N24: "N \<le> 2 ^ 24" using d by (simp add: dev_ok_def)
  obtain j where "a + ?n = c + Suc j" using c(2) by (metis less_imp_Suc_add add_Suc_right)
  then have "word_of_nat (a + ?n - 1) - word_of_nat c + 1 = (word_of_nat (a + ?n - c) :: u32)" by simp
  moreover have "unat (word_of_nat (a + ?n - c) :: u32) = a + ?n - c"
    using N N24 by (intro unat_24) linarith
  ultimately have tl: "take (unat (word_of_nat (a + ?n - 1) - word_of_nat c + 1 :: u32)) ?r = ?r"
    using c(1) by simp
  have "c mod 4096 = 0" "(a + ?n) mod 4096 < 4096" "a + ?n = 4096 * ((a + ?n) div 4096) + (a + ?n) mod 4096"
    using c(3) by simp_all
  then have "c mod 4096 + length ?r \<le> 4096" using c by simp
  moreover have "?r \<noteq> []" "c < N" using c N by simp_all
  ultimately obtain dev' p' where
    f: "my_spi_write pn dev2 (word_of_nat c) ?r p2 = Some (dev', p')" "dev_ok dev' N"
    "bus_idle ch p'" "busy_reads ch p' = 0" "contents ch p' = overwrite (contents ch p2) c ?r"
    using my_spi_write_contents [OF m d(1-3)] by blast
  have la: "length (take (c - a) data) = c - a" using c by simp
  have "contents ch p' = overwrite M a data"
    using overwrite_append [of M a "take (c - a) data" ?r] c(1) unfolding f(5) c2 la by simp
  then show ?thesis unfolding tl using f by simp
qed

lemma spi_write_overwrites:
  assumes m: "m25p pn N ch" and d: "dev_ok dev N" and p: "bus_idle ch p" "busy_reads ch p = 0"
    and a: "a + length data \<le> N" "data \<noteq> []"
  shows "\<exists>dev' p'. spi_write pn dev (addr24 (word_of_nat a)) data (int (length data)) p
      = Some (int (length data), dev', p') \<and> dev_ok dev' N \<and> bus_idle ch p' \<and> busy_reads ch p' = 0 \<and>
      contents ch p' = overwrite (contents ch p) a data"
proof -
  let ?n = "length data" and ?b = "a mod 4096" and ?s = "a div 4096" and ?l = "(a + length data) div 4096"
  define j where "j = ?l - next_sector a"
  define k where "k = head_len a ?n"
  define c where "c = a + k + 4096 * j"
  have n: "0 < ?n" using a(2) by simp
  have sz: "eraseSize dev = word_of_nat 4096" "deviceSize dev = word_of_nat N" "N \<le> 2 ^ 24"
    using d by (simp_all add: dev_ok_def)
  have small: "a < 2 ^ 24" "a + ?n \<le> 2 ^ 24" using a n sz(3) by linarith+
  have first: "get_binary_offset (addr24 (word_of_nat a)) = word_of_nat a"
    by (rule get_binary_offset_addr24 [OF small(1)])
  have fl: "word_of_nat a + word_of_int (int ?n) = (word_of_nat (a + ?n) :: u32)" by simp
  have last: "word_of_nat a + word_of_int (int ?n) - 1 = (word_of_nat (a + ?n - 1) :: u32)"
    using fl n by (cases "a + ?n") simp_all
  have uN: "unat (word_of_nat N :: u32) = N" "unat (word_of_nat (a + ?n - 1) :: u32) = a + ?n - 1"
    using small sz(3) by (intro unat_24; simp)+
  have inr: "\<not> word_of_nat N \<le> (word_of_nat (a + ?n - 1) :: u32)"
    unfolding word_le_nat_alt uN using a n by linarith
  have divs: "(word_of_nat (a + ?n) :: u32) div word_of_nat 4096 = word_of_nat ?l"
    "(word_of_nat a :: u32) div word_of_nat 4096 = word_of_nat ?s"
    "(word_of_nat a :: u32) mod word_of_nat 4096 = word_of_nat ?b"
    using small by (intro word_div_nat word_mod_nat; simp)+
  note walk = sector_walk [OF n, of a, folded j_def k_def]
  obtain dev1 p1 where h: "(if (word_of_nat ?b :: u32) \<noteq> 0
        then let sz = min (word_of_int (int ?n)) (word_of_nat 4096 - word_of_nat ?b :: u32) in
          map_option (\<lambda>(dev, p). (dev, word_of_nat ?s + 1 :: u32, word_of_nat a + sz, drop (unat sz) data, p))
            (my_spi_write pn dev (word_of_nat a) (take (unat sz) data) p)
        else Some (dev, word_of_nat ?s, word_of_nat a, data, p))
      = Some (dev1, word_of_nat (next_sector a), word_of_nat (a + k), drop k data, p1)"
    and d1: "dev_ok dev1 N" "bus_idle ch p1" "busy_reads ch p1 = 0" "contents ch p1 = overwrite (contents ch p) a (take k data)"
    using spi_write_head [OF assms] unfolding k_def by blast
  have "next_sector a \<le> 2 ^ 24" "?l \<le> 2 ^ 24"
    using small by (auto simp: next_sector_def intro: le_trans [OF div_le_dividend] Suc_leI)
  then have um: "unat (word_of_nat ?l :: u32) - unat (word_of_nat (next_sector a) :: u32) = j"
    by (simp add: unat_24 j_def)
  have dm: "a + ?n = 4096 * ?l + (a + ?n) mod 4096" by simp
  have c: "c \<le> a + ?n" "a \<le> c" "c - a = k + 4096 * j" "c = a + ?n \<or> c = 4096 * ?l"
    using walk dm by (auto simp: c_def)
  have al: "j = 0 \<or> (a + k) mod 4096 = 0" using walk(2) by (elim disjE conjE) simp_all
  have kj: "k + 4096 * j \<le> length data" using c(1) by (simp add: c_def)
  obtain dev2 p2 where w: "write_sectors pn j dev1 (word_of_nat (a + k)) (drop k data) p1
      = Some (dev2, word_of_nat c, drop (c - a) data, p2)"
    and d2: "dev_ok dev2 N" "bus_idle ch p2" "busy_reads ch p2 = 0" "contents ch p2 = overwrite (contents ch p) a (take (c - a) data)"
    using write_sectors_run [OF m d1 walk(1) a(1) al kj] unfolding c(3) unfolding c_def by blast
  have sw: "spi_write pn dev (addr24 (word_of_nat a)) data (int ?n) p =
      (if (word_of_nat c :: u32) \<le> word_of_nat (a + ?n - 1)
       then map_option (\<lambda>(dev, p). (int ?n, dev, p))
          (my_spi_write pn dev2 (word_of_nat c) (take (unat (word_of_nat (a + ?n - 1) - word_of_nat c + 1 :: u32)) (drop (c - a) data)) p2)
       else Some (int ?n, dev2, p2))"
    unfolding spi_write_def Let_def first
    unfolding last
    unfolding fl sz(1,2) divs h [unfolded Let_def] option.case prod.case um w
    using n inr by simp
  have uc: "unat (word_of_nat c :: u32) = c" using c small by (intro unat_24) simp
  have le: "(word_of_nat c :: u32) \<le> word_of_nat (a + ?n - 1) \<longleftrightarrow> c \<noteq> a + ?n"
    unfolding word_le_nat_alt uc uN using n c(1) by linarith
  show ?thesis
  proof (cases "c = a + ?n")
    case True
    then show ?thesis unfolding sw using d2 le by simp
  next
    case False
    then have cc: "c < a + ?n" "c = 4096 * ?l" using c by auto
    from spi_write_last [OF m d2 c(2) cc a(1)]
    show ?thesis unfolding sw using le False by auto
  qed
qed

text \<open>C3: On a chip with 4 KiB sectors that behaves as documented, \<open>spi_write\<close> of any data to any place within the device
  returns, leaves the chip ready, and changes exactly the addressed bytes, however the range
  falls on sectors and pages.\<close>

theorem spi_write_contents:
  assumes m: "m25p pn N ch" and d: "dev_ok dev N" and p: "bus_idle ch p" "busy_reads ch p = 0"
    and a: "a + length data \<le> N" "data \<noteq> []"
  shows "\<exists>dev' p'. spi_write pn dev (addr24 (word_of_nat a)) data (int (length data)) p
      = Some (int (length data), dev', p') \<and> dev_ok dev' N \<and> bus_idle ch p' \<and> busy_reads ch p' = 0 \<and>
      contents ch p' = overwrite (contents ch p) a data"
  using assms by (rule spi_write_overwrites)

section \<open>The byte exchange and a chip\<close>

text \<open>
  A mode 3 slave on the four lines: it presents the next bit of its output byte, most significant
  first, on the falling clock edge and samples the data line on the rising edge. Its core is
  given by the byte it presents, what it does with a received byte and with the select line.
\<close>

record 's slave =
  out_byte :: "'s \<Rightarrow> u8"
  got_byte :: "u8 \<Rightarrow> 's \<Rightarrow> 's"
  bus_selected :: "bool \<Rightarrow> 's \<Rightarrow> 's"

record 's lines =
  bus_core :: 's
  bus_sda :: bool
  bus_cnt :: nat
  bus_acc :: u8
  bus_miso :: bool

definition slave_clk :: "'s slave \<Rightarrow> bool \<Rightarrow> 's lines \<Rightarrow> 's lines" where
  "slave_clk sl v l =
     (if \<not> v then l\<lparr>bus_miso := bit (out_byte sl (bus_core l)) (7 - bus_cnt l)\<rparr>
      else let acc' = push_bit 1 (bus_acc l) OR of_bool (bus_sda l) in
        if bus_cnt l = 7 then l\<lparr>bus_core := got_byte sl acc' (bus_core l), bus_cnt := 0, bus_acc := 0\<rparr>
        else l\<lparr>bus_cnt := bus_cnt l + 1, bus_acc := acc'\<rparr>)"

definition slave_pins :: "'s slave \<Rightarrow> 's lines pins" where
  "slave_pins sl = \<lparr>SPI_SCL = slave_clk sl, SPI_SDA = (\<lambda>v l. l\<lparr>bus_sda := v\<rparr>), SPI_READ = bus_miso,
     chipsel = (\<lambda>v l. l\<lparr>bus_core := bus_selected sl v (bus_core l)\<rparr>)\<rparr>"

lemma shift_in_bit: "push_bit 1 (drop_bit (Suc i) x) OR of_bool (bit x i) = drop_bit i (x :: 'a::len word)"
proof (rule bit_word_eqI)
  fix n assume "n < LENGTH('a)"
  then show "bit (push_bit 1 (drop_bit (Suc i) x) OR of_bool (bit x i)) n = bit (drop_bit i x) n"
    by (cases n) (auto simp: bit_simps simp del: push_bit_Suc)
qed

lemma spi_bit_slave:
  assumes "i < 8" "bus_cnt l = 7 - i"
  shows "spi_bit (slave_pins sl) out i (inw, l) =
     (push_bit 1 inw OR of_bool (bit (out_byte sl (bus_core l)) i),
      let a = push_bit 1 (bus_acc l) OR of_bool (bit out i);
          l = l\<lparr>bus_miso := bit (out_byte sl (bus_core l)) i, bus_sda := bit out i\<rparr>
      in if i = 0 then l\<lparr>bus_core := got_byte sl a (bus_core l), bus_cnt := 0, bus_acc := 0\<rparr>
         else l\<lparr>bus_cnt := 8 - i, bus_acc := a\<rparr>)"
proof -
  have "7 - (7 - i) = i" "7 - i = 7 \<longleftrightarrow> i = 0" "Suc (7 - i) = 8 - i" using assms(1) by auto
  with assms(2) show ?thesis
    unfolding spi_bit_def bit_iff_and_push_bit_not_eq_0 [symmetric]
    by (simp add: slave_pins_def slave_clk_def Let_def del: push_bit_of_1 push_bit_Suc)
qed

lemma spi_bits_slave:
  assumes "bus_cnt l = 0" "bus_acc l = 0"
  shows "j < 8 \<Longrightarrow> \<exists>m d. fold (spi_bit (slave_pins sl) out) (rev [8 - j..<8]) (0, l)
     = (drop_bit (8 - j) (ucast (out_byte sl (bus_core l))),
        l\<lparr>bus_miso := m, bus_sda := d, bus_cnt := j, bus_acc := drop_bit (8 - j) (ucast out)\<rparr>)"
proof (induction j)
  case 0
  have "drop_bit 8 (ucast out :: u8) = 0" "drop_bit 8 (ucast (out_byte sl (bus_core l)) :: u32) = 0"
    by (rule bit_word_eqI; auto simp: bit_simps dest: bit_imp_le_length)+
  moreover have "l\<lparr>bus_miso := bus_miso l, bus_sda := bus_sda l, bus_cnt := 0, bus_acc := 0\<rparr> = l" using assms by simp
  ultimately show ?case by (metis diff_zero fold_Nil id_apply rev.simps(1) upt_conv_Nil order_refl)
next
  case (Suc j)
  let ?i = "7 - j"
  have r: "rev [8 - Suc j..<8] = rev [8 - j..<8] @ [?i]" "8 - j = Suc ?i" "8 - Suc j = ?i" "?i < 8" "?i \<noteq> 0" "8 - ?i = Suc j" "7 - ?i = j"
  proof -
    show e: "8 - j = Suc ?i" using Suc.prems by simp
    have "[?i..<8] = ?i # [8 - j..<8]" unfolding e by (rule upt_conv_Cons) simp
    then show "rev [8 - Suc j..<8] = rev [8 - j..<8] @ [?i]" by simp
  qed (use Suc.prems in auto)
  from Suc obtain m d where IH: "fold (spi_bit (slave_pins sl) out) (rev [8 - j..<8]) (0, l)
     = (drop_bit (8 - j) (ucast (out_byte sl (bus_core l))),
        l\<lparr>bus_miso := m, bus_sda := d, bus_cnt := j, bus_acc := drop_bit (8 - j) (ucast out)\<rparr>)" by auto
  have b: "bit (out_byte sl (bus_core l)) ?i = bit (ucast (out_byte sl (bus_core l)) :: u32) ?i"
    "bit out ?i = bit (ucast out :: u8) ?i"
    by (auto simp: bit_simps)
  show ?case
    unfolding r(1) fold_append comp_def IH
    using spi_bit_slave [of ?i "l\<lparr>bus_miso := m, bus_sda := d, bus_cnt := j, bus_acc := drop_bit (8 - j) (ucast out)\<rparr>" sl out
        "drop_bit (8 - j) (ucast (out_byte sl (bus_core l)))"] r(3-7)
    by (simp add: Let_def r(2) b shift_in_bit del: push_bit_Suc One_nat_def) blast
qed

lemma spi_xfer_one_word_slave:
  assumes "bus_cnt l = 0" "bus_acc l = 0"
  shows "\<exists>m d. spi_xfer_one_word (slave_pins sl) out l
     = (ucast (out_byte sl (bus_core l)),
        l\<lparr>bus_core := got_byte sl (ucast out) (bus_core l), bus_miso := m, bus_sda := d\<rparr>)"
proof -
  have u: "[7, 6, 5, 4, 3, 2, 1, 0] = rev [8 - 7..<8] @ [0::nat]" by (simp add: upt_rec)
  obtain m d where f: "fold (spi_bit (slave_pins sl) out) (rev [8 - 7..<8]) (0, l)
     = (drop_bit (8 - 7) (ucast (out_byte sl (bus_core l))),
        l\<lparr>bus_miso := m, bus_sda := d, bus_cnt := 7, bus_acc := drop_bit (8 - 7) (ucast out)\<rparr>)"
    using spi_bits_slave [OF assms, of 7 sl out] by auto
  have b: "bit (out_byte sl (bus_core l)) 0 = bit (ucast (out_byte sl (bus_core l)) :: u32) 0"
    "bit out 0 = bit (ucast out :: u8) 0" by (simp_all add: bit_simps)
  have s: "push_bit 1 (drop_bit 1 x) OR of_bool (bit x 0) = x" for x :: "'b::len word"
    using shift_in_bit [of 0 x] by simp
  have "spi_xfer_one_word (slave_pins sl) out l = spi_bit (slave_pins sl) out 0
      (drop_bit 1 (ucast (out_byte sl (bus_core l))),
        l\<lparr>bus_miso := m, bus_sda := d, bus_cnt := 7, bus_acc := drop_bit 1 (ucast out)\<rparr>)"
    unfolding spi_xfer_one_word_def u fold_append comp_def f by simp
  also have "\<dots> = (ucast (out_byte sl (bus_core l)),
      l\<lparr>bus_miso := bit (out_byte sl (bus_core l)) 0, bus_sda := bit out 0, bus_cnt := 0, bus_acc := 0,
        bus_core := got_byte sl (ucast out) (bus_core l)\<rparr>)"
    by (subst spi_bit_slave) (simp_all add: Let_def b s del: push_bit_Suc One_nat_def)
  finally show ?thesis
    using assms by (intro exI [of _ "bit (out_byte sl (bus_core l)) 0"] exI [of _ "bit out 0"]) (cases l, simp)
qed

text \<open>Bit-banging a word against a mode 3 slave exchanges bytes: the slave receives the low eight bits of the word sent, most
  significant first, and the driver gets the byte the slave presented.\<close>

theorem spi_xfer_one_word_exchanges:
  assumes "bus_cnt l = 0" "bus_acc l = 0"
  shows "\<exists>m d. spi_xfer_one_word (slave_pins sl) out l
     = (ucast (out_byte sl (bus_core l)),
        l\<lparr>bus_core := got_byte sl (ucast out) (bus_core l), bus_miso := m, bus_sda := d\<rparr>)"
  using assms by (rule spi_xfer_one_word_slave)

text \<open>A run of bytes against a slave.\<close>

fun slave_run :: "'s slave \<Rightarrow> u8 list \<Rightarrow> 's \<Rightarrow> u8 list \<times> 's" where
  "slave_run sl [] c = ([], c)"
| "slave_run sl (b # bs) c =
     (let (is, c') = slave_run sl bs (got_byte sl b c) in (out_byte sl c # is, c'))"

definition bus_aligned :: "'s lines \<Rightarrow> bool" where
  "bus_aligned l \<longleftrightarrow> bus_cnt l = 0 \<and> bus_acc l = 0"

lemma xfer_bytes_slave:
  "bus_aligned l \<Longrightarrow> \<exists>l'. xfer_bytes (slave_pins sl) bs l = (fst (slave_run sl bs (bus_core l)), l') \<and>
     bus_aligned l' \<and> bus_core l' = snd (slave_run sl bs (bus_core l))"
proof (induction bs arbitrary: l)
  case (Cons b bs)
  obtain m d where x: "spi_xfer_one_word (slave_pins sl) (ucast b) l
     = (ucast (out_byte sl (bus_core l)), l\<lparr>bus_core := got_byte sl (ucast (ucast b :: u32)) (bus_core l), bus_miso := m, bus_sda := d\<rparr>)"
    using spi_xfer_one_word_slave [of l sl "ucast b"] Cons.prems by (auto simp: bus_aligned_def)
  let ?l = "l\<lparr>bus_core := got_byte sl b (bus_core l), bus_miso := m, bus_sda := d\<rparr>"
  have "bus_aligned ?l" using Cons.prems by (simp add: bus_aligned_def)
  from Cons.IH [OF this] x show ?case by (auto simp: Let_def split: prod.splits)
qed simp

lemma transact_slave:
  assumes "bus_aligned l"
  shows "\<exists>l'. transact (slave_pins sl) bs l = (fst (slave_run sl bs (bus_selected sl True (bus_core l))), l') \<and> bus_aligned l' \<and>
     bus_core l' = bus_selected sl False (snd (slave_run sl bs (bus_selected sl True (bus_core l))))"
proof -
  let ?l = "l\<lparr>bus_core := bus_selected sl True (bus_core l)\<rparr>"
  have "bus_aligned ?l" using assms by (simp add: bus_aligned_def)
  from xfer_bytes_slave [OF this, of sl bs] show ?thesis
    by (auto simp: transact_def slave_pins_def bus_aligned_def Let_def split: prod.splits)
qed

text \<open>
  A flash chip as such a core: it collects the bytes of a command while selected and carries the
  command out when it is released; an erase or a program keeps it busy for two status reads.
\<close>

record flash_core =
  fl_store :: "nat \<Rightarrow> u8"
  fl_latch :: bool
  fl_wip :: nat
  fl_cmd :: "u8 list"

definition cmd_addr :: "u8 list \<Rightarrow> nat" where
  "cmd_addr bs = unat (get_binary_offset (take 3 (drop 1 bs)))"

definition flash_out :: "flash_core \<Rightarrow> u8" where
  "flash_out c =
     (if fl_cmd c = [0x05] then of_bool (0 < fl_wip c)
      else if 4 \<le> length (fl_cmd c) \<and> hd (fl_cmd c) = 0x03 \<and> fl_wip c = 0
      then fl_store c (cmd_addr (fl_cmd c) + (length (fl_cmd c) - 4))
      else 0xff)"

definition flash_exec :: "flash_core \<Rightarrow> flash_core" where
  "flash_exec c =
     (let a = cmd_addr (fl_cmd c); op = hd (fl_cmd c) in
      if fl_cmd c = [] then c
      else if op = 0x05 then c\<lparr>fl_wip := fl_wip c - 1\<rparr>
      else if fl_wip c \<noteq> 0 then c
      else if op = 0x06 then c\<lparr>fl_latch := True\<rparr>
      else if op = 0x20 \<and> fl_latch c
      then c\<lparr>fl_store := (\<lambda>x. if x div 4096 = a div 4096 then 0xff else fl_store c x), fl_latch := False, fl_wip := 2\<rparr>
      else if op = 0x02 \<and> fl_latch c
      then c\<lparr>fl_store := (\<lambda>x. if a \<le> x \<and> x < a + (length (fl_cmd c) - 4)
                then fl_store c x AND fl_cmd c ! (x - a + 4) else fl_store c x), fl_latch := False, fl_wip := 2\<rparr>
      else c)"

definition flash_slave :: "flash_core slave" where
  "flash_slave = \<lparr>out_byte = flash_out, got_byte = (\<lambda>b c. c\<lparr>fl_cmd := fl_cmd c @ [b]\<rparr>),
     bus_selected = (\<lambda>v c. if v then c\<lparr>fl_cmd := []\<rparr> else (flash_exec c)\<lparr>fl_cmd := []\<rparr>)\<rparr>"

definition flash_chip :: "flash_core lines chip" where
  "flash_chip = \<lparr>contents = (\<lambda>l. fl_store (bus_core l)), write_enabled = (\<lambda>l. fl_latch (bus_core l)), busy_reads = (\<lambda>l. fl_wip (bus_core l)),
     bus_idle = bus_aligned\<rparr>"

lemma slave_run_flash:
  "snd (slave_run flash_slave bs c) = c\<lparr>fl_cmd := fl_cmd c @ bs\<rparr>"
  "fst (slave_run flash_slave bs c) = map (\<lambda>k. flash_out (c\<lparr>fl_cmd := fl_cmd c @ take k bs\<rparr>)) [0..<length bs]"
proof (induction bs arbitrary: c)
  case (Cons b bs)
  case 1
  show ?case using Cons.IH(1) [of "c\<lparr>fl_cmd := fl_cmd c @ [b]\<rparr>"]
    by (auto simp: flash_slave_def Let_def split: prod.splits)
  case 2
  have "[0..<length (b # bs)] = 0 # map Suc [0..<length bs]" by (simp add: upt_conv_Cons map_Suc_upt del: upt_Suc)
  then show ?case using Cons.IH(2) [of "c\<lparr>fl_cmd := fl_cmd c @ [b]\<rparr>"]
    by (auto simp: flash_slave_def Let_def comp_def split: prod.splits)
qed simp_all

lemma flash_transact:
  assumes "bus_aligned l"
  shows "\<exists>l'. transact (slave_pins flash_slave) bs l
      = (map (\<lambda>k. flash_out (bus_core l\<lparr>fl_cmd := take k bs\<rparr>)) [0..<length bs], l') \<and> bus_aligned l' \<and>
     bus_core l' = (flash_exec (bus_core l\<lparr>fl_cmd := bs\<rparr>))\<lparr>fl_cmd := []\<rparr>"
  using transact_slave [OF assms, of flash_slave bs]
  by (simp add: slave_run_flash flash_slave_def [THEN arg_cong, of bus_selected])

lemma length_addr24 [simp]: "length (addr24 w) = 3"
  by (simp add: addr24_def)

lemma cmd_addr_24:
  assumes "a < 2 ^ 24"
  shows "cmd_addr (x # addr24 (word_of_nat a) @ rest) = a"
  using assms get_binary_offset_addr24 [OF assms] by (simp add: cmd_addr_def unat_small)

lemma cmd_addr_24': "a < 2 ^ 24 \<Longrightarrow> cmd_addr (x # addr24 (word_of_nat a)) = a"
  using cmd_addr_24 [of a x "[]"] by simp

theorem flash_is_m25p:
  assumes "N \<le> 2 ^ 24"
  shows "m25p (slave_pins flash_slave) N flash_chip"
  unfolding m25p_def
proof (intro conjI)
  show "rdsr_ok (slave_pins flash_slave) flash_chip"
    unfolding rdsr_ok_def
  proof (intro allI impI)
    fix l assume "bus_idle flash_chip l"
    then have "bus_aligned l" by (simp add: flash_chip_def)
    from flash_transact [OF this, of "[5, 0]"]
    show "\<exists>x s p'. transact (slave_pins flash_slave) [5, 0] l = ([x, s], p') \<and>
        bit s 0 = (0 < busy_reads flash_chip l) \<and> bus_idle flash_chip p' \<and> contents flash_chip p' = contents flash_chip l \<and>
        write_enabled flash_chip p' = write_enabled flash_chip l \<and> busy_reads flash_chip p' = busy_reads flash_chip l - 1"
      by (auto simp: flash_chip_def flash_exec_def flash_out_def upt_rec)
  qed
  show "wren_ok (slave_pins flash_slave) flash_chip"
    unfolding wren_ok_def
  proof (intro allI impI)
    fix l assume l: "bus_idle flash_chip l \<and> busy_reads flash_chip l = 0"
    then have "bus_aligned l" by (simp add: flash_chip_def)
    from flash_transact [OF this, of "[6]"] l
    show "let p' = snd (transact (slave_pins flash_slave) [6] l)
       in bus_idle flash_chip p' \<and> busy_reads flash_chip p' = 0 \<and> write_enabled flash_chip p' \<and> contents flash_chip p' = contents flash_chip l"
      by (auto simp: flash_chip_def flash_exec_def)
  qed
  show "read_ok (slave_pins flash_slave) N flash_chip"
    unfolding read_ok_def
  proof (intro allI impI)
    fix l a n assume l: "bus_idle flash_chip l \<and> busy_reads flash_chip l = 0 \<and> a + n \<le> N"
    let ?bs = "(0x03 # addr24 (word_of_nat a)) @ replicate n (0x00 :: u8)"
    have al: "bus_aligned l" and w: "fl_wip (bus_core l) = 0" using l by (simp_all add: flash_chip_def)
    from flash_transact [OF al, of ?bs] obtain l' where
      t: "transact (slave_pins flash_slave) ?bs l = (map (\<lambda>k. flash_out (bus_core l\<lparr>fl_cmd := take k ?bs\<rparr>)) [0..<length ?bs], l')"
      "bus_aligned l'" "bus_core l' = (flash_exec (bus_core l\<lparr>fl_cmd := ?bs\<rparr>))\<lparr>fl_cmd := []\<rparr>" by blast
    have o: "flash_out (bus_core l\<lparr>fl_cmd := take (4 + i) ?bs\<rparr>) = fl_store (bus_core l) (a + i)" if "i < n" for i
    proof -
      have tk: "take (4 + i) ?bs = 0x03 # addr24 (word_of_nat a) @ replicate i 0"
        using that by (simp add: eval_nat_numeral)
      have "a < 2 ^ 24" using l that assms by linarith
      then show ?thesis unfolding tk using w by (simp add: flash_out_def cmd_addr_24)
    qed
    have "drop 4 (map (\<lambda>k. flash_out (bus_core l\<lparr>fl_cmd := take k ?bs\<rparr>)) [0..<length ?bs])
        = map (\<lambda>i. flash_out (bus_core l\<lparr>fl_cmd := take (4 + i) ?bs\<rparr>)) [0..<n]"
      by (intro nth_equalityI) simp_all
    also have "\<dots> = map (\<lambda>i. fl_store (bus_core l) (a + i)) [0..<n]"
      by (rule map_cong [OF refl], rule o) simp
    finally show "let (ins, p') = transact (slave_pins flash_slave) ?bs l
       in drop 4 ins = map (\<lambda>i. contents flash_chip l (a + i)) [0..<n] \<and> bus_idle flash_chip p' \<and> busy_reads flash_chip p' = 0 \<and>
         write_enabled flash_chip p' = write_enabled flash_chip l \<and> contents flash_chip p' = contents flash_chip l"
      using t w by (simp add: flash_chip_def flash_exec_def Let_def)
  qed
  show "erase_ok (slave_pins flash_slave) N flash_chip"
    unfolding erase_ok_def
  proof (intro allI impI)
    fix l a assume l: "bus_idle flash_chip l \<and> busy_reads flash_chip l = 0 \<and> write_enabled flash_chip l \<and> a < N"
    then have "bus_aligned l" "a < 2 ^ 24" using assms by (simp_all add: flash_chip_def)
    with flash_transact [OF this(1), of "0x20 # addr24 (word_of_nat a)"] l cmd_addr_24' [of a]
    show "let p' = snd (transact (slave_pins flash_slave) (0x20 # addr24 (word_of_nat a)) l)
       in bus_idle flash_chip p' \<and> contents flash_chip p' = (\<lambda>x. if x div 4096 = a div 4096 then 0xff else contents flash_chip l x)"
      by (auto simp: flash_chip_def flash_exec_def Let_def)
  qed
  show "program_ok (slave_pins flash_slave) N flash_chip"
    unfolding program_ok_def
  proof (intro allI impI)
    fix l a and data :: "u8 list"
    assume l: "bus_idle flash_chip l \<and> busy_reads flash_chip l = 0 \<and> write_enabled flash_chip l \<and> a < N \<and> a mod 256 + length data \<le> 256"
    let ?bs = "(0x02 # addr24 (word_of_nat a)) @ data"
    have al: "bus_aligned l" "fl_wip (bus_core l) = 0" "fl_latch (bus_core l)" and a: "a < 2 ^ 24" using l assms by (simp_all add: flash_chip_def)
    from flash_transact [OF al(1), of ?bs] obtain l' where
      t: "transact (slave_pins flash_slave) ?bs l = (map (\<lambda>k. flash_out (bus_core l\<lparr>fl_cmd := take k ?bs\<rparr>)) [0..<length ?bs], l')"
      "bus_aligned l'" "bus_core l' = (flash_exec (bus_core l\<lparr>fl_cmd := ?bs\<rparr>))\<lparr>fl_cmd := []\<rparr>" by blast
    have "(addr24 (word_of_nat a) @ data) ! (3 + x - a) = data ! (x - a)" if "a \<le> x" for x
      using that by (auto simp: le_iff_add nth_append)
    moreover have "length ?bs - 4 = length data" "cmd_addr ?bs = a" using a by (simp_all add: cmd_addr_24)
    ultimately show "let p' = snd (transact (slave_pins flash_slave) ?bs l)
       in bus_idle flash_chip p' \<and> contents flash_chip p' = (\<lambda>x. if a \<le> x \<and> x < a + length data
            then contents flash_chip l x AND data ! (x - a) else contents flash_chip l x)"
      using t al by (simp add: flash_chip_def flash_exec_def Let_def cong: if_cong)
  qed
qed

definition m25p80_dev :: spi_dev where
  "m25p80_dev = \<lparr>pageSize = 256, eraseSize = 4096, deviceSize = 0x100000, buff = replicate (256 * 1024) 0\<rparr>"

definition m25p80_bus :: "flash_core lines" where
  "m25p80_bus = \<lparr>bus_core = \<lparr>fl_store = (\<lambda>a. word_of_nat a), fl_latch = False, fl_wip = 3, fl_cmd = []\<rparr>,
     bus_sda = False, bus_cnt = 0, bus_acc = 0, bus_miso = False\<rparr>"

lemma m25p80_ok: "dev_ok m25p80_dev 0x100000"
  by (simp add: dev_ok_def m25p80_dev_def)

definition m25p80_idle :: "flash_core lines" where
  "m25p80_idle = m25p80_bus\<lparr>bus_core := bus_core m25p80_bus\<lparr>fl_wip := 0\<rparr>\<rparr>"

lemma m25p80_idle: "bus_idle flash_chip m25p80_idle" "busy_reads flash_chip m25p80_idle = 0"
  by (simp_all add: flash_chip_def m25p80_idle_def m25p80_bus_def bus_aligned_def)

theorem spi_xfer_one_word_exchanges_witness:
  "\<exists>m d. spi_xfer_one_word (slave_pins flash_slave) 0x9F m25p80_idle
     = (ucast (out_byte flash_slave (bus_core m25p80_idle)),
        m25p80_idle\<lparr>bus_core := got_byte flash_slave (ucast (0x9F :: u32)) (bus_core m25p80_idle),
          bus_miso := m, bus_sda := d\<rparr>)"
  by (rule spi_xfer_one_word_exchanges) (simp_all add: m25p80_idle_def m25p80_bus_def)

theorem spi_write_contents_witness:
  "\<exists>dev' p'. spi_write (slave_pins flash_slave) m25p80_dev (addr24 (word_of_nat 4094)) [1, 2, 3]
       (int (length [1, 2, 3 :: u8])) m25p80_idle = Some (int (length [1, 2, 3 :: u8]), dev', p') \<and> dev_ok dev' 0x100000 \<and>
     bus_idle flash_chip p' \<and> busy_reads flash_chip p' = 0 \<and>
     contents flash_chip p' = overwrite (contents flash_chip m25p80_idle) 4094 [1, 2, 3]"
  by (rule spi_write_contents [OF flash_is_m25p m25p80_ok m25p80_idle]) simp_all

section \<open>Helpers over the driver\<close>

text \<open>
  \<open>common/cmd_spi.c\<close>: the address is split into three bytes; \<open>uninit\<close> is what an uninitialised
  local holds when the read fails.
\<close>

definition ReadSPIFlashDataByChar :: "'p pins \<Rightarrow> spi_dev \<Rightarrow> u8 \<Rightarrow> u32 \<Rightarrow> 'p \<Rightarrow> u8 \<times> 'p" where
  "ReadSPIFlashDataByChar pn dev uninit AddressOfFlag p =
     (let StartAddr = addr24 AddressOfFlag;
          (_, buffer, p) = spi_read pn dev StartAddr 1 p
      in (case buffer of [] \<Rightarrow> uninit | CharData # _ \<Rightarrow> CharData, p))"

definition WriteSPIFlashDataByChar :: "'p pins \<Rightarrow> spi_dev \<Rightarrow> u32 \<Rightarrow> u8 \<Rightarrow> 'p \<Rightarrow> (spi_dev \<times> 'p) option" where
  "WriteSPIFlashDataByChar pn dev AddressOfFlag Data p =
     map_option snd (spi_write pn dev (addr24 AddressOfFlag) [Data] 1 p)"

definition ReadSPIFlashDataToBuffer :: "'p pins \<Rightarrow> spi_dev \<Rightarrow> u32 \<Rightarrow> u8 list \<Rightarrow> u32 \<Rightarrow> 'p \<Rightarrow> u8 list \<times> 'p" where
  "ReadSPIFlashDataToBuffer pn dev AddressOfFlag buffer len p =
     (let (_, bytes, p) = spi_read pn dev (addr24 AddressOfFlag) (sint len) p
      in (blit buffer 0 bytes, p))"

definition WriteSPIFlashDataFromBuffer ::
    "'p pins \<Rightarrow> spi_dev \<Rightarrow> u32 \<Rightarrow> u8 list \<Rightarrow> u32 \<Rightarrow> 'p \<Rightarrow> (spi_dev \<times> 'p) option" where
  "WriteSPIFlashDataFromBuffer pn dev AddressOfFlag buffer len p =
     map_option snd (spi_write pn dev (addr24 AddressOfFlag) (take (unat len) buffer) (sint len) p)"

text \<open>
  \<open>do_auto_update_uboot_to_spi\<close> is called as a function: \<open>argc\<close> is the offset of the image from
  \<open>0x80000000\<close> and \<open>flag\<close> its size. It returns 0 whatever \<open>spi_write\<close> returned.
\<close>

definition do_auto_update_uboot_to_spi ::
    "'p pins \<Rightarrow> spi_dev \<Rightarrow> (nat \<Rightarrow> u8) \<Rightarrow> int \<Rightarrow> int \<Rightarrow> 'p \<Rightarrow> (int \<times> spi_dev \<times> 'p) option" where
  "do_auto_update_uboot_to_spi pn dev ram flag argc p =
     (let StartAddr = [0];
          DataBufferAddr = 0x80000000 + word_of_int argc :: u32;
          file_size = word_of_int flag :: u32
      in map_option (\<lambda>(_, dev, p). (0, dev, p))
           (spi_write pn dev StartAddr
              (map (\<lambda>i. ram (unat (DataBufferAddr + word_of_nat i))) [0..<unat file_size])
              (sint file_size) p))"

definition do_update_flag :: "'p pins \<Rightarrow> spi_dev \<Rightarrow> 'p \<Rightarrow> (int \<times> spi_dev \<times> 'p) option" where
  "do_update_flag pn dev p =
     (let PushUpdateFlag = 0xfbcdbcdf; StartAddr = 0x90000
      in map_option (\<lambda>(dev, p). (0, dev, p))
           (WriteSPIFlashDataFromBuffer pn dev StartAddr (le32_bytes PushUpdateFlag) 4 p))"

text \<open>
  \<open>common/cmd_eeprom.c\<close> with \<open>CONFIG_SPI\<close> and \<open>CFG_I2C_FRAM\<close>: \<open>len = end - offset\<close>, so the body of
  \<open>while (offset < end)\<close> runs once at most. The result code stays 0.
\<close>

definition eeprom_addr :: "u32 \<Rightarrow> u32 \<Rightarrow> u8 list" where
  "eeprom_addr dev_addr offset =
     (let blk_off = offset AND 0xFF
      in [ucast (drop_bit 16 offset) OR ucast dev_addr, ucast (drop_bit 8 offset), ucast blk_off])"

definition eeprom_read :: "'p pins \<Rightarrow> spi_dev \<Rightarrow> u32 \<Rightarrow> u32 \<Rightarrow> u32 \<Rightarrow> 'p \<Rightarrow> int \<times> u8 list \<times> 'p" where
  "eeprom_read pn dev dev_addr offset cnt p =
     (let end' = offset + cnt; rcode = 0 in
      if offset < end' then
        let len = end' - offset;
            (_, buffer, p) = spi_read pn dev (eeprom_addr dev_addr offset) (sint len) p
        in (rcode, buffer, p)
      else (rcode, [], p))"

definition eeprom_write ::
    "'p pins \<Rightarrow> spi_dev \<Rightarrow> u32 \<Rightarrow> u32 \<Rightarrow> u8 list \<Rightarrow> u32 \<Rightarrow> 'p \<Rightarrow> (int \<times> spi_dev \<times> 'p) option" where
  "eeprom_write pn dev dev_addr offset buffer cnt p =
     (let end' = offset + cnt; rcode = 0 in
      if offset < end' then
        let len = end' - offset
        in map_option (\<lambda>(_, dev, p). (rcode, dev, p))
             (spi_write pn dev (eeprom_addr dev_addr offset) (take (unat len) buffer) (sint len) p)
      else Some (rcode, dev, p))"

lemma eeprom_addr24: "eeprom_addr 0 offset = addr24 offset"
proof -
  have m: "(0xff :: u32) = mask 8" by (simp add: mask_eq_exp_minus_1)
  show ?thesis
    by (auto simp: eeprom_addr_def addr24_def m bit_mask_iff intro!: bit_word_eqI
        simp: bit_and_iff bit_ucast_iff bit_drop_bit_eq)
qed

lemma eeprom_write_overwrites:
  assumes m: "m25p pn N ch" and d: "dev_ok dev N" and p: "bus_idle ch p" "busy_reads ch p = 0"
    and a: "a + length data \<le> N" "data \<noteq> []"
  shows "\<exists>dev' p'. eeprom_write pn dev 0 (word_of_nat a) data (word_of_nat (length data)) p = Some (0, dev', p') \<and>
     dev_ok dev' N \<and> bus_idle ch p' \<and> busy_reads ch p' = 0 \<and> contents ch p' = overwrite (contents ch p) a data"
proof -
  let ?n = "length data"
  have N: "N \<le> 2 ^ 24" using d by (simp add: dev_ok_def)
  have small: "a + ?n < 2 ^ 31" "0 < ?n" using N a by simp_all
  have ab: "unat (word_of_nat a :: u32) = a" "unat (word_of_nat (a + ?n) :: u32) = a + ?n" "unat (word_of_nat ?n :: u32) = ?n"
    using small by (intro unat_small; simp)+
  have lt: "(word_of_nat a :: u32) < word_of_nat a + word_of_nat ?n"
    using small(2) ab by (simp add: word_less_nat_alt)
  have ln: "word_of_nat a + word_of_nat ?n - word_of_nat a = (word_of_nat ?n :: u32)" by simp
  have sn: "sint (word_of_nat ?n :: u32) = int ?n" using small by (intro sint_small) simp
  obtain dev' p1 where w: "spi_write pn dev (addr24 (word_of_nat a)) data (int ?n) p = Some (int ?n, dev', p1)"
    "dev_ok dev' N" "bus_idle ch p1" "busy_reads ch p1 = 0" "contents ch p1 = overwrite (contents ch p) a data"
    using spi_write_overwrites [OF m d p a] by blast
  have "eeprom_write pn dev 0 (word_of_nat a) data (word_of_nat ?n) p = Some (0, dev', p1)"
    unfolding eeprom_write_def Let_def ln sn eeprom_addr24 using lt ab(3) w(1) by simp
  with w show ?thesis by blast
qed

lemma eeprom_read_contents:
  assumes m: "m25p pn N ch" and d: "dev_ok dev N" and p: "bus_idle ch p" "busy_reads ch p = 0"
    and a: "a + n \<le> N" "0 < n"
  shows "\<exists>p'. eeprom_read pn dev 0 (word_of_nat a) (word_of_nat n) p = (0, map (\<lambda>i. contents ch p (a + i)) [0..<n], p') \<and>
     contents ch p' = contents ch p"
proof -
  have N: "N \<le> 2 ^ 24" using d by (simp add: dev_ok_def)
  have small: "a + n < 2 ^ 31" using N a by simp
  have ab: "unat (word_of_nat a :: u32) = a" "unat (word_of_nat (a + n) :: u32) = a + n"
    using small by (intro unat_small; simp)+
  have lt: "(word_of_nat a :: u32) < word_of_nat a + word_of_nat n"
    using a(2) ab by (simp add: word_less_nat_alt)
  have ln: "word_of_nat a + word_of_nat n - word_of_nat a = (word_of_nat n :: u32)" by simp
  have sn: "sint (word_of_nat n :: u32) = int n" using small by (intro sint_small) simp
  have "read_ok pn N ch" using m by (simp add: m25p_def)
  from spi_read_contents [OF this d p a] obtain p2 where
    r: "spi_read pn dev (addr24 (word_of_nat a)) (int n) p = (int n, map (\<lambda>i. contents ch p (a + i)) [0..<n], p2)"
    "contents ch p2 = contents ch p" by blast
  have "eeprom_read pn dev 0 (word_of_nat a) (word_of_nat n) p = (0, map (\<lambda>i. contents ch p (a + i)) [0..<n], p2)"
    unfolding eeprom_read_def Let_def ln sn eeprom_addr24 r(1) using lt by simp
  with r(2) show ?thesis by blast
qed

text \<open>What \<open>eeprom_write\<close> stores, \<open>eeprom_read\<close> of the same offset and length returns, and no other byte of
  the flash changes.\<close>

theorem eeprom_roundtrip:
  assumes m: "m25p pn N ch" and d: "dev_ok dev N" and p: "bus_idle ch p" "busy_reads ch p = 0"
    and a: "a + length data \<le> N" "data \<noteq> []"
  shows "\<exists>dev' p1 p2. eeprom_write pn dev 0 (word_of_nat a) data (word_of_nat (length data)) p = Some (0, dev', p1) \<and>
     eeprom_read pn dev' 0 (word_of_nat a) (word_of_nat (length data)) p1 = (0, data, p2) \<and>
     contents ch p2 = overwrite (contents ch p) a data"
proof -
  obtain dev' p1 where w: "eeprom_write pn dev 0 (word_of_nat a) data (word_of_nat (length data)) p = Some (0, dev', p1)"
    "dev_ok dev' N" "bus_idle ch p1" "busy_reads ch p1 = 0" "contents ch p1 = overwrite (contents ch p) a data"
    using eeprom_write_overwrites [OF assms] by blast
  have "0 < length data" using a(2) by simp
  from eeprom_read_contents [OF m w(2-4) a(1) this] obtain p2 where
    r: "eeprom_read pn dev' 0 (word_of_nat a) (word_of_nat (length data)) p1
      = (0, map (\<lambda>i. contents ch p1 (a + i)) [0..<length data], p2)" "contents ch p2 = contents ch p1" by blast
  have "map (\<lambda>i. contents ch p1 (a + i)) [0..<length data] = data"
    unfolding w(5) by (intro nth_equalityI) (simp_all add: overwrite_def)
  with r w show ?thesis by auto
qed

theorem eeprom_roundtrip_witness:
  "\<exists>dev' p1 p2. eeprom_write (slave_pins flash_slave) m25p80_dev 0 (word_of_nat 0x80000) [7, 8] (word_of_nat (length [7, 8 :: u8])) m25p80_idle
      = Some (0, dev', p1) \<and>
     eeprom_read (slave_pins flash_slave) dev' 0 (word_of_nat 0x80000) (word_of_nat (length [7, 8 :: u8])) p1 = (0, [7, 8], p2) \<and>
     contents flash_chip p2 = overwrite (contents flash_chip m25p80_idle) 0x80000 [7, 8]"
  by (rule eeprom_roundtrip [OF flash_is_m25p m25p80_ok m25p80_idle]) simp_all

text \<open>
  A chip that reports an out-of-range request does not reach the caller: \<open>spi_write\<close> refuses and the
  wrappers still report success.
\<close>

text \<open>A write past the end of the device changes nothing and is reported as a success: the result of
  \<open>spi_write\<close> is dropped.\<close>

theorem eeprom_write_ignores_failure:
  assumes d: "dev_ok dev N" and a: "N \<le> a" "a < 2 ^ 24" "0 < n" "n < 2 ^ 24" "length data = n"
  shows "eeprom_write pn dev 0 (word_of_nat a) data (word_of_nat n) p = Some (0, dev, p)"
proof -
  have N: "N \<le> 2 ^ 24" "deviceSize dev = word_of_nat N" using d by (simp_all add: dev_ok_def)
  have u: "unat (word_of_nat k :: u32) = k" if "k < 2 ^ 26" for k
    using that by (intro unat_small) simp
  have lt: "(word_of_nat a :: u32) < word_of_nat a + word_of_nat n"
    using a u [of a] u [of "a + n"] by (simp add: word_less_nat_alt)
  have ln: "word_of_nat a + word_of_nat n - word_of_nat a = (word_of_nat n :: u32)" by simp
  have sn: "sint (word_of_nat n :: u32) = int n" using a by (intro sint_small) simp
  have l: "word_of_nat a + word_of_int (int n) - 1 = (word_of_nat (a + n - 1) :: u32)"
    using a(3) by (cases n) simp_all
  have big: "word_of_nat N \<le> (word_of_nat (a + n - 1) :: u32)"
  proof -
    have "unat (word_of_nat N :: u32) = N" "unat (word_of_nat (a + n - 1) :: u32) = a + n - 1"
      using a N(1) by (intro u; simp)+
    then show ?thesis unfolding word_le_nat_alt using a by linarith
  qed
  have "spi_write pn dev (addr24 (word_of_nat a)) data (int n) p = Some (0, dev, p)"
    unfolding spi_write_def Let_def get_binary_offset_addr24 [OF a(2)]
    unfolding l unfolding N(2) using a(3) big by simp
  then show ?thesis
    unfolding eeprom_write_def Let_def ln sn eeprom_addr24 using lt u [of n] a by simp
qed

theorem eeprom_write_ignores_failure_witness:
  "eeprom_write (slave_pins flash_slave) m25p80_dev 0 (word_of_nat 0x100000) [1] (word_of_nat 1) m25p80_idle
     = Some (0, m25p80_dev, m25p80_idle)"
  by (rule eeprom_write_ignores_failure [OF m25p80_ok]) simp_all

end
