(* ===== verification/SwUpdate.thy ===== *)
theory SwUpdate
  imports Sha1 Spi
begin

text \<open>
  The boot loader's update procedure, \<open>board/st/pdk7105/swUpdate.c\<close> after the digest and
  \<open>board/st/pdk7105/load_uboot_env.c\<close>: the header CRC, the USB and file loading wrappers, the checks
  of an update image, the flashing, the start-up decision. The state holds the memory, the flash
  bus with the driver's variables, the USB controller address and the register writes made; the
  subsystems called (USB, FAT, ext2, the shell, the allocator) are the operations \<open>env\<close>.
\<close>

section \<open>State and results\<close>

datatype event =
    Reg8 u32 u8            \<comment> \<open>a byte register is written\<close>
  | Reg16 u32 u16
  | SetPin u32 nat int     \<comment> \<open>\<open>STPIO_SET_PIN\<close>\<close>
  | Udelay nat

record ('p, 'e) world =
  w_ram :: "nat \<Rightarrow> u8"
  w_bus :: 'p
  w_dev :: spi_dev
  w_ohci_regs :: u32
  w_events :: "event list"
  w_ext :: 'e

text \<open>
  A call returns, restarts the machine, never returns, or passes an uninitialised pointer to
  \<open>free\<close>.
\<close>

datatype ('w, 'a) outcome = Ret 'a 'w | Restart 'w | Hang | Bad_free

definition andthen :: "('w, 'a) outcome \<Rightarrow> ('a \<Rightarrow> 'w \<Rightarrow> ('w, 'b) outcome) \<Rightarrow> ('w, 'b) outcome" where
  "andthen r f = (case r of Ret a w \<Rightarrow> f a w | Restart w \<Rightarrow> Restart w | Hang \<Rightarrow> Hang | Bad_free \<Rightarrow> Bad_free)"

lemma andthen_simps [simp]:
  "andthen (Ret a w) f = f a w" "andthen (Restart w) f = Restart w" "andthen Hang f = Hang"
  "andthen Bad_free f = Bad_free"
  by (simp_all add: andthen_def)

record ('p, 'e) env =
  env_malloc :: "'e \<Rightarrow> bool \<times> 'e"
  env_do_usb :: "string list \<Rightarrow> 'e \<Rightarrow> int \<times> 'e"
  env_do_ext2load :: "int \<Rightarrow> string list \<Rightarrow> (nat \<Rightarrow> u8) \<Rightarrow> 'e \<Rightarrow> int \<times> (nat \<Rightarrow> u8) \<times> 'e"
  env_do_fat_fsload :: "int \<Rightarrow> string list \<Rightarrow> (nat \<Rightarrow> u8) \<Rightarrow> 'e \<Rightarrow> int \<times> (nat \<Rightarrow> u8) \<times> 'e"
  env_GetStorageDevicesNum :: "'e \<Rightarrow> int"
  env_dev_index :: "'e \<Rightarrow> int"
  env_get_dev :: "'e \<Rightarrow> bool"
  env_ext2fs_set_blk_dev :: "int \<Rightarrow> 'e \<Rightarrow> int \<times> 'e"
  env_ext2fs_mount :: "int \<Rightarrow> 'e \<Rightarrow> int \<times> 'e"
  env_ext2fs_open :: "string \<Rightarrow> 'e \<Rightarrow> int \<times> 'e"
  env_ext2fs_close :: "'e \<Rightarrow> 'e"
  env_key_pin :: "'e \<Rightarrow> int"
  env_parse_string_outer :: "u8 list \<Rightarrow> ('p, 'e) world \<Rightarrow> (('p, 'e) world, int) outcome"

abbreviation SUCCESS_RET :: int where "SUCCESS_RET \<equiv> 0"
abbreviation FAILURE_RET :: int where "FAILURE_RET \<equiv> - 1"
abbreviation ABNORMITY_RET :: int where "ABNORMITY_RET \<equiv> - 2"

definition SWLOADADDR :: nat where "SWLOADADDR = 0x80000000"
definition COMMAND_SIZE :: nat where "COMMAND_SIZE = 64"
definition MAX_IMAGE_SECTION :: nat where "MAX_IMAGE_SECTION = 0x100000"

definition emit :: "event \<Rightarrow> ('p, 'e) world \<Rightarrow> ('p, 'e) world" where
  "emit e w = w\<lparr>w_events := w_events w @ [e]\<rparr>"

section \<open>Checks\<close>

text \<open>The bit loop of \<open>smitGetCrc16\<close> over the two halves of the register.\<close>

definition crc16_bit :: "u8 \<times> u8 \<Rightarrow> u8 \<times> u8" where
  "crc16_bit s = (case s of (CRC16Hi, CRC16Lo) \<Rightarrow>
     let SaveHi = CRC16Hi; SaveLo = CRC16Lo;
         CRC16Hi = drop_bit 1 CRC16Hi;
         CRC16Lo = drop_bit 1 CRC16Lo;
         CRC16Lo = (if SaveHi AND 0x1 = 0x1 then CRC16Lo OR 0x80 else CRC16Lo)
     in if SaveLo AND 0x1 = 0x1 then (CRC16Hi XOR 0x80, CRC16Lo XOR 0x05) else (CRC16Hi, CRC16Lo))"

fun crc16_bytes :: "u8 \<times> u8 \<Rightarrow> u8 list \<Rightarrow> u8 \<times> u8" where
  "crc16_bytes s [] = s"
| "crc16_bytes s (b # bs) =
     crc16_bytes ((crc16_bit ^^ 8) (fst s, snd s XOR b)) bs"

text \<open>\<open>crc_return=CRC16Hi * 0xff + CRC16Lo\<close>\<close>

definition crc16_value :: "u8 \<times> u8 \<Rightarrow> u16" where
  "crc16_value s = ucast (fst s) * 0xff + ucast (snd s)"

definition smitGetCrc16 :: "u8 list \<Rightarrow> u16" where
  "smitGetCrc16 data = crc16_value (crc16_bytes (0x00, 0x00) data)"

text \<open>\<open>for(i=0;i<20;i++) if(buffer1[i] != buffer2[i]) break;\<close>\<close>

fun compare_loop :: "nat \<Rightarrow> nat \<Rightarrow> u8 list \<Rightarrow> u8 list \<Rightarrow> nat" where
  "compare_loop 0 i b1 b2 = i"
| "compare_loop (Suc n) i b1 b2 = (if b1 ! i \<noteq> b2 ! i then i else compare_loop n (i + 1) b1 b2)"

definition CompareSHA1Value :: "u8 list \<Rightarrow> u8 list \<Rightarrow> int" where
  "CompareSHA1Value buffer1 buffer2 = (if compare_loop 20 0 buffer1 buffer2 = 20 then 0 else - 1)"

definition SHA1ValueAdd :: "u8 list \<Rightarrow> u8 list \<Rightarrow> u8 list" where
  "SHA1ValueAdd acc AddValue = fold (\<lambda>i s. s[i := s ! i + AddValue ! i]) [0..<20] acc"

text \<open>The 72 bytes of \<open>ImageFileHeader_T\<close> and the 32 of \<open>SPISoftWareInfo_T\<close>, as the ABI lays them out.\<close>

record ImageFileHeader =
  UpdateUbootFlag :: u32
  UBOOT_Ver :: u32
  FactoryID :: u32
  DeviceID :: u32
  UbootSize :: u32
  HDate :: "u8 list"
  SHA1_Uboot :: "u8 list"
  CRC_Header :: u16

definition image_header :: "u8 list \<Rightarrow> ImageFileHeader" where
  "image_header b = \<lparr>UpdateUbootFlag = le32 b 0, UBOOT_Ver = le32 b 4, FactoryID = le32 b 28,
     DeviceID = le32 b 32, UbootSize = le32 b 36, HDate = take 10 (drop 40 b),
     SHA1_Uboot = take 20 (drop 50 b), CRC_Header = ucast (b ! 70) OR push_bit 8 (ucast (b ! 71))\<rparr>"

definition info_UBOOT_Ver :: "u8 list \<Rightarrow> u32" where "info_UBOOT_Ver b = le32 b 8"
definition info_FactoryID :: "u8 list \<Rightarrow> u32" where "info_FactoryID b = le32 b 12"
definition info_DeviceID :: "u8 list \<Rightarrow> u32" where "info_DeviceID b = le32 b 16"

text \<open>
  The target's \<open>strncpy(d, s, n)\<close> for the \<open>n\<close> bytes at \<open>d\<close> and at \<open>s\<close>: it stops after the first
  zero copied and leaves the rest of \<open>d\<close> as it was.
\<close>

fun strncpy_bytes :: "u8 list \<Rightarrow> u8 list \<Rightarrow> u8 list" where
  "strncpy_bytes (_ # d) (c # s) = c # (if c = 0 then d else strncpy_bytes d s)"
| "strncpy_bytes d _ = d"

definition check_update_sw_header :: "ImageFileHeader \<Rightarrow> u8 list \<Rightarrow> int" where
  "check_update_sw_header h info =
     (if (FactoryID h = info_FactoryID info \<or> 0xffffffff = info_FactoryID info) \<and>
         (DeviceID h = info_DeviceID info \<or> 0xffffffff = info_DeviceID info) \<and>
         UpdateUbootFlag h = 0xabcd6789 \<and> UBOOT_Ver h \<noteq> info_UBOOT_Ver info
      then SUCCESS_RET else FAILURE_RET)"

section \<open>Pins and the restart\<close>

definition PIO0 :: u32 where "PIO0 = 0xFD020000"

definition init_pio :: "('p, 'e) world \<Rightarrow> ('p, 'e) world" where
  "init_pio w = fold emit [Reg8 (PIO0 + 0x28) 0x32, Reg8 (PIO0 + 0x38) 0x32, Reg8 (PIO0 + 0x48) 0x32,
     Reg8 (PIO0 + 0x24) 0x02, Reg8 (PIO0 + 0x34) 0x30, Reg8 (PIO0 + 0x44) 0x02, Udelay 1000] w"

definition set_led_blue :: "int \<Rightarrow> ('p, 'e) world \<Rightarrow> ('p, 'e) world" where
  "set_led_blue v = emit (SetPin PIO0 4 v)"

definition set_led_red :: "int \<Rightarrow> ('p, 'e) world \<Rightarrow> ('p, 'e) world" where
  "set_led_red v = emit (SetPin PIO0 5 v)"

datatype led = GB620_RED_LED | GB620_BLUE_LED

datatype led_flash = GB620_LED_FLASH_ALL | GB620_LED_FLASH_SEC

text \<open>The inner loop of \<open>set_led_flash\<close>: five half periods.\<close>

definition led_second :: "led \<Rightarrow> int \<times> ('p, 'e) world \<Rightarrow> int \<times> ('p, 'e) world" where
  "led_second led = (\<lambda>(nswitch, w).
     let w = emit (Udelay 200000) w;
         w = (if led = GB620_RED_LED then set_led_red nswitch w else w);
         w = (if led = GB620_BLUE_LED then set_led_blue nswitch w else w)
     in (if nswitch = 0 then 1 else 0, w)) ^^ 5"

text \<open>
  The outer \<open>do\<dots>while\<close>, endless for \<open>GB620_LED_FLASH_ALL\<close>; \<open>ntime\<close> is an \<open>int\<close> of 32 bits, kept as its
  word, that wraps.
\<close>

partial_function (option) led_loop ::
    "led \<Rightarrow> led_flash \<Rightarrow> int \<Rightarrow> u32 \<Rightarrow> ('p, 'e) world \<Rightarrow> ('p, 'e) world option" where
  "led_loop led ntype nswitch ntime w =
     (let (nswitch, w) = led_second led (nswitch, w); ntime = ntime - 1
      in if ntype = GB620_LED_FLASH_ALL \<or> 0 < sint ntime then led_loop led ntype nswitch ntime w else Some w)"

definition set_led_flash :: "led \<Rightarrow> u32 \<Rightarrow> led_flash \<Rightarrow> ('p, 'e) world \<Rightarrow> (('p, 'e) world, unit) outcome" where
  "set_led_flash led nsec ntype w =
     (case led_loop led ntype 1 nsec w of None \<Rightarrow> Hang | Some w \<Rightarrow> Ret () w)"

definition smit_restartST40 :: "('p, 'e) world \<Rightarrow> (('p, 'e) world, 'a) outcome" where
  "smit_restartST40 w = Restart (fold emit [Reg16 0xFFC00008 0x5AF0, Reg16 0xFFC0000C 0xA547,
     Reg16 0xFFC0001C 0xAA00, Reg16 0xFFC0000C 0xA5C7] w)"

section \<open>Devices and files\<close>

text \<open>
  The command arrays are locals: an entry holds nothing yet, the null pointer or an allocated
  string. The clean-up loop frees every entry that is not null.
\<close>

datatype slot = Garbage | Null | Buf string

text \<open>\<open>malloc\<close> and \<open>memset\<close> of each entry; the flag tells whether all succeeded.\<close>

fun alloc_slots :: "('p, 'e) env \<Rightarrow> nat \<Rightarrow> 'e \<Rightarrow> bool \<times> slot list \<times> 'e" where
  "alloc_slots E 0 x = (True, [], x)"
| "alloc_slots E (Suc n) x =
     (let (ok, x) = env_malloc E x in
      if ok then let (r, ss, x) = alloc_slots E n x in (r, Buf [] # ss, x)
      else (False, Null # replicate n Garbage, x))"

definition free_slots :: "slot list \<Rightarrow> bool" where
  "free_slots ss = (Garbage \<notin> set ss)"

text \<open>\<open>strncpy(d, s, COMMAND_SIZE)\<close> into a zeroed buffer.\<close>

definition cmd_string :: "string \<Rightarrow> slot" where
  "cmd_string s = Buf (take COMMAND_SIZE s)"

definition slot_args :: "slot list \<Rightarrow> string list" where
  "slot_args ss = map (\<lambda>s. case s of Buf t \<Rightarrow> t | _ \<Rightarrow> []) ss"

text \<open>The common \<open>fail_return\<close> and success clean-up.\<close>

definition finish :: "slot list \<Rightarrow> int \<Rightarrow> ('p, 'e) world \<Rightarrow> (('p, 'e) world, int) outcome" where
  "finish ss r w = (if free_slots ss then Ret r w else Bad_free)"

datatype usb_operation = USB_START | USB_STOP | Other_oper

definition usb_operate :: "('p, 'e) env \<Rightarrow> usb_operation \<Rightarrow> ('p, 'e) world \<Rightarrow> (('p, 'e) world, int) outcome" where
  "usb_operate E oper w =
     (let (ok, ss, x) = alloc_slots E 3 (w_ext w); w = w\<lparr>w_ext := x\<rparr> in
      if \<not> ok then finish ss FAILURE_RET w
      else
        let ss = ss[0 := cmd_string ''usb''] in
        if oper = Other_oper then finish ss FAILURE_RET w
        else
          let ss = ss[1 := cmd_string (if oper = USB_START then ''start'' else ''stop'')];
              (ret, x) = env_do_usb E (slot_args ss) (w_ext w);
              w = w\<lparr>w_ext := x\<rparr>
          in if ret \<noteq> 0 then finish ss FAILURE_RET w else finish ss SUCCESS_RET w)"

definition usb_ext2load :: "('p, 'e) env \<Rightarrow> string \<Rightarrow> int \<Rightarrow> ('p, 'e) world \<Rightarrow> (('p, 'e) world, int) outcome" where
  "usb_ext2load E file_name part w =
     (let (ok, ss, x) = alloc_slots E 7 (w_ext w); w = w\<lparr>w_ext := x\<rparr> in
      if \<not> ok then finish ss FAILURE_RET w
      else
        let ss = ss[0 := cmd_string ''ext2load'', 1 := cmd_string ''usb''];
            ss = (if part = 1 then ss[2 := cmd_string ''0:1'']
                  else if part = 2 then ss[2 := cmd_string ''0:2''] else ss);
            ss = ss[3 := cmd_string ''80000000'', 4 := cmd_string file_name];
            (ret, ram, x) = env_do_ext2load E 6 (slot_args ss) (w_ram w) (w_ext w);
            w = w\<lparr>w_ram := ram, w_ext := x\<rparr>
        in if ret = 1 then finish ss FAILURE_RET w
           else finish ss SUCCESS_RET
             (w\<lparr>w_ram := (w_ram w)(unat (word_of_nat SWLOADADDR + word_of_int ret :: u32) := 0)\<rparr>))"

text \<open>\<open>sprintf(s, "%x", n)\<close>\<close>

definition hex_digit :: "nat \<Rightarrow> char" where
  "hex_digit d = ''0123456789abcdef'' ! d"

fun hex_string :: "nat \<Rightarrow> string" where
  "hex_string n = (if n < 16 then [hex_digit n] else hex_string (n div 16) @ [hex_digit (n mod 16)])"

definition usb_fatload :: "('p, 'e) env \<Rightarrow> string \<Rightarrow> u32 \<Rightarrow> ('p, 'e) world \<Rightarrow> (('p, 'e) world, int) outcome" where
  "usb_fatload E file_name LoadSize w =
     (let (ok, ss, x) = alloc_slots E 7 (w_ext w); w = w\<lparr>w_ext := x\<rparr> in
      if \<not> ok then finish ss FAILURE_RET w
      else
        let ss = ss[0 := cmd_string ''fatload'', 1 := cmd_string ''usb'', 2 := cmd_string ''0'',
                    3 := cmd_string ''80000000'', 4 := cmd_string file_name];
            (argc, ss) = (if LoadSize \<noteq> 0 then (6, ss[5 := Buf (hex_string (unat LoadSize))]) else (5, ss));
            (ret, ram, x) = env_do_fat_fsload E argc (slot_args ss) (w_ram w) (w_ext w);
            w = w\<lparr>w_ram := ram, w_ext := x\<rparr>
        in if ret \<noteq> 0 then finish ss FAILURE_RET w else finish ss SUCCESS_RET w)"

definition USB_EXT_REGS :: u32 where "USB_EXT_REGS = 0xfea00000 + 0xffc00"
definition USB_INT_REGS :: u32 where "USB_INT_REGS = 0xfe100000 + 0xffc00"

text \<open>The wait loop tries at most \<open>n\<close> more times, one second apart.\<close>

fun usb_wait :: "('p, 'e) env \<Rightarrow> nat \<Rightarrow> int \<Rightarrow> ('p, 'e) world \<Rightarrow> (('p, 'e) world, int) outcome" where
  "usb_wait E 0 nret w = Ret nret w"
| "usb_wait E (Suc n) nret w =
     (if env_dev_index E (w_ext w) \<noteq> 2 \<and> env_GetStorageDevicesNum E (w_ext w) = 0
      then andthen (usb_operate E USB_START (emit (Udelay 1000000) w)) (\<lambda>nret w. usb_wait E n nret w)
      else Ret nret w)"

definition usb_config_start :: "('p, 'e) env \<Rightarrow> u32 \<Rightarrow> ('p, 'e) world \<Rightarrow> (('p, 'e) world, int) outcome" where
  "usb_config_start E cfg w =
     andthen (usb_operate E USB_START (w\<lparr>w_ohci_regs := cfg\<rparr>)) (\<lambda>nret w. usb_wait E 2 nret w)"

definition check_ext2_usb :: "('p, 'e) env \<Rightarrow> int \<Rightarrow> ('p, 'e) world \<Rightarrow> int \<times> ('p, 'e) world" where
  "check_ext2_usb E part w =
     (let x = w_ext w in
      if \<not> env_get_dev E x then (1, w)
      else
        let (part_length, x) = env_ext2fs_set_blk_dev E part x in
        if part_length = 0 then (1, w\<lparr>w_ext := env_ext2fs_close E x\<rparr>)
        else
          let (m, x) = env_ext2fs_mount E part_length x in
          if m = 0 then (1, w\<lparr>w_ext := env_ext2fs_close E x\<rparr>)
          else
            let (f, x) = env_ext2fs_open E ''vmlinux.ub'' x in
            if f < 0 then (2, w\<lparr>w_ext := env_ext2fs_close E x\<rparr>)
            else (0, w\<lparr>w_ext := env_ext2fs_close E x\<rparr>))"

section \<open>The boot script\<close>

partial_function (option) ram_strlen :: "(nat \<Rightarrow> u8) \<Rightarrow> nat \<Rightarrow> nat option" where
  "ram_strlen m a = (if m a = 0 then Some 0 else Option.bind (ram_strlen m (a + 1)) (\<lambda>n. Some (n + 1)))"

definition parse_uboot_env :: "('p, 'e) env \<Rightarrow> ('p, 'e) world \<Rightarrow> (('p, 'e) world, int) outcome" where
  "parse_uboot_env E w =
     (case ram_strlen (w_ram w) SWLOADADDR of None \<Rightarrow> Hang
      | Some len \<Rightarrow>
          let (ok, x) = env_malloc E (w_ext w); w = w\<lparr>w_ext := x\<rparr> in
          if \<not> ok then Ret ABNORMITY_RET w
          else andthen (env_parse_string_outer E (map (\<lambda>i. w_ram w (SWLOADADDR + i)) [0..<len + 1]) w)
                 (\<lambda>rc w. Ret (if rc \<noteq> 0 then FAILURE_RET else SUCCESS_RET) w))"

definition load_uboot_env :: "('p, 'e) env \<Rightarrow> int \<Rightarrow> ('p, 'e) world \<Rightarrow> (('p, 'e) world, int) outcome" where
  "load_uboot_env E part w =
     (let x = w_ext w; maxFileLen = 1024 in
      if \<not> env_get_dev E x then Ret ABNORMITY_RET w
      else
        let (partLen, x) = env_ext2fs_set_blk_dev E part x in
        if partLen = 0 then Ret ABNORMITY_RET (w\<lparr>w_ext := env_ext2fs_close E x\<rparr>)
        else
          let (m, x) = env_ext2fs_mount E partLen x in
          if m = 0 then
            let w = w\<lparr>w_ext := env_ext2fs_close E x,
                      w_ram := overwrite (w_ram w) SWLOADADDR (replicate maxFileLen 0)\<rparr>
            in andthen (usb_fatload E ''uboot.sh'' (word_of_nat maxFileLen) w)
                 (\<lambda>r w. if r = SUCCESS_RET
                    then parse_uboot_env E (w\<lparr>w_ram := (w_ram w)(SWLOADADDR + (maxFileLen - 1) := 0)\<rparr>)
                    else Ret ABNORMITY_RET w)
          else
            let (f, x) = env_ext2fs_open E ''uboot.sh'' x in
            if f < 0 then Ret ABNORMITY_RET (w\<lparr>w_ext := env_ext2fs_close E x\<rparr>)
            else andthen (usb_ext2load E ''uboot.sh'' part (w\<lparr>w_ext := x\<rparr>))
              (\<lambda>r w. let w = w\<lparr>w_ext := env_ext2fs_close E (w_ext w)\<rparr> in
                 if r = SUCCESS_RET
                 then parse_uboot_env E (w\<lparr>w_ram := (w_ram w)(SWLOADADDR + (maxFileLen - 1) := 0)\<rparr>)
                 else Ret ABNORMITY_RET w))"

section \<open>The update\<close>

definition hdr_size :: nat where "hdr_size = 72"

definition ram_bytes :: "(nat \<Rightarrow> u8) \<Rightarrow> nat \<Rightarrow> nat \<Rightarrow> u8 list" where
  "ram_bytes m a n = map (\<lambda>i. m (a + i)) [0..<n]"

text \<open>The information block written back: version, device and factory of the image, its date.\<close>

definition new_info :: "ImageFileHeader \<Rightarrow> u8 list \<Rightarrow> u8 list" where
  "new_info h info =
     (let info = blit info 8 (le32_bytes (UBOOT_Ver h));
          info = blit info 16 (le32_bytes (DeviceID h));
          info = blit info 12 (le32_bytes (FactoryID h))
      in blit info 22 (strncpy_bytes (take 10 (drop 22 info)) (HDate h)))"

text \<open>The flash is written, then the information block and the start flag; the machine restarts.\<close>

definition flash_image ::
    "'p pins \<Rightarrow> u8 \<Rightarrow> ImageFileHeader \<Rightarrow> u8 list \<Rightarrow> ('p, 'e) world \<Rightarrow> (('p, 'e) world, int) outcome" where
  "flash_image pn flag h info w =
     (case do_auto_update_uboot_to_spi pn (w_dev w) (w_ram w) (sint (UbootSize h)) (int hdr_size) (w_bus w) of
        None \<Rightarrow> Hang
      | Some (r, dev, p) \<Rightarrow>
          let w = w\<lparr>w_dev := dev, w_bus := p\<rparr> in
          if r = SUCCESS_RET then
            (case WriteSPIFlashDataFromBuffer pn (w_dev w) 0x91000 (new_info h info) 32 (w_bus w) of
               None \<Rightarrow> Hang
             | Some (dev, p) \<Rightarrow>
                 let w = w\<lparr>w_dev := dev, w_bus := p\<rparr> in
                 (case (if flag \<noteq> 1 then WriteSPIFlashDataByChar pn (w_dev w) 0x90000 1 (w_bus w)
                        else Some (w_dev w, w_bus w)) of
                    None \<Rightarrow> Hang
                  | Some (dev, p) \<Rightarrow>
                      let w = w\<lparr>w_dev := dev, w_bus := p\<rparr> in
                      andthen (set_led_flash GB620_BLUE_LED 3 GB620_LED_FLASH_SEC w)
                        (\<lambda>_ w. smit_restartST40 w)))
          else andthen (set_led_flash GB620_RED_LED 3 GB620_LED_FLASH_SEC w) (\<lambda>_ w. Ret ABNORMITY_RET w))"

definition uboot_update ::
    "('p, 'e) env \<Rightarrow> 'p pins \<Rightarrow> sha1_context \<Rightarrow> u8 \<Rightarrow> ('p, 'e) world \<Rightarrow> (('p, 'e) world, int) outcome" where
  "uboot_update E pn ctx flag w =
     (if env_GetStorageDevicesNum E (w_ext w) < 1 then Ret FAILURE_RET w
      else andthen (usb_fatload E ''iptvubootupdate.bin'' (word_of_nat (hdr_size + MAX_IMAGE_SECTION div 2)) w)
        (\<lambda>r w.
          if r = SUCCESS_RET then
            let (info, p) = ReadSPIFlashDataToBuffer pn (w_dev w) 0x91000 (replicate 32 0) 32 (w_bus w);
                w = w\<lparr>w_bus := p\<rparr>;
                hdr = ram_bytes (w_ram w) SWLOADADDR hdr_size;
                h = image_header hdr;
                CRCValue = smitGetCrc16 (take (hdr_size - 2) hdr)
            in if CRCValue \<noteq> CRC_Header h
               then andthen (set_led_flash GB620_RED_LED 3 GB620_LED_FLASH_SEC w)
                      (\<lambda>_ w. Ret ABNORMITY_RET w)
               else if check_update_sw_header h info = 0 then
                 let (_, SHA1TempResult) =
                       soft_sha_1 ctx (ram_bytes (w_ram w) (SWLOADADDR + hdr_size) (MAX_IMAGE_SECTION div 2))
                 in if CompareSHA1Value (SHA1_Uboot h) SHA1TempResult = 0
                    then flash_image pn flag h info w
                    else Ret FAILURE_RET w
               else Ret FAILURE_RET w
          else Ret FAILURE_RET w))"

definition update_from_usb ::
    "('p, 'e) env \<Rightarrow> 'p pins \<Rightarrow> sha1_context \<Rightarrow> bool \<Rightarrow> ('p, 'e) world \<Rightarrow> (('p, 'e) world, int) outcome" where
  "update_from_usb E pn ctx isExternalUSB w =
     (let cfg = (if isExternalUSB then USB_EXT_REGS else USB_INT_REGS) in
      andthen (usb_config_start E cfg w) (\<lambda>r w.
        if r = FAILURE_RET then Ret FAILURE_RET w
        else andthen (load_uboot_env E 1 w) (\<lambda>rc w.
          if rc = ABNORMITY_RET then
            let (c, w) = check_ext2_usb E 1 w in
            andthen (if c = 1
                     then andthen (uboot_update E pn ctx 1 w)
                            (\<lambda>rc w. if rc = ABNORMITY_RET then smit_restartST40 w else Ret () w)
                     else Ret () w)
              (\<lambda>_ w. load_uboot_env E 2 w)
          else Ret rc w)))"

definition update_process ::
    "('p, 'e) env \<Rightarrow> 'p pins \<Rightarrow> sha1_context \<Rightarrow> ('p, 'e) world \<Rightarrow> (('p, 'e) world, int) outcome" where
  "update_process E pn ctx w =
     (let w = init_pio w in
      if env_key_pin E (w_ext w) = 0 then
        let w = set_led_red 1 (set_led_blue 0 w) in
        andthen (update_from_usb E pn ctx True w)
          (\<lambda>r w. if r \<noteq> SUCCESS_RET then update_from_usb E pn ctx False w else Ret SUCCESS_RET w)
      else
        let w = set_led_red 0 (set_led_blue 1 w) in
        andthen (update_from_usb E pn ctx False w)
          (\<lambda>r w. if r \<noteq> SUCCESS_RET then update_from_usb E pn ctx True w else Ret SUCCESS_RET w))"

text \<open>The command \<open>usbcfg\<close>: its result and the controller selected.\<close>

definition do_usbcfg :: "string list \<Rightarrow> ('p, 'e) world \<Rightarrow> int \<times> ('p, 'e) world" where
  "do_usbcfg argv w =
     (if length argv = 2
      then (0, w\<lparr>w_ohci_regs := (if take 1 (argv ! 1) \<noteq> ''0'' then USB_EXT_REGS else USB_INT_REGS)\<rparr>)
      else (1, w))"

lemma spi_write_total:
  assumes m: "m25p pn N ch" and d: "dev_ok dev N" and p: "bus_idle ch p" "busy_reads ch p = 0"
    and a: "a < 2 ^ 24" "length data < 2 ^ 31"
  shows "\<exists>r dev' p'. spi_write pn dev (addr24 (word_of_nat a)) data (int (length data)) p = Some (r, dev', p') \<and>
     dev_ok dev' N \<and> bus_idle ch p' \<and> busy_reads ch p' = 0 \<and>
     contents ch p' = (if a + length data \<le> N then overwrite (contents ch p) a data else contents ch p)"
proof (cases "data = []")
  case True
  then have "spi_write pn dev (addr24 (word_of_nat a)) data (int (length data)) p = Some (0, dev, p)"
    by (simp add: spi_write_def Let_def)
  with True d p show ?thesis by simp
next
  case ne: False
  show ?thesis
  proof (cases "a + length data \<le> N")
    case True
    from spi_write_overwrites [OF m d p this ne] True show ?thesis by auto
  next
    case False
    let ?n = "length data"
    have N: "N \<le> 2 ^ 24" "deviceSize dev = word_of_nat N" using d by (simp_all add: dev_ok_def)
    have l: "word_of_nat a + word_of_int (int ?n) - 1 = (word_of_nat (a + ?n - 1) :: u32)"
      using ne by (cases ?n) simp_all
    have "unat (word_of_nat N :: u32) = N" "unat (word_of_nat (a + ?n - 1) :: u32) = a + ?n - 1"
      using a N(1) by (intro unat_small; simp)+
    then have big: "word_of_nat N \<le> (word_of_nat (a + ?n - 1) :: u32)"
      unfolding word_le_nat_alt using False by linarith
    have "spi_write pn dev (addr24 (word_of_nat a)) data (int ?n) p = Some (0, dev, p)"
      unfolding spi_write_def Let_def get_binary_offset_addr24 [OF a(1)]
      unfolding l unfolding N(2) using ne big by simp
    with False d p show ?thesis by simp
  qed
qed

lemma spi_write_addr_cong:
  "get_binary_offset a = get_binary_offset b \<Longrightarrow> spi_write pn dev a data n p = spi_write pn dev b data n p"
  by (simp add: spi_write_def)

lemma spi_write_nonpos: "n < 1 \<Longrightarrow> spi_write pn dev a data n p = Some (n, dev, p)"
  by (simp add: spi_write_def Let_def)

text \<open>The image flashing leaves the flash as described, whatever size the header gives.\<close>

definition image_flashed :: "nat \<Rightarrow> (nat \<Rightarrow> u8) \<Rightarrow> (nat \<Rightarrow> u8) \<Rightarrow> u32 \<Rightarrow> nat \<Rightarrow> u8" where
  "image_flashed N c ram sz =
     (if unat sz \<le> N then overwrite c 0 (ram_bytes ram (SWLOADADDR + hdr_size) (unat sz)) else c)"

lemma do_auto_update_contents:
  assumes m: "m25p pn N ch" and d: "dev_ok dev N" and p: "bus_idle ch p" "busy_reads ch p = 0"
  shows "\<exists>dev' p'. do_auto_update_uboot_to_spi pn dev ram (sint sz) (int hdr_size) p = Some (0, dev', p') \<and>
     dev_ok dev' N \<and> bus_idle ch p' \<and> busy_reads ch p' = 0 \<and> contents ch p' = image_flashed N (contents ch p) ram sz"
proof -
  have N: "N \<le> 2 ^ 24" using d by (simp add: dev_ok_def)
  have w: "(word_of_int (sint sz) :: u32) = sz" by simp
  let ?data = "map (\<lambda>i. ram (unat (0x80000000 + word_of_int (int hdr_size) + word_of_nat i :: u32))) [0..<unat sz]"
  have a0: "get_binary_offset [0] = get_binary_offset (addr24 (word_of_nat 0))"
  proof -
    have "get_binary_offset [0] = word_of_nat 0" by (simp add: get_binary_offset_def)
    then show ?thesis by (simp only: get_binary_offset_addr24 zero_less_power zero_less_numeral)
  qed
  have du: "do_auto_update_uboot_to_spi pn dev ram (sint sz) (int hdr_size) p =
      map_option (\<lambda>(_, dev, p). (0, dev, p)) (spi_write pn dev (addr24 (word_of_nat 0)) ?data (sint sz) p)"
    unfolding do_auto_update_uboot_to_spi_def Let_def w spi_write_addr_cong [OF a0] ..
  show ?thesis
  proof (cases "unat sz < 2 ^ 31")
    case True
    have s: "sint sz = int (length ?data)"
      using sint_small [OF True] by simp
    obtain r dev' p' where x: "spi_write pn dev (addr24 (word_of_nat 0)) ?data (sint sz) p = Some (r, dev', p')"
      "dev_ok dev' N" "bus_idle ch p'" "busy_reads ch p' = 0"
      "contents ch p' = (if 0 + length ?data \<le> N then overwrite (contents ch p) 0 ?data else contents ch p)"
      using spi_write_total [OF m d p, of 0 ?data] True unfolding s by auto
    have "?data = ram_bytes ram (SWLOADADDR + hdr_size) (unat sz)" if "unat sz \<le> N"
    proof -
      have "unat (0x80000000 + word_of_int (int hdr_size) + word_of_nat i :: u32) = SWLOADADDR + hdr_size + i"
        if "i < unat sz" for i
      proof -
        have "(0x80000000 + word_of_int (int hdr_size) + word_of_nat i :: u32) = word_of_nat (SWLOADADDR + hdr_size + i)"
          by (simp add: SWLOADADDR_def)
        moreover have "SWLOADADDR + hdr_size + i < 2 ^ 32"
          using that \<open>unat sz \<le> N\<close> N by (simp add: SWLOADADDR_def hdr_size_def)
        ultimately show ?thesis by (simp only: unat_small)
      qed
      then show ?thesis by (simp add: ram_bytes_def)
    qed
    with x show ?thesis unfolding du by (auto simp: image_flashed_def)
  next
    case False
    have "sint sz < 1"
    proof (rule ccontr)
      assume "\<not> sint sz < 1"
      moreover have "sint sz < 2 ^ 31" using sint_lt [of sz] by simp
      ultimately have "uint sz = sint sz"
        by (simp add: uint_sint take_bit_int_eq_self)
      with False \<open>sint sz < 2 ^ 31\<close> show False by (simp add: unat_eq_nat_uint nat_less_iff)
    qed
    then have "spi_write pn dev (addr24 (word_of_nat 0)) ?data (sint sz) p = Some (sint sz, dev, p)"
      by (rule spi_write_nonpos)
    moreover have "\<not> unat sz \<le> N" using False N by simp
    ultimately show ?thesis unfolding du using d p by (simp add: image_flashed_def)
  qed
qed

text \<open>
  The lamp loop: finite for a number of seconds, endless otherwise. The least number wraps at the
  first decrement.
\<close>

definition led_seconds :: "u32 \<Rightarrow> nat" where
  "led_seconds ntime = (if ntime = 0x80000000 then 2 ^ 31 else max 1 (nat (sint ntime)))"

lemma sint_minus_1:
  fixes x :: u32
  assumes "x \<noteq> 0x80000000"
  shows "sint (x - 1) = sint x - 1"
proof -
  have r: "- (2 ^ 31) \<le> sint x" "sint x < 2 ^ 31" using sint_ge [of x] sint_lt [of x] by simp_all
  have "sint x \<noteq> - (2 ^ 31)"
  proof
    assume "sint x = - (2 ^ 31)"
    moreover have "word_of_int (sint x) = x" by simp
    ultimately show False using assms by simp
  qed
  with r have r': "- (2 ^ 31) \<le> sint x - 1" "sint x - 1 < 2 ^ 31" by simp_all
  have "sint (word_of_int (sint x - 1) :: u32) = signed_take_bit 31 (sint x - 1)"
    by (simp only: sint_sbintrunc' len_bit0 len_num1) simp
  also have "\<dots> = sint x - 1" using r' by (rule signed_take_bit_int_eq_self)
  finally have "sint (word_of_int (sint x - 1) :: u32) = sint x - 1" .
  moreover have "word_of_int (sint x - 1) = x - 1" by simp
  ultimately show ?thesis by simp
qed

lemma led_loop_counts:
  "0 < sint ntime \<Longrightarrow>
   led_loop led GB620_LED_FLASH_SEC nswitch ntime w = Some (snd ((led_second led ^^ nat (sint ntime)) (nswitch, w)))"
proof (induction "nat (sint ntime)" arbitrary: nswitch ntime w rule: less_induct)
  case less
  obtain n1 w1 where s: "led_second led (nswitch, w) = (n1, w1)" by fastforce
  have n: "sint (ntime - 1) = sint ntime - 1" using less.prems by (intro sint_minus_1) auto
  show ?case
  proof (cases "0 < sint ntime - 1")
    case True
    then have "nat (sint ntime) = Suc (nat (sint ntime - 1))" by simp
    with True less.hyps [of "ntime - 1" n1 w1] s n show ?thesis
      by (subst led_loop.simps) (simp add: funpow_swap1)
  next
    case False
    with less.prems have "nat (sint ntime) = 1" by simp
    with False s n show ?thesis by (subst led_loop.simps) simp
  qed
qed

lemma led_loop_sec:
  "led_loop led GB620_LED_FLASH_SEC nswitch ntime w = Some (snd ((led_second led ^^ led_seconds ntime) (nswitch, w)))"
proof -
  obtain n1 w1 where s: "led_second led (nswitch, w) = (n1, w1)" by fastforce
  consider "0 < sint ntime" | "ntime = 0x80000000" | "sint ntime \<le> 0" "ntime \<noteq> 0x80000000" by linarith
  then show ?thesis
  proof cases
    case 1
    then have "led_seconds ntime = nat (sint ntime)" by (auto simp: led_seconds_def)
    with led_loop_counts [OF 1] show ?thesis by simp
  next
    case 2
    have i: "sint (ntime - 1) = 2 ^ 31 - 1" unfolding 2 by simp
    have "led_seconds ntime = Suc (nat (sint (ntime - 1)))" unfolding i by (simp add: led_seconds_def 2)
    then have f: "(led_second led ^^ led_seconds ntime) (nswitch, w) = (led_second led ^^ nat (sint (ntime - 1))) (n1, w1)"
      by (simp only: funpow_Suc_right comp_apply s)
    have p: "0 < sint (ntime - 1)" unfolding i by simp
    have "led_loop led GB620_LED_FLASH_SEC nswitch ntime w = led_loop led GB620_LED_FLASH_SEC n1 (ntime - 1) w1"
      by (subst led_loop.simps) (simp only: s Let_def prod.case p simp_thms if_True)
    then show ?thesis unfolding f using led_loop_counts [OF p] by simp
  next
    case 3
    then have "led_seconds ntime = 1" by (simp add: led_seconds_def max_def)
    moreover have "\<not> 0 < sint (ntime - 1)" using 3 sint_minus_1 [of ntime] by simp
    ultimately show ?thesis using s by (subst led_loop.simps) simp
  qed
qed

lemma led_loop_all: "led_loop led GB620_LED_FLASH_ALL nswitch ntime w = None"
proof -
  have "ntype \<noteq> GB620_LED_FLASH_ALL" if "led_loop led ntype nswitch ntime w = Some y" for led ntype nswitch ntime w y
    using that
    by (rule led_loop.raw_induct [where P = "\<lambda>led ntype nswitch ntime w y. ntype \<noteq> GB620_LED_FLASH_ALL", rotated])
       (auto simp: Let_def split: prod.splits if_splits)
  then show ?thesis by (metis not_Some_eq)
qed

text \<open>Lamps and pins touch the log of register writes only.\<close>

definition same_but_events :: "('p, 'e) world \<Rightarrow> ('p, 'e) world \<Rightarrow> bool" where
  "same_but_events w w' \<longleftrightarrow> w_ram w' = w_ram w \<and> w_bus w' = w_bus w \<and> w_dev w' = w_dev w \<and>
     w_ohci_regs w' = w_ohci_regs w \<and> w_ext w' = w_ext w \<and> (\<exists>es. w_events w' = w_events w @ es)"

lemma same_refl [simp]: "same_but_events w w"
  by (simp add: same_but_events_def)

lemma same_trans: "same_but_events a b \<Longrightarrow> same_but_events b c \<Longrightarrow> same_but_events a c"
  by (auto simp: same_but_events_def)

lemma same_emit [simp]: "same_but_events w (emit e w)"
  by (simp add: same_but_events_def emit_def)

lemma same_fold_emit [simp]: "same_but_events w (fold emit es w)"
  by (induction es arbitrary: w) (auto intro: same_trans [OF same_emit])

lemma same_leds [simp]: "same_but_events w (set_led_red v w)" "same_but_events w (set_led_blue v w)"
  by (simp_all add: set_led_red_def set_led_blue_def)

lemma same_iter:
  fixes f :: "'a \<times> ('p, 'e) world \<Rightarrow> 'a \<times> ('p, 'e) world"
  assumes "\<And>s. same_but_events (snd s) (snd (f s))"
  shows "same_but_events (snd s) (snd ((f ^^ n) s))"
proof (induction n)
  case (Suc n)
  have "same_but_events (snd ((f ^^ n) s)) (snd (f ((f ^^ n) s)))" by (rule assms)
  with Suc have "same_but_events (snd s) (snd (f ((f ^^ n) s)))" by (rule same_trans)
  then show ?case by simp
qed simp

lemma same_led_second: "same_but_events (snd s) (snd (led_second led s))"
proof -
  have "same_but_events (snd s) (snd ((case s of (nswitch, w) \<Rightarrow>
     let w = emit (Udelay 200000) w;
         w = (if led = GB620_RED_LED then set_led_red nswitch w else w);
         w = (if led = GB620_BLUE_LED then set_led_blue nswitch w else w)
     in (if nswitch = 0 then 1 else 0, w))))" for s :: "int \<times> ('a, 'b) world"
    by (cases led; cases s)
       (simp_all add: Let_def same_trans [OF same_emit same_leds(1)] same_trans [OF same_emit same_leds(2)])
  then show ?thesis unfolding led_second_def by (rule same_iter)
qed

lemma set_led_flash_sec:
  "\<exists>w'. set_led_flash led n GB620_LED_FLASH_SEC w = Ret () w' \<and> same_but_events w w'"
  using same_iter [of "led_second led" "(1, w)", OF same_led_second]
  by (simp add: set_led_flash_def led_loop_sec)

lemma set_led_flash_all: "set_led_flash led n GB620_LED_FLASH_ALL w = Hang"
  by (simp add: set_led_flash_def led_loop_all)

section \<open>What an update does to the flash\<close>

text \<open>The image in memory is accepted against an information block.\<close>

definition image_accepted :: "(nat \<Rightarrow> u8) \<Rightarrow> u8 list \<Rightarrow> bool" where
  "image_accepted ram info =
     (let hdr = ram_bytes ram SWLOADADDR hdr_size; h = image_header hdr
      in smitGetCrc16 (take 70 hdr) = CRC_Header h \<and> check_update_sw_header h info = 0 \<and>
         SHA1_Uboot h = sha1_fips (ram_bytes ram (SWLOADADDR + hdr_size) 0x80000))"

text \<open>The flash after an accepted update.\<close>

definition updated_flash :: "nat \<Rightarrow> u8 \<Rightarrow> (nat \<Rightarrow> u8) \<Rightarrow> u8 list \<Rightarrow> (nat \<Rightarrow> u8) \<Rightarrow> nat \<Rightarrow> u8" where
  "updated_flash N flag ram info c =
     (let h = image_header (ram_bytes ram SWLOADADDR hdr_size);
          c = image_flashed N c ram (UbootSize h);
          c = overwrite c 0x91000 (new_info h info)
      in if flag \<noteq> 1 then overwrite c 0x90000 [1] else c)"

lemma compare_loop_all: "compare_loop n i a b = i + n \<longleftrightarrow> (\<forall>k < n. a ! (i + k) = b ! (i + k))"
proof (induction n arbitrary: i)
  case (Suc n)
  show ?case
  proof (cases "a ! i = b ! i")
    case True
    have "(\<forall>k < Suc n. a ! (i + k) = b ! (i + k)) \<longleftrightarrow> (\<forall>k < n. a ! (i + 1 + k) = b ! (i + 1 + k))"
      using True by (auto simp: less_Suc_eq_0_disj)
    with True Suc [of "i + 1"] show ?thesis by simp
  next
    case False
    then have "\<not> (\<forall>k < Suc n. a ! (i + k) = b ! (i + k))" by (auto intro!: exI [of _ 0])
    with False show ?thesis by simp
  qed
qed simp

lemma CompareSHA1Value_eq:
  assumes "length a = 20" "length b = 20"
  shows "CompareSHA1Value a b = 0 \<longleftrightarrow> a = b"
  using compare_loop_all [of 20 0 a b] assms
  by (auto simp: CompareSHA1Value_def list_eq_iff_nth_eq)

lemma length_ram_bytes [simp]: "length (ram_bytes m a n) = n"
  by (simp add: ram_bytes_def)

lemma length_sha1_image [simp]: "length (SHA1_Uboot (image_header (ram_bytes m a hdr_size))) = 20"
  by (simp add: image_header_def hdr_size_def)

lemma length_PUT_ULONG_BE [simp]: "length (PUT_ULONG_BE x) = 4"
  by (simp add: PUT_ULONG_BE_def)

lemma length_sha1_fips [simp]: "length (sha1_fips m) = 20"
proof -
  have "length (concat (map PUT_ULONG_BE ws)) = 4 * length ws" for ws
    by (induction ws) simp_all
  then show ?thesis by (simp add: sha1_fips_def)
qed

lemma length_strncpy_bytes [simp]: "length (strncpy_bytes d s) = length d"
  by (induction d s rule: strncpy_bytes.induct) simp_all

lemma length_new_info: "length info = 32 \<Longrightarrow> length (new_info (image_header (ram_bytes m a hdr_size)) info) = 32"
  by (simp add: new_info_def Let_def)

lemma write_bytes:
  assumes "m25p pn N ch" "dev_ok dev N" "bus_idle ch p" "busy_reads ch p = 0"
    and "a + length data \<le> N" "data \<noteq> []" "n = int (length data)"
  shows "\<exists>dev' p'. map_option snd (spi_write pn dev (addr24 (word_of_nat a)) data n p) = Some (dev', p') \<and>
      dev_ok dev' N \<and> bus_idle ch p' \<and> busy_reads ch p' = 0 \<and> contents ch p' = overwrite (contents ch p) a data"
  using spi_write_overwrites [OF assms(1-6)] unfolding assms(7) by auto

text \<open>The flash as the update leaves it, the machine restarted.\<close>

lemma flash_image_restarts:
  assumes m: "m25p pn N ch" and d: "dev_ok (w_dev w) N" and p: "bus_idle ch (w_bus w)" "busy_reads ch (w_bus w) = 0"
    and N: "0x91020 \<le> N" and i: "length info = 32" and h: "h = image_header (ram_bytes (w_ram w) SWLOADADDR hdr_size)"
  shows "\<exists>w'. flash_image pn flag h info w = Restart w' \<and> w_ram w' = w_ram w \<and>
     contents ch (w_bus w') = updated_flash N flag (w_ram w) info (contents ch (w_bus w))"
proof -
  obtain d1 p1 where 1: "do_auto_update_uboot_to_spi pn (w_dev w) (w_ram w) (sint (UbootSize h)) (int hdr_size) (w_bus w)
      = Some (0, d1, p1)" "dev_ok d1 N" "bus_idle ch p1" "busy_reads ch p1 = 0"
    "contents ch p1 = image_flashed N (contents ch (w_bus w)) (w_ram w) (UbootSize h)"
    using do_auto_update_contents [OF m d p] by blast
  have ni: "length (new_info h info) = 32" unfolding h by (rule length_new_info [OF i])
  then have ne: "new_info h info \<noteq> []" by auto
  obtain d2 p2 where 2: "WriteSPIFlashDataFromBuffer pn d1 0x91000 (new_info h info) 32 p1 = Some (d2, p2)"
    "dev_ok d2 N" "bus_idle ch p2" "busy_reads ch p2 = 0"
    "contents ch p2 = overwrite (contents ch p1) 0x91000 (new_info h info)"
    using write_bytes [OF m 1(2-4), of "0x91000" "new_info h info" 32] N ni ne
    by (auto simp: WriteSPIFlashDataFromBuffer_def)
  obtain d3 p3 where 3: "(if flag \<noteq> 1 then WriteSPIFlashDataByChar pn d2 0x90000 1 p2 else Some (d2, p2)) = Some (d3, p3)"
    "contents ch p3 = (if flag \<noteq> 1 then overwrite (contents ch p2) 0x90000 [1] else contents ch p2)"
    using write_bytes [OF m 2(2-4), of "0x90000" "[1]" 1] N that [of d2 p2]
    by (cases "flag = 1") (auto simp: WriteSPIFlashDataByChar_def intro: that)
  let ?w3 = "w\<lparr>w_dev := d3, w_bus := p3\<rparr>"
  obtain w4 where 4: "set_led_flash GB620_BLUE_LED 3 GB620_LED_FLASH_SEC ?w3 = Ret () w4" "same_but_events ?w3 w4"
    using set_led_flash_sec by blast
  let ?w5 = "fold emit [Reg16 0xFFC00008 0x5AF0, Reg16 0xFFC0000C 0xA547, Reg16 0xFFC0001C 0xAA00, Reg16 0xFFC0000C 0xA5C7] w4"
  have 5: "same_but_events ?w3 ?w5" by (rule same_trans [OF 4(2) same_fold_emit])
  have "flash_image pn flag h info w = Restart ?w5"
    using 1(1) 2(1) 3(1) 4(1) by (cases "flag = 1") (simp_all add: flash_image_def Let_def smit_restartST40_def)
  moreover have "w_ram ?w5 = w_ram w" "w_bus ?w5 = p3" using 5 unfolding same_but_events_def by simp_all
  moreover have "contents ch p3 = updated_flash N flag (w_ram w) info (contents ch (w_bus w))"
    unfolding updated_flash_def Let_def h [symmetric] 3(2) 2(5) 1(5) ..
  ultimately show ?thesis by (intro exI [of _ ?w5]) (simp only: simp_thms)
qed

lemma alloc_slots_ok: "(\<And>x. fst (env_malloc E x)) \<Longrightarrow> \<exists>x'. alloc_slots E n x = (True, replicate n (Buf []), x')"
proof (induction n arbitrary: x)
  case (Suc n)
  obtain ok x1 where "env_malloc E x = (ok, x1)" by fastforce
  moreover with Suc.prems [of x] have ok by simp
  moreover obtain x2 where "alloc_slots E n x1 = (True, replicate n (Buf []), x2)" using Suc by blast
  ultimately show ?case by simp
qed simp

lemma length_alloc_slots: "length (fst (snd (alloc_slots E n x))) = n"
  by (induction E n x rule: alloc_slots.induct) (auto simp: Let_def split: prod.splits)

lemma finish_cases: "(finish ss r w = Ret r w \<and> Garbage \<notin> set ss) \<or> (finish ss r w = Bad_free \<and> Garbage \<in> set ss)"
  by (auto simp: finish_def free_slots_def)

lemma Garbage_update [simp]: "v \<noteq> Garbage \<Longrightarrow> Garbage \<notin> set ss \<Longrightarrow> Garbage \<notin> set (ss[i := v])"
  using set_update_subset_insert [of ss i v] by auto

lemma cmd_string_Garbage [simp]: "cmd_string s \<noteq> Garbage"
  by (simp add: cmd_string_def)

lemma alloc_slots_garbage: "Garbage \<in> set (fst (snd (alloc_slots E n x))) \<Longrightarrow> \<not> (\<forall>x. fst (env_malloc E x))"
proof
  assume "Garbage \<in> set (fst (snd (alloc_slots E n x)))" "\<forall>x. fst (env_malloc E x)"
  then show False using alloc_slots_ok [of E n x] by auto
qed

lemma alloc_slots_done: "alloc_slots E n x = (True, ss, x') \<Longrightarrow> Garbage \<notin> set ss"
  by (induction E n x arbitrary: ss x' rule: alloc_slots.induct) (auto simp: Let_def split: prod.splits if_splits)

text \<open>What a file load does: it fills memory and moves the subsystems, or frees garbage.\<close>

lemma usb_fatload_cases:
  obtains r ram x where "usb_fatload E f n w = Ret r (w\<lparr>w_ram := ram, w_ext := x\<rparr>)" "r = SUCCESS_RET \<or> r = FAILURE_RET"
  | "usb_fatload E f n w = Bad_free" "\<not> (\<forall>x. fst (env_malloc E x))"
proof -
  obtain ok ss x where s: "alloc_slots E 7 (w_ext w) = (ok, ss, x)" by (metis prod_cases3)
  show thesis
  proof (cases ok)
    case False
    then have u: "usb_fatload E f n w = finish ss FAILURE_RET (w\<lparr>w_ram := w_ram w, w_ext := x\<rparr>)"
      by (simp add: usb_fatload_def s)
    from s alloc_slots_garbage [of E 7 "w_ext w"] finish_cases [of ss FAILURE_RET "w\<lparr>w_ram := w_ram w, w_ext := x\<rparr>"]
    show thesis unfolding u [symmetric] using that(1) [of FAILURE_RET x "w_ram w"] that(2) by auto
  next
    case True
    define s5 where "s5 = ss[0 := cmd_string ''fatload'', 1 := cmd_string ''usb'', 2 := cmd_string ''0'',
                    3 := cmd_string ''80000000'', 4 := cmd_string f]"
    define t where "t = (if n \<noteq> 0 then s5[5 := Buf (hex_string (unat n))] else s5)"
    obtain ret ram x' where l: "env_do_fat_fsload E (if n \<noteq> 0 then 6 else 5) (slot_args t) (w_ram w) x = (ret, ram, x')"
      by (metis prod_cases3)
    have "usb_fatload E f n w = finish t (if ret \<noteq> 0 then FAILURE_RET else SUCCESS_RET) (w\<lparr>w_ram := ram, w_ext := x'\<rparr>)"
    proof (cases "n = 0")
      case n: True
      with l True show ?thesis
        unfolding usb_fatload_def s Let_def prod.case s5_def [symmetric] t_def
        by (simp only: if_True if_False prod.case simp_thms) simp
    next
      case n: False
      with l True show ?thesis
        unfolding usb_fatload_def s Let_def prod.case s5_def [symmetric] t_def
        by (simp only: if_True if_False prod.case simp_thms) simp
    qed
    moreover have "Garbage \<notin> set t"
      using alloc_slots_done [of E 7 "w_ext w" ss x] s True by (simp add: t_def s5_def)
    ultimately show thesis
      using finish_cases [of t "if ret \<noteq> 0 then FAILURE_RET else SUCCESS_RET" "w\<lparr>w_ram := ram, w_ext := x'\<rparr>"]
        that(1) [of "if ret \<noteq> 0 then FAILURE_RET else SUCCESS_RET" x' ram] by (auto split: if_splits)
  qed
qed

text \<open>The flash holds \<open>c\<close> and the driver is at rest.\<close>

definition flash_holds :: "nat \<Rightarrow> 'p chip \<Rightarrow> (nat \<Rightarrow> u8) \<Rightarrow> ('p, 'e) world \<Rightarrow> bool" where
  "flash_holds N ch c w \<longleftrightarrow> dev_ok (w_dev w) N \<and> bus_idle ch (w_bus w) \<and> busy_reads ch (w_bus w) = 0 \<and>
     contents ch (w_bus w) = c"

lemma flash_holds_update [simp]:
  "flash_holds N ch c (w\<lparr>w_ram := m\<rparr>) = flash_holds N ch c w"
  "flash_holds N ch c (w\<lparr>w_ext := x\<rparr>) = flash_holds N ch c w"
  "flash_holds N ch c (w\<lparr>w_ohci_regs := r\<rparr>) = flash_holds N ch c w"
  "flash_holds N ch c (w\<lparr>w_events := es\<rparr>) = flash_holds N ch c w"
  "flash_holds N ch c (emit e w) = flash_holds N ch c w"
  by (simp_all add: flash_holds_def emit_def)

lemma flash_holds_same: "same_but_events w w' \<Longrightarrow> flash_holds N ch c w' = flash_holds N ch c w"
  by (simp add: flash_holds_def same_but_events_def)

text \<open>The information block, and the load of the image file.\<close>

definition info_of :: "(nat \<Rightarrow> u8) \<Rightarrow> u8 list" where
  "info_of c = map (\<lambda>i. c (0x91000 + i)) [0..<32]"

abbreviation load_image_file :: "('p, 'e) env \<Rightarrow> ('p, 'e) world \<Rightarrow> (('p, 'e) world, int) outcome" where
  "load_image_file E \<equiv> usb_fatload E ''iptvubootupdate.bin'' (word_of_nat (hdr_size + MAX_IMAGE_SECTION div 2))"

lemma uboot_update_loaded:
  assumes m: "m25p pn N ch" and w: "flash_holds N ch c w" and N: "0x91020 \<le> N" and x: "length (sha_buffer ctx) = 64"
    and dev: "1 \<le> env_GetStorageDevicesNum E (w_ext w)" and l: "load_image_file E w = Ret SUCCESS_RET v"
  shows "if image_accepted (w_ram v) (info_of c)
    then \<exists>u. uboot_update E pn ctx flag w = Restart u \<and> w_ram u = w_ram v \<and>
      contents ch (w_bus u) = updated_flash N flag (w_ram v) (info_of c) c
    else \<exists>r u. uboot_update E pn ctx flag w = Ret r u \<and> flash_holds N ch c u \<and> r \<in> {FAILURE_RET, ABNORMITY_RET}"
proof -
  have v: "flash_holds N ch c v"
    by (cases rule: usb_fatload_cases [of E "''iptvubootupdate.bin''" "word_of_nat (hdr_size + MAX_IMAGE_SECTION div 2)" w])
       (use l w in auto)
  then have d: "dev_ok (w_dev v) N" "bus_idle ch (w_bus v)" "busy_reads ch (w_bus v) = 0" "contents ch (w_bus v) = c"
    by (simp_all add: flash_holds_def)
  let ?hdr = "ram_bytes (w_ram v) SWLOADADDR hdr_size"
  let ?h = "image_header ?hdr"
  let ?img = "ram_bytes (w_ram v) (SWLOADADDR + hdr_size) 0x80000"
  obtain p1 where rd: "spi_read pn (w_dev v) (addr24 (word_of_nat 0x91000)) (int 32) (w_bus v) = (int 32, info_of c, p1)"
    "bus_idle ch p1" "busy_reads ch p1 = 0" "contents ch p1 = c"
    using spi_read_contents [of pn N ch "w_dev v" "w_bus v" "0x91000" 32] m d N by (auto simp: m25p_def info_of_def)
  have "blit (replicate 32 0) 0 (info_of c) = info_of c" by (simp add: blit_def info_of_def)
  then have info: "ReadSPIFlashDataToBuffer pn (w_dev v) 0x91000 (replicate 32 0) 32 (w_bus v) = (info_of c, p1)"
    using rd(1) by (simp add: ReadSPIFlashDataToBuffer_def)
  have sha: "soft_sha_1 ctx ?img = (0, sha1_fips ?img)"
    by (rule soft_sha_1_digest [OF _ x]) simp
  have len: "length (sha1_fips ?img) = 20" by simp
  let ?w2 = "v\<lparr>w_bus := p1\<rparr>"
  have w2: "flash_holds N ch c ?w2" using d(1) rd(2-4) by (simp add: flash_holds_def)
  obtain w3 where led: "set_led_flash GB620_RED_LED 3 GB620_LED_FLASH_SEC ?w2 = Ret () w3" "same_but_events ?w2 w3"
    using set_led_flash_sec by blast
  have w3: "flash_holds N ch c w3" using w2 flash_holds_same [OF led(2)] by simp
  have u: "uboot_update E pn ctx flag w =
     (if smitGetCrc16 (take 70 ?hdr) \<noteq> CRC_Header ?h then Ret ABNORMITY_RET w3
      else if check_update_sw_header ?h (info_of c) \<noteq> 0 \<or> SHA1_Uboot ?h \<noteq> sha1_fips ?img then Ret FAILURE_RET ?w2
      else flash_image pn flag ?h (info_of c) ?w2)"
    using dev l info led(1) sha CompareSHA1Value_eq [OF length_sha1_image len] CompareSHA1Value_eq [OF len len]
    by (simp add: uboot_update_def Let_def MAX_IMAGE_SECTION_def hdr_size_def)
  have i32: "length (info_of c) = 32" by (simp add: info_of_def)
  obtain w4 where f: "flash_image pn flag ?h (info_of c) ?w2 = Restart w4" "w_ram w4 = w_ram v"
    "contents ch (w_bus w4) = updated_flash N flag (w_ram v) (info_of c) c"
    using flash_image_restarts [OF m _ _ _ N i32, of ?w2 ?h flag] d(1) rd(2-4) by auto
  show ?thesis unfolding u using f w2 w3 by (auto simp: image_accepted_def Let_def)
qed

lemma uboot_update_outcome:
  assumes m: "m25p pn N ch" and w: "flash_holds N ch c w" and N: "0x91020 \<le> N" and x: "length (sha_buffer ctx) = 64"
  shows "case uboot_update E pn ctx flag w of
      Ret r u \<Rightarrow> flash_holds N ch c u \<and> r \<in> {FAILURE_RET, ABNORMITY_RET}
    | Restart u \<Rightarrow> image_accepted (w_ram u) (info_of c) \<and>
        contents ch (w_bus u) = updated_flash N flag (w_ram u) (info_of c) c
    | Hang \<Rightarrow> False
    | Bad_free \<Rightarrow> \<not> (\<forall>x. fst (env_malloc E x))"
proof (cases "env_GetStorageDevicesNum E (w_ext w) < 1")
  case True
  with w show ?thesis by (simp add: uboot_update_def)
next
  case dev: False
  show ?thesis
  proof (cases rule: usb_fatload_cases [of E "''iptvubootupdate.bin''" "word_of_nat (hdr_size + MAX_IMAGE_SECTION div 2)" w])
    case 2
    with dev show ?thesis by (simp add: uboot_update_def)
  next
    case (1 r ram y)
    show ?thesis
    proof (cases "r = SUCCESS_RET")
      case True
      with 1(1) dev uboot_update_loaded [OF m w N x, of E _ flag] show ?thesis
        by (fastforce split: if_splits)
    next
      case False
      with 1 dev w show ?thesis by (simp add: uboot_update_def)
    qed
  qed
qed

section \<open>The whole procedure\<close>

text \<open>What the shell is given: a C string of fewer than 1024 characters.\<close>

definition script :: "u8 list \<Rightarrow> bool" where
  "script s \<longleftrightarrow> s \<noteq> [] \<and> length s \<le> 1024 \<and> last s = 0 \<and> 0 \<notin> set (butlast s)"

text \<open>
  A call satisfies \<open>post E Q R\<close> when it returns in states of \<open>Q\<close>, restarts in states of \<open>R\<close>, hangs
  only in a script, and frees an uninitialised pointer only in a script or if an allocation can
  fail.
\<close>

definition post ::
    "('p, 'e) env \<Rightarrow> ('a \<Rightarrow> ('p, 'e) world \<Rightarrow> bool) \<Rightarrow> (('p, 'e) world \<Rightarrow> bool) \<Rightarrow> (('p, 'e) world, 'a) outcome \<Rightarrow> bool" where
  "post E Q R o' = (case o' of Ret a w \<Rightarrow> Q a w | Restart w \<Rightarrow> R w
     | Hang \<Rightarrow> \<exists>s w. script s \<and> env_parse_string_outer E s w = Hang
     | Bad_free \<Rightarrow> \<not> (\<forall>x. fst (env_malloc E x)) \<or> (\<exists>s w. script s \<and> env_parse_string_outer E s w = Bad_free))"

lemma post_Ret [simp]: "post E Q R (Ret a w) = Q a w"
  and post_Restart [simp]: "post E Q R (Restart w) = R w"
  by (simp_all add: post_def)

lemma post_andthen:
  "post E Q R m \<Longrightarrow> (\<And>a w. Q a w \<Longrightarrow> post E Q' R (f a w)) \<Longrightarrow> post E Q' R (andthen m f)"
  by (cases m) (simp_all add: post_def)

lemma post_if: "(b \<Longrightarrow> post E Q R x) \<Longrightarrow> (\<not> b \<Longrightarrow> post E Q R y) \<Longrightarrow> post E Q R (if b then x else y)"
  by simp

lemma post_weaken:
  "post E Q R m \<Longrightarrow> (\<And>a w. Q a w \<Longrightarrow> Q' a w) \<Longrightarrow> (\<And>w. R w \<Longrightarrow> R' w) \<Longrightarrow> post E Q' R' m"
  by (cases m) (simp_all add: post_def)

lemma finish_fail_post:
  "alloc_slots E n x = (False, ss, x') \<Longrightarrow> Q r w \<Longrightarrow> post E Q R (finish ss r w)"
  using alloc_slots_garbage [of E n x] by (auto simp: finish_def free_slots_def post_def)

lemma finish_done_post: "Garbage \<notin> set ss \<Longrightarrow> Q r w \<Longrightarrow> post E Q R (finish ss r w)"
  by (simp add: finish_def free_slots_def)

abbreviation keeps :: "('p, 'e) env \<Rightarrow> nat \<Rightarrow> 'p chip \<Rightarrow> (nat \<Rightarrow> u8) \<Rightarrow> (('p, 'e) world \<Rightarrow> bool) \<Rightarrow> (('p, 'e) world, 'a) outcome \<Rightarrow> bool" where
  "keeps E N ch c \<equiv> post E (\<lambda>_. flash_holds N ch c)"

lemma usb_operate_keeps:
  assumes "flash_holds N ch c w"
  shows "keeps E N ch c R (usb_operate E oper w)"
proof -
  obtain ok ss x where s: "alloc_slots E 3 (w_ext w) = (ok, ss, x)" by (metis prod_cases3)
  show ?thesis
  proof (cases ok)
    case False
    with s assms show ?thesis
      by (simp add: usb_operate_def) (rule finish_fail_post [of E 3 "w_ext w" ss x]; simp)
  next
    case True
    with s have g: "Garbage \<notin> set ss" using alloc_slots_done by metis
    with True s assms show ?thesis
      unfolding usb_operate_def s Let_def prod.case
      by (simp split: prod.split) (intro conjI impI allI finish_done_post; simp)
  qed
qed

lemma usb_ext2load_keeps:
  assumes "flash_holds N ch c w"
  shows "keeps E N ch c R (usb_ext2load E fname part w)"
proof -
  obtain ok ss x where s: "alloc_slots E 7 (w_ext w) = (ok, ss, x)" by (metis prod_cases3)
  show ?thesis
  proof (cases ok)
    case False
    with s assms show ?thesis
      by (simp add: usb_ext2load_def) (rule finish_fail_post [of E 7 "w_ext w" ss x]; simp)
  next
    case True
    with s have g: "Garbage \<notin> set ss" using alloc_slots_done by metis
    define t where "t = (let ss = ss[0 := cmd_string ''ext2load'', 1 := cmd_string ''usb''];
            ss = (if part = 1 then ss[2 := cmd_string ''0:1'']
                  else if part = 2 then ss[2 := cmd_string ''0:2''] else ss)
            in ss[3 := cmd_string ''80000000'', 4 := cmd_string fname])"
    have t: "Garbage \<notin> set t" using g by (simp add: t_def Let_def)
    obtain ret ram x' where l: "env_do_ext2load E 6 (slot_args t) (w_ram w) x = (ret, ram, x')"
      by (metis prod_cases3)
    have "usb_ext2load E fname part w =
        (if ret = 1 then finish t FAILURE_RET (w\<lparr>w_ram := ram, w_ext := x'\<rparr>)
         else finish t SUCCESS_RET (w\<lparr>w_ext := x', w_ram := ram(unat (word_of_nat SWLOADADDR + word_of_int ret :: u32) := 0)\<rparr>))"
      using l True unfolding usb_ext2load_def s Let_def prod.case t_def [unfolded Let_def, symmetric]
      by (simp only: if_True if_False prod.case simp_thms) simp
    with t assms show ?thesis
      by (simp split del: if_split) (intro post_if finish_done_post; simp)
  qed
qed

lemma usb_fatload_keeps:
  assumes "flash_holds N ch c w"
  shows "keeps E N ch c R (usb_fatload E fname n w)"
  by (cases rule: usb_fatload_cases [of E fname n w]) (use assms in \<open>simp_all add: post_def\<close>)

lemma usb_wait_keeps: "flash_holds N ch c w \<Longrightarrow> keeps E N ch c R (usb_wait E n nret w)"
proof (induction n arbitrary: nret w)
  case (Suc n)
  from Suc.prems have "keeps E N ch c R (usb_operate E USB_START (emit (Udelay 1000000) w))"
    by (intro usb_operate_keeps) simp
  then have "keeps E N ch c R (andthen (usb_operate E USB_START (emit (Udelay 1000000) w)) (\<lambda>nret w. usb_wait E n nret w))"
    using Suc.IH by (rule post_andthen)
  with Suc.prems show ?case by simp
qed simp

lemma usb_config_start_keeps:
  assumes "flash_holds N ch c w"
  shows "keeps E N ch c R (usb_config_start E cfg w)"
  unfolding usb_config_start_def using assms
  by (intro post_andthen [OF usb_operate_keeps] usb_wait_keeps) simp_all

lemma check_ext2_usb_keeps: "flash_holds N ch c w \<Longrightarrow> flash_holds N ch c (snd (check_ext2_usb E part w))"
  by (simp add: check_ext2_usb_def Let_def split: prod.split)

text \<open>A string in memory with a zero at \<open>a + n\<close> is found by \<open>strlen\<close>.\<close>

lemma ram_strlen_bounded:
  "m (a + n) = 0 \<Longrightarrow> \<exists>k \<le> n. ram_strlen m a = Some k \<and> m (a + k) = 0 \<and> (\<forall>i < k. m (a + i) \<noteq> 0)"
proof (induction n arbitrary: a)
  case 0
  then show ?case by (simp add: ram_strlen.simps [of m a])
next
  case (Suc n)
  show ?case
  proof (cases "m a = 0")
    case True
    then show ?thesis by (intro exI [of _ 0]) (simp add: ram_strlen.simps [of m a])
  next
    case False
    from Suc.IH [of "a + 1"] Suc.prems obtain k where k: "k \<le> n" "ram_strlen m (a + 1) = Some k"
      "m (a + 1 + k) = 0" "\<forall>i < k. m (a + 1 + i) \<noteq> 0" by auto
    moreover have "m (a + i) \<noteq> 0" if "i < Suc k" for i
      using that k(4) False by (cases i) auto
    ultimately show ?thesis
      using False by (intro exI [of _ "Suc k"]) (simp add: ram_strlen.simps [of m a])
  qed
qed

text \<open>
  Boot scripts may do anything to the flash, restart the machine or never return; only a script
  that returns leaves the flash driver at rest. \<open>n\<close> scripts, run one after the other, take the
  contents from \<open>c\<close> to \<open>c'\<close>.
\<close>

definition scripts_rest :: "('p, 'e) env \<Rightarrow> nat \<Rightarrow> 'p chip \<Rightarrow> bool" where
  "scripts_rest E N ch \<longleftrightarrow> (\<forall>c s w r w'. script s \<longrightarrow> flash_holds N ch c w \<longrightarrow>
     env_parse_string_outer E s w = Ret r w' \<longrightarrow> (\<exists>c'. flash_holds N ch c' w'))"

inductive script_runs :: "('p, 'e) env \<Rightarrow> nat \<Rightarrow> 'p chip \<Rightarrow> nat \<Rightarrow> (nat \<Rightarrow> u8) \<Rightarrow> (nat \<Rightarrow> u8) \<Rightarrow> bool"
  for E N ch where
  no_script: "script_runs E N ch 0 c c"
| one_more: "script_runs E N ch n c c' \<Longrightarrow> script s \<Longrightarrow> flash_holds N ch c' w \<Longrightarrow>
     env_parse_string_outer E s w = Ret r w' \<Longrightarrow> flash_holds N ch c'' w' \<Longrightarrow> script_runs E N ch (Suc n) c c''"

lemma script_runs_append:
  "script_runs E N ch j c' c'' \<Longrightarrow> script_runs E N ch k c c' \<Longrightarrow> script_runs E N ch (k + j) c c''"
  by (induction rule: script_runs.induct) (auto intro: script_runs.intros)

text \<open>At most \<open>n\<close> scripts have returned, and the driver is at rest.\<close>

definition scripted :: "('p, 'e) env \<Rightarrow> nat \<Rightarrow> 'p chip \<Rightarrow> nat \<Rightarrow> (nat \<Rightarrow> u8) \<Rightarrow> ('p, 'e) world \<Rightarrow> bool" where
  "scripted E N ch n c w \<longleftrightarrow> (\<exists>k \<le> n. \<exists>c'. script_runs E N ch k c c' \<and> flash_holds N ch c' w)"

lemma scripted_refl: "flash_holds N ch c w \<Longrightarrow> scripted E N ch n c w"
  unfolding scripted_def by (auto intro: no_script)

lemma scripted_append:
  "script_runs E N ch k c c' \<Longrightarrow> scripted E N ch n c' w \<Longrightarrow> k + n \<le> m \<Longrightarrow> scripted E N ch m c w"
  unfolding scripted_def using script_runs_append by (meson add_left_mono le_trans)

text \<open>The restarts: an image was accepted and written, a failed check, or a script's own.\<close>

definition flash_sound :: "nat \<Rightarrow> (nat \<Rightarrow> u8) \<Rightarrow> (nat \<Rightarrow> u8) \<Rightarrow> (nat \<Rightarrow> u8) \<Rightarrow> bool" where
  "flash_sound N ram c c' \<longleftrightarrow>
     c' = c \<or> (image_accepted ram (info_of c) \<and> c' = updated_flash N 1 ram (info_of c) c)"

definition restarted :: "('p, 'e) env \<Rightarrow> nat \<Rightarrow> 'p chip \<Rightarrow> (nat \<Rightarrow> u8) \<Rightarrow> ('p, 'e) world \<Rightarrow> bool" where
  "restarted E N ch c w' \<longleftrightarrow> flash_sound N (w_ram w') c (contents ch (w_bus w')) \<or>
     (\<exists>s w. script s \<and> flash_holds N ch c w \<and> env_parse_string_outer E s w = Restart w')"

lemma parse_uboot_env_script:
  assumes z: "w_ram w (SWLOADADDR + 1023) = 0"
  obtains x where "parse_uboot_env E w = Ret ABNORMITY_RET (w\<lparr>w_ext := x\<rparr>)"
  | s x where "script s" "parse_uboot_env E w = andthen (env_parse_string_outer E s (w\<lparr>w_ext := x\<rparr>))
      (\<lambda>rc w. Ret (if rc \<noteq> 0 then FAILURE_RET else SUCCESS_RET) w)"
proof -
  obtain k where k: "k \<le> 1023" "ram_strlen (w_ram w) SWLOADADDR = Some k"
    "w_ram w (SWLOADADDR + k) = 0" "\<forall>i < k. w_ram w (SWLOADADDR + i) \<noteq> 0"
    using ram_strlen_bounded [of "w_ram w" SWLOADADDR 1023] z by auto
  obtain ok x where m: "env_malloc E (w_ext w) = (ok, x)" by fastforce
  let ?s = "map (\<lambda>i. w_ram w (SWLOADADDR + i)) [0..<k + 1]"
  have "script ?s" using k(1,3,4) by (auto simp: script_def)
  with k(2) m show thesis
    using that by (cases ok) (auto simp: parse_uboot_env_def)
qed

lemma parse_uboot_env_post:
  assumes s: "scripts_rest E N ch" and z: "w_ram w (SWLOADADDR + 1023) = 0" and w: "flash_holds N ch c w"
  shows "post E (\<lambda>rc w. scripted E N ch 1 c w \<and> (rc = ABNORMITY_RET \<longrightarrow> flash_holds N ch c w)) (restarted E N ch c)
    (parse_uboot_env E w)"
proof (cases rule: parse_uboot_env_script [OF z, of E])
  case (1 x)
  with w show ?thesis by (simp add: scripted_refl)
next
  case (2 t x)
  let ?w = "w\<lparr>w_ext := x\<rparr>"
  have w': "flash_holds N ch c ?w" using w by simp
  have ret: "scripted E N ch 1 c u" if r: "env_parse_string_outer E t ?w = Ret r u" for r u
  proof -
    from s 2(1) w' r obtain c' where c': "flash_holds N ch c' u" unfolding scripts_rest_def by metis
    have "script_runs E N ch (Suc 0) c c'" by (rule one_more [OF no_script 2(1) w' r c'])
    with c' show ?thesis unfolding scripted_def by auto
  qed
  have re: "restarted E N ch c u" if "env_parse_string_outer E t ?w = Restart u" for u
    unfolding restarted_def using 2(1) w' that by blast
  show ?thesis unfolding 2(2)
    by (cases "env_parse_string_outer E t ?w") (use ret re 2(1) in \<open>auto simp: post_def\<close>)
qed

lemma load_uboot_env_post:
  assumes s: "scripts_rest E N ch" and w: "flash_holds N ch c w"
  shows "post E (\<lambda>rc w. scripted E N ch 1 c w \<and> (rc = ABNORMITY_RET \<longrightarrow> flash_holds N ch c w)) (restarted E N ch c)
    (load_uboot_env E part w)"
proof -
  let ?post = "post E (\<lambda>rc w. scripted E N ch 1 c w \<and> (rc = ABNORMITY_RET \<longrightarrow> flash_holds N ch c w)) (restarted E N ch c)"
  have parse: "?post (if r = SUCCESS_RET then parse_uboot_env E (w\<lparr>w_ram := (w_ram w)(SWLOADADDR + 1023 := 0)\<rparr>)
      else Ret ABNORMITY_RET w)" if "flash_holds N ch c w" for r w
    using that by (intro post_if parse_uboot_env_post [OF s]) (simp_all add: scripted_refl)
  have fat: "?post (andthen (usb_fatload E ''uboot.sh'' (word_of_nat 1024) w)
       (\<lambda>r w. if r = SUCCESS_RET then parse_uboot_env E (w\<lparr>w_ram := (w_ram w)(SWLOADADDR + 1023 := 0)\<rparr>)
          else Ret ABNORMITY_RET w))" if "flash_holds N ch c w" for w
    by (rule post_andthen [OF usb_fatload_keeps [OF that] parse])
  have ext: "?post (andthen (usb_ext2load E ''uboot.sh'' part w)
       (\<lambda>r w. let w = w\<lparr>w_ext := env_ext2fs_close E (w_ext w)\<rparr> in
          if r = SUCCESS_RET then parse_uboot_env E (w\<lparr>w_ram := (w_ram w)(SWLOADADDR + 1023 := 0)\<rparr>)
          else Ret ABNORMITY_RET w))" if "flash_holds N ch c w" for w
    unfolding Let_def by (rule post_andthen [OF usb_ext2load_keeps [OF that] parse]) simp
  have "(1024 :: nat) - 1 = 1023" by simp
  then show ?thesis
    using w fat ext unfolding load_uboot_env_def Let_def
    by (simp only: split: prod.split) (auto simp: scripted_refl)
qed

lemma restarted_same: "contents ch (w_bus w) = c \<Longrightarrow> restarted E N ch c w"
  by (simp add: restarted_def flash_sound_def)

lemma uboot_update_keeps:
  assumes m: "m25p pn N ch" and w: "flash_holds N ch c w"
    and N: "0x91020 \<le> N" and x: "length (sha_buffer ctx) = 64"
  shows "keeps E N ch c (restarted E N ch c) (uboot_update E pn ctx 1 w)"
  using uboot_update_outcome [OF m w N x, where E = E and flag = 1]
  by (simp add: post_def restarted_def flash_sound_def split: outcome.splits)

lemma smit_restartST40_keeps:
  "flash_holds N ch c w \<Longrightarrow> keeps E N ch c (restarted E N ch c) (smit_restartST40 w)"
  by (simp add: smit_restartST40_def) (rule restarted_same, simp add: flash_holds_def emit_def)

lemma update_from_usb_post:
  assumes m: "m25p pn N ch" and s: "scripts_rest E N ch" and w: "flash_holds N ch c w"
    and N: "0x91020 \<le> N" and x: "length (sha_buffer ctx) = 64"
  shows "post E (\<lambda>_. scripted E N ch 1 c) (restarted E N ch c) (update_from_usb E pn ctx ext w)"
proof -
  let ?post = "post E (\<lambda>_. scripted E N ch 1 c) (restarted E N ch c)"
  have load: "?post (load_uboot_env E part w)" if "flash_holds N ch c w" for part w
    by (rule post_weaken [OF load_uboot_env_post [OF s that]]) simp_all
  have upd: "keeps E N ch c (restarted E N ch c) (if k = 1
        then andthen (uboot_update E pn ctx 1 w) (\<lambda>rc w. if rc = ABNORMITY_RET then smit_restartST40 w else Ret () w)
        else Ret () w)" if "flash_holds N ch c w" for k :: int and w
    using that
    by (intro post_if post_andthen [OF uboot_update_keeps [OF m that N x]] smit_restartST40_keeps) simp_all
  have rest: "?post (let (k, w) = check_ext2_usb E 1 w in
        andthen (if k = 1
                 then andthen (uboot_update E pn ctx 1 w) (\<lambda>rc w. if rc = ABNORMITY_RET then smit_restartST40 w else Ret () w)
                 else Ret () w) (\<lambda>_ w. load_uboot_env E 2 w))" if "flash_holds N ch c w" for w
    using check_ext2_usb_keeps [OF that, of E 1]
    by (cases "check_ext2_usb E 1 w") (simp split del: if_split del: One_nat_def, rule post_andthen [OF upd load])
  have "?post (andthen (usb_config_start E cfg w) (\<lambda>r w.
        if r = FAILURE_RET then Ret FAILURE_RET w
        else andthen (load_uboot_env E 1 w) (\<lambda>rc w.
          if rc = ABNORMITY_RET then
            let (k, w) = check_ext2_usb E 1 w in
            andthen (if k = 1
                     then andthen (uboot_update E pn ctx 1 w)
                            (\<lambda>rc w. if rc = ABNORMITY_RET then smit_restartST40 w else Ret () w)
                     else Ret () w)
              (\<lambda>_ w. load_uboot_env E 2 w)
          else Ret rc w)))" for cfg
    by (intro post_andthen [OF usb_config_start_keeps [OF w]] post_if post_andthen [OF load_uboot_env_post [OF s]] rest)
       (simp_all add: scripted_refl)
  then show ?thesis unfolding update_from_usb_def Let_def .
qed

lemma init_pio_holds: "flash_holds N ch c (init_pio w) = flash_holds N ch c w"
  unfolding init_pio_def by (rule flash_holds_same) (rule same_fold_emit)

lemma leds_hold [simp]: "flash_holds N ch c (set_led_red v w) = flash_holds N ch c w"
  "flash_holds N ch c (set_led_blue v w) = flash_holds N ch c w"
  by (simp_all add: set_led_red_def set_led_blue_def)

lemma update_process_post:
  assumes m: "m25p pn N ch" and s: "scripts_rest E N ch" and w: "flash_holds N ch c w"
    and N: "0x91020 \<le> N" and x: "length (sha_buffer ctx) = 64"
  shows "post E (\<lambda>_. scripted E N ch 2 c) (\<lambda>w'. \<exists>k \<le> 1. \<exists>c'. script_runs E N ch k c c' \<and> restarted E N ch c' w')
    (update_process E pn ctx w)"
proof -
  let ?R = "\<lambda>w'. \<exists>k \<le> 1. \<exists>c'. script_runs E N ch k c c' \<and> restarted E N ch c' w'"
  let ?post = "post E (\<lambda>_. scripted E N ch 2 c) ?R"
  have first: "post E (\<lambda>_. scripted E N ch 1 c) ?R (update_from_usb E pn ctx e w)" if "flash_holds N ch c w" for e w
    by (rule post_weaken [OF update_from_usb_post [OF m s that N x]]) (auto intro: no_script)
  have second: "?post (update_from_usb E pn ctx e w)" if "scripted E N ch 1 c w" for e w
  proof -
    from that obtain k c' where k: "k \<le> 1" "script_runs E N ch k c c'" "flash_holds N ch c' w"
      unfolding scripted_def by auto
    show ?thesis
      by (rule post_weaken [OF update_from_usb_post [OF m s k(3) N x]])
         (use k in \<open>auto intro: scripted_append\<close>)
  qed
  have more: "scripted E N ch 2 c w" if "scripted E N ch 1 c w" for w
    using that unfolding scripted_def by (meson le_trans one_le_numeral)
  have "?post (andthen (update_from_usb E pn ctx e w)
          (\<lambda>r w. if r \<noteq> SUCCESS_RET then update_from_usb E pn ctx e' w else Ret SUCCESS_RET w))"
    if "flash_holds N ch c w" for e e' w
    by (intro post_andthen [OF first [OF that]] post_if second) (simp_all add: more)
  then show ?thesis
    using w unfolding update_process_def Let_def by (simp add: init_pio_holds)
qed

text \<open>C1: Whatever the storage devices hold, the start-up procedure runs at most two boot scripts and writes nothing else to the flash than an image whose header CRC, version fields and SHA-1 digest were accepted: when it returns, the contents are what the scripts made of them; when it restarts the machine after at most one script, they are what the script left, or an accepted image was written on top, or a script asked for the restart. It hangs only in a script, and frees an uninitialised pointer only there when allocations succeed. Scripts may change the flash, restart or never return; one that returns leaves the flash driver at rest.\<close>

theorem update_process_safe:
  assumes "m25p pn N ch" "scripts_rest E N ch" "flash_holds N ch c w" "0x91020 \<le> N" "length (sha_buffer ctx) = 64"
    and "\<And>x. fst (env_malloc E x)"
  shows "case update_process E pn ctx w of
      Ret r w' \<Rightarrow> \<exists>k \<le> 2. \<exists>c'. script_runs E N ch k c c' \<and> flash_holds N ch c' w'
    | Restart w' \<Rightarrow> \<exists>k \<le> 1. \<exists>c'. script_runs E N ch k c c' \<and>
        (contents ch (w_bus w') = c' \<or>
         image_accepted (w_ram w') (info_of c') \<and>
           contents ch (w_bus w') = updated_flash N 1 (w_ram w') (info_of c') c' \<or>
         (\<exists>s v. script s \<and> flash_holds N ch c' v \<and> env_parse_string_outer E s v = Restart w'))
    | Hang \<Rightarrow> \<exists>s v. script s \<and> env_parse_string_outer E s v = Hang
    | Bad_free \<Rightarrow> \<exists>s v. script s \<and> env_parse_string_outer E s v = Bad_free"
  using update_process_post [OF assms(1-5)] assms(6)
  by (simp add: post_def restarted_def flash_sound_def scripted_def disj_assoc split: outcome.splits)

text \<open>C2: An update attempt either returns an error code with the flash unchanged, or restarts after writing an accepted image at 0, its information block at 0x91000 and, when \<open>flag\<close> is not 1, the start flag at 0x90000.\<close>

theorem uboot_update_safe:
  assumes "m25p pn N ch" "dev_ok (w_dev w) N" "bus_idle ch (w_bus w)" "busy_reads ch (w_bus w) = 0"
    and "0x91020 \<le> N" "length (sha_buffer ctx) = 64"
  shows "case uboot_update E pn ctx flag w of
      Ret r w' \<Rightarrow> contents ch (w_bus w') = contents ch (w_bus w) \<and> r \<in> {FAILURE_RET, ABNORMITY_RET}
    | Restart w' \<Rightarrow>
        let info = map (\<lambda>i. contents ch (w_bus w) (0x91000 + i)) [0..<32]
        in image_accepted (w_ram w') info \<and>
           contents ch (w_bus w') = updated_flash N flag (w_ram w') info (contents ch (w_bus w))
    | Hang \<Rightarrow> False
    | Bad_free \<Rightarrow> \<not> (\<forall>x. fst (env_malloc E x))"
  using uboot_update_outcome [OF assms(1) _ assms(5,6), where c = "contents ch (w_bus w)" and w = w and E = E and flag = flag] assms(2-4)
  by (simp add: flash_holds_def info_of_def Let_def split: outcome.splits)

section \<open>A concrete board\<close>

text \<open>Every allocation succeeds, one storage device, empty files, a shell that does nothing.\<close>

definition quiet_env :: "(flash_core lines, nat) env" where
  "quiet_env = \<lparr>env_malloc = \<lambda>x. (True, x), env_do_usb = \<lambda>_ x. (0, x),
     env_do_ext2load = \<lambda>_ _ m x. (0, m, x), env_do_fat_fsload = \<lambda>_ _ m x. (0, m, x),
     env_GetStorageDevicesNum = \<lambda>_. 1, env_dev_index = \<lambda>_. 2, env_get_dev = \<lambda>_. True,
     env_ext2fs_set_blk_dev = \<lambda>_ x. (1, x), env_ext2fs_mount = \<lambda>_ x. (0, x),
     env_ext2fs_open = \<lambda>_ x. (0, x), env_ext2fs_close = \<lambda>x. x, env_key_pin = \<lambda>_. 0,
     env_parse_string_outer = \<lambda>_ w. Ret 0 w\<rparr>"

definition m25p80_world :: "(flash_core lines, nat) world" where
  "m25p80_world = \<lparr>w_ram = \<lambda>_. 0, w_bus = m25p80_idle, w_dev = m25p80_dev, w_ohci_regs = 0,
     w_events = [], w_ext = 0\<rparr>"

lemma m25p80_world_holds:
  "flash_holds 0x100000 flash_chip (contents flash_chip m25p80_idle) m25p80_world"
  using m25p80_ok m25p80_idle by (simp add: flash_holds_def m25p80_world_def)

text \<open>The same board with a shell whose scripts store a byte in the flash.\<close>

definition storing_env :: "(flash_core lines, nat) env" where
  "storing_env = quiet_env\<lparr>env_parse_string_outer := \<lambda>_ w.
     case WriteSPIFlashDataByChar (slave_pins flash_slave) (w_dev w) 0x90000 1 (w_bus w) of
       None \<Rightarrow> Hang
     | Some (dev, p) \<Rightarrow> Ret 0 (w\<lparr>w_dev := dev, w_bus := p\<rparr>)\<rparr>"

lemma storing_scripts: "scripts_rest storing_env 0x100000 flash_chip"
  unfolding scripts_rest_def
proof (intro allI impI)
  fix c s r and w w' :: "(flash_core lines, nat) world"
  assume w: "flash_holds 0x100000 flash_chip c w" and r: "env_parse_string_outer storing_env s w = Ret r w'"
  have m: "m25p (slave_pins flash_slave) 0x100000 flash_chip" by (rule flash_is_m25p) simp
  obtain d p where 1: "WriteSPIFlashDataByChar (slave_pins flash_slave) (w_dev w) 0x90000 1 (w_bus w) = Some (d, p)"
    "dev_ok d 0x100000" "bus_idle flash_chip p" "busy_reads flash_chip p = 0"
    using write_bytes [OF m, of "w_dev w" "w_bus w" "0x90000" "[1]" 1] w
    by (auto simp: flash_holds_def WriteSPIFlashDataByChar_def)
  with r show "\<exists>c'. flash_holds 0x100000 flash_chip c' w'"
    by (auto simp: storing_env_def flash_holds_def)
qed

theorem update_process_safe_witness:
  "case update_process storing_env (slave_pins flash_slave) blank_ctx m25p80_world of
      Ret r w' \<Rightarrow> \<exists>k \<le> 2. \<exists>c'. script_runs storing_env 0x100000 flash_chip k (contents flash_chip m25p80_idle) c' \<and>
        flash_holds 0x100000 flash_chip c' w'
    | Restart w' \<Rightarrow> \<exists>k \<le> 1. \<exists>c'. script_runs storing_env 0x100000 flash_chip k (contents flash_chip m25p80_idle) c' \<and>
        (contents flash_chip (w_bus w') = c' \<or>
         image_accepted (w_ram w') (info_of c') \<and>
           contents flash_chip (w_bus w') = updated_flash 0x100000 1 (w_ram w') (info_of c') c' \<or>
         (\<exists>s v. script s \<and> flash_holds 0x100000 flash_chip c' v \<and> env_parse_string_outer storing_env s v = Restart w'))
    | Hang \<Rightarrow> \<exists>s v. script s \<and> env_parse_string_outer storing_env s v = Hang
    | Bad_free \<Rightarrow> \<exists>s v. script s \<and> env_parse_string_outer storing_env s v = Bad_free"
  by (rule update_process_safe [OF flash_is_m25p storing_scripts m25p80_world_holds])
     (simp_all add: blank_ctx_def storing_env_def quiet_env_def)

theorem uboot_update_safe_witness:
  "case uboot_update quiet_env (slave_pins flash_slave) blank_ctx 1 m25p80_world of
      Ret r w' \<Rightarrow> contents flash_chip (w_bus w') = contents flash_chip (w_bus m25p80_world) \<and>
         r \<in> {FAILURE_RET, ABNORMITY_RET}
    | Restart w' \<Rightarrow>
        let info = map (\<lambda>i. contents flash_chip (w_bus m25p80_world) (0x91000 + i)) [0..<32]
        in image_accepted (w_ram w') info \<and>
           contents flash_chip (w_bus w') = updated_flash 0x100000 1 (w_ram w') info (contents flash_chip (w_bus m25p80_world))
    | Hang \<Rightarrow> False
    | Bad_free \<Rightarrow> \<not> (\<forall>x. fst (env_malloc quiet_env x))"
proof (rule uboot_update_safe [where N = "0x100000"])
  show "m25p (slave_pins flash_slave) 0x100000 flash_chip" by (rule flash_is_m25p) simp
qed (use m25p80_ok m25p80_idle in \<open>simp_all add: m25p80_world_def blank_ctx_def\<close>)

section \<open>What the digest covers\<close>

lemma ram_bytes_cong: "(\<And>i. i < n \<Longrightarrow> m' (a + i) = m (a + i)) \<Longrightarrow> ram_bytes m' a n = ram_bytes m a n"
  by (simp add: ram_bytes_def)

lemma nth_overwrite_out:
  "\<not> (off \<le> a \<and> a < off + length xs) \<Longrightarrow> overwrite c off xs a = c a"
  by (auto simp: overwrite_def)

lemma accepted_cong:
  assumes same: "\<forall>a < hdr_size + 0x80000. ram' (SWLOADADDR + a) = ram (SWLOADADDR + a)"
  shows "ram_bytes ram' SWLOADADDR hdr_size = ram_bytes ram SWLOADADDR hdr_size"
    and "image_accepted ram' info \<longleftrightarrow> image_accepted ram info"
proof -
  show h: "ram_bytes ram' SWLOADADDR hdr_size = ram_bytes ram SWLOADADDR hdr_size"
    by (rule ram_bytes_cong) (use same in simp)
  have b: "ram_bytes ram' (SWLOADADDR + hdr_size) 0x80000 = ram_bytes ram (SWLOADADDR + hdr_size) 0x80000"
    by (rule ram_bytes_cong) (use same [rule_format, of "hdr_size + i" for i] in \<open>simp add: add.assoc\<close>)
  show "image_accepted ram' info \<longleftrightarrow> image_accepted ram info" unfolding image_accepted_def h b ..
qed

lemma updated_flash_body:
  assumes "k < 0x90000" "k < unat (UbootSize (image_header (ram_bytes ram SWLOADADDR hdr_size)))"
    "unat (UbootSize (image_header (ram_bytes ram SWLOADADDR hdr_size))) \<le> N"
  shows "updated_flash N flag ram info c k = ram (SWLOADADDR + hdr_size + k)"
  unfolding updated_flash_def Let_def image_flashed_def
  using assms by (simp add: nth_overwrite_out) (simp add: overwrite_def ram_bytes_def)


text \<open>An image whose size field is larger than what is hashed, with matching checks.\<close>

definition long_hdr70 :: "u8 list" where
  "long_hdr70 = [0x89, 0x67, 0xcd, 0xab, 1, 0, 0, 0] @ replicate 20 0 @ [0, 0, 0, 0, 0, 0, 0, 0, 1, 0, 8, 0] @
     replicate 10 0 @ sha1_fips (replicate 0x80000 0)"

definition long_image :: "nat \<Rightarrow> u8" where
  "long_image a = (let hdr = long_hdr70 @ [ucast (smitGetCrc16 long_hdr70), ucast (drop_bit 8 (smitGetCrc16 long_hdr70))]
     in if SWLOADADDR \<le> a \<and> a < SWLOADADDR + 72 then hdr ! (a - SWLOADADDR) else 0)"

lemma long_image_header: "ram_bytes long_image SWLOADADDR hdr_size =
    long_hdr70 @ [ucast (smitGetCrc16 long_hdr70), ucast (drop_bit 8 (smitGetCrc16 long_hdr70))]"
proof (rule nth_equalityI)
  have l: "length long_hdr70 = 70" by (simp add: long_hdr70_def)
  then show "length (ram_bytes long_image SWLOADADDR hdr_size) =
      length (long_hdr70 @ [ucast (smitGetCrc16 long_hdr70), ucast (drop_bit 8 (smitGetCrc16 long_hdr70))])"
    by (simp add: hdr_size_def)
  fix i assume "i < length (ram_bytes long_image SWLOADADDR hdr_size)"
  then show "ram_bytes long_image SWLOADADDR hdr_size ! i =
      (long_hdr70 @ [ucast (smitGetCrc16 long_hdr70), ucast (drop_bit 8 (smitGetCrc16 long_hdr70))]) ! i"
    by (simp add: ram_bytes_def long_image_def hdr_size_def)
qed

lemma u16_bytes: "ucast (ucast (x :: u16) :: u8) OR push_bit 8 (ucast (ucast (drop_bit 8 x) :: u8)) = x"
  by (rule bit_word_eqI) (auto simp: bit_simps dest: bit_imp_le_length)

lemma long_image_size: "UbootSize (image_header (ram_bytes long_image SWLOADADDR hdr_size)) = 0x80001"
  unfolding long_image_header image_header_def
  by (simp add: long_hdr70_def le32_def nth_append nth_Cons')

lemma long_image_accepted: "image_accepted long_image (replicate 32 0xff)"
proof -
  have "ram_bytes long_image (SWLOADADDR + hdr_size) 0x80000 = replicate 0x80000 0"
    by (rule nth_equalityI) (simp_all add: ram_bytes_def long_image_def hdr_size_def)
  moreover have "length long_hdr70 = 70" by (simp add: long_hdr70_def)
  ultimately show ?thesis
    unfolding image_accepted_def Let_def long_image_header
    by (simp add: image_header_def check_update_sw_header_def nth_append u16_bytes)
       (simp add: long_hdr70_def le32_def info_UBOOT_Ver_def info_FactoryID_def info_DeviceID_def nth_append
          nth_Cons' hdr_size_def)
qed

text \<open>A blank flash behind a memory with the image; the file load leaves memory as it is.\<close>

definition blank_bus :: "flash_core lines" where
  "blank_bus = m25p80_idle\<lparr>bus_core := bus_core m25p80_idle\<lparr>fl_store := \<lambda>_. 0xff\<rparr>\<rparr>"

definition long_world :: "(nat \<Rightarrow> u8) \<Rightarrow> (flash_core lines, nat) world" where
  "long_world ram = m25p80_world\<lparr>w_ram := ram, w_bus := blank_bus\<rparr>"

lemma long_world_holds: "flash_holds 0x100000 flash_chip (\<lambda>_. 0xff) (long_world ram)"
  using m25p80_ok m25p80_idle
  by (simp add: flash_holds_def long_world_def m25p80_world_def blank_bus_def flash_chip_def bus_aligned_def)

lemma long_world_load: "load_image_file quiet_env (long_world ram) = Ret SUCCESS_RET (long_world ram)"
proof -
  have "alloc_slots quiet_env n x = (True, replicate n (Buf []), x)" for n x
    by (induction n) (simp_all add: quiet_env_def)
  moreover have "env_do_fat_fsload quiet_env n ss m x = (0, m, x)" for n ss m x
    by (simp add: quiet_env_def)
  ultimately show ?thesis
    by (simp add: usb_fatload_def Let_def finish_def free_slots_def long_world_def m25p80_world_def)
qed

lemma long_world_update:
  obtains u where "uboot_update quiet_env (slave_pins flash_slave) blank_ctx 1 (long_world long_image) = Restart u"
proof -
  have "info_of (\<lambda>_. 0xff) = replicate 32 0xff" by (simp add: info_of_def map_replicate_const)
  then have "image_accepted (w_ram (long_world long_image)) (info_of (\<lambda>_. 0xff))"
    using long_image_accepted by (simp add: long_world_def)
  then show thesis
    using that uboot_update_loaded [OF flash_is_m25p long_world_holds _ _ _ long_world_load [of long_image], of blank_ctx 1]
    by (auto simp: blank_ctx_def quiet_env_def)
qed


section \<open>The header CRC\<close>

text \<open>The two halves as one 16-bit register, and the serial CRC on it.\<close>

definition crc16_reg :: "u8 \<times> u8 \<Rightarrow> u16" where
  "crc16_reg s = push_bit 8 (ucast (fst s)) OR ucast (snd s)"

definition crc16_serial :: "u16 \<Rightarrow> u16" where
  "crc16_serial r = (if bit r 0 then drop_bit 1 r XOR 0x8005 else drop_bit 1 r)"

definition crc16_spec :: "u16 \<Rightarrow> u8 list \<Rightarrow> u16" where
  "crc16_spec r bs = fold (\<lambda>b r. (crc16_serial ^^ 8) (r XOR ucast b)) bs r"

lemma crc16_bit_pair: "crc16_bit (h, l) =
   (let h' = drop_bit 1 h; l' = (if bit h 0 then drop_bit 1 l OR 0x80 else drop_bit 1 l)
    in if bit l 0 then (h' XOR 0x80, l' XOR 0x05) else (h', l'))"
proof -
  have "(w AND 1 = 1) = bit w 0" for w :: u8 by (simp add: and_one_eq bit_0 odd_iff_mod_2_eq_one)
  then show ?thesis by (simp add: crc16_bit_def Let_def)
qed

lemma bit_0x80: "bit (0x80 :: u8) n \<longleftrightarrow> n = 7"
proof -
  have "(0x80 :: u8) = push_bit 7 1" by simp
  then show ?thesis by (simp only: bit_push_bit_iff bit_1_iff) auto
qed

lemma bit_0x05: "bit (0x05 :: 'a::len word) n \<longleftrightarrow> (n = 0 \<or> n = 2) \<and> n < LENGTH('a)"
proof -
  have "(0x05 :: 'a word) = push_bit 2 1 OR 1" by simp
  then show ?thesis by (simp only: bit_or_iff bit_push_bit_iff bit_1_iff) auto
qed

lemma bit_crc16_reg: "bit (crc16_reg (h, l)) n \<longleftrightarrow> (if n < 8 then bit l n else bit h (n - 8))"
  by (auto simp: crc16_reg_def bit_simps dest: bit_imp_le_length)

lemma crc16_bit_serial: "crc16_reg (crc16_bit s) = crc16_serial (crc16_reg s)"
proof -
  obtain h l where s: "s = (h, l)" by fastforce
  have c: "(0x8005 :: u16) = crc16_reg (0x80, 0x05)" by (simp add: crc16_reg_def)
  show ?thesis
  proof (rule bit_word_eqI)
    fix n assume "n < LENGTH(16)"
    then have n: "n < 16" by simp
    have b80: "bit (0x80 :: u8) = (\<lambda>n. n = 7)" by (rule ext) (rule bit_0x80)
    have b05: "bit (0x05 :: u8) = (\<lambda>n. (n = 0 \<or> n = 2) \<and> n < 8)" by (rule ext) (simp only: bit_0x05 len_num0 len_bit0 len_bit1, simp)
    have l8: "\<not> bit l 8" by (auto dest: bit_imp_le_length)
    consider "n < 7" | "n = 7" | "7 < n" by linarith
    then show "bit (crc16_reg (crc16_bit s)) n = bit (crc16_serial (crc16_reg s)) n"
      unfolding s crc16_serial_def crc16_bit_pair c
      using n by cases (auto simp: Let_def bit_crc16_reg bit_simps b80 b05 l8 Suc_diff_le [symmetric])
  qed
qed

lemma funpow_commute: "(\<And>x. g (f x) = h (g x)) \<Longrightarrow> g ((f ^^ n) x) = (h ^^ n) (g x)"
  by (induction n) simp_all

text \<open>The two-register loop of \<open>smitGetCrc16\<close> computes the bit-serial CRC with polynomial 0x8005 on the 16-bit register formed by its halves.\<close>

theorem crc16_register:
  "crc16_reg (crc16_bytes s bs) = crc16_spec (crc16_reg s) bs"
proof (induction bs arbitrary: s)
  case (Cons b bs)
  have "crc16_reg (fst s, snd s XOR b) = crc16_reg s XOR ucast b"
    by (rule bit_word_eqI) (cases s, auto simp: bit_crc16_reg bit_simps dest: bit_imp_le_length)
  then show ?case
    using Cons by (simp add: crc16_spec_def funpow_commute [of crc16_reg crc16_bit crc16_serial, OF crc16_bit_serial])
qed (simp add: crc16_spec_def)

lemma funpow_8: "(f ^^ 8) x = f (f (f (f (f (f (f (f x)))))))"
  by (simp add: eval_nat_numeral)

text \<open>The halves are combined with the factor 0xff instead of 0x100, so messages with different CRC registers get equal checksums.\<close>

theorem crc16_value_collides:
  "crc16_bytes (0, 0) [0xc3, 0x01] \<noteq> crc16_bytes (0, 0) [0x3a, 0x1a] \<and>
   smitGetCrc16 [0xc3, 0x01] = smitGetCrc16 [0x3a, 0x1a]"
  by (simp add: smitGetCrc16_def crc16_value_def crc16_bit_pair funpow_8 Let_def)

section \<open>Clean-up and lamps\<close>

text \<open>When the first allocation fails, the clean-up of the three command wrappers passes uninitialised pointers to \<open>free\<close>.\<close>

theorem failed_malloc_frees_garbage:
  assumes "\<not> fst (env_malloc E (w_ext w))"
  shows "usb_operate E oper w = Bad_free \<and> usb_ext2load E f part w = Bad_free \<and> usb_fatload E f n w = Bad_free"
proof -
  have "\<exists>x. alloc_slots E (Suc (Suc n)) (w_ext w) = (False, Null # Garbage # replicate n Garbage, x)" for n
    using assms by (cases "env_malloc E (w_ext w)") simp
  from this [of 1] this [of 5] show ?thesis
    by (auto simp: usb_operate_def usb_ext2load_def usb_fatload_def finish_def free_slots_def eval_nat_numeral
        simp del: alloc_slots.simps)
qed

theorem failed_malloc_frees_garbage_witness:
  "usb_operate (quiet_env\<lparr>env_malloc := \<lambda>x. (False, x)\<rparr>) USB_START m25p80_world = Bad_free \<and>
   usb_ext2load (quiet_env\<lparr>env_malloc := \<lambda>x. (False, x)\<rparr>) ''uboot.sh'' 1 m25p80_world = Bad_free \<and>
   usb_fatload (quiet_env\<lparr>env_malloc := \<lambda>x. (False, x)\<rparr>) ''uboot.sh'' 1024 m25p80_world = Bad_free"
  by (rule failed_malloc_frees_garbage) simp

text \<open>The microseconds waited so far.\<close>

definition waited :: "('p, 'e) world \<Rightarrow> nat" where
  "waited w = sum_list (map (\<lambda>e. case e of Udelay n \<Rightarrow> n | _ \<Rightarrow> 0) (w_events w))"

lemma waited_emit [simp]: "waited (emit e w) = waited w + (case e of Udelay n \<Rightarrow> n | _ \<Rightarrow> 0)"
  by (simp add: waited_def emit_def)

lemma waited_iter:
  fixes f :: "'a \<times> ('p, 'e) world \<Rightarrow> 'a \<times> ('p, 'e) world"
  shows "(\<And>s. waited (snd (f s)) = waited (snd s) + d) \<Longrightarrow> waited (snd ((f ^^ n) s)) = waited (snd s) + n * d"
  by (induction n) simp_all

lemma waited_led_second: "waited (snd (led_second led s)) = waited (snd s) + 5 * 200000"
  unfolding led_second_def
  by (rule waited_iter) (auto simp: Let_def set_led_red_def set_led_blue_def)

lemma waited_led_seconds: "waited (snd ((led_second led ^^ n) s)) = waited (snd s) + n * 1000000"
  using waited_iter [of "led_second led" "5 * 200000", OF waited_led_second] by simp

text \<open>C20: The lamp loop for a number of seconds ends and touches only the log of register writes: it waits that many seconds, one when the number is 0 or negative as an int, and 2^31 for 0x80000000, whose first decrement wraps; the endless kind never returns.\<close>

theorem set_led_flash_time:
  "(\<exists>w'. set_led_flash led nsec GB620_LED_FLASH_SEC w = Ret () w' \<and>
      waited w' = waited w + (if nsec = 0x80000000 then 2 ^ 31 else max 1 (nat (sint nsec))) * 1000000 \<and>
      same_but_events w w') \<and>
   set_led_flash led nsec GB620_LED_FLASH_ALL w = Hang"
  using same_iter [of "led_second led" "(1, w)", OF same_led_second]
  by (simp add: set_led_flash_def led_loop_sec led_loop_all waited_led_seconds led_seconds_def)

end
