(* ===== verification/CString.thy ===== *)
theory CString
  imports Prelude "HOL-Library.List_Lexorder"
begin

text \<open>
  \<open>lib_generic/ctype.c\<close>, \<open>include/linux/ctype.h\<close> and the generic routines of
  \<open>lib_generic/string.c\<close>, over a byte-addressed memory. A scan for a terminator that is not there
  does not end: such loops are partial functions, and the predicate \<open>cstr m a xs\<close> (the characters
  \<open>xs\<close> and a zero stand at \<open>a\<close>) is what makes them return. Pointers are naturals, so the wrap-around
  of the address space is not modelled.
\<close>

section \<open>Character classes\<close>

abbreviation CT_U :: u8 where "CT_U \<equiv> 0x01"
abbreviation CT_L :: u8 where "CT_L \<equiv> 0x02"
abbreviation CT_D :: u8 where "CT_D \<equiv> 0x04"
abbreviation CT_C :: u8 where "CT_C \<equiv> 0x08"
abbreviation CT_P :: u8 where "CT_P \<equiv> 0x10"
abbreviation CT_S :: u8 where "CT_S \<equiv> 0x20"
abbreviation CT_X :: u8 where "CT_X \<equiv> 0x40"
abbreviation CT_SP :: u8 where "CT_SP \<equiv> 0x80"

definition ctype_table :: "u8 list" where
  "ctype_table =
    [CT_C,CT_C,CT_C,CT_C,CT_C,CT_C,CT_C,CT_C,
     CT_C,CT_C OR CT_S,CT_C OR CT_S,CT_C OR CT_S,CT_C OR CT_S,CT_C OR CT_S,CT_C,CT_C,
     CT_C,CT_C,CT_C,CT_C,CT_C,CT_C,CT_C,CT_C,
     CT_C,CT_C,CT_C,CT_C,CT_C,CT_C,CT_C,CT_C,
     CT_S OR CT_SP,CT_P,CT_P,CT_P,CT_P,CT_P,CT_P,CT_P,
     CT_P,CT_P,CT_P,CT_P,CT_P,CT_P,CT_P,CT_P,
     CT_D,CT_D,CT_D,CT_D,CT_D,CT_D,CT_D,CT_D,
     CT_D,CT_D,CT_P,CT_P,CT_P,CT_P,CT_P,CT_P,
     CT_P,CT_U OR CT_X,CT_U OR CT_X,CT_U OR CT_X,CT_U OR CT_X,CT_U OR CT_X,CT_U OR CT_X,CT_U,
     CT_U,CT_U,CT_U,CT_U,CT_U,CT_U,CT_U,CT_U,
     CT_U,CT_U,CT_U,CT_U,CT_U,CT_U,CT_U,CT_U,
     CT_U,CT_U,CT_U,CT_P,CT_P,CT_P,CT_P,CT_P,
     CT_P,CT_L OR CT_X,CT_L OR CT_X,CT_L OR CT_X,CT_L OR CT_X,CT_L OR CT_X,CT_L OR CT_X,CT_L,
     CT_L,CT_L,CT_L,CT_L,CT_L,CT_L,CT_L,CT_L,
     CT_L,CT_L,CT_L,CT_L,CT_L,CT_L,CT_L,CT_L,
     CT_L,CT_L,CT_L,CT_P,CT_P,CT_P,CT_P,CT_C,
     0,0,0,0,0,0,0,0,0,0,0,0,0,0,0,0,
     0,0,0,0,0,0,0,0,0,0,0,0,0,0,0,0,
     CT_S OR CT_SP,CT_P,CT_P,CT_P,CT_P,CT_P,CT_P,CT_P,CT_P,CT_P,CT_P,CT_P,CT_P,CT_P,CT_P,CT_P,
     CT_P,CT_P,CT_P,CT_P,CT_P,CT_P,CT_P,CT_P,CT_P,CT_P,CT_P,CT_P,CT_P,CT_P,CT_P,CT_P,
     CT_U,CT_U,CT_U,CT_U,CT_U,CT_U,CT_U,CT_U,CT_U,CT_U,CT_U,CT_U,CT_U,CT_U,CT_U,CT_U,
     CT_U,CT_U,CT_U,CT_U,CT_U,CT_U,CT_U,CT_P,CT_U,CT_U,CT_U,CT_U,CT_U,CT_U,CT_U,CT_L,
     CT_L,CT_L,CT_L,CT_L,CT_L,CT_L,CT_L,CT_L,CT_L,CT_L,CT_L,CT_L,CT_L,CT_L,CT_L,CT_L,
     CT_L,CT_L,CT_L,CT_L,CT_L,CT_L,CT_L,CT_P,CT_L,CT_L,CT_L,CT_L,CT_L,CT_L,CT_L,CT_L]"

definition ismask :: "u8 \<Rightarrow> u8" where "ismask x = ctype_table ! unat x"

definition isalnum :: "u8 \<Rightarrow> bool" where "isalnum c \<longleftrightarrow> ismask c AND (CT_U OR CT_L OR CT_D) \<noteq> 0"
definition isalpha :: "u8 \<Rightarrow> bool" where "isalpha c \<longleftrightarrow> ismask c AND (CT_U OR CT_L) \<noteq> 0"
definition iscntrl :: "u8 \<Rightarrow> bool" where "iscntrl c \<longleftrightarrow> ismask c AND CT_C \<noteq> 0"
definition isdigit :: "u8 \<Rightarrow> bool" where "isdigit c \<longleftrightarrow> ismask c AND CT_D \<noteq> 0"
definition isgraph :: "u8 \<Rightarrow> bool" where "isgraph c \<longleftrightarrow> ismask c AND (CT_P OR CT_U OR CT_L OR CT_D) \<noteq> 0"
definition islower :: "u8 \<Rightarrow> bool" where "islower c \<longleftrightarrow> ismask c AND CT_L \<noteq> 0"
definition isprint :: "u8 \<Rightarrow> bool" where "isprint c \<longleftrightarrow> ismask c AND (CT_P OR CT_U OR CT_L OR CT_D OR CT_SP) \<noteq> 0"
definition ispunct :: "u8 \<Rightarrow> bool" where "ispunct c \<longleftrightarrow> ismask c AND CT_P \<noteq> 0"
definition isspace :: "u8 \<Rightarrow> bool" where "isspace c \<longleftrightarrow> ismask c AND CT_S \<noteq> 0"
definition isupper :: "u8 \<Rightarrow> bool" where "isupper c \<longleftrightarrow> ismask c AND CT_U \<noteq> 0"
definition isxdigit :: "u8 \<Rightarrow> bool" where "isxdigit c \<longleftrightarrow> ismask c AND (CT_D OR CT_X) \<noteq> 0"

definition tolower :: "u8 \<Rightarrow> u8" where "tolower c = (if isupper c then c - (0x41 - 0x61) else c)"
definition toupper :: "u8 \<Rightarrow> u8" where "toupper c = (if islower c then c - (0x61 - 0x41) else c)"

section \<open>Strings in memory\<close>

partial_function (option) strcpy :: "mem \<Rightarrow> nat \<Rightarrow> nat \<Rightarrow> mem option" where
  "strcpy m dest src =
     (let c = m src; m = m(dest := c) in if c \<noteq> 0 then strcpy m (dest + 1) (src + 1) else Some m)"

fun strncpy :: "mem \<Rightarrow> nat \<Rightarrow> nat \<Rightarrow> nat \<Rightarrow> mem" where
  "strncpy m dest src 0 = m"
| "strncpy m dest src (Suc count) =
     (let c = m src; m = m(dest := c) in if c \<noteq> 0 then strncpy m (dest + 1) (src + 1) count else m)"

text \<open>\<open>while (*dest) dest++;\<close>\<close>

partial_function (option) to_end :: "mem \<Rightarrow> nat \<Rightarrow> nat option" where
  "to_end m s = (if m s \<noteq> 0 then to_end m (s + 1) else Some s)"

definition strcat :: "mem \<Rightarrow> nat \<Rightarrow> nat \<Rightarrow> mem option" where
  "strcat m dest src = Option.bind (to_end m dest) (\<lambda>dest. strcpy m dest src)"

fun strncat_loop :: "mem \<Rightarrow> nat \<Rightarrow> nat \<Rightarrow> nat \<Rightarrow> mem" where
  "strncat_loop m dest src 0 = m"
| "strncat_loop m dest src (Suc count) =
     (let c = m src; m = m(dest := c) in
      if c \<noteq> 0 then if count = 0 then m(dest + 1 := 0) else strncat_loop m (dest + 1) (src + 1) count
      else m)"

definition strncat :: "mem \<Rightarrow> nat \<Rightarrow> nat \<Rightarrow> nat \<Rightarrow> mem option" where
  "strncat m dest src count =
     (if count \<noteq> 0 then Option.bind (to_end m dest) (\<lambda>dest. Some (strncat_loop m dest src count)) else Some m)"

text \<open>The difference of the characters is kept in a \<open>signed char\<close>.\<close>

partial_function (option) strcmp :: "mem \<Rightarrow> nat \<Rightarrow> nat \<Rightarrow> int option" where
  "strcmp m cs ct =
     (let res = sint (m cs - m ct)
      in if res \<noteq> 0 \<or> m cs = 0 then Some res else strcmp m (cs + 1) (ct + 1))"

fun strncmp_loop :: "mem \<Rightarrow> nat \<Rightarrow> nat \<Rightarrow> nat \<Rightarrow> int \<Rightarrow> int" where
  "strncmp_loop m cs ct 0 res = res"
| "strncmp_loop m cs ct (Suc count) res =
     (let res = sint (m cs - m ct)
      in if res \<noteq> 0 \<or> m cs = 0 then res else strncmp_loop m (cs + 1) (ct + 1) count res)"

definition strncmp :: "mem \<Rightarrow> nat \<Rightarrow> nat \<Rightarrow> nat \<Rightarrow> int" where
  "strncmp m cs ct count = strncmp_loop m cs ct count 0"

text \<open>A returned pointer is \<open>None\<close> for \<open>NULL\<close>, inside the \<open>Some\<close> of a call that returns.\<close>

partial_function (option) strchr :: "mem \<Rightarrow> nat \<Rightarrow> u8 \<Rightarrow> nat option option" where
  "strchr m s c = (if m s \<noteq> c then if m s = 0 then Some None else strchr m (s + 1) c else Some (Some s))"

definition strlen :: "mem \<Rightarrow> nat \<Rightarrow> nat option" where
  "strlen m s = Option.bind (to_end m s) (\<lambda>sc. Some (sc - s))"

text \<open>\<open>do \<dots> while (--p >= s)\<close>, \<open>p = s + n\<close>.\<close>

fun strrchr_loop :: "mem \<Rightarrow> nat \<Rightarrow> u8 \<Rightarrow> nat \<Rightarrow> nat option" where
  "strrchr_loop m s c n =
     (if m (s + n) = c then Some (s + n) else case n of 0 \<Rightarrow> None | Suc n \<Rightarrow> strrchr_loop m s c n)"

definition strrchr :: "mem \<Rightarrow> nat \<Rightarrow> u8 \<Rightarrow> nat option option" where
  "strrchr m s c = Option.bind (strlen m s) (\<lambda>n. Some (strrchr_loop m s c n))"

fun strnlen_loop :: "mem \<Rightarrow> nat \<Rightarrow> nat \<Rightarrow> nat" where
  "strnlen_loop m sc 0 = sc"
| "strnlen_loop m sc (Suc count) = (if m sc \<noteq> 0 then strnlen_loop m (sc + 1) count else sc)"

definition strnlen :: "mem \<Rightarrow> nat \<Rightarrow> nat \<Rightarrow> nat" where
  "strnlen m s count = strnlen_loop m s count - s"

text \<open>The inner loops of \<open>strspn\<close> and \<open>strpbrk\<close>: where the scan of the character set stops.\<close>

partial_function (option) scan_set :: "mem \<Rightarrow> u8 \<Rightarrow> nat \<Rightarrow> nat option" where
  "scan_set m c a = (if m a \<noteq> 0 then if c = m a then Some a else scan_set m c (a + 1) else Some a)"

partial_function (option) strspn_loop :: "mem \<Rightarrow> nat \<Rightarrow> nat \<Rightarrow> nat \<Rightarrow> nat option" where
  "strspn_loop m p accept count =
     (if m p \<noteq> 0
      then Option.bind (scan_set m (m p) accept)
             (\<lambda>a. if m a = 0 then Some count else strspn_loop m (p + 1) accept (count + 1))
      else Some count)"

definition strspn :: "mem \<Rightarrow> nat \<Rightarrow> nat \<Rightarrow> nat option" where
  "strspn m s accept = strspn_loop m s accept 0"

partial_function (option) strpbrk :: "mem \<Rightarrow> nat \<Rightarrow> nat \<Rightarrow> nat option option" where
  "strpbrk m sc1 ct =
     (if m sc1 \<noteq> 0
      then Option.bind (scan_set m (m sc1) ct)
             (\<lambda>sc2. if m sc2 \<noteq> 0 then Some (Some sc1) else strpbrk m (sc1 + 1) ct)
      else Some None)"

text \<open>\<open>strtok\<close> keeps its place in the variable \<open>___strtok\<close>: the token, the memory, the new place.\<close>

definition strtok :: "mem \<Rightarrow> nat option \<Rightarrow> nat option \<Rightarrow> nat \<Rightarrow> (nat option \<times> mem \<times> nat option) option" where
  "strtok m place s ct =
     (case (case s of Some a \<Rightarrow> Some a | None \<Rightarrow> place) of
        None \<Rightarrow> Some (None, m, place)
      | Some sbegin \<Rightarrow>
          Option.bind (strspn m sbegin ct) (\<lambda>n.
            let sbegin = sbegin + n in
            if m sbegin = 0 then Some (None, m, None)
            else Option.bind (strpbrk m sbegin ct) (\<lambda>send.
              case send of
                Some e \<Rightarrow> if m e \<noteq> 0 then Some (Some sbegin, m(e := 0), Some (e + 1)) else Some (Some sbegin, m, Some e)
              | None \<Rightarrow> Some (Some sbegin, m, None))))"

text \<open>The pointer \<open>*s\<close> is passed and returned.\<close>

definition strsep :: "mem \<Rightarrow> nat option \<Rightarrow> nat \<Rightarrow> (nat option \<times> mem \<times> nat option) option" where
  "strsep m s ct =
     (case s of None \<Rightarrow> Some (None, m, None)
      | Some sbegin \<Rightarrow>
          Option.bind (strpbrk m sbegin ct) (\<lambda>e.
            case e of Some e \<Rightarrow> Some (Some sbegin, m(e := 0), Some (e + 1))
            | None \<Rightarrow> Some (Some sbegin, m, None)))"

partial_function (option) strswab_loop :: "mem \<Rightarrow> nat \<Rightarrow> mem option" where
  "strswab_loop m p =
     (if m p \<noteq> 0 \<and> m (p + 1) \<noteq> 0
      then let tmp = m p; m = m(p := m (p + 1)); m = m(p + 1 := tmp) in strswab_loop m (p + 2)
      else Some m)"

definition strswab :: "mem \<Rightarrow> nat option \<Rightarrow> (nat option \<times> mem) option" where
  "strswab m s =
     (case s of None \<Rightarrow> Some (None, m)
      | Some s \<Rightarrow> if m s = 0 then Some (None, m) else Option.bind (strswab_loop m s) (\<lambda>m. Some (Some s, m)))"

section \<open>Blocks of memory\<close>

fun memset :: "mem \<Rightarrow> nat \<Rightarrow> u8 \<Rightarrow> nat \<Rightarrow> mem" where
  "memset m xs c 0 = m"
| "memset m xs c (Suc count) = memset (m(xs := c)) (xs + 1) c count"

fun memcpy :: "mem \<Rightarrow> nat \<Rightarrow> nat \<Rightarrow> nat \<Rightarrow> mem" where
  "memcpy m tmp s 0 = m"
| "memcpy m tmp s (Suc count) = memcpy (m(tmp := m s)) (tmp + 1) (s + 1) count"

text \<open>The backward loop of \<open>memmove\<close>, with \<open>count\<close> bytes left below the two pointers.\<close>

fun memmove_down :: "mem \<Rightarrow> nat \<Rightarrow> nat \<Rightarrow> nat \<Rightarrow> mem" where
  "memmove_down m dest src 0 = m"
| "memmove_down m dest src (Suc count) = memmove_down (m(dest + count := m (src + count))) dest src count"

definition memmove :: "mem \<Rightarrow> nat \<Rightarrow> nat \<Rightarrow> nat \<Rightarrow> mem" where
  "memmove m dest src count = (if dest \<le> src then memcpy m dest src count else memmove_down m dest src count)"

fun memcmp :: "mem \<Rightarrow> nat \<Rightarrow> nat \<Rightarrow> nat \<Rightarrow> int" where
  "memcmp m su1 su2 0 = 0"
| "memcmp m su1 su2 (Suc count) =
     (let res = uint (m su1) - uint (m su2) in if res \<noteq> 0 then res else memcmp m (su1 + 1) (su2 + 1) count)"

fun memscan :: "mem \<Rightarrow> nat \<Rightarrow> int \<Rightarrow> nat \<Rightarrow> nat" where
  "memscan m p c 0 = p"
| "memscan m p c (Suc n) = (if uint (m p) = c then p else memscan m (p + 1) c n)"

fun memchr :: "mem \<Rightarrow> nat \<Rightarrow> u8 \<Rightarrow> nat \<Rightarrow> nat option" where
  "memchr m p c 0 = None"
| "memchr m p c (Suc n) = (if c = m p then Some p else memchr m (p + 1) c n)"

text \<open>\<open>while (l1 >= l2)\<close> with the lengths \<open>l1\<close>, \<open>l2\<close> of the two strings.\<close>

fun strstr_loop :: "mem \<Rightarrow> nat \<Rightarrow> nat \<Rightarrow> nat \<Rightarrow> nat \<Rightarrow> nat option" where
  "strstr_loop m s1 s2 l1 l2 =
     (if l2 \<le> l1 \<and> 0 < l2 then if memcmp m s1 s2 l2 = 0 then Some s1 else strstr_loop m (s1 + 1) s2 (l1 - 1) l2
      else None)"

definition strstr :: "mem \<Rightarrow> nat \<Rightarrow> nat \<Rightarrow> nat option option" where
  "strstr m s1 s2 =
     Option.bind (strlen m s2) (\<lambda>l2.
       if l2 = 0 then Some (Some s1)
       else Option.bind (strlen m s1) (\<lambda>l1. Some (strstr_loop m s1 s2 l1 l2)))"

declare strstr_loop.simps [simp del] strrchr_loop.simps [simp del]

text \<open>Run-length view of the table.\<close>

definition unrun :: "(nat \<times> 'a) list \<Rightarrow> 'a list" where
  "unrun rs = concat (map (\<lambda>(k, x). replicate k x) rs)"

fun run_at :: "(nat \<times> 'a) list \<Rightarrow> nat \<Rightarrow> nat \<Rightarrow> 'a" where
  "run_at [] s n = undefined"
| "run_at [(k, x)] s n = x"
| "run_at ((k, x) # rs) s n = (if n < s + k then x else run_at rs (s + k) n)"

lemma nth_unrun: "s \<le> n \<Longrightarrow> n - s < length (unrun rs) \<Longrightarrow> unrun rs ! (n - s) = run_at rs s n"
proof (induction rs s n rule: run_at.induct)
  case (3 k x r rs s n)
  show ?case
  proof (cases "n < s + k")
    case True
    with 3(2) have "n - s < k" by auto
    with True show ?thesis by (simp add: unrun_def nth_append)
  next
    case False
    then have "\<not> n - s < k" "n - s - k = n - (s + k)" using 3(2) by auto
    with False 3 show ?thesis by (auto simp: unrun_def nth_append)
  qed
qed (auto simp: unrun_def)

definition ctype_runs :: "(nat \<times> u8) list" where
  "ctype_runs =
   [(9, CT_C), (5, 0x28), (18, CT_C), (1, 0xa0), (15, CT_P), (10, CT_D), (7, CT_P), (6, 0x41), (20, CT_U),
    (6, CT_P), (6, 0x42), (20, CT_L), (4, CT_P), (1, CT_C), (32, 0), (1, 0xa0), (31, CT_P), (23, CT_U), (1, CT_P),
    (7, CT_U), (24, CT_L), (1, CT_P), (8, CT_L)]"

lemma ctype_table_runs: "ctype_table = unrun ctype_runs"
  unfolding ctype_table_def unrun_def ctype_runs_def
  by (simp add: numeral_eq_Suc)

lemma length_ctype_table: "length ctype_table = 256"
  by (simp add: ctype_table_def)

lemma ismask_ascii:
  assumes "unat c < 128"
  shows "ismask c = (let n = unat c in
      if n < 9 then CT_C else if n < 14 then 0x28 else if n < 32 then CT_C else if n < 33 then 0xa0
      else if n < 48 then CT_P else if n < 58 then CT_D else if n < 65 then CT_P else if n < 71 then 0x41
      else if n < 91 then CT_U else if n < 97 then CT_P else if n < 103 then 0x42 else if n < 123 then CT_L
      else if n < 127 then CT_P else CT_C)"
proof -
  have "unrun ctype_runs ! (unat c - 0) = run_at ctype_runs 0 (unat c)"
    by (rule nth_unrun) (use assms length_ctype_table in \<open>simp_all add: ctype_table_runs [symmetric]\<close>)
  then have "ismask c = run_at ctype_runs 0 (unat c)" by (simp add: ismask_def ctype_table_runs)
  with assms show ?thesis unfolding ctype_runs_def by (simp add: Let_def)
qed

definition in_range :: "nat \<Rightarrow> nat \<Rightarrow> u8 \<Rightarrow> bool" where
  "in_range a b c \<longleftrightarrow> a \<le> unat c \<and> unat c \<le> b"

lemma ctype_preds:
  assumes "unat c < 128"
  shows "isdigit c \<longleftrightarrow> in_range 48 57 c" "isupper c \<longleftrightarrow> in_range 65 90 c" "islower c \<longleftrightarrow> in_range 97 122 c"
    "isspace c \<longleftrightarrow> in_range 32 32 c \<or> in_range 9 13 c"
    "isxdigit c \<longleftrightarrow> in_range 48 57 c \<or> in_range 65 70 c \<or> in_range 97 102 c"
    "isprint c \<longleftrightarrow> in_range 32 126 c" "iscntrl c \<longleftrightarrow> \<not> in_range 32 126 c"
  unfolding isdigit_def isupper_def islower_def isspace_def isxdigit_def isprint_def iscntrl_def
    ismask_ascii [OF assms] in_range_def Let_def using assms by auto

text \<open>On ASCII characters the class table classifies as the C locale does, and the two case conversions are inverse to each other on letters.\<close>

theorem ctype_ascii:
  assumes "unat c < 128"
  shows "(isdigit c \<longleftrightarrow> 48 \<le> unat c \<and> unat c \<le> 57) \<and> (isupper c \<longleftrightarrow> 65 \<le> unat c \<and> unat c \<le> 90) \<and>
    (islower c \<longleftrightarrow> 97 \<le> unat c \<and> unat c \<le> 122) \<and> (isspace c \<longleftrightarrow> unat c = 32 \<or> 9 \<le> unat c \<and> unat c \<le> 13) \<and>
    (isxdigit c \<longleftrightarrow> isdigit c \<or> 65 \<le> unat c \<and> unat c \<le> 70 \<or> 97 \<le> unat c \<and> unat c \<le> 102) \<and>
    (isprint c \<longleftrightarrow> 32 \<le> unat c \<and> unat c \<le> 126) \<and> (iscntrl c \<longleftrightarrow> \<not> isprint c) \<and>
    (isupper c \<longrightarrow> islower (tolower c) \<and> toupper (tolower c) = c) \<and>
    (islower c \<longrightarrow> isupper (toupper c) \<and> tolower (toupper c) = c)"
proof -
  have lo: "unat (c - (0x41 - 0x61)) = unat c + 32" if "in_range 65 90 c"
    using that by (simp add: in_range_def unat_word_ariths)
  have up: "unat (c - (0x61 - 0x41)) = unat c - 32" if "in_range 97 122 c"
    using that by (simp add: in_range_def word_le_nat_alt unat_sub)
  have 1: "islower (tolower c) \<and> toupper (tolower c) = c" if u: "isupper c"
  proof -
    have r: "in_range 65 90 c" using u ctype_preds(2) [OF assms] by simp
    then have "unat (c - (0x41 - 0x61)) < 128" "in_range 97 122 (c - (0x41 - 0x61))"
      unfolding in_range_def lo [OF r] by auto
    then have "islower (c - (0x41 - 0x61))" by (simp only: ctype_preds(3))
    with u show ?thesis by (simp add: tolower_def toupper_def)
  qed
  have 2: "isupper (toupper c) \<and> tolower (toupper c) = c" if u: "islower c"
  proof -
    have r: "in_range 97 122 c" using u ctype_preds(3) [OF assms] by simp
    then have "unat (c - (0x61 - 0x41)) < 128" "in_range 65 90 (c - (0x61 - 0x41))"
      unfolding in_range_def up [OF r] by auto
    then have "isupper (c - (0x61 - 0x41))" by (simp only: ctype_preds(2))
    with u show ?thesis by (simp add: tolower_def toupper_def)
  qed
  have "isspace c \<longleftrightarrow> unat c = 32 \<or> 9 \<le> unat c \<and> unat c \<le> 13"
    unfolding ctype_preds(4) [OF assms] in_range_def by linarith
  moreover have "iscntrl c \<longleftrightarrow> \<not> isprint c" "isxdigit c \<longleftrightarrow> isdigit c \<or> 65 \<le> unat c \<and> unat c \<le> 70 \<or> 97 \<le> unat c \<and> unat c \<le> 102"
    "isdigit c \<longleftrightarrow> 48 \<le> unat c \<and> unat c \<le> 57" "isupper c \<longleftrightarrow> 65 \<le> unat c \<and> unat c \<le> 90"
    "islower c \<longleftrightarrow> 97 \<le> unat c \<and> unat c \<le> 122" "isprint c \<longleftrightarrow> 32 \<le> unat c \<and> unat c \<le> 126"
    unfolding ctype_preds [OF assms] in_range_def by (rule refl)+
  ultimately show ?thesis using 1 2 by (intro conjI impI; simp only:)
qed

theorem ctype_ascii_witness:
  "isupper 0x41 \<and> \<not> isdigit 0x41 \<and> isxdigit 0x41 \<and> islower (tolower 0x41) \<and> toupper (tolower 0x41) = 0x41"
proof -
  have "unat (0x41 :: u8) < 128" by simp
  note c = ctype_ascii [OF this]
  have "isupper 0x41" "\<not> isdigit 0x41" "isxdigit 0x41" using c by simp_all
  then show ?thesis using c by blast
qed

section \<open>Strings as lists\<close>

primrec cstr :: "mem \<Rightarrow> nat \<Rightarrow> u8 list \<Rightarrow> bool" where
  "cstr m a [] = (m a = 0)"
| "cstr m a (x # xs) = (m a = x \<and> x \<noteq> 0 \<and> cstr m (a + 1) xs)"

text \<open>The bytes of a region.\<close>

definition bytes :: "mem \<Rightarrow> nat \<Rightarrow> nat \<Rightarrow> u8 list" where
  "bytes m a n = map (\<lambda>i. m (a + i)) [0..<n]"

lemma length_bytes [simp]: "length (bytes m a n) = n"
  by (simp add: bytes_def)

lemma nth_bytes [simp]: "i < n \<Longrightarrow> bytes m a n ! i = m (a + i)"
  by (simp add: bytes_def)

lemma bytes_0 [simp]: "bytes m a 0 = []"
  by (simp add: bytes_def)

lemma bytes_Suc: "bytes m a (Suc n) = m a # bytes m (a + 1) n"
proof -
  have "[0..<Suc n] = 0 # map Suc [0..<n]" by (simp add: map_Suc_upt upt_conv_Cons del: upt_Suc)
  then show ?thesis by (simp add: bytes_def comp_def del: upt_Suc)
qed

lemma bytes_snoc: "bytes m a (Suc n) = bytes m a n @ [m (a + n)]"
  by (simp add: bytes_def)

lemma cstr_nth: "cstr m a xs \<Longrightarrow> i < length xs \<Longrightarrow> m (a + i) = xs ! i"
proof (induction xs arbitrary: a i)
  case (Cons x xs)
  from Cons.IH [of "a + 1" "i - 1"] Cons.prems show ?case by (cases i) auto
qed simp

lemma cstr_end: "cstr m a xs \<Longrightarrow> m (a + length xs) = 0"
proof (induction xs arbitrary: a)
  case (Cons x xs)
  from Cons.IH [of "a + 1"] Cons.prems show ?case by simp
qed simp

lemma cstr_nonzero: "cstr m a xs \<Longrightarrow> 0 \<notin> set xs"
  by (induction xs arbitrary: a) auto

lemma cstrI:
  "(\<And>i. i < length xs \<Longrightarrow> m (a + i) = xs ! i) \<Longrightarrow> 0 \<notin> set xs \<Longrightarrow> m (a + length xs) = 0 \<Longrightarrow> cstr m a xs"
proof (induction xs arbitrary: a)
  case (Cons x xs)
  from Cons.prems(1) [of 0] have "m a = x" by simp
  moreover have "cstr m (a + 1) xs"
  proof (rule Cons.IH)
    fix i assume "i < length xs"
    with Cons.prems(1) [of "Suc i"] show "m (a + 1 + i) = xs ! i" by simp
  qed (use Cons.prems in auto)
  ultimately show ?case using Cons.prems(2) by auto
qed simp

lemma cstr_drop: "cstr m a xs \<Longrightarrow> n \<le> length xs \<Longrightarrow> cstr m (a + n) (drop n xs)"
proof (induction n arbitrary: a xs)
  case (Suc n)
  then obtain x ys where "xs = x # ys" by (cases xs) auto
  with Suc.prems Suc.IH [of "a + 1" ys] show ?case by simp
qed simp

lemma cstr_cong:
  "(\<And>i. i \<le> length xs \<Longrightarrow> m' (a + i) = m (a + i)) \<Longrightarrow> cstr m' a xs = cstr m a xs"
proof (induction xs arbitrary: a)
  case Nil
  from Nil [of 0] show ?case by simp
next
  case (Cons x xs)
  have "m' a = m a" using Cons.prems [of 0] by simp
  moreover have "cstr m' (a + 1) xs = cstr m (a + 1) xs"
  proof (rule Cons.IH)
    fix i assume "i \<le> length xs"
    with Cons.prems [of "Suc i"] show "m' (a + 1 + i) = m (a + 1 + i)" by simp
  qed
  ultimately show ?case by simp
qed

lemma cstr_unique: "cstr m a xs \<Longrightarrow> cstr m a ys \<Longrightarrow> xs = ys"
proof (induction xs arbitrary: a ys)
  case Nil
  then show ?case by (cases ys) auto
next
  case (Cons x xs)
  then show ?case by (cases ys) auto
qed

section \<open>What the scans compute\<close>

lemma to_end_cstr: "cstr m a xs \<Longrightarrow> to_end m a = Some (a + length xs)"
  by (induction xs arbitrary: a) (simp_all add: to_end.simps)

lemma strlen_cstr: "cstr m a xs \<Longrightarrow> strlen m a = Some (length xs)"
  by (simp add: strlen_def to_end_cstr)

lemma scan_set_cstr:
  "cstr m a ds \<Longrightarrow> scan_set m c a = Some (a + length (takeWhile (\<lambda>d. d \<noteq> c) ds))"
  by (induction ds arbitrary: a) (auto simp: scan_set.simps)

lemma length_takeWhile_found:
  "c \<in> set ds \<Longrightarrow> length (takeWhile (\<lambda>d. d \<noteq> c) ds) < length ds \<and> ds ! length (takeWhile (\<lambda>d. d \<noteq> c) ds) = c"
  by (induction ds) auto

lemma scan_set_found:
  assumes "cstr m a ds"
  shows "\<exists>e. scan_set m c a = Some e \<and> (m e \<noteq> 0 \<longleftrightarrow> c \<in> set ds)"
proof -
  let ?n = "length (takeWhile (\<lambda>d. d \<noteq> c) ds)"
  have "m (a + ?n) \<noteq> 0 \<longleftrightarrow> c \<in> set ds"
  proof (cases "c \<in> set ds")
    case True
    from length_takeWhile_found [OF this] cstr_nth [OF assms, of ?n] cstr_nonzero [OF assms] True
    show ?thesis by auto
  next
    case False
    then have "takeWhile (\<lambda>d. d \<noteq> c) ds = ds" by (auto simp: takeWhile_eq_all_conv)
    then show ?thesis using False cstr_end [OF assms] by (simp only:) simp
  qed
  with scan_set_cstr [OF assms] show ?thesis by blast
qed

lemma strspn_loop_cstr:
  assumes "cstr m accept ds"
  shows "cstr m p xs \<Longrightarrow> strspn_loop m p accept n = Some (n + length (takeWhile (\<lambda>x. x \<in> set ds) xs))"
proof (induction xs arbitrary: p n)
  case Nil
  then show ?case by (simp add: strspn_loop.simps)
next
  case (Cons x xs)
  obtain e where e: "scan_set m x accept = Some e" "m e \<noteq> 0 \<longleftrightarrow> x \<in> set ds"
    using scan_set_found [OF assms] by blast
  with Cons show ?case by (cases "x \<in> set ds") (simp_all add: strspn_loop.simps [of m p])
qed

lemma strspn_cstr:
  "cstr m p xs \<Longrightarrow> cstr m ct ds \<Longrightarrow> strspn m p ct = Some (length (takeWhile (\<lambda>x. x \<in> set ds) xs))"
  by (simp add: strspn_def strspn_loop_cstr)

lemma strpbrk_cstr:
  assumes "cstr m ct ds"
  shows "cstr m p xs \<Longrightarrow> strpbrk m p ct =
    Some (if \<exists>x \<in> set xs. x \<in> set ds then Some (p + length (takeWhile (\<lambda>x. x \<notin> set ds) xs)) else None)"
proof (induction xs arbitrary: p)
  case Nil
  then show ?case by (simp add: strpbrk.simps)
next
  case (Cons x xs)
  obtain e where e: "scan_set m x ct = Some e" "m e \<noteq> 0 \<longleftrightarrow> x \<in> set ds"
    using scan_set_found [OF assms] by blast
  with Cons show ?case by (cases "x \<in> set ds") (simp_all add: strpbrk.simps [of m p])
qed

lemma strchr_cstr:
  "cstr m s xs \<Longrightarrow> strchr m s c =
    Some (if c = 0 then Some (s + length xs) else if c \<in> set xs then Some (s + length (takeWhile (\<lambda>x. x \<noteq> c) xs)) else None)"
  by (induction xs arbitrary: s) (auto simp: strchr.simps)

lemma sint_diff_0: "sint (x - y) = 0 \<longleftrightarrow> x = (y :: u8)"
proof
  assume "sint (x - y) = 0"
  then have "word_of_int (sint (x - y)) = (0 :: u8)" by simp
  then show "x = y" by simp
qed simp

lemma strcmp_cstr:
  "cstr m a xs \<Longrightarrow> cstr m b ys \<Longrightarrow> \<exists>r. strcmp m a b = Some r \<and> (r = 0 \<longleftrightarrow> xs = ys)"
proof (induction xs arbitrary: a b ys)
  case Nil
  then have "m b = 0 \<longleftrightarrow> ys = []" by (cases ys) auto
  with Nil show ?case using sint_diff_0 [of "m a" "m b"] by (subst strcmp.simps) (auto simp: Let_def)
next
  case (Cons x xs)
  show ?case
  proof (cases "m b = x")
    case True
    with Cons.prems obtain ys' where "ys = x # ys'" "cstr m (b + 1) ys'" by (cases ys) auto
    with True Cons show ?thesis by (simp add: strcmp.simps [of m a b])
  next
    case False
    then have "ys \<noteq> x # xs" using Cons.prems by (cases ys) auto
    with False Cons.prems sint_diff_0 [of x "m b"] show ?thesis by (subst strcmp.simps) (auto simp: Let_def)
  qed
qed

section \<open>Copies\<close>

lemma memcpy_overwrite:
  assumes "dest \<le> src \<or> src + n \<le> dest"
  shows "memcpy m dest src n = overwrite m dest (bytes m src n)"
  using assms
proof (induction n arbitrary: m dest src)
  case (Suc n)
  let ?m = "m(dest := m src)"
  have "dest + 1 \<le> src + 1 \<or> src + 1 + n \<le> dest + 1" using Suc.prems by auto
  then have "memcpy m dest src (Suc n) = overwrite ?m (dest + 1) (bytes ?m (src + 1) n)"
    unfolding memcpy.simps by (rule Suc.IH)
  also have "bytes ?m (src + 1) n = bytes m (src + 1) n"
    using Suc.prems by (auto simp: bytes_def)
  also have "overwrite ?m (dest + 1) (bytes m (src + 1) n) = overwrite m dest (bytes m src (Suc n))"
    unfolding bytes_Suc by (rule ext) (auto simp: overwrite_def nth_Cons' Suc_le_eq)
  finally show ?case .
qed simp

lemma memmove_down_overwrite:
  assumes "src \<le> dest"
  shows "memmove_down m dest src n = overwrite m dest (bytes m src n)"
proof (induction n arbitrary: m)
  case (Suc n)
  let ?m = "m(dest + n := m (src + n))"
  have b: "bytes ?m src n = bytes m src n"
    using assms by (auto simp: bytes_def)
  have "memmove_down m dest src (Suc n) = overwrite ?m dest (bytes m src n)"
    unfolding memmove_down.simps b [symmetric] by (rule Suc)
  also have "\<dots> = overwrite m dest (bytes m src (Suc n))"
    unfolding bytes_snoc by (rule ext) (auto simp: overwrite_def nth_append)
  finally show ?case .
qed simp

lemma memset_overwrite: "memset m a c n = overwrite m a (replicate n c)"
proof (induction n arbitrary: m a)
  case (Suc n)
  then show ?case by (intro ext) (auto simp: overwrite_def Suc_le_eq nth_Cons')
qed simp

lemma memcmp_bytes: "memcmp m a b n = 0 \<longleftrightarrow> bytes m a n = bytes m b n"
  by (induction n arbitrary: a b) (auto simp: bytes_Suc Let_def word_uint_eq_iff)

lemma strcpy_cstr:
  assumes "cstr m src xs" "dest + length xs < src \<or> src + length xs < dest"
  shows "strcpy m dest src = Some (overwrite m dest (xs @ [0]))"
  using assms
proof (induction xs arbitrary: m dest src)
  case Nil
  then show ?case by (subst strcpy.simps) (auto simp: overwrite_def)
next
  case (Cons x xs)
  let ?m = "m(dest := x)"
  have "cstr ?m (src + 1) xs = cstr m (src + 1) xs"
    by (rule cstr_cong) (use Cons.prems(2) in auto)
  then have "strcpy ?m (dest + 1) (src + 1) = Some (overwrite ?m (dest + 1) (xs @ [0]))"
    using Cons.prems by (intro Cons.IH; simp only: cstr.simps; linarith?)  auto
  moreover have "overwrite ?m (dest + 1) (xs @ [0]) = overwrite m dest ((x # xs) @ [0])"
    by (rule ext) (auto simp: overwrite_def nth_Cons' Suc_le_eq)
  ultimately show ?case
    using Cons.prems(1) by (subst strcpy.simps) (simp add: Let_def)
qed

text \<open>\<open>memmove\<close> stores the bytes the source held before the call, however the two areas overlap.\<close>

theorem memmove_copies: "memmove m dest src n = overwrite m dest (bytes m src n)"
  by (simp add: memmove_def memcpy_overwrite memmove_down_overwrite)

section \<open>Comparison\<close>

lemma sint_diff_ascii:
  assumes "unat x < 128" "unat y < 128"
  shows "sint (x - y :: u8) < 0 \<longleftrightarrow> unat x < unat y"
proof -
  have e: "(2 :: int) ^ 7 = 128" by simp
  have "x - y = word_of_int (int (unat x) - int (unat y))" by simp
  then have "sint (x - y) = signed_take_bit 7 (int (unat x) - int (unat y))" by (simp only: signed_of_int) simp
  also have "\<dots> = int (unat x) - int (unat y)"
  proof (rule signed_take_bit_int_eq_self)
    show "- (2 ^ 7) \<le> int (unat x) - int (unat y)" using assms unfolding e by linarith
    show "int (unat x) - int (unat y) < 2 ^ 7" using assms unfolding e by linarith
  qed
  finally show ?thesis by linarith
qed

text \<open>On ASCII strings \<open>strcmp\<close> returns 0 exactly for equal strings and a negative number exactly when the first precedes the second.\<close>

theorem strcmp_ascii:
  assumes "cstr m a xs" "cstr m b ys" "\<forall>x \<in> set xs \<union> set ys. unat x < 128"
  shows "\<exists>r. strcmp m a b = Some r \<and> (r = 0 \<longleftrightarrow> xs = ys) \<and> (r < 0 \<longleftrightarrow> map unat xs < map unat ys)"
  using assms
proof (induction xs arbitrary: a b ys)
  case Nil
  show ?case
  proof (cases ys)
    case Nil
    with Nil.prems show ?thesis by (subst strcmp.simps) simp
  next
    case (Cons y zs)
    then show ?thesis using Nil.prems sint_diff_ascii [of 0 y] sint_diff_0 [of 0 y] unat_gt_0 [of y]
      by (subst strcmp.simps) (auto simp: Let_def)
  qed
next
  case (Cons x xs)
  show ?case
  proof (cases ys)
    case Nil
    then show ?thesis using Cons.prems sint_diff_ascii [of x 0] sint_diff_0 [of x 0] unat_gt_0 [of x]
      by (subst strcmp.simps) (auto simp: Let_def)
  next
    case ys: (Cons y zs)
    show ?thesis
    proof (cases "x = y")
      case True
      have "\<exists>r. strcmp m (a + 1) (b + 1) = Some r \<and> (r = 0 \<longleftrightarrow> xs = zs) \<and> (r < 0 \<longleftrightarrow> map unat xs < map unat zs)"
        using Cons.prems ys by (intro Cons.IH) auto
      with True ys Cons.prems show ?thesis by (subst strcmp.simps) (auto simp: Let_def)
    next
      case False
      then have "unat x \<noteq> unat y" by (simp add: word_unat_eq_iff)
      moreover have "m a = x" "m b = y" using Cons.prems ys by simp_all
      ultimately show ?thesis using False ys Cons.prems(3) sint_diff_0 [of x y] sint_diff_ascii [of x y]
        by (subst strcmp.simps) (simp add: Let_def)
    qed
  qed
qed

definition bytes_at :: "nat \<Rightarrow> u8 list \<Rightarrow> mem" where
  "bytes_at a xs = (\<lambda>i. if a \<le> i \<and> i < a + length xs then xs ! (i - a) else 0)"

text \<open>Because the difference of two characters is truncated to a \<open>signed char\<close>, the sign is no order on other strings: three strings each precede the next in a cycle.\<close>

theorem strcmp_cycle:
  "\<exists>r1 r2 r3. strcmp (bytes_at 0 [0x01, 0, 0x50, 0, 0xa0, 0]) 0 2 = Some r1 \<and>
     strcmp (bytes_at 0 [0x01, 0, 0x50, 0, 0xa0, 0]) 2 4 = Some r2 \<and>
     strcmp (bytes_at 0 [0x01, 0, 0x50, 0, 0xa0, 0]) 4 0 = Some r3 \<and> r1 < 0 \<and> r2 < 0 \<and> r3 < 0"
  by (simp add: strcmp.simps bytes_at_def)

section \<open>Searching\<close>

definition occurs_at :: "u8 list \<Rightarrow> u8 list \<Rightarrow> nat \<Rightarrow> bool" where
  "occurs_at ys xs k \<longleftrightarrow> k + length ys \<le> length xs \<and> take (length ys) (drop k xs) = ys"

lemma bytes_cstr: "cstr m a xs \<Longrightarrow> k + n \<le> length xs \<Longrightarrow> bytes m (a + k) n = take n (drop k xs)"
  by (rule nth_equalityI) (auto simp: cstr_nth add.assoc min_def)

lemma strstr_loop_cstr:
  assumes "cstr m s1 xs" "cstr m s2 ys" "ys \<noteq> []"
  shows "j \<le> length xs \<Longrightarrow> (\<forall>k < j. \<not> occurs_at ys xs k) \<Longrightarrow>
    (case strstr_loop m (s1 + j) s2 (length xs - j) (length ys) of
       Some p \<Rightarrow> \<exists>k. p = s1 + k \<and> occurs_at ys xs k \<and> (\<forall>i < k. \<not> occurs_at ys xs i)
     | None \<Rightarrow> \<forall>k. \<not> occurs_at ys xs k)"
proof (induction "length xs - j" arbitrary: j)
  case 0
  then have "\<not> occurs_at ys xs k" for k using assms(3) by (cases "k < j") (auto simp: occurs_at_def)
  with 0 assms(3) show ?case by (subst strstr_loop.simps) simp
next
  case (Suc n)
  let ?l = "length ys"
  show ?case
  proof (cases "?l \<le> length xs - j")
    case False
    have "\<not> occurs_at ys xs k" for k using Suc.prems False by (cases "k < j") (auto simp: occurs_at_def)
    with False show ?thesis by (subst strstr_loop.simps) simp
  next
    case True
    then have l: "j + ?l \<le> length xs" using Suc.prems by simp
    have "bytes m s2 ?l = ys" using bytes_cstr [OF assms(2), of 0 ?l] by simp
    then have eq: "memcmp m (s1 + j) s2 ?l = 0 \<longleftrightarrow> occurs_at ys xs j"
      using l by (simp add: memcmp_bytes bytes_cstr [OF assms(1) l] occurs_at_def)
    show ?thesis
    proof (cases "occurs_at ys xs j")
      case True
      with \<open>?l \<le> length xs - j\<close> assms(3) eq Suc.prems show ?thesis by (subst strstr_loop.simps) auto
    next
      case False
      have "\<forall>k < Suc j. \<not> occurs_at ys xs k" using False Suc.prems(2) by (auto simp: less_Suc_eq)
      with Suc.hyps(1) [of "Suc j"] Suc.hyps(2) Suc.prems(1)
      have "case strstr_loop m (s1 + Suc j) s2 (length xs - Suc j) ?l of
          Some p \<Rightarrow> \<exists>k. p = s1 + k \<and> occurs_at ys xs k \<and> (\<forall>i < k. \<not> occurs_at ys xs i)
        | None \<Rightarrow> \<forall>k. \<not> occurs_at ys xs k" by auto
      moreover have "strstr_loop m (s1 + j) s2 (length xs - j) ?l = strstr_loop m (s1 + Suc j) s2 (length xs - Suc j) ?l"
        using False eq True assms(3) by (subst strstr_loop.simps) simp
      ultimately show ?thesis by simp
    qed
  qed
qed

text \<open>\<open>strstr\<close> returns the first occurrence of the second string in the first, or the null pointer when there is none.\<close>

theorem strstr_first:
  assumes "cstr m s1 xs" "cstr m s2 ys"
  shows "\<exists>r. strstr m s1 s2 = Some r \<and>
    (case r of Some p \<Rightarrow> \<exists>k. p = s1 + k \<and> occurs_at ys xs k \<and> (\<forall>i < k. \<not> occurs_at ys xs i)
     | None \<Rightarrow> \<forall>k. \<not> occurs_at ys xs k)"
proof (cases "ys = []")
  case True
  with assms(2) have "strlen m s2 = Some 0" using strlen_cstr [of m s2 ys] by simp
  with True show ?thesis by (auto simp: strstr_def occurs_at_def)
next
  case False
  with strstr_loop_cstr [OF assms False, of 0] assms show ?thesis by (simp add: strstr_def strlen_cstr)
qed

section \<open>Tokens\<close>

function tokens :: "u8 set \<Rightarrow> u8 list \<Rightarrow> u8 list list" where
  "tokens D xs = (case dropWhile (\<lambda>x. x \<in> D) xs of [] \<Rightarrow> []
     | y # ys \<Rightarrow> takeWhile (\<lambda>x. x \<notin> D) (y # ys) # tokens D (dropWhile (\<lambda>x. x \<notin> D) ys))"
  by pat_completeness auto
termination
proof (relation "measure (\<lambda>(D, xs). length xs)")
  fix D and xs :: "u8 list" and y ys
  assume "dropWhile (\<lambda>x. x \<in> D) xs = y # ys"
  then have "Suc (length ys) \<le> length xs" by (metis length_Cons length_dropWhile_le)
  with length_dropWhile_le [of "\<lambda>x. x \<notin> D" ys]
  show "((D, dropWhile (\<lambda>x. x \<notin> D) ys), D, xs) \<in> measure (\<lambda>(D, xs). length xs)" by simp
qed simp

declare tokens.simps [simp del]

lemma tokens_delim [simp]: "d \<in> D \<Longrightarrow> tokens D (d # xs) = tokens D xs"
  by (simp add: tokens.simps [of D "d # xs"] tokens.simps [of D xs])

lemma tokens_Nil [simp]: "tokens D [] = []"
  by (simp add: tokens.simps)

text \<open>The string after the first delimiter, whatever precedes it.\<close>

lemma tokens_Cons:
  "dropWhile (\<lambda>x. x \<in> D) xs = ys \<Longrightarrow> ys \<noteq> [] \<Longrightarrow>
   tokens D xs = takeWhile (\<lambda>x. x \<notin> D) ys # tokens D (dropWhile (\<lambda>x. x \<notin> D) ys)"
  by (cases ys) (auto simp: tokens.simps [of D xs] dest: dropWhile_eq_Cons_conv [THEN iffD1])

text \<open>A call of \<open>strtok\<close> returns the next nonempty token, terminated in place, and keeps a place from which the remaining tokens follow; without a token it returns the null pointer.\<close>

theorem strtok_next:
  assumes s: "cstr m p xs" and c: "cstr m ct ds" and sep: "p + length xs < ct \<or> ct + length ds < p"
    and st: "s = Some p \<or> s = None \<and> place = Some p"
  shows "case tokens (set ds) xs of
      [] \<Rightarrow> strtok m place s ct = Some (None, m, None)
    | t # ts \<Rightarrow> \<exists>q m' place'. strtok m place s ct = Some (Some q, m', place') \<and> cstr m' q t \<and> cstr m' ct ds \<and>
        (case place' of None \<Rightarrow> ts = [] | Some p' \<Rightarrow> \<exists>xs'. cstr m' p' xs' \<and> tokens (set ds) xs' = ts)"
proof -
  let ?D = "set ds"
  let ?n = "length (takeWhile (\<lambda>x. x \<in> ?D) xs)"
  define ys where "ys = dropWhile (\<lambda>x. x \<in> ?D) xs"
  have ys: "ys = drop ?n xs" by (simp add: ys_def dropWhile_eq_drop)
  have n: "?n \<le> length xs" by (rule length_takeWhile_le)
  have cy: "cstr m (p + ?n) ys" unfolding ys by (rule cstr_drop [OF s n])
  have start: "strtok m place s ct = (let sbegin = p + ?n in
            if m sbegin = 0 then Some (None, m, None)
            else Option.bind (strpbrk m sbegin ct) (\<lambda>send.
              case send of
                Some e \<Rightarrow> if m e \<noteq> 0 then Some (Some sbegin, m(e := 0), Some (e + 1)) else Some (Some sbegin, m, Some e)
              | None \<Rightarrow> Some (Some sbegin, m, None)))"
    using st strspn_cstr [OF s c] by (auto simp: strtok_def Let_def)
  note start = start [unfolded Let_def]
  show ?thesis
  proof (cases "ys = []")
    case True
    then have "m (p + ?n) = 0" using cy by simp
    moreover have "tokens ?D xs = []" using True by (subst tokens.simps) (simp only: ys_def [symmetric] list.case)
    ultimately show ?thesis using start by simp
  next
    case False
    then have nz: "m (p + ?n) \<noteq> 0" using cy by (cases ys) auto
    let ?t = "takeWhile (\<lambda>x. x \<notin> ?D) ys"
    let ?ts = "tokens ?D (dropWhile (\<lambda>x. x \<notin> ?D) ys)"
    have tok: "tokens ?D xs = ?t # ?ts" by (rule tokens_Cons [OF ys_def [symmetric] False])
    show ?thesis
    proof (cases "\<exists>x \<in> set ys. x \<in> ?D")
      case None: False
      then have t: "?t = ys" "dropWhile (\<lambda>x. x \<notin> ?D) ys = []" by (auto simp: takeWhile_eq_all_conv)
      have "strtok m place s ct = Some (Some (p + ?n), m, None)"
        using start nz strpbrk_cstr [OF c cy] None by simp
      with tok t cy c show ?thesis by simp
    next
      case True
      let ?e = "p + ?n + length ?t"
      have le: "length ?t < length ys" using True by (induction ys) auto
      define zs where "zs = drop (Suc (length ?t)) ys"
      have d: "dropWhile (\<lambda>x. x \<notin> ?D) ys = ys ! length ?t # zs" "ys ! length ?t \<in> ?D"
      proof -
        have "dropWhile (\<lambda>x. x \<notin> ?D) ys = drop (length ?t) ys" by (rule dropWhile_eq_drop)
        with le show "dropWhile (\<lambda>x. x \<notin> ?D) ys = ys ! length ?t # zs" by (simp add: zs_def Cons_nth_drop_Suc)
        from nth_length_takeWhile [OF le] show "ys ! length ?t \<in> ?D" by simp
      qed
      have me: "m ?e \<noteq> 0" using cstr_nth [OF cy le] cstr_nonzero [OF cy] le by (metis nth_mem)
      let ?m = "m(?e := 0)"
      have "strtok m place s ct = Some (Some (p + ?n), ?m, Some (?e + 1))"
        using start nz strpbrk_cstr [OF c cy] True me by simp
      moreover have "cstr ?m (p + ?n) ?t"
      proof (rule cstrI)
        fix i assume "i < length ?t"
        with le cstr_nth [OF cy, of i] show "?m (p + ?n + i) = ?t ! i" by (simp add: takeWhile_nth)
      qed (use cstr_nonzero [OF cy] in \<open>auto dest: set_takeWhileD\<close>)
      moreover have "length ys = length xs - ?n" by (simp add: ys)
      then have "?e < p + length xs" using le n by linarith
      then have "cstr ?m ct ds = cstr m ct ds" using sep by (intro cstr_cong) auto
      moreover have "cstr m (p + ?n + Suc (length ?t)) zs"
        unfolding zs_def using cstr_drop [OF cy, of "Suc (length ?t)"] le by simp
      then have "cstr ?m (?e + 1) zs" by (subst cstr_cong [of _ _ _ m]) (simp_all add: add.assoc)
      ultimately show ?thesis using tok d c by auto
    qed
  qed
qed

section \<open>Swapping pairs of characters\<close>

fun swab :: "u8 list \<Rightarrow> u8 list" where
  "swab (x # y # xs) = y # x # swab xs"
| "swab xs = xs"

lemma swab_swab [simp]: "swab (swab xs) = xs"
  by (induction xs rule: swab.induct) simp_all

lemma length_swab [simp]: "length (swab xs) = length xs"
  by (induction xs rule: swab.induct) simp_all

lemma set_swab [simp]: "set (swab xs) = set xs"
  by (induction xs rule: swab.induct) auto

lemma overwrite_swap:
  "overwrite (m(p := y, p + 1 := x)) (p + 2) xs = overwrite m p (y # x # xs)"
proof (rule ext)
  fix a
  consider "a = p" | "a = p + 1" | "p + 2 \<le> a" | "a < p" by linarith
  then show "overwrite (m(p := y, p + 1 := x)) (p + 2) xs a = overwrite m p (y # x # xs) a"
  proof cases
    case 3
    then have "a - p = Suc (Suc (a - (p + 2)))" by simp
    with 3 show ?thesis by (auto simp: overwrite_def)
  qed (simp_all add: overwrite_def)
qed

lemma overwrite_self: "m p = v \<Longrightarrow> overwrite m p [v] = m"
  by (intro ext) (auto simp: overwrite_def le_less_Suc_eq)

lemma strswab_loop_cstr:
  "cstr m p xs \<Longrightarrow> strswab_loop m p = Some (overwrite m p (swab xs))"
proof (induction xs arbitrary: m p rule: swab.induct)
  case (1 x y xs)
  let ?m = "m(p := y, p + 1 := x)"
  have "cstr ?m (p + 2) xs = cstr m (p + 2) xs" by (rule cstr_cong) simp
  with 1(2) have "cstr ?m (p + 2) xs" by (simp add: numeral_2_eq_2)
  from 1(1) [OF this] have "strswab_loop ?m (p + 2) = Some (overwrite m p (swab (x # y # xs)))"
    by (simp only: overwrite_swap swab.simps)
  with 1(2) show ?case by (subst strswab_loop.simps) (simp add: Let_def fun_upd_def)
next
  case "2_1"
  then show ?case by (subst strswab_loop.simps) simp
next
  case "2_2"
  then show ?case by (subst strswab_loop.simps) (simp add: overwrite_self)
qed

lemma strswab_cstr:
  assumes "cstr m p xs" "xs \<noteq> []"
  shows "strswab m (Some p) = Some (Some p, overwrite m p (swab xs))"
  using assms strswab_loop_cstr [OF assms(1)] by (cases xs) (auto simp: strswab_def)

lemma cstr_overwrite:
  assumes "cstr m p xs" "length ys = length xs" "0 \<notin> set ys"
  shows "cstr (overwrite m p ys) p ys"
  using assms cstr_end [OF assms(1)] by (intro cstrI) (auto simp: overwrite_def)

text \<open>\<open>strswab\<close> swaps adjacent characters, and swapping twice gives the memory back.\<close>

theorem strswab_involution:
  assumes "cstr m p xs" "xs \<noteq> []"
  shows "\<exists>m'. strswab m (Some p) = Some (Some p, m') \<and> cstr m' p (swab xs) \<and> strswab m' (Some p) = Some (Some p, m)"
proof -
  let ?m = "overwrite m p (swab xs)"
  have c: "cstr ?m p (swab xs)" using assms cstr_nonzero [OF assms(1)] by (intro cstr_overwrite) auto
  have "overwrite ?m p xs = m"
  proof (rule ext)
    fix a
    show "overwrite ?m p xs a = m a"
      using cstr_nth [OF assms(1), of "a - p"] by (auto simp: overwrite_def)
  qed
  moreover have "swab xs \<noteq> []" using assms(2) by (metis length_swab length_0_conv)
  ultimately show ?thesis
    using strswab_cstr [OF assms] strswab_cstr [OF c] c by simp
qed

section \<open>Examples\<close>

theorem strcmp_ascii_witness:
  "\<exists>r. strcmp (bytes_at 0 [0x61, 0x62, 0, 0x61, 0x63, 0]) 0 3 = Some r \<and> (r = 0 \<longleftrightarrow> [0x61, 0x62 :: u8] = [0x61, 0x63]) \<and>
    (r < 0 \<longleftrightarrow> map unat [0x61, 0x62 :: u8] < map unat [0x61, 0x63 :: u8])"
  by (rule strcmp_ascii) (simp_all add: bytes_at_def)

theorem strstr_first_witness:
  "\<exists>r. strstr (bytes_at 0 [0x61, 0x62, 0, 0x62, 0]) 0 3 = Some r \<and>
    (case r of Some p \<Rightarrow> \<exists>k. p = 0 + k \<and> occurs_at [0x62] [0x61, 0x62] k \<and> (\<forall>i < k. \<not> occurs_at [0x62] [0x61, 0x62] i)
     | None \<Rightarrow> \<forall>k. \<not> occurs_at [0x62] [0x61, 0x62] k)"
  by (rule strstr_first) (simp_all add: bytes_at_def)

theorem strtok_next_witness:
  "case tokens (set [0x20]) [0x61, 0x20, 0x62] of
      [] \<Rightarrow> strtok (bytes_at 0 [0x61, 0x20, 0x62, 0, 0x20, 0]) None (Some 0) 4 = Some (None, bytes_at 0 [0x61, 0x20, 0x62, 0, 0x20, 0], None)
    | t # ts \<Rightarrow> \<exists>q m' place'. strtok (bytes_at 0 [0x61, 0x20, 0x62, 0, 0x20, 0]) None (Some 0) 4 = Some (Some q, m', place') \<and>
        cstr m' q t \<and> cstr m' 4 [0x20] \<and>
        (case place' of None \<Rightarrow> ts = [] | Some p' \<Rightarrow> \<exists>xs'. cstr m' p' xs' \<and> tokens (set [0x20]) xs' = ts)"
  by (rule strtok_next) (simp_all add: bytes_at_def)

theorem strswab_involution_witness:
  "\<exists>m'. strswab (bytes_at 0 [0x61, 0x62, 0]) (Some 0) = Some (Some 0, m') \<and> cstr m' 0 (swab [0x61, 0x62]) \<and>
     strswab m' (Some 0) = Some (Some 0, bytes_at 0 [0x61, 0x62, 0])"
  by (rule strswab_involution) (simp_all add: bytes_at_def)

end
