(* ===== verification/Vsprintf.thy ===== *)
theory Vsprintf
  imports CString
begin

text \<open>
  \<open>lib_generic/vsprintf.c\<close>, \<open>ldiv.c\<close> and \<open>div64.c\<close>. A C string is the list of its characters
  before the terminator: \<open>*cp\<close> is \<open>deref cp\<close> (0 at the end) and \<open>cp + 1\<close> is \<open>tl cp\<close>. The 64-bit
  variants (\<open>CFG_64BIT_STRTOUL\<close>, \<open>CFG_64BIT_VSPRINTF\<close>) are not compiled for the board.
\<close>

definition deref :: "u8 list \<Rightarrow> u8" where
  "deref cp = (case cp of [] \<Rightarrow> 0 | c # _ \<Rightarrow> c)"

lemma deref_simps [simp]: "deref [] = 0" "deref (c # cs) = c"
  by (simp_all add: deref_def)

section \<open>Reading numbers\<close>

text \<open>\<open>value = isdigit(*cp) ? *cp-'0' : (islower(*cp) ? toupper(*cp) : *cp)-'A'+10\<close>\<close>

definition digit_value :: "u8 \<Rightarrow> u32" where
  "digit_value c =
     (if isdigit c then ucast c - 0x30
      else (if islower c then ucast (toupper c) else ucast c) - 0x41 + 10)"

fun strtoul_loop :: "u8 list \<Rightarrow> u32 \<Rightarrow> u32 \<Rightarrow> u32 \<times> u8 list" where
  "strtoul_loop [] base result = (result, [])"
| "strtoul_loop (c # cp) base result =
     (if isxdigit c \<and> digit_value c < base then strtoul_loop cp base (result * base + digit_value c)
      else (result, c # cp))"

definition simple_strtoul :: "u8 list \<Rightarrow> u32 \<Rightarrow> u32 \<times> u8 list" where
  "simple_strtoul cp base =
     (let (cp, base) =
        (if deref cp = 0x30 then
           let cp = tl cp;
               (cp, base) = (if deref cp = 0x78 \<and> isxdigit (deref (tl cp)) then (tl cp, 16) else (cp, base))
           in (cp, if base = 0 then 8 else base)
         else (cp, base));
          base = (if base = 0 then 10 else base)
      in strtoul_loop cp base 0)"

definition simple_strtol :: "u8 list \<Rightarrow> u32 \<Rightarrow> int \<times> u8 list" where
  "simple_strtol cp base =
     (if deref cp = 0x2d then let (r, e) = simple_strtoul (tl cp) base in (sint (- r), e)
      else let (r, e) = simple_strtoul cp base in (sint r, e))"

definition is_digit :: "u8 \<Rightarrow> bool" where
  "is_digit c \<longleftrightarrow> 0x30 \<le> c \<and> c \<le> 0x39"

fun skip_atoi :: "u8 list \<Rightarrow> int \<Rightarrow> int \<times> u8 list" where
  "skip_atoi [] i = (i, [])"
| "skip_atoi (c # s) i = (if is_digit c then skip_atoi s (i * 10 + uint c - 48) else (i, c # s))"

section \<open>Writing numbers\<close>

abbreviation ZEROPAD :: u32 where "ZEROPAD \<equiv> 1"
abbreviation SIGN :: u32 where "SIGN \<equiv> 2"
abbreviation PLUS :: u32 where "PLUS \<equiv> 4"
abbreviation SPACE :: u32 where "SPACE \<equiv> 8"
abbreviation LEFT :: u32 where "LEFT \<equiv> 16"
abbreviation SPECIAL :: u32 where "SPECIAL \<equiv> 32"
abbreviation LARGE :: u32 where "LARGE \<equiv> 64"

definition has :: "u32 \<Rightarrow> u32 \<Rightarrow> bool" where
  "has type fl \<longleftrightarrow> type AND fl \<noteq> 0"

definition ascii :: "string \<Rightarrow> u8 list" where
  "ascii s = map (\<lambda>c. word_of_nat (of_char c)) s"

definition lower_digits :: "u8 list" where
  "lower_digits = ascii ''0123456789abcdefghijklmnopqrstuvwxyz''"

definition upper_digits :: "u8 list" where
  "upper_digits = ascii ''0123456789ABCDEFGHIJKLMNOPQRSTUVWXYZ''"

text \<open>\<open>while (num != 0) tmp[i++] = digits[do_div(num,base)]\<close>, least significant digit first.\<close>

function digit_loop :: "u8 list \<Rightarrow> u32 \<Rightarrow> u32 \<Rightarrow> u8 list" where
  "digit_loop digits base num =
     (if num = 0 \<or> base < 2 then [] else digits ! unat (num mod base) # digit_loop digits base (num div base))"
  by pat_completeness auto
termination
proof (relation "measure (\<lambda>(_, _, num). unat num)")
  fix base num :: u32 and digits :: "u8 list"
  assume "\<not> (num = 0 \<or> base < 2)"
  then have "1 < unat base" "0 < unat num"
    by (auto simp: word_less_nat_alt unat_gt_0 not_less word_le_nat_alt)
  then have "unat num div unat base < unat num" by (intro div_less_dividend) simp_all
  then show "((digits, base, num div base), digits, base, num) \<in> measure (\<lambda>(_, _, num). unat num)"
    by (simp add: unat_div)
qed simp

declare digit_loop.simps [simp del]

text \<open>\<open>while (size-- > 0) *str++ = c\<close>: the characters and what is left of \<open>size\<close>.\<close>

definition pad_loop :: "u8 \<Rightarrow> int \<Rightarrow> u8 list \<times> int" where
  "pad_loop c size' = (replicate (nat size') c, min size' 0 - 1)"

text \<open>
  \<open>number\<close> returns the characters stored, \<open>None\<close> for the null pointer. \<open>num\<close> is the \<open>long\<close> by its bits.
\<close>

definition number :: "u32 \<Rightarrow> int \<Rightarrow> int \<Rightarrow> int \<Rightarrow> u32 \<Rightarrow> u8 list option" where
  "number num base size0 precision0 type0 =
     (let digits = (if has type0 LARGE then upper_digits else lower_digits);
          type = (if has type0 LEFT then type0 AND NOT ZEROPAD else type0)
      in if base < 2 \<or> base > 36 then None
      else
        let c = (if has type ZEROPAD then 0x30 else 0x20) :: u8;
            (sgn, num, size1) =
              (if has type SIGN then
                 if sint num < 0 then ([0x2d], - num, size0 - 1)
                 else if has type PLUS then ([0x2b], num, size0 - 1)
                 else if has type SPACE then ([0x20], num, size0 - 1) else ([], num, size0)
               else ([], num, size0));
            size2 = (if has type SPECIAL then if base = 16 then size1 - 2 else if base = 8 then size1 - 1 else size1
                    else size1);
            tmp = (if num = 0 then [0x30] else digit_loop digits (word_of_int base) num);
            i = int (length tmp);
            precision = (if i > precision0 then i else precision0);
            size3 = size2 - precision;
            (s1, size4) = (if type AND (ZEROPAD OR LEFT) = 0 then pad_loop 0x20 size3 else ([], size3));
            s2 = (if has type SPECIAL then if base = 8 then [0x30] else if base = 16 then [0x30, digits ! 33] else []
                  else []);
            (s3, size5) = (if \<not> has type LEFT then pad_loop c size4 else ([], size4));
            s4 = replicate (nat (precision - i)) 0x30;
            (s5, _) = pad_loop 0x20 size5
        in Some (s1 @ sgn @ s2 @ s3 @ s4 @ rev tmp @ s5))"

section \<open>\<open>vsprintf\<close>\<close>

text \<open>
  The variable arguments: integers and pointers by their bits, strings, and places an integer is
  stored to. Taking a missing argument, or one of another kind, is undefined behaviour: \<open>None\<close>.
\<close>

datatype varg = Word u32 | Text "u8 list option" | Cell nat

fun next_word :: "varg list \<Rightarrow> (u32 \<times> varg list) option" where
  "next_word (Word w # args) = Some (w, args)"
| "next_word _ = None"

fun read_flags :: "u8 list \<Rightarrow> u32 \<Rightarrow> u8 list \<times> u32" where
  "read_flags (c # fmt) flags =
     (if c = 0x2d then read_flags fmt (flags OR LEFT)
      else if c = 0x2b then read_flags fmt (flags OR PLUS)
      else if c = 0x20 then read_flags fmt (flags OR SPACE)
      else if c = 0x23 then read_flags fmt (flags OR SPECIAL)
      else if c = 0x30 then read_flags fmt (flags OR ZEROPAD)
      else (c # fmt, flags))"
| "read_flags [] flags = ([], flags)"

definition read_width :: "u8 list \<Rightarrow> varg list \<Rightarrow> u32 \<Rightarrow> (u8 list \<times> varg list \<times> u32 \<times> int) option" where
  "read_width fmt args flags =
     (if is_digit (deref fmt) then let (w, fmt) = skip_atoi fmt 0 in Some (fmt, args, flags, w)
      else if deref fmt = 0x2a then
        (case next_word args of None \<Rightarrow> None
         | Some (w, args) \<Rightarrow>
             if sint w < 0 then Some (tl fmt, args, flags OR LEFT, - sint w) else Some (tl fmt, args, flags, sint w))
      else Some (fmt, args, flags, - 1))"

definition read_precision :: "u8 list \<Rightarrow> varg list \<Rightarrow> (u8 list \<times> varg list \<times> int) option" where
  "read_precision fmt args =
     (if deref fmt = 0x2e then
        let fmt = tl fmt in
        if is_digit (deref fmt) then let (p, fmt) = skip_atoi fmt 0 in Some (fmt, args, if p < 0 then 0 else p)
        else if deref fmt = 0x2a then
          (case next_word args of None \<Rightarrow> None
           | Some (w, args) \<Rightarrow> Some (tl fmt, args, if sint w < 0 then 0 else sint w))
        else Some (fmt, args, 0)
      else Some (fmt, args, - 1))"

text \<open>The characters of \<open>%s\<close>; a null pointer prints \<open><NULL>\<close>.\<close>

definition put_string :: "u8 list option \<Rightarrow> int \<Rightarrow> int \<Rightarrow> u32 \<Rightarrow> u8 list" where
  "put_string t field_width precision flags =
     (let s = (case t of None \<Rightarrow> ascii ''<NULL>'' | Some s \<Rightarrow> s);
          s = take (unat (word_of_int precision :: u32)) s;
          len = int (length s);
          (left, field_width) = (if \<not> has flags LEFT then pad_loop 0x20 (field_width - len) else ([], field_width - len));
          (right, _) = pad_loop 0x20 field_width
      in left @ s @ right)"

definition put_char :: "u32 \<Rightarrow> int \<Rightarrow> u32 \<Rightarrow> u8 list" where
  "put_char w field_width flags =
     (let (left, field_width) =
            (if \<not> has flags LEFT then (replicate (nat (field_width - 1)) 0x20, min (field_width - 1) 0)
             else ([], field_width))
      in left @ [ucast w] @ replicate (nat (field_width - 1)) 0x20)"

text \<open>The integer conversions: base and flags, or no such conversion.\<close>

definition int_format :: "u8 \<Rightarrow> u32 \<Rightarrow> (int \<times> u32) option" where
  "int_format c flags =
     (if c = 0x6f then Some (8, flags)
      else if c = 0x58 then Some (16, flags OR LARGE)
      else if c = 0x78 then Some (16, flags)
      else if c = 0x64 \<or> c = 0x69 then Some (10, flags OR SIGN)
      else if c = 0x75 then Some (10, flags)
      else None)"

text \<open>The argument of an integer conversion, a \<open>short\<close> with \<open>h\<close>.\<close>

definition int_arg :: "u8 \<Rightarrow> u32 \<Rightarrow> u32 \<Rightarrow> u32" where
  "int_arg qualifier flags w =
     (if qualifier = 0x68 then if has flags SIGN then scast (ucast w :: u16) else ucast (ucast w :: u16) else w)"

text \<open>
  The conversion \<open>c\<close> itself: the characters stored, the store of \<open>%n\<close> (\<open>n\<close> characters have been
  stored so far) and the rest of the arguments.
\<close>

definition convert ::
    "u8 \<Rightarrow> u8 \<Rightarrow> u32 \<Rightarrow> int \<Rightarrow> int \<Rightarrow> varg list \<Rightarrow> nat \<Rightarrow> (u8 list \<times> (nat \<times> int) list \<times> varg list) option" where
  "convert c qualifier flags field_width precision args n =
     (if c = 0x63 then
        (case next_word args of None \<Rightarrow> None | Some (w, args) \<Rightarrow> Some (put_char w field_width flags, [], args))
      else if c = 0x73 then
        (case args of Text t # args \<Rightarrow> Some (put_string t field_width precision flags, [], args) | _ \<Rightarrow> None)
      else if c = 0x70 then
        (case next_word args of None \<Rightarrow> None
         | Some (w, args) \<Rightarrow>
             let (field_width, flags) = (if field_width = - 1 then (8, flags OR ZEROPAD) else (field_width, flags))
             in map_option (\<lambda>s. (s, [], args)) (number w 16 field_width precision flags))
      else if c = 0x6e then (case args of Cell p # args \<Rightarrow> Some ([], [(p, int n)], args) | _ \<Rightarrow> None)
      else if c = 0x25 then Some ([0x25], [], args)
      else
        (case int_format c flags of
           None \<Rightarrow> Some (if c \<noteq> 0 then [0x25, c] else [0x25], [], args)
         | Some (base, flags) \<Rightarrow>
            (case next_word args of None \<Rightarrow> None
             | Some (w, args) \<Rightarrow>
                 map_option (\<lambda>s. (s, [], args))
                   (number (int_arg qualifier flags w) base field_width precision flags))))"

text \<open>
  A conversion from the character after the percent sign, with the rest of the format. At the end
  of the format \<open>--fmt\<close> undoes the advance, which is \<open>tl [] = []\<close> here.
\<close>

definition conversion ::
    "u8 list \<Rightarrow> varg list \<Rightarrow> nat \<Rightarrow> (u8 list \<times> (nat \<times> int) list \<times> u8 list \<times> varg list) option" where
  "conversion fmt args n =
     (let (fmt, flags) = read_flags fmt 0 in
      case read_width fmt args flags of None \<Rightarrow> None
      | Some (fmt, args, flags, field_width) \<Rightarrow>
     (case read_precision fmt args of None \<Rightarrow> None
      | Some (fmt, args, precision) \<Rightarrow>
      let (qualifier, fmt) =
            (if deref fmt = 0x68 \<or> deref fmt = 0x6c \<or> deref fmt = 0x71 then (deref fmt, tl fmt) else (0, fmt))
      in map_option (\<lambda>(s, st, args). (s, st, tl fmt, args))
           (convert (deref fmt) qualifier flags field_width precision args n)))"

lemma length_read_flags: "length (fst (read_flags fmt flags)) \<le> length fmt"
  by (induction fmt flags rule: read_flags.induct) auto

lemma length_skip_atoi: "length (snd (skip_atoi s i)) \<le> length s"
  by (induction s i rule: skip_atoi.induct) auto

lemma length_read_width:
  "read_width fmt args flags = Some (fmt', r) \<Longrightarrow> length fmt' \<le> length fmt"
  using length_skip_atoi [of fmt 0]
  by (auto simp: read_width_def split: if_splits option.splits prod.splits)

lemma length_read_precision:
  "read_precision fmt args = Some (fmt', r) \<Longrightarrow> length fmt' \<le> length fmt"
  using length_skip_atoi [of "tl fmt" 0]
  by (auto simp: read_precision_def Let_def split: if_splits option.splits prod.splits)

lemma length_conversion:
  assumes "conversion fmt args n = Some (out, st, fmt', args')"
  shows "length fmt' \<le> length fmt"
proof -
  obtain f1 fl where 1: "read_flags fmt 0 = (f1, fl)" by fastforce
  obtain f2 a2 fl2 w where 2: "read_width f1 args fl = Some (f2, a2, fl2, w)"
    using assms by (auto simp: conversion_def 1 split: option.splits prod.splits)
  obtain f3 a3 p where 3: "read_precision f2 a2 = Some (f3, a3, p)"
    using assms by (auto simp: conversion_def 1 2 split: option.splits prod.splits)
  have le: "length f3 \<le> length fmt"
    using length_read_flags [of fmt 0] length_read_width [OF 2] length_read_precision [OF 3] 1 by simp
  have "fmt' = tl f3 \<or> fmt' = tl (tl f3)"
    using assms by (auto simp: conversion_def Let_def 1 2 3 split: if_splits)
  with le show ?thesis by auto
qed

function vsprintf_loop ::
    "u8 list \<Rightarrow> varg list \<Rightarrow> u8 list \<Rightarrow> (nat \<times> int) list \<Rightarrow> (u8 list \<times> (nat \<times> int) list) option" where
  "vsprintf_loop [] args str stores = Some (str, stores)"
| "vsprintf_loop (c # fmt) args str stores =
     (if c \<noteq> 0x25 then vsprintf_loop fmt args (str @ [c]) stores
      else case conversion fmt args (length str) of
             None \<Rightarrow> None
           | Some (out, st, fmt', args') \<Rightarrow> vsprintf_loop fmt' args' (str @ out) (stores @ st))"
  by pat_completeness auto
termination
  by (relation "measure (\<lambda>(fmt, _). length fmt)") (auto dest: length_conversion)

text \<open>The characters written before the terminator, with the value returned, and the stores of \<open>%n\<close>.\<close>

definition vsprintf :: "u8 list \<Rightarrow> varg list \<Rightarrow> (u8 list \<times> int \<times> (nat \<times> int) list) option" where
  "vsprintf fmt args = map_option (\<lambda>(str, stores). (str, int (length str), stores)) (vsprintf_loop fmt args [] [])"

section \<open>Division\<close>

text \<open>\<open>ldiv\<close>: C division truncates, so the correction is never taken.\<close>

definition c_div :: "int \<Rightarrow> int \<Rightarrow> int" where
  "c_div a b = sgn a * sgn b * (\<bar>a\<bar> div \<bar>b\<bar>)"

definition c_mod :: "int \<Rightarrow> int \<Rightarrow> int" where
  "c_mod a b = a - c_div a b * b"

definition ldiv :: "int \<Rightarrow> int \<Rightarrow> int \<times> int" where
  "ldiv numer denom =
     (let quot = c_div numer denom; rem = c_mod numer denom
      in if 0 \<le> numer \<and> rem < 0 then (quot + 1, rem - denom) else (quot, rem))"

text \<open>\<open>while ((int64_t)b > 0 && b < rem)\<close>, doubling \<open>b\<close> and \<open>d\<close>; the sign bit bounds the loop.\<close>

function div64_up :: "u64 \<Rightarrow> u64 \<Rightarrow> u64 \<Rightarrow> u64 \<times> u64" where
  "div64_up rem b d = (if 0 < sint b \<and> b < rem then div64_up rem (b + b) (d + d) else (b, d))"
  by pat_completeness auto

lemma sint_pos_double: "0 < sint (b :: u64) \<Longrightarrow> 0 < unat b \<and> unat b < 2 ^ 63 \<and> unat (b + b) = 2 * unat b"
proof -
  assume p: "0 < sint b"
  then have "b \<noteq> 0" by auto
  then have z: "0 < unat b" by (simp add: unat_gt_0)
  have lt: "unat b < 2 ^ 63"
  proof (rule ccontr)
    assume "\<not> unat b < 2 ^ 63"
    then have "int (2 ^ 63) \<le> int (unat b)" by (simp only: not_less of_nat_le_iff)
    then have u: "2 ^ 63 \<le> uint b" by (simp only: uint_nat [symmetric] of_nat_power of_nat_numeral)
    have s: "sint b < 2 ^ 63" using sint_lt [of b] by simp
    then have "uint b = sint b" using p by (simp add: uint_sint take_bit_int_eq_self)
    with u s show False by linarith
  qed
  then have "unat (b + b) = 2 * unat b" by (simp add: unat_word_ariths)
  with z lt show ?thesis by simp
qed

termination div64_up
  by (relation "measure (\<lambda>(_, b, _). 2 ^ 64 - unat b)") (auto dest!: sint_pos_double)

declare div64_up.simps [simp del]

text \<open>The \<open>do \<dots> while (d)\<close> loop: the result and the remainder.\<close>

function div64_down :: "u64 \<Rightarrow> u64 \<Rightarrow> u64 \<Rightarrow> u64 \<Rightarrow> u64 \<times> u64" where
  "div64_down rem b d res =
     (let (rem, res) = (if b \<le> rem then (rem - b, res + d) else (rem, res)) in
      if drop_bit 1 d \<noteq> 0 then div64_down rem (drop_bit 1 b) (drop_bit 1 d) res else (res, rem))"
  by pat_completeness auto

lemma unat_drop_bit_1: "unat (drop_bit 1 (d :: u64)) = unat d div 2"
  by (simp add: drop_bit_eq_div unat_div)

termination div64_down
proof (relation "measure (\<lambda>(_, _, d, _). unat d)")
  fix rem b d res :: u64 and x :: "u64 \<times> u64" and xa y
  assume "drop_bit 1 d \<noteq> 0"
  then have "0 < unat (drop_bit 1 d)" by (simp add: unat_gt_0)
  then show "((xa, drop_bit 1 b, drop_bit 1 d, y), rem, b, d, res) \<in> measure (\<lambda>(_, _, d, _). unat d)"
    by (simp only: unat_drop_bit_1 in_measure prod.case)
qed simp

declare div64_down.simps [simp del]

text \<open>The quotient stored back through the pointer and the remainder returned.\<close>

definition div64_32 :: "u64 \<Rightarrow> u32 \<Rightarrow> u64 \<times> u32" where
  "div64_32 n base =
     (let rem = n; b = ucast base :: u64; high = ucast (drop_bit 32 rem) :: u32;
          (res, rem) = (if base \<le> high
             then let high = high div base
                  in (push_bit 32 (ucast high), rem - push_bit 32 (ucast (high * base) :: u64))
             else (0, rem));
          (b, d) = div64_up rem b 1;
          (res, rem) = div64_down rem b d res
      in (res, ucast rem))"

section \<open>The 64-bit division\<close>

lemma u64_nat: "a < 2 ^ 64 \<Longrightarrow> unat (word_of_nat a :: u64) = a"
  by (simp add: unat_of_nat)

lemma sint_u64: "a < 2 ^ 63 \<Longrightarrow> sint (word_of_nat a :: u64) = int a"
  by (simp add: signed_of_nat signed_take_bit_int_eq_self)

lemma u64_le: "a < 2 ^ 64 \<Longrightarrow> b < 2 ^ 64 \<Longrightarrow> (word_of_nat a :: u64) \<le> word_of_nat b \<longleftrightarrow> a \<le> b"
  by (simp add: word_le_nat_alt unat_of_nat)

lemma u64_less: "a < 2 ^ 64 \<Longrightarrow> b < 2 ^ 64 \<Longrightarrow> (word_of_nat a :: u64) < word_of_nat b \<longleftrightarrow> a < b"
  by (simp add: word_less_nat_alt unat_of_nat)

lemma u64_half: "a < 2 ^ 64 \<Longrightarrow> drop_bit 1 (word_of_nat a :: u64) = word_of_nat (a div 2)"
  by (rule word_unat_eq_iff [THEN iffD2]) (simp only: unat_drop_bit_1, simp add: unat_of_nat)

lemma u64_zero: "a < 2 ^ 64 \<Longrightarrow> (word_of_nat a :: u64) = 0 \<longleftrightarrow> a = 0"
  by (simp add: word_unat_eq_iff unat_of_nat)

lemma div64_down_nat:
  assumes "base * 2 ^ k < 2 ^ 64" "r < 2 * (base * 2 ^ k)" "r < 2 ^ 64" "0 < base"
  shows "div64_down (word_of_nat r) (word_of_nat (base * 2 ^ k)) (word_of_nat (2 ^ k)) (word_of_nat q)
    = (word_of_nat (q + r div base), word_of_nat (r mod base))"
  using assms
proof (induction k arbitrary: r q)
  case 0
  let ?b = "base * 2 ^ 0"
  have d: "drop_bit 1 (word_of_nat (2 ^ 0) :: u64) = 0" by simp
  show ?case
  proof (cases "?b \<le> r")
    case True
    then have "r div base = 1" "r mod base = r - base"
      using 0 by (auto intro: div_nat_eqI simp: le_mod_geq)
    then show ?thesis
      using True 0 u64_le [of ?b r] d by (subst div64_down.simps) (simp add: Let_def of_nat_diff add.commute)
  next
    case False
    then show ?thesis
      using 0 u64_le [of ?b r] d by (subst div64_down.simps) (simp add: Let_def)
  qed
next
  case (Suc k)
  let ?b = "base * 2 ^ Suc k"
  have small: "(2::nat) ^ Suc k < 2 ^ 64"
  proof -
    have "1 * (2::nat) ^ Suc k \<le> base * 2 ^ Suc k" using Suc.prems(4) by (intro mult_le_mono1) simp
    with Suc.prems(1) show ?thesis by linarith
  qed
  have h: "drop_bit 1 (word_of_nat ?b :: u64) = word_of_nat (base * 2 ^ k)"
    "drop_bit 1 (word_of_nat (2 ^ Suc k) :: u64) = word_of_nat (2 ^ k)"
    using u64_half [OF Suc.prems(1)] u64_half [OF small] by (simp_all add: mult.left_commute)
  have nz: "(word_of_nat (2 ^ k) :: u64) \<noteq> 0" using u64_zero [of "2 ^ k"] small by simp
  have le: "(word_of_nat ?b :: u64) \<le> word_of_nat r \<longleftrightarrow> ?b \<le> r"
    by (rule u64_le [OF Suc.prems(1,3)])
  show ?case
  proof (cases "?b \<le> r")
    case True
    let ?r = "r - ?b"
    have "div64_down (word_of_nat ?r) (word_of_nat (base * 2 ^ k)) (word_of_nat (2 ^ k)) (word_of_nat (q + 2 ^ Suc k))
        = (word_of_nat (q + 2 ^ Suc k + ?r div base), word_of_nat (?r mod base))"
      using Suc.prems True by (intro Suc.IH) auto
    moreover have "r div base = 2 ^ Suc k + ?r div base" "r mod base = ?r mod base"
    proof -
      obtain r' where "r = r' + 2 ^ Suc k * base" using True by (metis add.commute le_add_diff_inverse mult.commute)
      moreover from this have "?r = r'" by (simp add: mult.commute)
      ultimately show "r div base = 2 ^ Suc k + ?r div base" "r mod base = ?r mod base"
        using Suc.prems(4) by (simp_all only: div_mult_self1 mod_mult_self1 neq0_conv)
    qed
    moreover have "word_of_nat r - word_of_nat ?b = (word_of_nat ?r :: u64)" using True by (simp add: of_nat_diff)
    ultimately show ?thesis
      using True le h nz by (subst div64_down.simps) (simp add: Let_def add.assoc del: power_Suc)
  next
    case False
    have "div64_down (word_of_nat r) (word_of_nat (base * 2 ^ k)) (word_of_nat (2 ^ k)) (word_of_nat q)
        = (word_of_nat (q + r div base), word_of_nat (r mod base))"
      using Suc.prems False by (intro Suc.IH) auto
    then show ?thesis
      using False le h nz by (subst div64_down.simps) (simp add: Let_def del: power_Suc)
  qed
qed

lemma div64_up_nat:
  assumes "base * 2 ^ k < 2 ^ 64" "r < 2 ^ 64" "0 < base"
  shows "\<exists>j. div64_up (word_of_nat r) (word_of_nat (base * 2 ^ k)) (word_of_nat (2 ^ k))
      = (word_of_nat (base * 2 ^ j), word_of_nat (2 ^ j)) \<and> base * 2 ^ j < 2 ^ 64 \<and> r < 2 * (base * 2 ^ j)"
  using assms
proof (induction "2 ^ 64 - base * 2 ^ k" arbitrary: k rule: less_induct)
  case less
  let ?b = "base * 2 ^ k"
  have ub: "unat (word_of_nat ?b :: u64) = ?b" using less.prems(1) by (rule u64_nat)
  show ?case
  proof (cases "0 < sint (word_of_nat ?b :: u64) \<and> (word_of_nat ?b :: u64) < word_of_nat r")
    case True
    then have b: "0 < ?b" "?b < 2 ^ 63" using sint_pos_double [of "word_of_nat ?b"] ub by simp_all
    have s: "base * 2 ^ Suc k < 2 ^ 64" using b(2) by simp
    have "\<exists>j. div64_up (word_of_nat r) (word_of_nat (base * 2 ^ Suc k)) (word_of_nat (2 ^ Suc k))
      = (word_of_nat (base * 2 ^ j), word_of_nat (2 ^ j)) \<and> base * 2 ^ j < 2 ^ 64 \<and> r < 2 * (base * 2 ^ j)"
    proof (rule less.hyps)
      have "base * 2 ^ Suc k = 2 * ?b" by simp
      with b s show "2 ^ 64 - base * 2 ^ Suc k < 2 ^ 64 - base * 2 ^ k" by linarith
    qed (use s less.prems in simp_all)
    moreover have "(word_of_nat ?b :: u64) + word_of_nat ?b = word_of_nat (base * 2 ^ Suc k)"
      "(word_of_nat (2 ^ k) :: u64) + word_of_nat (2 ^ k) = word_of_nat (2 ^ Suc k)" by (simp_all add: algebra_simps)
    ultimately show ?thesis using True by (subst div64_up.simps) (simp del: power_Suc)
  next
    case False
    have "r < 2 * ?b"
    proof (cases "0 < sint (word_of_nat ?b :: u64)")
      case True
      with False have "r \<le> ?b" using u64_less [OF less.prems(1,2)] by simp
      then show ?thesis using less.prems(3) by (metis le_less_trans less_add_same_cancel1 mult_2 nat_0_less_mult_iff zero_less_numeral zero_less_power)
    next
      case neg: False
      have "2 ^ 63 \<le> ?b"
      proof (rule ccontr)
        assume "\<not> 2 ^ 63 \<le> ?b"
        then have "sint (word_of_nat ?b :: u64) = int ?b" by (intro sint_u64) simp
        with neg less.prems(3) show False by simp
      qed
      with less.prems(2) show ?thesis by simp
    qed
    with False less.prems show ?thesis by (subst div64_up.simps) auto
  qed
qed

text \<open>C25: For every nonzero base \<open>__div64_32\<close> computes the 64-bit quotient and returns the remainder.\<close>

theorem div64_32_correct:
  assumes "base \<noteq> 0"
  shows "div64_32 n base = (n div ucast base, ucast (n mod ucast base))"
proof -
  define N B where "N = unat n" and "B = unat base"
  have B: "0 < B" "B < 2 ^ 32" using assms unsigned_less [of base] by (simp_all add: B_def unat_gt_0)
  have N: "N < 2 ^ 64" using unsigned_less [of n] by (simp add: N_def)
  have n: "n = word_of_nat N" by (simp add: N_def)
  have b: "(ucast base :: u64) = word_of_nat B" by (simp add: B_def)
  define H where "H = N div 2 ^ 32"
  have H: "H < 2 ^ 32" using N by (simp add: H_def less_mult_imp_div_less)
  have high: "(ucast (drop_bit 32 n) :: u32) = word_of_nat H"
  proof -
    have "unat (drop_bit 32 n) = H" by (simp add: drop_bit_eq_div unat_div N_def H_def)
    with H show ?thesis
      by (simp add: word_unat_eq_iff unsigned_ucast_eq unat_of_nat take_bit_nat_eq_self)
  qed
  have hb: "base \<le> word_of_nat H \<longleftrightarrow> B \<le> H"
    using H by (simp add: word_le_nat_alt B_def unat_of_nat)
  have "H div B < 2 ^ 32" by (rule le_less_trans [OF div_le_dividend H])
  with H have hd: "word_of_nat H div base = word_of_nat (H div B)"
    by (simp add: word_unat_eq_iff unat_div unat_of_nat B_def)
  define q r where "q = (if B \<le> H then H div B * 2 ^ 32 else 0)" and "r = N - q * B"
  have hB: "H div B * B \<le> H" by simp
  have qB: "q * B \<le> N"
  proof (cases "B \<le> H")
    case True
    have "H div B * B * 2 ^ 32 \<le> H * 2 ^ 32" using hB by (rule mult_le_mono1)
    also have "\<dots> \<le> N" by (simp add: H_def)
    finally show ?thesis using True by (simp add: q_def mult.assoc mult.commute [of B])
  qed (simp add: q_def)
  have N_eq: "N = r + q * B" using qB by (simp add: r_def)
  have fin: "q + r div B = N div B" "r mod B = N mod B" using B(1) unfolding N_eq by simp_all
  have red: "(if base \<le> word_of_nat H
             then let high = word_of_nat H div base
                  in (push_bit 32 (ucast high), n - push_bit 32 (ucast (high * base) :: u64))
             else (0 :: u64, n)) = (word_of_nat q, word_of_nat r)"
  proof (cases "B \<le> H")
    case True
    have c: "(ucast (word_of_nat x :: u32) :: u64) = word_of_nat x" if "x < 2 ^ 32" for x
      using that by (simp add: word_unat_eq_iff unsigned_ucast_eq unat_of_nat take_bit_nat_eq_self)
    have p: "push_bit 32 (word_of_nat x :: u64) = word_of_nat (x * 2 ^ 32)" for x
      by (simp add: push_bit_eq_mult)
    have e1: "(ucast (word_of_nat (H div B) :: u32) :: u64) = word_of_nat (H div B)"
      by (rule c) (rule le_less_trans [OF div_le_dividend H])
    have e2: "(ucast (word_of_nat (H div B * B) :: u32) :: u64) = word_of_nat (H div B * B)"
      by (rule c) (rule le_less_trans [OF hB H])
    have m: "word_of_nat (H div B) * base = word_of_nat (H div B * B)" by (simp add: B_def)
    have q: "q = H div B * 2 ^ 32" "q * B = H div B * B * 2 ^ 32" using True by (simp_all add: q_def)
    have "word_of_nat N - word_of_nat (H div B * B * 2 ^ 32) = (word_of_nat r :: u64)"
      unfolding q(2) [symmetric] r_def using qB by (rule of_nat_diff [symmetric])
    moreover have "base \<le> word_of_nat H" using True hb by simp
    ultimately show ?thesis
      unfolding hd Let_def m e1 e2 p n q(1) by (simp only: if_True)
  qed (use hb n in \<open>simp add: q_def r_def\<close>)
  have "r < 2 ^ 64" using N by (simp add: r_def)
  then obtain j where up: "div64_up (word_of_nat r) (word_of_nat (B * 2 ^ 0)) (word_of_nat (2 ^ 0))
      = (word_of_nat (B * 2 ^ j), word_of_nat (2 ^ j))" "B * 2 ^ j < 2 ^ 64" "r < 2 * (B * 2 ^ j)"
    using div64_up_nat [of B 0 r] B by auto
  have down: "div64_down (word_of_nat r) (word_of_nat (B * 2 ^ j)) (word_of_nat (2 ^ j)) (word_of_nat q)
      = (word_of_nat (q + r div B), word_of_nat (r mod B))"
    by (rule div64_down_nat [OF up(2,3) \<open>r < 2 ^ 64\<close> B(1)])
  have "div64_32 n base = (word_of_nat (N div B), ucast (word_of_nat (N mod B) :: u64))"
  proof -
    have up0: "div64_up (word_of_nat r) (word_of_nat B) 1 = (word_of_nat (B * 2 ^ j), word_of_nat (2 ^ j))"
      using up(1) by (simp only: power_0 mult_1_right of_nat_1)
    show ?thesis
      unfolding div64_32_def Let_def high b red [unfolded Let_def] prod.case up0 down fin ..
  qed
  moreover have "n div ucast base = word_of_nat (N div B)" "n mod ucast base = word_of_nat (N mod B)"
  proof -
    have "unat (ucast base :: u64) = B" unfolding b using B by (intro u64_nat) simp
    then have d: "unat (n div ucast base) = N div B" and m: "unat (n mod ucast base) = N mod B"
      by (simp_all add: unat_div unat_mod N_def)
    show "n div ucast base = word_of_nat (N div B)" unfolding d [symmetric] by simp
    show "n mod ucast base = word_of_nat (N mod B)" unfolding m [symmetric] by simp
  qed
  ultimately show ?thesis by simp
qed

section \<open>Digits\<close>

text \<open>The value of a digit string.\<close>

definition digits_value :: "u32 \<Rightarrow> u8 list \<Rightarrow> u32 \<Rightarrow> u32" where
  "digits_value base ds r = foldl (\<lambda>r d. r * base + digit_value d) r ds"

definition is_digit_of :: "u32 \<Rightarrow> u8 \<Rightarrow> bool" where
  "is_digit_of base c \<longleftrightarrow> isxdigit c \<and> digit_value c < base"

lemma strtoul_loop_digits:
  "\<forall>d \<in> set ds. is_digit_of base d \<Longrightarrow> rest = [] \<or> \<not> is_digit_of base (hd rest) \<Longrightarrow>
   strtoul_loop (ds @ rest) base r = (digits_value base ds r, rest)"
proof (induction ds arbitrary: r)
  case Nil
  then show ?case by (cases rest) (auto simp: digits_value_def is_digit_of_def)
next
  case (Cons d ds)
  then show ?case by (simp add: digits_value_def is_digit_of_def)
qed

lemma lower_digit:
  assumes "k < 16"
  shows "digit_value (lower_digits ! k) = word_of_nat k" "isxdigit (lower_digits ! k)"
    "lower_digits ! k = 0x30 \<longleftrightarrow> k = 0"
proof -
  have "k \<in> {0,1,2,3,4,5,6,7,8,9,10,11,12,13,14,15}" using assms by (auto simp: numeral_eq_Suc less_Suc_eq)
  then have a: "unat (lower_digits ! k) < 128"
    and x: "in_range 48 57 (lower_digits ! k) \<or> in_range 97 102 (lower_digits ! k)"
    and v: "digit_value (lower_digits ! k) = word_of_nat k"
    and z: "lower_digits ! k = 0x30 \<longleftrightarrow> k = 0"
    by (elim insertE emptyE; simp add: lower_digits_def ascii_def in_range_def digit_value_def toupper_def ctype_preds)+
  show "isxdigit (lower_digits ! k)" using ctype_preds(5) [OF a] x by auto
  show "digit_value (lower_digits ! k) = word_of_nat k" "lower_digits ! k = 0x30 \<longleftrightarrow> k = 0" by fact+
qed

lemma digit_loop_digits:
  assumes "2 \<le> base" "base \<le> 16"
  shows "(\<forall>d \<in> set (digit_loop lower_digits base num). is_digit_of base d) \<and>
    digits_value base (rev (digit_loop lower_digits base num)) 0 = num \<and>
    (num \<noteq> 0 \<longrightarrow> digit_loop lower_digits base num \<noteq> [] \<and> last (digit_loop lower_digits base num) \<noteq> 0x30)"
  using assms
proof (induction lower_digits base num rule: digit_loop.induct)
  case (1 base num)
  show ?case
  proof (cases "num = 0")
    case True
    then show ?thesis by (simp add: digit_loop.simps digits_value_def)
  next
    case False
    let ?k = "unat (num mod base)" and ?rest = "digit_loop lower_digits base (num div base)"
    have nb: "\<not> base < 2" using 1(2) by simp
    have b: "2 \<le> unat base" "unat base \<le> 16" using 1(2,3) by (simp_all add: word_le_nat_alt)
    have k: "?k < unat base" using b by (simp add: unat_mod)
    then have k16: "?k < 16" using b by linarith
    have IH: "(\<forall>d \<in> set ?rest. is_digit_of base d) \<and> digits_value base (rev ?rest) 0 = num div base \<and>
        (num div base \<noteq> 0 \<longrightarrow> ?rest \<noteq> [] \<and> last ?rest \<noteq> 0x30)"
      using 1 False nb by simp
    have u: "digit_loop lower_digits base num = lower_digits ! ?k # ?rest"
      using False nb by (subst digit_loop.simps) simp
    have v: "digit_value (lower_digits ! ?k) = num mod base"
      using lower_digit(1) [OF k16] by simp
    have "is_digit_of base (lower_digits ! ?k)"
      using lower_digit(2) [OF k16] v k by (simp add: is_digit_of_def word_less_nat_alt)
    moreover have "digits_value base (rev (lower_digits ! ?k # ?rest)) 0 = num"
      using IH v by (simp add: digits_value_def div_mult_mod_eq)
    moreover have "last (lower_digits ! ?k # ?rest) \<noteq> 0x30"
    proof (cases "num div base = 0")
      case True
      then have "num mod base = num" using div_mult_mod_eq [of num base] by simp
      with False have "?k \<noteq> 0" by (simp add: unat_eq_zero)
      then have "lower_digits ! ?k \<noteq> 0x30" using lower_digit(3) [OF k16] by simp
      moreover have "?rest = []" using True by (simp add: digit_loop.simps)
      ultimately show ?thesis by simp
    next
      case False
      with IH show ?thesis by simp
    qed
    ultimately show ?thesis using IH u by simp
  qed
qed

lemma length_digit_loop:
  "unat num < 2 ^ k \<Longrightarrow> length (digit_loop digits base num) \<le> k"
proof (induction digits base num arbitrary: k rule: digit_loop.induct)
  case (1 digits base num)
  show ?case
  proof (cases "num = 0 \<or> base < 2")
    case True
    then show ?thesis by (subst digit_loop.simps) simp
  next
    case False
    then have b: "2 \<le> unat base" and n: "0 < unat num" by (auto simp: word_le_nat_alt unat_gt_0 not_less)
    obtain j where k: "k = Suc j" using 1(2) n by (cases k) auto
    have "unat num div unat base \<le> unat num div 2" using b by (intro div_le_mono2) simp_all
    moreover have "unat num div 2 < 2 ^ j" using 1(2) k by auto
    ultimately have "unat (num div base) < 2 ^ j" by (simp add: unat_div)
    from 1(1) [OF False this] False k show ?thesis by (subst digit_loop.simps) simp
  qed
qed

section \<open>What \<open>number\<close> stores\<close>

definition sign_width :: "u32 \<Rightarrow> u32 \<Rightarrow> int" where
  "sign_width num type = (if has type SIGN \<and> (sint num < 0 \<or> has type PLUS \<or> has type SPACE) then 1 else 0)"

definition prefix_width :: "int \<Rightarrow> u32 \<Rightarrow> int" where
  "prefix_width base type = (if has type SPECIAL then if base = 8 then 1 else if base = 16 then 2 else 0 else 0)"

lemma number_plain:
  assumes "2 \<le> base" "base \<le> 36"
  shows "number n base (- 1) (- 1) 0 =
    Some (if n = 0 then [0x30] else rev (digit_loop lower_digits (word_of_int base) n))"
  using assms by (simp add: number_def has_def pad_loop_def Let_def)

lemma number_hash_hex:
  "number n 16 (- 1) (- 1) SPECIAL =
    Some (0x30 # 0x78 # (if n = 0 then [0x30] else rev (digit_loop lower_digits 16 n)))"
  by (simp add: number_def has_def pad_loop_def Let_def lower_digits_def ascii_def)

lemma has_not_ZEROPAD:
  "has (type AND NOT ZEROPAD) SIGN = has type SIGN" "has (type AND NOT ZEROPAD) PLUS = has type PLUS"
  "has (type AND NOT ZEROPAD) SPACE = has type SPACE" "has (type AND NOT ZEROPAD) SPECIAL = has type SPECIAL"
  "has (type AND NOT ZEROPAD) LEFT = has type LEFT" "has (type AND NOT ZEROPAD) ZEROPAD = False"
  by (simp_all add: has_def and.assoc)

lemma has_both: "type AND (ZEROPAD OR LEFT) = 0 \<longleftrightarrow> \<not> has type ZEROPAD \<and> \<not> has type LEFT"
  unfolding has_def bit.conj_disj_distrib by (auto simp: bit_eq_iff bit_simps)

lemma length_pad_loop: "pad_loop c n = (s, n') \<Longrightarrow> int (length s) = max n 0 \<and> n' = min n 0 - 1"
  by (auto simp: pad_loop_def)

text \<open>\<open>number\<close> collects between 1 and 32 digits, which the buffer \<open>tmp[66]\<close> holds, and stores exactly the field width or the width its sign, prefix, digits and precision need, whichever is larger.\<close>

theorem number_length:
  assumes "number num base width precision type = Some s"
  shows "\<exists>i. 1 \<le> i \<and> i \<le> 32 \<and>
    int (length s) = max width (sign_width num type + prefix_width base type + max i precision)"
proof -
  define t where "t = (if has type LEFT then type AND NOT ZEROPAD else type)"
  have "has t SIGN = has type SIGN \<and> has t PLUS = has type PLUS \<and> has t SPACE = has type SPACE \<and>
    has t SPECIAL = has type SPECIAL \<and> has t LEFT = has type LEFT \<and> (has t LEFT \<longrightarrow> \<not> has t ZEROPAD)"
    unfolding t_def by (cases "has type LEFT") (simp_all only: if_True if_False has_not_ZEROPAD simp_thms)
  then have h: "has t SIGN = has type SIGN" "has t PLUS = has type PLUS" "has t SPACE = has type SPACE"
    "has t SPECIAL = has type SPECIAL" "has t LEFT = has type LEFT" "has t LEFT \<Longrightarrow> \<not> has t ZEROPAD"
    by simp_all
  define digits where "digits = (if has type LARGE then upper_digits else lower_digits)"
  obtain sgn m w1 where 1: "(if has t SIGN then
                 if sint num < 0 then ([0x2d], - num, width - 1)
                 else if has t PLUS then ([0x2b], num, width - 1)
                 else if has t SPACE then ([0x20], num, width - 1) else ([], num, width)
               else ([], num, width)) = (sgn :: u8 list, m, w1)" by (metis prod_cases3)
  define tmp where "tmp = (if m = 0 then [0x30] else digit_loop digits (word_of_int base) m)"
  define p where "p = (if int (length tmp) > precision then int (length tmp) else precision)"
  define w2 where "w2 = (if has t SPECIAL then if base = 16 then w1 - 2 else if base = 8 then w1 - 1 else w1 else w1)"
  define s2 where "s2 = (if has t SPECIAL then if base = 8 then [0x30] else if base = 16 then [0x30, digits ! 33] else []
                  else [])"
  obtain s1 w4 where 2: "(if t AND (ZEROPAD OR LEFT) = 0 then pad_loop 0x20 (w2 - p) else ([], w2 - p)) = (s1, w4)" by fastforce
  obtain s3 w5 where 3: "(if \<not> has t LEFT then pad_loop (if has t ZEROPAD then 0x30 else 0x20) w4 else ([], w4)) = (s3, w5)" by fastforce
  obtain s5 w6 where 4: "pad_loop 0x20 w5 = (s5, w6)" by fastforce
  have b: "\<not> (base < 2 \<or> base > 36)" using assms by (auto simp: number_def Let_def split: if_splits)
  have s: "s = s1 @ sgn @ s2 @ s3 @ replicate (nat (p - int (length tmp))) 0x30 @ rev tmp @ s5"
    using assms b unfolding number_def Let_def t_def [symmetric] digits_def [symmetric] 1 prod.case
      w2_def [symmetric] tmp_def [symmetric] p_def [symmetric] s2_def [symmetric] 2 3 4 by simp
  have "\<not> (word_of_int base :: u32) < 2"
  proof -
    have "uint (word_of_int base :: u32) = base" using b by (simp add: unsigned_of_int take_bit_int_eq_self)
    then show ?thesis using b by (simp add: word_less_def)
  qed
  then have "m \<noteq> 0 \<longrightarrow> 1 \<le> length tmp" by (simp add: tmp_def digit_loop.simps [of _ _ m])
  moreover have "length (digit_loop digits (word_of_int base) m) \<le> 32"
    using unsigned_less [of m] by (intro length_digit_loop) simp
  ultimately have len: "1 \<le> length tmp" "length tmp \<le> 32" by (auto simp: tmp_def)
  have sg: "int (length sgn) = sign_width num type" "w1 = width - sign_width num type"
    using 1 unfolding sign_width_def h by (auto split: if_splits)
  have sp: "int (length s2) = prefix_width base type" "w2 = w1 - prefix_width base type"
    by (simp_all add: s2_def w2_def prefix_width_def h)
  have p: "p = max (int (length tmp)) precision" by (simp add: p_def)
  have pad: "int (length s1) + int (length s3) + int (length s5) = max (w2 - p) 0"
  proof (cases "has t LEFT")
    case True
    then have "s1 = []" "s3 = []" "w5 = w2 - p" using 2 3 h(6) has_both [of t] by simp_all
    with length_pad_loop [OF 4] show ?thesis by simp
  next
    case l: False
    show ?thesis
    proof (cases "has t ZEROPAD")
      case True
      then have "s1 = []" "pad_loop 0x30 (w2 - p) = (s3, w5)" using 2 3 l has_both [of t] by simp_all
      with length_pad_loop [OF 4] length_pad_loop [OF this(2)] show ?thesis by simp
    next
      case False
      then have "pad_loop 0x20 (w2 - p) = (s1, w4)" "pad_loop 0x20 w4 = (s3, w5)" using 2 3 l has_both [of t] by simp_all
      with length_pad_loop [OF 4] length_pad_loop [OF this(1)] length_pad_loop [OF this(2)] show ?thesis by simp
    qed
  qed
  have "int (length s) = int (length sgn) + int (length s2) + p + max (w2 - p) 0"
    unfolding s using pad p by simp
  then have "int (length s) = max width (sign_width num type + prefix_width base type + max (int (length tmp)) precision)"
    using sg sp p by linarith
  with len show ?thesis by (intro exI [of _ "int (length tmp)"]) simp
qed

section \<open>Printing and reading back\<close>

lemma isxdigit_0 [simp]: "\<not> isxdigit 0"
  by (simp add: ctype_preds in_range_def)

lemma deref_rev: "xs \<noteq> [] \<Longrightarrow> deref (rev xs) = last xs"
  by (cases xs rule: rev_cases) simp_all

lemma hex_digits_valid: "xs = (if n = 0 then [0x30] else rev (digit_loop lower_digits 16 n)) \<Longrightarrow>
    (\<forall>d \<in> set xs. is_digit_of 16 d) \<and> xs \<noteq> [] \<and> digits_value 16 xs 0 = n"
  using digit_loop_digits [of 16 n] lower_digit [of 0]
  by (auto simp: digits_value_def is_digit_of_def lower_digits_def ascii_def)

lemma strtoul_digits:
  assumes b: "2 \<le> base" "base \<le> 16" and ds: "ds = (if n = 0 then [0x30] else rev (digit_loop lower_digits base n))"
    and base': "base' = base \<or> base' = 0 \<and> base = 10"
  shows "simple_strtoul ds base' = (n, [])"
proof (cases "n = 0")
  case True
  with ds show ?thesis by (simp add: simple_strtoul_def Let_def)
next
  case False
  let ?D = "digit_loop lower_digits base n"
  note D = digit_loop_digits [OF b, of n]
  have ds': "ds = rev ?D" using ds False by simp
  have ne: "?D \<noteq> []" "last ?D \<noteq> 0x30" using D False by auto
  then have "deref ds \<noteq> 0x30" unfolding ds' by (simp add: deref_rev)
  moreover have "base \<noteq> 0" using b by auto
  ultimately have "simple_strtoul ds base' = strtoul_loop ds base 0"
    using base' by (auto simp: simple_strtoul_def)
  also have "\<dots> = (digits_value base ds 0, [])"
    using strtoul_loop_digits [of ds base "[]" 0] D by (simp add: ds')
  also have "digits_value base ds 0 = n" using D by (simp add: ds')
  finally show ?thesis .
qed

lemma vsprintf_conversion:
  assumes "conversion fmt args 0 = Some (s, [], [], args')"
  shows "vsprintf (0x25 # fmt) args = Some (s, int (length s), [])"
  using assms by (simp add: vsprintf_def)

lemma conversion_int:
  assumes "c = 0x75 \<or> c = 0x78" "number w (if c = 0x75 then 10 else 16) (- 1) (- 1) 0 = Some s"
  shows "conversion [c] [Word w] 0 = Some (s, [], [], [])"
  using assms(1)
proof
  assume "c = 0x75"
  with assms(2) show ?thesis
    by (simp add: conversion_def read_width_def read_precision_def is_digit_def convert_def int_format_def int_arg_def)
next
  assume "c = 0x78"
  with assms(2) show ?thesis
    by (simp add: conversion_def read_width_def read_precision_def is_digit_def convert_def int_format_def int_arg_def)
qed

lemma conversion_hash_hex:
  assumes "number w 16 (- 1) (- 1) SPECIAL = Some s"
  shows "conversion [0x23, 0x78] [Word w] 0 = Some (s, [], [], [])"
  using assms
  by (simp add: conversion_def read_width_def read_precision_def is_digit_def convert_def int_format_def int_arg_def)

text \<open>C18: Every 32-bit value printed by \<open>vsprintf\<close> with \<open>%u\<close>, \<open>%x\<close> or \<open>%#x\<close> is read back by \<open>simple_strtoul\<close>, which consumes the whole text.\<close>

theorem print_read_roundtrip:
  "(\<exists>s. vsprintf (ascii ''%u'') [Word n] = Some (s, int (length s), []) \<and>
      simple_strtoul s 10 = (n, []) \<and> simple_strtoul s 0 = (n, [])) \<and>
   (\<exists>s. vsprintf (ascii ''%x'') [Word n] = Some (s, int (length s), []) \<and> simple_strtoul s 16 = (n, [])) \<and>
   (\<exists>s. vsprintf (ascii ''%#x'') [Word n] = Some (s, int (length s), []) \<and> simple_strtoul s 0 = (n, []))"
proof -
  define u where "u = (if n = 0 then [0x30] else rev (digit_loop lower_digits 10 n))"
  define x where "x = (if n = 0 then [0x30] else rev (digit_loop lower_digits 16 n))"
  have nu: "number n 10 (- 1) (- 1) 0 = Some u" unfolding u_def by (subst number_plain) simp_all
  have nx: "number n 16 (- 1) (- 1) 0 = Some x" unfolding x_def by (subst number_plain) simp_all
  have nh: "number n 16 (- 1) (- 1) SPECIAL = Some (0x30 # 0x78 # x)" unfolding x_def by (rule number_hash_hex)
  have f: "ascii ''%u'' = [0x25, 0x75]" "ascii ''%x'' = [0x25, 0x78]" "ascii ''%#x'' = [0x25, 0x23, 0x78]"
    by (simp_all add: ascii_def)
  have pu: "vsprintf (ascii ''%u'') [Word n] = Some (u, int (length u), [])"
    unfolding f by (rule vsprintf_conversion, rule conversion_int) (simp_all add: nu)
  have px: "vsprintf (ascii ''%x'') [Word n] = Some (x, int (length x), [])"
    unfolding f by (rule vsprintf_conversion, rule conversion_int) (simp_all add: nx)
  have ph: "vsprintf (ascii ''%#x'') [Word n] = Some (0x30 # 0x78 # x, int (length (0x30 # 0x78 # x)), [])"
    unfolding f by (rule vsprintf_conversion, rule conversion_hash_hex) (rule nh)
  have ru: "simple_strtoul u 10 = (n, [])" "simple_strtoul u 0 = (n, [])"
    by (rule strtoul_digits [OF _ _ u_def]; simp)+
  have rx: "simple_strtoul x 16 = (n, [])"
    by (rule strtoul_digits [OF _ _ x_def]; simp)
  note v = hex_digits_valid [OF x_def]
  have "isxdigit (deref x)" using v by (cases x) (auto simp: is_digit_of_def)
  then have "simple_strtoul (0x30 # 0x78 # x) 0 = strtoul_loop x 16 0"
    by (simp add: simple_strtoul_def Let_def)
  also have "\<dots> = (n, [])" using strtoul_loop_digits [of x 16 "[]" 0] v by simp
  finally have rh: "simple_strtoul (0x30 # 0x78 # x) 0 = (n, [])" .
  show ?thesis using pu px ph ru rx rh by (intro conjI exI) assumption+
qed

theorem number_length_witness:
  "\<exists>i. 1 \<le> i \<and> i \<le> 32 \<and>
    int (length (0x30 # 0x78 # (if 7 = (0 :: u32) then [0x30] else rev (digit_loop lower_digits 16 7)))) =
      max (- 1) (sign_width 7 SPECIAL + prefix_width 16 SPECIAL + max i (- 1))"
  by (rule number_length [OF number_hash_hex])

theorem div64_32_correct_witness:
  "div64_32 0x123456789abcdef 1000 = (0x123456789abcdef div ucast (1000 :: u32), ucast ((0x123456789abcdef :: u64) mod ucast (1000 :: u32)))"
  by (rule div64_32_correct) simp

lemma ldiv_truncates:
  assumes "b \<noteq> 0"
  shows "ldiv a b = (c_div a b, c_mod a b) \<and> a = c_div a b * b + c_mod a b \<and> \<bar>c_mod a b\<bar> < \<bar>b\<bar>"
proof -
  have "c_mod a b = sgn a * (\<bar>a\<bar> mod \<bar>b\<bar>)"
  proof -
    have "c_div a b * b = sgn a * (\<bar>a\<bar> div \<bar>b\<bar> * \<bar>b\<bar>)"
      by (simp add: c_div_def abs_sgn mult_ac)
    moreover have "\<bar>a\<bar> div \<bar>b\<bar> * \<bar>b\<bar> = \<bar>a\<bar> - \<bar>a\<bar> mod \<bar>b\<bar>" by (simp add: minus_mod_eq_div_mult)
    moreover have "a = sgn a * \<bar>a\<bar>" by (simp add: sgn_mult_abs)
    ultimately show ?thesis by (simp add: c_mod_def right_diff_distrib)
  qed
  moreover have "0 \<le> \<bar>a\<bar> mod \<bar>b\<bar>" "\<bar>a\<bar> mod \<bar>b\<bar> < \<bar>b\<bar>" using assms by simp_all
  ultimately show ?thesis
    by (cases "0 \<le> a") (auto simp: ldiv_def c_mod_def sgn_if abs_mult)
qed

end
