(* ===== verification/Env.thy ===== *)
theory Env
  imports Vsprintf Crc32 Spi
begin

text \<open>
  The environment: \<open>common/cmd_nvedit.c\<close>, \<open>common/env_common.c\<close> and \<open>cpu/sh/env_eeprom.c\<close> in the
  board's configuration (serial flash, SPI boot, variables may be overwritten, one network driver).
  The variables are the bytes from \<open>env_get_addr(0)\<close> on, addressed from 0; a block holds
  \<open>name=value\<close> strings and ends with an empty string. Names and values that come from a caller are
  lists of characters without a terminator.
\<close>

definition ENV_SIZE :: nat where "ENV_SIZE = 0x10000 - 4"
definition CFG_ENV_SIZE :: nat where "CFG_ENV_SIZE = 0x10000"
definition CFG_ENV_OFFSET :: nat where "CFG_ENV_OFFSET = 0x80000"

section \<open>Lookup\<close>

text \<open>
  \<open>envmatch\<close>: the index of the value, \<open>Some None\<close> for -1. When a stored string without \<open>=\<close> equals
  the name, the loop runs past the end of both: \<open>None\<close>.
\<close>

fun envmatch :: "mem \<Rightarrow> u8 list \<Rightarrow> nat \<Rightarrow> nat option option" where
  "envmatch d [] i2 = (if d i2 = 0 then None else if d i2 = 0x3d then Some (Some (i2 + 1)) else Some None)"
| "envmatch d (c # s1) i2 =
     (if c = d i2 then if c = 0x3d then Some (Some (i2 + 1)) else envmatch d s1 (i2 + 1) else Some None)"

text \<open>The inner loop of \<open>getenv\<close>: the end of the string at \<open>nxt\<close>, or \<open>None\<close> to give up.\<close>

function env_nxt :: "mem \<Rightarrow> nat \<Rightarrow> nat option" where
  "env_nxt d nxt = (if d nxt \<noteq> 0 then if CFG_ENV_SIZE \<le> nxt then None else env_nxt d (nxt + 1) else Some nxt)"
  by pat_completeness auto
termination by (relation "measure (\<lambda>(_, nxt). CFG_ENV_SIZE - nxt)") auto

declare env_nxt.simps [simp del]

lemma env_nxt_bound: "env_nxt d i = Some nxt \<Longrightarrow> i \<le> nxt \<and> nxt \<le> max i CFG_ENV_SIZE"
  by (induction d i rule: env_nxt.induct) (subst (asm) (2) env_nxt.simps, auto split: if_splits)

text \<open>\<open>getenv\<close>: the index of the value, \<open>Some None\<close> for the null pointer.\<close>

function getenv_from :: "mem \<Rightarrow> u8 list \<Rightarrow> nat \<Rightarrow> nat option option" where
  "getenv_from d name i =
     (if d i \<noteq> 0
      then (case env_nxt d i of None \<Rightarrow> Some None
            | Some nxt \<Rightarrow>
                (case envmatch d name i of None \<Rightarrow> None
                 | Some None \<Rightarrow> getenv_from d name (nxt + 1)
                 | Some (Some v) \<Rightarrow> Some (Some v)))
      else Some None)"
  by pat_completeness auto
termination
proof (relation "measure (\<lambda>(_, _, i). CFG_ENV_SIZE + 1 - i)")
  fix d :: mem and name :: "u8 list" and i nxt and x
  assume "d i \<noteq> 0" "env_nxt d i = Some nxt"
  moreover from this(2) have "i \<le> nxt" "nxt \<le> max i CFG_ENV_SIZE" using env_nxt_bound by auto
  moreover have "i < CFG_ENV_SIZE"
    using \<open>env_nxt d i = Some nxt\<close> \<open>d i \<noteq> 0\<close> by (subst (asm) env_nxt.simps) (auto split: if_splits)
  ultimately show "((d, name, nxt + 1), d, name, i) \<in> measure (\<lambda>(_, _, i). CFG_ENV_SIZE + 1 - i)" by auto
qed simp

declare getenv_from.simps [simp del]

definition getenv :: "mem \<Rightarrow> u8 list \<Rightarrow> nat option option" where
  "getenv d name = getenv_from d name 0"

text \<open>\<open>while ((len > n++) && (*buf++ = env_get_char(val++)) != '\0')\<close>: \<open>n\<close> and the bytes stored.\<close>

function getenv_copy :: "mem \<Rightarrow> nat \<Rightarrow> nat \<Rightarrow> nat \<Rightarrow> u8 list \<Rightarrow> nat \<times> u8 list" where
  "getenv_copy d val len n buf =
     (if n < len
      then if d val \<noteq> 0 then getenv_copy d (val + 1) len (n + 1) (buf @ [d val]) else (n + 1, buf @ [0])
      else (n + 1, buf))"
  by pat_completeness auto
termination by (relation "measure (\<lambda>(_, _, len, n, _). len - n)") auto

declare getenv_copy.simps [simp del]

definition getenv_r :: "mem \<Rightarrow> u8 list \<Rightarrow> nat \<Rightarrow> (int \<times> u8 list) option" where
  "getenv_r d name len =
     (case getenv d name of None \<Rightarrow> None
      | Some None \<Rightarrow> Some (- 1, [])
      | Some (Some val) \<Rightarrow>
          let (n, buf) = getenv_copy d val len 0 []
          in Some (int n, if len = n then buf @ [0] else buf))"

section \<open>Changing variables\<close>

text \<open>
  The search of \<open>_do_setenv\<close> and \<open>do_printenv\<close>, without a bound: the start of the string found, its
  end and the value. \<open>None\<close> when the search runs away.
\<close>

partial_function (option) find_var :: "mem \<Rightarrow> u8 list \<Rightarrow> nat \<Rightarrow> (nat \<times> nat \<times> nat) option option" where
  "find_var d name env =
     (if d env \<noteq> 0
      then Option.bind (to_end d env) (\<lambda>nxt.
             Option.bind (envmatch d name env) (\<lambda>r.
               case r of Some v \<Rightarrow> Some (Some (env, nxt, v)) | None \<Rightarrow> find_var d name (nxt + 1)))
      else Some None)"

text \<open>The \<open>for (;;)\<close> loop that moves the following strings down, with the last address written.\<close>

partial_function (option) move_down :: "mem \<Rightarrow> nat \<Rightarrow> nat \<Rightarrow> (mem \<times> nat) option" where
  "move_down d env nxt =
     (let d = d(env := d nxt); nxt = nxt + 1
      in if d env = 0 \<and> d nxt = 0 then Some (d, env) else move_down d (env + 1) nxt)"

definition env_delete :: "mem \<Rightarrow> nat \<Rightarrow> nat \<Rightarrow> mem option" where
  "env_delete d env nxt =
     (let nxt = nxt + 1 in
      if d nxt = 0
      then if 0 < env then Some (d(env := 0))
           else Some ((d(env := 0))(env + 1 := 0))
      else Option.bind (move_down d env nxt) (\<lambda>(d, env). Some (d(env + 1 := 0))))"

partial_function (option) env_tail :: "mem \<Rightarrow> nat \<Rightarrow> nat option" where
  "env_tail d env = (if d env \<noteq> 0 \<or> d (env + 1) \<noteq> 0 then env_tail d (env + 1) else Some env)"

text \<open>The values of the arguments, each after its separator.\<close>

fun put_values :: "mem \<Rightarrow> nat \<Rightarrow> u8 \<Rightarrow> u8 list list \<Rightarrow> mem \<times> nat" where
  "put_values d env sep [] = (d, env)"
| "put_values d env sep (val # vals) =
     (let d = d(env := sep); d = overwrite d (env + 1) (val @ [0])
      in put_values d (env + 1 + length val) 0x20 vals)"

text \<open>\<open>None\<close>: the search for the end runs away; \<open>Some None\<close>: no room.\<close>

definition env_append :: "mem \<Rightarrow> u8 list \<Rightarrow> u8 list list \<Rightarrow> mem option option" where
  "env_append d name vals =
     Option.bind (env_tail d 0) (\<lambda>env.
       let env = (if 0 < env then env + 1 else env);
           len = length name + 2 + sum_list (map (\<lambda>v. length v + 1) vals)
       in if int ENV_SIZE - int env < int len then Some None
          else
            let d = overwrite d env (name @ [0]);
                (d, env) = put_values d (env + length name) 0x3d vals
            in Some (Some (d(env + 1 := 0))))"

text \<open>The environment in memory with its CRC, and the variables of other parts that follow it.\<close>

record genv =
  env_data :: mem
  env_crc32 :: u32
  gd_baudrate :: u32
  bi_enetaddr :: "u8 list"
  bi_ip_addr :: u32
  load_addr :: u32
  BootFile :: "u8 list"

text \<open>The console: assigning a device to a stream, the baud rate, a character from the serial line.\<close>

record 'x env_io =
  io_console_assign :: "int \<Rightarrow> u8 list \<Rightarrow> 'x \<Rightarrow> int \<times> 'x"
  io_setbrg :: "u32 \<Rightarrow> 'x \<Rightarrow> 'x"
  io_getc :: "'x \<Rightarrow> u8 \<times> 'x"

text \<open>A call returns a code, runs away or waits for ever, or reads through a null pointer.\<close>

datatype 'x env_out = Done int genv 'x | Runaway | Null_read

definition env_crc_update :: "genv \<Rightarrow> genv" where
  "env_crc_update g = g\<lparr>env_crc32 := crc32 0 (bytes (env_data g) 0 ENV_SIZE)\<rparr>"

definition baudrate_table :: "u32 list" where
  "baudrate_table = [9600, 19200, 38400, 57600, 115200]"

definition console_of :: "u8 list \<Rightarrow> int" where
  "console_of name =
     (if name = ascii ''stdin'' then 0 else if name = ascii ''stdout'' then 1
      else if name = ascii ''stderr'' then 2 else - 1)"

partial_function (option) wait_cr :: "'x env_io \<Rightarrow> 'x \<Rightarrow> 'x option" where
  "wait_cr io x = (let (c, x) = io_getc io x in if c = 0x0d then Some x else wait_cr io x)"

text \<open>What an existing definition demands before it goes: \<open>Inl\<close> the result of an early return.\<close>

definition check_console :: "'x env_io \<Rightarrow> u8 list \<Rightarrow> u8 list list \<Rightarrow> 'x \<Rightarrow> (int + unit) \<times> 'x" where
  "check_console io name vals x =
     (let console = console_of name in
      if console \<noteq> - 1 then
        (case vals of [] \<Rightarrow> (Inl 1, x)
         | v # _ \<Rightarrow> let (r, x) = io_console_assign io console v x in (if r < 0 then Inl 1 else Inr (), x))
      else (Inr (), x))"

definition switch_baudrate ::
    "'x env_io \<Rightarrow> u8 list \<Rightarrow> u8 list list \<Rightarrow> genv \<Rightarrow> 'x \<Rightarrow> (genv \<Rightarrow> 'x \<Rightarrow> 'x env_out) \<Rightarrow> 'x env_out" where
  "switch_baudrate io name vals g x k =
     (if name = ascii ''baudrate'' then
        (case vals of [] \<Rightarrow> Null_read
         | v # _ \<Rightarrow>
             let baudrate = fst (simple_strtoul v 10) in
             if baudrate \<notin> set baudrate_table then Done 1 g x
             else (case wait_cr io (io_setbrg io baudrate x) of None \<Rightarrow> Runaway
                   | Some x \<Rightarrow> k (g\<lparr>gd_baudrate := baudrate\<rparr>) x))
      else k g x)"

text \<open>\<open>for (i=0; i<6; ++i)\<close>: six numbers, one character between them.\<close>

fun numbers :: "nat \<Rightarrow> u32 \<Rightarrow> u8 list \<Rightarrow> u32 list" where
  "numbers 0 base s = []"
| "numbers (Suc n) base s = (let (v, e) = simple_strtoul s base in v # numbers n base (if e \<noteq> [] then tl e else e))"

definition htonl :: "u32 \<Rightarrow> u32" where
  "htonl w = push_bit 24 (w AND 0xff) OR push_bit 8 (w AND 0xff00) OR drop_bit 8 (w AND 0xff0000) OR drop_bit 24 w"

definition ip_value :: "u8 list \<Rightarrow> u32" where
  "ip_value s = fold (\<lambda>val addr. push_bit 8 addr OR (val AND 0xFF)) (numbers 4 10 s) 0"

text \<open>\<open>copy_filename\<close>: a leading quote is dropped, a quote ends the name.\<close>

fun copy_filename_loop :: "u8 list \<Rightarrow> int \<Rightarrow> u8 list" where
  "copy_filename_loop [] n = []"
| "copy_filename_loop (c # src) n = (if 0 < n - 1 \<and> c \<noteq> 0x22 then c # copy_filename_loop src (n - 1) else [])"

definition copy_filename :: "u8 list \<Rightarrow> int \<Rightarrow> u8 list" where
  "copy_filename src n =
     (if deref src = 0x22 then copy_filename_loop (tl src) (n - 1) else copy_filename_loop src n)"

definition setenv_effects :: "u8 list \<Rightarrow> u8 list \<Rightarrow> genv \<Rightarrow> genv" where
  "setenv_effects name val g =
     (if name = ascii ''ethaddr'' then g\<lparr>bi_enetaddr := map ucast (numbers 6 16 val)\<rparr>
      else if name = ascii ''ipaddr'' then g\<lparr>bi_ip_addr := htonl (ip_value val)\<rparr>
      else if name = ascii ''loadaddr'' then g\<lparr>load_addr := fst (simple_strtoul val 16)\<rparr>
      else if name = ascii ''bootfile'' then g\<lparr>BootFile := copy_filename val 128\<rparr>
      else g)"

text \<open>The last part: nothing to add, no room, or the new definition and what follows from it.\<close>

definition setenv_append :: "u8 list \<Rightarrow> u8 list list \<Rightarrow> genv \<Rightarrow> 'x \<Rightarrow> 'x env_out" where
  "setenv_append name vals g x =
     (case vals of [] \<Rightarrow> Done 0 (env_crc_update g) x
      | val # _ \<Rightarrow>
          (case env_append (env_data g) name vals of
             None \<Rightarrow> Runaway
           | Some None \<Rightarrow> Done 1 g x
           | Some (Some d) \<Rightarrow> Done 0 (setenv_effects name val (env_crc_update (g\<lparr>env_data := d\<rparr>))) x))"

text \<open>\<open>_do_setenv\<close>, with the name and the values of its argument vector.\<close>

definition do_setenv' :: "'x env_io \<Rightarrow> u8 list \<Rightarrow> u8 list list \<Rightarrow> genv \<Rightarrow> 'x \<Rightarrow> 'x env_out" where
  "do_setenv' io name vals g x =
     (if 0x3d \<in> set name then Done 1 g x
      else
        (case find_var (env_data g) name 0 of
           None \<Rightarrow> Runaway
         | Some None \<Rightarrow> setenv_append name vals g x
         | Some (Some (env, nxt, _)) \<Rightarrow>
             (case check_console io name vals x of
                (Inl r, x) \<Rightarrow> Done r g x
              | (Inr _, x) \<Rightarrow>
                  switch_baudrate io name vals g x (\<lambda>g x.
                    case env_delete (env_data g) env nxt of
                      None \<Rightarrow> Runaway
                    | Some d \<Rightarrow> setenv_append name vals (g\<lparr>env_data := d\<rparr>) x))))"

definition setenv :: "'x env_io \<Rightarrow> u8 list \<Rightarrow> u8 list option \<Rightarrow> genv \<Rightarrow> 'x \<Rightarrow> 'x env_out" where
  "setenv io varname varvalue g x =
     (case varvalue of None \<Rightarrow> do_setenv' io varname [] g x | Some v \<Rightarrow> do_setenv' io varname [v] g x)"

text \<open>The command: at least a name.\<close>

definition do_setenv :: "'x env_io \<Rightarrow> u8 list list \<Rightarrow> genv \<Rightarrow> 'x \<Rightarrow> 'x env_out" where
  "do_setenv io argv g x = (case tl argv of [] \<Rightarrow> Done 1 g x | name # vals \<Rightarrow> do_setenv' io name vals g x)"

section \<open>Printing\<close>

text \<open>
  \<open>printenv\<close>: the result and the text. \<open>ctrlc\<close> tells which polls see control-C.
\<close>

partial_function (option) print_all :: "mem \<Rightarrow> (nat \<Rightarrow> bool) \<Rightarrow> nat \<Rightarrow> nat \<Rightarrow> u8 list \<Rightarrow> (int \<times> nat \<times> u8 list) option" where
  "print_all d ctrlc i polls out =
     (if d i \<noteq> 0
      then Option.bind (to_end d i) (\<lambda>nxt.
             let out = out @ bytes d i (nxt - i) @ [0x0a]
             in if ctrlc polls then Some (1, i, out) else print_all d ctrlc (nxt + 1) (polls + 1) out)
      else Some (0, i, out))"

fun print_vars :: "mem \<Rightarrow> u8 list list \<Rightarrow> int \<Rightarrow> u8 list \<Rightarrow> (int \<times> u8 list) option" where
  "print_vars d [] rcode out = Some (rcode, out)"
| "print_vars d (name # names) rcode out =
     Option.bind (find_var d name 0) (\<lambda>r.
       case r of
         Some (_, nxt, k) \<Rightarrow> print_vars d names rcode (out @ name @ [0x3d] @ bytes d k (nxt - k) @ [0x0a])
       | None \<Rightarrow> print_vars d names (rcode + 1) (out @ ascii ''## Error: '' @ [0x22] @ name @ [0x22] @ ascii '' not defined'' @ [0x0a]))"

definition do_printenv :: "mem \<Rightarrow> (nat \<Rightarrow> bool) \<Rightarrow> u8 list list \<Rightarrow> (int \<times> u8 list) option" where
  "do_printenv d ctrlc argv =
     (if length argv = 1 then
        Option.bind (print_all d ctrlc 0 0 []) (\<lambda>(r, i, out).
          if r = 1 then Some (1, out @ [0x0a] @ ascii '' ** Abort'' @ [0x0a])
          else Option.bind (vsprintf (ascii ''Environment size: %d/%d bytes'') [Word (word_of_nat i), Word (word_of_nat ENV_SIZE)])
                 (\<lambda>(s, _). Some (0, out @ [0x0a] @ s @ [0x0a])))
      else print_vars d (tl argv) 0 [])"

section \<open>Storage\<close>

text \<open>The serial flash as the SPI boot controller maps it: \<open>emi\<close> are the bytes from \<open>CFG_EMI_SPI_BASE\<close> on.\<close>

definition spiboot_get_u32 :: "mem \<Rightarrow> nat \<Rightarrow> u32" where
  "spiboot_get_u32 emi index = le32 [emi index, emi (index + 1), emi (index + 2), emi (index + 3)] 0"

definition spiboot_get_byte :: "mem \<Rightarrow> nat \<Rightarrow> u8" where
  "spiboot_get_byte emi index =
     (let word = spiboot_get_u32 emi (index - index mod 4) in ucast (drop_bit (index mod 4 * 8) word AND 0xff))"

function env_crc_loop :: "mem \<Rightarrow> nat \<Rightarrow> nat \<Rightarrow> u32 \<Rightarrow> u32" where
  "env_crc_loop emi off len new =
     (if 0 < len then
        let n = (if 4 < len then 4 else len);
            buf = le32_bytes (spiboot_get_u32 emi off)
        in env_crc_loop emi (off + n) (len - n) (crc32 new (take n buf))
      else new)"
  by pat_completeness auto
termination by (relation "measure (\<lambda>(_, _, len, _). len)") auto

declare env_crc_loop.simps [simp del]

text \<open>\<open>env_init\<close>: whether the stored environment is valid.\<close>

definition env_init :: "mem \<Rightarrow> bool" where
  "env_init emi = (spiboot_get_u32 emi CFG_ENV_OFFSET = env_crc_loop emi (CFG_ENV_OFFSET + 4) ENV_SIZE 0)"

text \<open>Before the environment is copied to memory, its characters come from the flash.\<close>

definition env_get_char_spec :: "mem \<Rightarrow> nat \<Rightarrow> u8" where
  "env_get_char_spec emi index = spiboot_get_byte emi (CFG_ENV_OFFSET + index)"

definition env_get_char_init :: "mem \<Rightarrow> u8 list \<Rightarrow> bool \<Rightarrow> nat \<Rightarrow> u8" where
  "env_get_char_init emi default_environment env_valid index =
     (if env_valid then env_get_char_spec emi index else default_environment ! index)"

definition env_relocate_spec :: "mem \<Rightarrow> genv \<Rightarrow> genv" where
  "env_relocate_spec emi g =
     g\<lparr>env_crc32 := spiboot_get_u32 emi CFG_ENV_OFFSET, env_data := (\<lambda>i. emi (CFG_ENV_OFFSET + 4 + i))\<rparr>"

text \<open>\<open>env_relocate\<close>: the new state and \<open>env_valid\<close>.\<close>

definition env_relocate :: "mem \<Rightarrow> u8 list \<Rightarrow> bool \<Rightarrow> genv \<Rightarrow> bool \<times> genv" where
  "env_relocate emi default_environment env_valid g =
     (if \<not> env_valid then
        if ENV_SIZE < length default_environment then (env_valid, g)
        else (True, env_crc_update (g\<lparr>env_data :=
                overwrite (overwrite (env_data g) 0 (replicate ENV_SIZE 0)) 0 default_environment\<rparr>))
      else (env_valid, env_relocate_spec emi g))"

definition env_image :: "genv \<Rightarrow> u8 list" where
  "env_image g = le32_bytes (env_crc32 g) @ bytes (env_data g) 0 ENV_SIZE"

definition saveenv :: "'p pins \<Rightarrow> spi_dev \<Rightarrow> genv \<Rightarrow> 'p \<Rightarrow> (int \<times> spi_dev \<times> 'p) option" where
  "saveenv pn dev g p = eeprom_write pn dev 0 (word_of_nat CFG_ENV_OFFSET) (env_image g) (word_of_nat CFG_ENV_SIZE) p"

definition do_saveenv :: "'p pins \<Rightarrow> spi_dev \<Rightarrow> genv \<Rightarrow> 'p \<Rightarrow> (int \<times> spi_dev \<times> 'p) option" where
  "do_saveenv pn dev g p = map_option (\<lambda>(r, dev, p). (if r \<noteq> 0 then 1 else 0, dev, p)) (saveenv pn dev g p)"

section \<open>The layout of a block\<close>

type_synonym var = "u8 list \<times> u8 list"

definition entry :: "var \<Rightarrow> u8 list" where
  "entry e = fst e @ 0x3d # snd e"

definition var_ok :: "var \<Rightarrow> bool" where
  "var_ok e \<longleftrightarrow> 0x3d \<notin> set (fst e) \<and> 0 \<notin> set (fst e) \<and> 0 \<notin> set (snd e)"

definition flat :: "var list \<Rightarrow> u8 list" where
  "flat es = concat (map (\<lambda>e. entry e @ [0]) es)"

lemma flat_simps [simp]: "flat [] = []" "flat (e # es) = entry e @ 0 # flat es" "flat (es @ fs) = flat es @ flat fs"
  by (simp_all add: flat_def)

text \<open>The strings stand at \<open>a\<close>, one after the other, and an empty string ends them.\<close>

primrec env_at :: "mem \<Rightarrow> nat \<Rightarrow> var list \<Rightarrow> bool" where
  "env_at d a [] = (d a = 0)"
| "env_at d a (e # es) = (cstr d a (entry e) \<and> env_at d (a + length (entry e) + 1) es)"

lemma entry_ne [simp]: "entry e \<noteq> []"
  by (simp add: entry_def)

lemma length_entry: "length (entry e) = length (fst e) + 1 + length (snd e)"
  by (simp add: entry_def)

lemma env_at_append: "env_at d a (es @ fs) \<longleftrightarrow>
    (\<forall>i < length (flat es). d (a + i) = flat es ! i) \<and> (\<forall>e \<in> set es. 0 \<notin> set (entry e)) \<and> env_at d (a + length (flat es)) fs"
proof (induction es arbitrary: a)
  case (Cons e es)
  let ?l = "length (entry e)"
  have c: "cstr d a (entry e) \<longleftrightarrow> (\<forall>i < ?l + 1. d (a + i) = (entry e @ [0]) ! i) \<and> 0 \<notin> set (entry e)"
  proof
    assume "cstr d a (entry e)"
    then show "(\<forall>i < ?l + 1. d (a + i) = (entry e @ [0]) ! i) \<and> 0 \<notin> set (entry e)"
      using cstr_nth cstr_end cstr_nonzero by (auto simp: nth_append less_Suc_eq)
  next
    assume h: "(\<forall>i < ?l + 1. d (a + i) = (entry e @ [0]) ! i) \<and> 0 \<notin> set (entry e)"
    then have "d (a + i) = entry e ! i" if "i < ?l" for i using that by (auto simp: nth_append)
    moreover have "d (a + ?l) = 0" using h by (auto simp: nth_append)
    ultimately show "cstr d a (entry e)" using h by (intro cstrI) auto
  qed
  have "(\<forall>i < length (flat (e # es)). d (a + i) = flat (e # es) ! i) \<longleftrightarrow>
      (\<forall>i < ?l + 1. d (a + i) = (entry e @ [0]) ! i) \<and> (\<forall>i < length (flat es). d (a + ?l + 1 + i) = flat es ! i)"
    (is "?A \<longleftrightarrow> ?B \<and> ?C")
  proof (intro iffI conjI allI impI)
    fix i assume a: ?A and "i < ?l + 1"
    then have "i < length (flat (e # es))" by simp
    with a have "d (a + i) = (entry e @ 0 # flat es) ! i" by simp
    also have "\<dots> = (entry e @ [0]) ! i" using \<open>i < ?l + 1\<close> by (auto simp: nth_append nth_Cons')
    finally show "d (a + i) = (entry e @ [0]) ! i" .
  next
    fix i assume a: ?A and "i < length (flat es)"
    then have "?l + 1 + i < length (flat (e # es))" by simp
    with a have "d (a + (?l + 1 + i)) = flat (e # es) ! (?l + 1 + i)" by blast
    also have "\<dots> = (entry e @ 0 # flat es) ! (?l + 1 + i)" by simp
    also have "\<dots> = flat es ! i" by (simp add: nth_append)
    finally show "d (a + ?l + 1 + i) = flat es ! i" by (simp add: add.assoc)
  next
    fix i assume h: "?B \<and> ?C" and i: "i < length (flat (e # es))"
    show "d (a + i) = flat (e # es) ! i"
    proof (cases "i < ?l + 1")
      case True
      with h have "d (a + i) = (entry e @ [0]) ! i" by blast
      also have "\<dots> = (entry e @ 0 # flat es) ! i" using True by (auto simp: nth_append nth_Cons')
      finally show ?thesis by simp
    next
      case False
      then obtain j where j: "i = ?l + 1 + j" by (metis le_iff_add not_less)
      with h i have "d (a + ?l + 1 + j) = flat es ! j" by simp
      moreover have "(entry e @ 0 # flat es) ! i = flat es ! j" by (simp add: j nth_append)
      ultimately show ?thesis using j by (simp add: add.assoc)
    qed
  qed
  then show ?case using Cons [of "a + ?l + 1"] c by (auto simp: add.assoc)
qed simp

lemma env_at_iff: "env_at d a es \<longleftrightarrow>
    (\<forall>i < length (flat es). d (a + i) = flat es ! i) \<and> (\<forall>e \<in> set es. 0 \<notin> set (entry e)) \<and> d (a + length (flat es)) = 0"
  using env_at_append [of d a es "[]"] by simp

lemma env_at_overwrite:
  assumes "\<forall>e \<in> set es. 0 \<notin> set (entry e)"
  shows "env_at (overwrite d a (flat es @ [0])) a es"
  unfolding env_at_iff using assms by (auto simp: overwrite_def nth_append)

section \<open>Scanning\<close>

lemma envmatch_entry:
  assumes "var_ok (n, v)" "0x3d \<notin> set name" "0 \<notin> set name" "cstr d i (entry (n, v))"
  shows "envmatch d name i = Some (if name = n then Some (i + length n + 1) else None)"
  using assms
proof (induction name arbitrary: i n)
  case Nil
  then show ?case by (cases n) (auto simp: entry_def var_ok_def)
next
  case (Cons c name)
  show ?case
  proof (cases n)
    case Nil
    with Cons.prems show ?thesis by (auto simp: entry_def)
  next
    case (Cons c' n')
    with Cons.prems have "var_ok (n', v)" "cstr d (i + 1) (entry (n', v))" "d i = c'"
      by (auto simp: var_ok_def entry_def)
    with Cons.IH [of n' "i + 1"] Cons.prems Cons show ?thesis by (auto simp: var_ok_def)
  qed
qed

text \<open>The variables a block defines.\<close>

lemma find_var_env:
  assumes "env_at d a es" "\<forall>e \<in> set es. var_ok e" "0x3d \<notin> set name" "0 \<notin> set name"
  shows "(name \<notin> fst ` set es \<longrightarrow> find_var d name a = Some None) \<and>
    (\<forall>es1 v es2. es = es1 @ (name, v) # es2 \<and> name \<notin> fst ` set es1 \<longrightarrow>
       find_var d name a = Some (Some (a + length (flat es1), a + length (flat es1) + length (entry (name, v)),
          a + length (flat es1) + length name + 1)))"
  using assms
proof (induction es arbitrary: a)
  case Nil
  then show ?case by (simp add: find_var.simps [of d name a])
next
  case (Cons e es)
  obtain n v where e: "e = (n, v)" by fastforce
  let ?b = "a + length (entry e) + 1"
  have nz: "d a \<noteq> 0" using Cons.prems(1) by (cases "entry e") auto
  have te: "to_end d a = Some (a + length (entry e))" using Cons.prems(1) by (simp add: to_end_cstr)
  have em: "envmatch d name a = Some (if name = n then Some (a + length n + 1) else None)"
    using envmatch_entry [of n v name d a] Cons.prems e by simp
  show ?case
  proof (cases "name = n")
    case True
    have f: "find_var d name a = Some (Some (a, a + length (entry e), a + length name + 1))"
      using nz te em True by (subst find_var.simps) simp
    have "es1 = []" if "e # es = es1 @ (name, v') # es2" "name \<notin> fst ` set es1" for es1 v' es2
      using that e True by (cases es1) auto
    then show ?thesis using f e True by force
  next
    case False
    have f: "find_var d name a = find_var d name ?b"
      using nz te em False by (simp add: find_var.simps [of d name a])
    have IH: "(name \<notin> fst ` set es \<longrightarrow> find_var d name ?b = Some None) \<and>
    (\<forall>es1 v es2. es = es1 @ (name, v) # es2 \<and> name \<notin> fst ` set es1 \<longrightarrow>
       find_var d name ?b = Some (Some (?b + length (flat es1), ?b + length (flat es1) + length (entry (name, v)),
          ?b + length (flat es1) + length name + 1)))"
      using Cons.prems by (intro Cons.IH) auto
    show ?thesis
    proof (intro conjI impI allI)
      assume "name \<notin> fst ` set (e # es)"
      then show "find_var d name a = Some None" using IH f by simp
    next
      fix es1 v' es2
      assume h: "e # es = es1 @ (name, v') # es2 \<and> name \<notin> fst ` set es1"
      then obtain es1' where "es1 = e # es1'" using e False by (cases es1) auto
      then show "find_var d name a = Some (Some (a + length (flat es1), a + length (flat es1) + length (entry (name, v')),
          a + length (flat es1) + length name + 1))"
        using IH f h by (simp add: add.assoc)
    qed
  qed
qed

text \<open>\<open>getenv\<close> finds the value as long as the block ends inside the sector.\<close>

lemma env_nxt_cstr:
  assumes "cstr d i xs" "i + length xs \<le> CFG_ENV_SIZE"
  shows "env_nxt d i = Some (i + length xs)"
  using assms
proof (induction xs arbitrary: i)
  case Nil
  then show ?case by (simp add: env_nxt.simps [of d i])
next
  case (Cons x xs)
  then show ?case by (simp add: env_nxt.simps [of d i])
qed

lemma getenv_from_env:
  assumes "env_at d a es" "\<forall>e \<in> set es. var_ok e" "0x3d \<notin> set name" "0 \<notin> set name" "a + length (flat es) \<le> CFG_ENV_SIZE"
  shows "case map_of es name of None \<Rightarrow> getenv_from d name a = Some None
    | Some v \<Rightarrow> \<exists>p. getenv_from d name a = Some (Some p) \<and> cstr d p v"
  using assms
proof (induction es arbitrary: a)
  case Nil
  then show ?case by (simp add: getenv_from.simps [of d name a])
next
  case (Cons e es)
  obtain n v where e: "e = (n, v)" by fastforce
  have c: "cstr d a (entry e)" using Cons.prems(1) by simp
  have nz: "d a \<noteq> 0" using c by (cases "entry e") auto
  have nx: "env_nxt d a = Some (a + length (entry e))" using c Cons.prems(5) by (intro env_nxt_cstr) auto
  have em: "envmatch d name a = Some (if name = n then Some (a + length n + 1) else None)"
    using envmatch_entry [of n v name d a] Cons.prems e by simp
  show ?case
  proof (cases "name = n")
    case True
    have "cstr d (a + (length n + 1)) (drop (length n + 1) (entry e))"
      by (rule cstr_drop [OF c]) (simp add: e entry_def)
    then have "cstr d (a + length n + 1) v" by (simp add: e entry_def)
    with nz nx em True e show ?thesis by (subst getenv_from.simps) simp
  next
    case False
    have "case map_of es name of None \<Rightarrow> getenv_from d name (a + length (entry e) + 1) = Some None
      | Some v \<Rightarrow> \<exists>p. getenv_from d name (a + length (entry e) + 1) = Some (Some p) \<and> cstr d p v"
      using Cons.prems by (intro Cons.IH) auto
    moreover have "getenv_from d name a = getenv_from d name (a + length (entry e) + 1)"
      using nz nx em False by (subst getenv_from.simps) simp
    ultimately show ?thesis using False by (auto simp: e split: option.splits)
  qed
qed

section \<open>Deleting and appending\<close>

text \<open>A byte string that ends with a zero and has no two zeros in a row.\<close>

fun single_zeros :: "u8 list \<Rightarrow> bool" where
  "single_zeros [] = False"
| "single_zeros [x] = (x = 0)"
| "single_zeros (x # y # xs) = ((x \<noteq> 0 \<or> y \<noteq> 0) \<and> single_zeros (y # xs))"

lemma single_zeros_entry: "0 \<notin> set xs \<Longrightarrow> xs \<noteq> [] \<Longrightarrow> single_zeros ys \<or> ys = [] \<Longrightarrow> ys = [] \<or> hd ys \<noteq> 0 \<Longrightarrow>
    single_zeros (xs @ 0 # ys)"
proof (induction xs)
  case (Cons x xs)
  show ?case
  proof (cases xs)
    case Nil
    with Cons.prems show ?thesis by (cases ys) auto
  next
    case (Cons x' xs')
    with Cons.IH Cons.prems show ?thesis by auto
  qed
qed simp

lemma flat_eq_Nil [simp]: "flat es = [] \<longleftrightarrow> es = []"
  by (cases es) simp_all

lemma single_zeros_flat:
  "\<forall>e \<in> set es. 0 \<notin> set (entry e) \<Longrightarrow> es \<noteq> [] \<Longrightarrow> single_zeros (flat es) \<and> hd (flat es) \<noteq> 0"
proof (induction es)
  case (Cons e es)
  have h: "hd (entry e @ 0 # flat es) \<noteq> 0" using Cons.prems(1) by (cases "entry e") auto
  have "single_zeros (entry e @ 0 # flat es)"
    using Cons by (intro single_zeros_entry) (auto simp: flat_eq_Nil)
  with h show ?case by simp
qed simp

lemma move_down_single:
  assumes "single_zeros xs" "env < nxt" "\<And>i. i < length xs \<Longrightarrow> d (nxt + i) = xs ! i" "d (nxt + length xs) = 0"
  shows "move_down d env nxt = Some (overwrite d env xs, env + length xs - 1)"
  using assms
proof (induction xs arbitrary: d env nxt rule: single_zeros.induct)
  case (2 x)
  have "overwrite d env [x] = d(env := x)" by (rule ext) (auto simp: overwrite_def)
  with 2 show ?case using 2(3) [of 0] by (subst move_down.simps) (simp add: Let_def)
next
  case (3 x y xs)
  let ?d = "d(env := x)"
  have x: "d nxt = x" and y: "d (nxt + 1) = y" using 3(4) [of 0] 3(4) [of 1] by simp_all
  have "move_down ?d (env + 1) (nxt + 1) = Some (overwrite ?d (env + 1) (y # xs), env + 1 + length (y # xs) - 1)"
  proof (rule 3(1))
    show "single_zeros (y # xs)" using 3(2) by simp
    show "env + 1 < nxt + 1" using 3(3) by simp
    show "?d (nxt + 1 + i) = (y # xs) ! i" if "i < length (y # xs)" for i
      using 3(4) [of "Suc i"] that 3(3) by simp
    show "?d (nxt + 1 + length (y # xs)) = 0" using 3(5) 3(3) by simp
  qed
  moreover have "overwrite ?d (env + 1) (y # xs) = overwrite d env (x # y # xs)"
  proof (rule ext)
    fix a
    consider "a = env" | "env + 1 \<le> a" | "a < env" by linarith
    then show "overwrite ?d (env + 1) (y # xs) a = overwrite d env (x # y # xs) a"
    proof cases
      case 2
      then have "a - env = Suc (a - (env + 1))" by simp
      with 2 show ?thesis by (auto simp: overwrite_def)
    qed (simp_all add: overwrite_def)
  qed
  ultimately show ?case
    using x y 3(2,3) by (subst move_down.simps) (simp add: Let_def fun_upd_def)
qed simp

lemma env_tail_single:
  assumes "single_zeros xs" "\<And>i. i < length xs \<Longrightarrow> d (a + i) = xs ! i" "d (a + length xs) = 0"
  shows "env_tail d a = Some (a + length xs - 1)"
  using assms
proof (induction xs arbitrary: a rule: single_zeros.induct)
  case (2 x)
  then show ?case using 2(2) [of 0] by (subst env_tail.simps) simp
next
  case (3 x y xs)
  have "d a = x" "d (a + 1) = y" using 3(3) [of 0] 3(3) [of 1] by simp_all
  moreover have "env_tail d (a + 1) = Some (a + 1 + length (y # xs) - 1)"
  proof (rule 3(1))
    show "d (a + 1 + i) = (y # xs) ! i" if "i < length (y # xs)" for i using 3(3) [of "Suc i"] that by simp
  qed (use 3 in simp_all)
  ultimately show ?case using 3(2) by (subst env_tail.simps) auto
qed simp

text \<open>
  A well-formed environment: distinct variables, inside the block, and two zeros when it is empty
  (which is what the search for the end relies on).
\<close>

definition env_rep :: "mem \<Rightarrow> var list \<Rightarrow> bool" where
  "env_rep d es \<longleftrightarrow> env_at d 0 es \<and> (\<forall>e \<in> set es. var_ok e) \<and> distinct (map fst es) \<and>
     length (flat es) + 1 \<le> ENV_SIZE \<and> (es = [] \<longrightarrow> d 1 = 0)"

lemma var_ok_entry: "var_ok e \<Longrightarrow> 0 \<notin> set (entry e)"
  by (auto simp: var_ok_def entry_def)

lemma env_delete_rep:
  assumes r: "env_rep d (es1 @ e # es2)"
  defines "a \<equiv> length (flat es1)"
  shows "\<exists>d'. env_delete d a (a + length (entry e)) = Some d' \<and> env_rep d' (es1 @ es2)"
proof -
  let ?n = "a + length (entry e) + 1"
  have ok: "\<forall>e \<in> set (es1 @ e # es2). 0 \<notin> set (entry e)" using r var_ok_entry by (auto simp: env_rep_def)
  have at: "env_at d 0 (es1 @ e # es2)" using r by (simp add: env_rep_def)
  then have 1: "\<forall>i < a. d i = flat es1 ! i" and c: "cstr d a (entry e)" and 2: "env_at d ?n es2"
    unfolding env_at_append a_def by simp_all
  have len: "length (flat (es1 @ e # es2)) + 1 \<le> ENV_SIZE" using r by (simp add: env_rep_def)
  have fin: "env_rep d' (es1 @ es2)" if "env_at d' 0 (es1 @ es2)" "es1 @ es2 = [] \<longrightarrow> d' 1 = 0" for d'
    using that r by (auto simp: env_rep_def)
  show ?thesis
  proof (cases es2)
    case Nil
    then have z: "d ?n = 0" using 2 by simp
    show ?thesis
    proof (cases es1)
      case Nil': Nil
      then have "env_delete d a (a + length (entry e)) = Some ((d(a := 0))(a + 1 := 0))"
        using z by (simp add: env_delete_def a_def)
      moreover have "env_rep ((d(a := 0))(a + 1 := 0)) (es1 @ es2)"
        by (rule fin) (simp_all add: Nil Nil' a_def)
      ultimately show ?thesis by blast
    next
      case (Cons e1 es1')
      then have "0 < a" by (simp add: a_def)
      then have "env_delete d a (a + length (entry e)) = Some (d(a := 0))"
        using z by (simp add: env_delete_def)
      moreover have "env_rep (d(a := 0)) (es1 @ es2)"
      proof (rule fin)
        show "env_at (d(a := 0)) 0 (es1 @ es2)"
          unfolding env_at_append using 1 ok Nil by (simp add: a_def)
      qed (simp add: Cons)
      ultimately show ?thesis by blast
    qed
  next
    case (Cons e2 es2')
    then have ne: "es2 \<noteq> []" by simp
    have s: "single_zeros (flat es2)" "hd (flat es2) \<noteq> 0" using single_zeros_flat [OF _ ne] ok by auto
    have src: "\<forall>i < length (flat es2). d (?n + i) = flat es2 ! i" "d (?n + length (flat es2)) = 0"
      using 2 unfolding env_at_iff by simp_all
    have "d ?n = flat es2 ! 0" using src(1) ne by (metis add.right_neutral flat_eq_Nil length_greater_0_conv)
    then have nz: "d ?n \<noteq> 0" using s(2) ne by (simp add: hd_conv_nth)
    have md: "move_down d a ?n = Some (overwrite d a (flat es2), a + length (flat es2) - 1)"
      using src by (intro move_down_single [OF s(1)]) simp_all
    let ?d = "(overwrite d a (flat es2))(a + length (flat es2) := 0)"
    have "0 < length (flat es2)" using ne by simp
    then have "env_delete d a (a + length (entry e)) = Some ?d"
      using nz md by (simp add: env_delete_def)
    moreover have "env_rep ?d (es1 @ es2)"
    proof (rule fin)
      show "env_at ?d 0 (es1 @ es2)"
        unfolding env_at_append env_at_iff using 1 ok by (auto simp: overwrite_def a_def nth_append)
    qed (simp add: ne)
    ultimately show ?thesis by blast
  qed
qed

text \<open>The values of a definition, separated by spaces.\<close>

fun join_values :: "u8 list list \<Rightarrow> u8 list" where
  "join_values [] = []"
| "join_values [v] = v"
| "join_values (v # vs) = v @ 0x20 # join_values vs"

fun tail_values :: "u8 \<Rightarrow> u8 list list \<Rightarrow> u8 list" where
  "tail_values sep [] = []"
| "tail_values sep (v # vs) = sep # v @ tail_values 0x20 vs"

lemma tail_values_join: "vs \<noteq> [] \<Longrightarrow> tail_values sep vs = sep # join_values vs"
  by (induction vs arbitrary: sep rule: join_values.induct) auto

lemma length_tail_values: "length (tail_values sep vs) = sum_list (map (\<lambda>v. length v + 1) vs)"
  by (induction sep vs rule: tail_values.induct) auto

lemma overwrite_snoc_zero:
  "overwrite (overwrite d a (xs @ [0])) (a + length xs) (ys @ [0]) = overwrite d a (xs @ ys @ [0])"
proof (rule ext)
  fix i
  consider "i < a" | "a \<le> i \<and> i < a + length xs" | "a + length xs \<le> i" by linarith
  then show "overwrite (overwrite d a (xs @ [0])) (a + length xs) (ys @ [0]) i = overwrite d a (xs @ ys @ [0]) i"
  proof cases
    case 3
    then obtain j where "i = a + length xs + j" by (metis le_iff_add)
    then show ?thesis by (auto simp: overwrite_def nth_append)
  qed (auto simp: overwrite_def nth_append)
qed

lemma overwrite_Cons: "overwrite (d(a := x)) (a + 1) xs = overwrite d a (x # xs)"
proof (rule ext)
  fix i
  consider "i < a" | "i = a" | "a + 1 \<le> i" by linarith
  then show "overwrite (d(a := x)) (a + 1) xs i = overwrite d a (x # xs) i"
  proof cases
    case 3
    then have "i - a = Suc (i - (a + 1))" by simp
    with 3 show ?thesis by (auto simp: overwrite_def)
  qed (auto simp: overwrite_def)
qed

lemma put_values_overwrite:
  "vs \<noteq> [] \<Longrightarrow> put_values d env sep vs =
    (overwrite d env (tail_values sep vs @ [0]), env + length (tail_values sep vs))"
proof (induction vs arbitrary: d env sep)
  case (Cons v vs)
  let ?d = "overwrite d env ((sep # v) @ [0])"
  have "put_values d env sep (v # vs) = put_values ?d (env + length (sep # v)) 0x20 vs"
    by (simp add: Let_def overwrite_Cons [simplified] flip: fun_upd_def)
  also have "\<dots> = (overwrite d env (tail_values sep (v # vs) @ [0]), env + length (tail_values sep (v # vs)))"
  proof (cases "vs = []")
    case False
    from Cons.IH [OF False, of ?d "env + length (sep # v)" "0x20"] show ?thesis
      by (simp only: overwrite_snoc_zero) simp
  qed simp
  finally show ?case .
qed simp

lemma env_append_rep:
  assumes r: "env_rep d es" and ok: "var_ok (name, join_values vals)" and new: "name \<notin> fst ` set es" and ne: "vals \<noteq> []"
  shows "\<exists>r. env_append d name vals = Some r \<and>
    (if length (flat es) + length (entry (name, join_values vals)) + 2 \<le> ENV_SIZE
     then \<exists>d'. r = Some d' \<and> env_rep d' (es @ [(name, join_values vals)]) else r = None)"
proof -
  let ?L = "length (flat es)" and ?e = "(name, join_values vals)"
  have at: "env_at d 0 es" and oks: "\<forall>e \<in> set es. 0 \<notin> set (entry e)" using r var_ok_entry by (auto simp: env_rep_def)
  have src: "\<forall>i < ?L. d i = flat es ! i" "d ?L = 0" using at unfolding env_at_iff by simp_all
  obtain t where t: "env_tail d 0 = Some t" "(if 0 < t then t + 1 else t) = ?L"
  proof (cases "es = []")
    case True
    then have "env_tail d 0 = Some 0" using src r by (subst env_tail.simps) (simp add: env_rep_def)
    with True that show thesis by simp
  next
    case False
    have "env_tail d 0 = Some (0 + ?L - 1)"
      using src single_zeros_flat [OF oks False] by (intro env_tail_single) simp_all
    moreover have "2 \<le> ?L"
    proof -
      obtain e es' where "es = e # es'" using False by (cases es) auto
      then show ?thesis by (cases "entry e") auto
    qed
    ultimately show thesis using that by simp
  qed
  have e: "name @ tail_values 0x3d vals = entry ?e" using tail_values_join [OF ne] by (simp add: entry_def)
  have len: "length name + 2 + sum_list (map (\<lambda>v. length v + 1) vals) = length (entry ?e) + 2"
    using length_tail_values [of "0x3d" vals] by (simp flip: e)
  show ?thesis
  proof (cases "?L + length (entry ?e) + 2 \<le> ENV_SIZE")
    case False
    then have "int ENV_SIZE - int ?L < int (length (entry ?e) + 2)" by linarith
    then have "env_append d name vals = Some None"
      unfolding env_append_def t(1) bind.bind_lunit Let_def t(2) len by simp
    with False show ?thesis by simp
  next
    case True
    then have room: "\<not> int ENV_SIZE - int ?L < int (length (entry ?e) + 2)" by linarith
    let ?d = "(overwrite d ?L (entry ?e @ [0]))(?L + length (entry ?e) + 1 := 0)"
    have pv: "put_values (overwrite d ?L (name @ [0])) (?L + length name) 0x3d vals =
        (overwrite d ?L (entry ?e @ [0]), ?L + length (entry ?e))"
      unfolding put_values_overwrite [OF ne] overwrite_snoc_zero by (simp flip: e)
    have "env_append d name vals = Some (Some ?d)"
      unfolding env_append_def t(1) bind.bind_lunit Let_def t(2) len pv prod.case if_not_P [OF room] ..
    moreover have "env_rep ?d (es @ [?e])"
    proof -
      have "env_at ?d 0 (es @ [?e])"
        unfolding env_at_iff using src(1) oks var_ok_entry [OF ok] by (auto simp: overwrite_def nth_append)
      then show ?thesis using r True ok new by (auto simp: env_rep_def)
    qed
    ultimately show ?thesis using True by simp
  qed
qed

text \<open>The state after a call: the block represents the variables and the CRC is that of the block.\<close>

definition crc_current :: "genv \<Rightarrow> bool" where
  "crc_current g \<longleftrightarrow> env_crc32 g = crc32 0 (bytes (env_data g) 0 ENV_SIZE)"

definition without :: "u8 list \<Rightarrow> var list \<Rightarrow> var list" where
  "without name es = filter (\<lambda>e. fst e \<noteq> name) es"

definition plain_name :: "u8 list \<Rightarrow> bool" where
  "plain_name name \<longleftrightarrow> 0x3d \<notin> set name \<and> 0 \<notin> set name \<and> console_of name = - 1 \<and> name \<noteq> ascii ''baudrate''"

lemma setenv_effects_data [simp]: "env_data (setenv_effects name val g) = env_data g"
  "env_crc32 (setenv_effects name val g) = env_crc32 g"
  by (simp_all add: setenv_effects_def)

lemma env_crc_update_simps [simp]: "env_data (env_crc_update g) = env_data g"
  "crc_current (env_crc_update g)"
  by (simp_all add: env_crc_update_def crc_current_def)

lemma crc_current_effects [simp]: "crc_current (setenv_effects name val g) = crc_current g"
  by (simp add: crc_current_def)

lemma split_first: 
  assumes "name \<in> fst ` set es"
  obtains es1 v es2 where "es = es1 @ (name, v) # es2" "name \<notin> fst ` set es1"
proof -
  have "\<exists>e \<in> set es. fst e = name" using assms by auto
  then obtain es1 e es2 where "es = es1 @ e # es2" "fst e = name" "\<forall>e \<in> set es1. fst e \<noteq> name"
    by (auto dest!: split_list_first_prop)
  then show thesis using that [of es1 "snd e" es2] by (cases e) auto
qed

lemma without_new [simp]: "name \<notin> fst ` set es \<Longrightarrow> without name es = es"
  unfolding without_def by (rule filter_True) auto

lemma without_split:
  "distinct (map fst (es1 @ (name, v) # es2)) \<Longrightarrow> without name (es1 @ (name, v) # es2) = es1 @ es2"
proof -
  assume d: "distinct (map fst (es1 @ (name, v) # es2))"
  then have "filter (\<lambda>e. fst e \<noteq> name) es1 = es1" "filter (\<lambda>e. fst e \<noteq> name) es2 = es2"
    by (auto simp: filter_id_conv rev_image_eqI)
  then show ?thesis by (simp add: without_def)
qed

text \<open>The appending part, on a block that does not define the name.\<close>

lemma setenv_append_rep:
  assumes r: "env_rep (env_data g) es" and new: "name \<notin> fst ` set es"
    and ok: "vals \<noteq> [] \<Longrightarrow> var_ok (name, join_values vals)"
  shows "\<exists>rc g'. setenv_append name vals g x = Done rc g' x \<and>
    (if vals = [] then rc = 0 \<and> env_rep (env_data g') es \<and> crc_current g'
     else if length (flat es) + length (entry (name, join_values vals)) + 2 \<le> ENV_SIZE
     then rc = 0 \<and> env_rep (env_data g') (es @ [(name, join_values vals)]) \<and> crc_current g'
     else rc = 1 \<and> g' = g)"
proof (cases vals)
  case Nil
  then show ?thesis using r by (simp add: setenv_append_def)
next
  case (Cons v vs)
  then have ne: "vals \<noteq> []" by simp
  from env_append_rep [OF r ok [OF ne] new ne] obtain a where a: "env_append (env_data g) name vals = Some a"
    "if length (flat es) + length (entry (name, join_values vals)) + 2 \<le> ENV_SIZE
     then \<exists>d'. a = Some d' \<and> env_rep d' (es @ [(name, join_values vals)]) else a = None" by blast
  show ?thesis
  proof (cases "length (flat es) + length (entry (name, join_values vals)) + 2 \<le> ENV_SIZE")
    case True
    then obtain d' where d: "a = Some d'" "env_rep d' (es @ [(name, join_values vals)])" using a(2) by auto
    show ?thesis
      unfolding setenv_append_def Cons list.case a(1) [unfolded Cons] d(1) option.case
      using True d(2) by (simp add: Cons)
  next
    case False
    then have d: "a = None" using a(2) by simp
    show ?thesis
      unfolding setenv_append_def Cons list.case a(1) [unfolded Cons] d(1) option.case
      using False by (simp add: Cons)
  qed
qed

lemma check_console_plain: "console_of name = - 1 \<Longrightarrow> check_console io name vals x = (Inr (), x)"
  by (simp add: check_console_def)

lemma switch_baudrate_plain: "name \<noteq> ascii ''baudrate'' \<Longrightarrow> switch_baudrate io name vals g x k = k g x"
  by (simp add: switch_baudrate_def)

text \<open>
  \<open>_do_setenv\<close> of a name without side conditions: it always returns, with the old definition gone
  and, when there is room, the new one at the end.
\<close>

lemma do_setenv_rep:
  assumes r: "env_rep (env_data g) es" and n: "plain_name name"
    and v: "\<forall>v \<in> set vals. 0 \<notin> set v"
  shows "\<exists>rc g'. do_setenv' io name vals g x = Done rc g' x \<and>
    (if vals = [] then rc = 0 \<and> env_rep (env_data g') (without name es) \<and> crc_current g'
     else if length (flat (without name es)) + length (entry (name, join_values vals)) + 2 \<le> ENV_SIZE
     then rc = 0 \<and> env_rep (env_data g') (without name es @ [(name, join_values vals)]) \<and> crc_current g'
     else rc = 1 \<and> env_rep (env_data g') (without name es) \<and> env_crc32 g' = env_crc32 g)"
proof -
  have neq: "0x3d \<notin> set name" "0 \<notin> set name" using n by (simp_all add: plain_name_def)
  have "0 \<notin> set (join_values vals)" using v by (induction vals rule: join_values.induct) auto
  then have ok: "var_ok (name, join_values vals)" using neq by (simp add: var_ok_def)
  have at: "env_at (env_data g) 0 es" "\<forall>e \<in> set es. var_ok e" using r by (simp_all add: env_rep_def)
  note fv = find_var_env [OF at neq]
  show ?thesis
  proof (cases "name \<in> fst ` set es")
    case False
    then have f: "find_var (env_data g) name 0 = Some None" using fv by blast
    have "do_setenv' io name vals g x = setenv_append name vals g x"
      unfolding do_setenv'_def f using neq by simp
    then show ?thesis using setenv_append_rep [OF r False ok, of x] False r by (auto split: if_splits)
  next
    case True
    then obtain es1 w es2 where es: "es = es1 @ (name, w) # es2" "name \<notin> fst ` set es1" by (rule split_first)
    let ?a = "length (flat es1)"
    have f: "find_var (env_data g) name 0
        = Some (Some (?a, ?a + length (entry (name, w)), ?a + length name + 1))"
      using fv es by simp
    have dist: "distinct (map fst (es1 @ (name, w) # es2))" using r es(1) by (simp add: env_rep_def)
    from env_delete_rep [OF r [unfolded es(1)]] obtain d' where
      d': "env_delete (env_data g) ?a (?a + length (entry (name, w))) = Some d'" "env_rep d' (es1 @ es2)" by blast
    have w: "without name es = es1 @ es2" unfolding es(1) by (rule without_split [OF dist])
    have new: "name \<notin> fst ` set (es1 @ es2)" using dist by auto
    have "do_setenv' io name vals g x = setenv_append name vals (g\<lparr>env_data := d'\<rparr>) x"
      unfolding do_setenv'_def f using neq n d'(1)
      by (simp add: plain_name_def check_console_plain switch_baudrate_plain)
    moreover have "env_rep (env_data (g\<lparr>env_data := d'\<rparr>)) (es1 @ es2)" using d'(2) by simp
    ultimately show ?thesis
      using setenv_append_rep [OF _ new ok, of "g\<lparr>env_data := d'\<rparr>" x] d'(2) unfolding w
      by (auto split: if_splits)
  qed
qed

section \<open>Sequences of changes\<close>

text \<open>
  What a client of a store of named values relies on: a change succeeds, or fails and removes the
  name; a lookup finds what the store represents.
\<close>

fun run_puts :: "('k \<Rightarrow> 'a \<Rightarrow> 's \<Rightarrow> (bool \<times> 's) option) \<Rightarrow> ('k \<times> 'a) list \<Rightarrow> 's \<Rightarrow> (bool list \<times> 's) option" where
  "run_puts put [] s = Some ([], s)"
| "run_puts put ((k, a) # ops) s =
     Option.bind (put k a s) (\<lambda>(ok, s). map_option (\<lambda>(oks, s). (ok # oks, s)) (run_puts put ops s))"

fun replay :: "('a \<Rightarrow> 'v option) \<Rightarrow> ('k \<times> 'a) list \<Rightarrow> bool list \<Rightarrow> ('k \<rightharpoonup> 'v) \<Rightarrow> ('k \<rightharpoonup> 'v)" where
  "replay val ((k, a) # ops) (ok # oks) m = replay val ops oks (m(k := if ok then val a else None))"
| "replay val _ _ m = m"

locale kv_store =
  fixes rep :: "'s \<Rightarrow> ('k \<rightharpoonup> 'v) \<Rightarrow> bool"
    and okput :: "'k \<Rightarrow> 'a \<Rightarrow> bool" and okget :: "'k \<Rightarrow> bool"
    and put :: "'k \<Rightarrow> 'a \<Rightarrow> 's \<Rightarrow> (bool \<times> 's) option"
    and val :: "'a \<Rightarrow> 'v option"
    and found :: "'s \<Rightarrow> 'k \<Rightarrow> 'v option \<Rightarrow> bool"
  assumes put_law: "rep s m \<Longrightarrow> okput k a \<Longrightarrow>
      \<exists>ok s'. put k a s = Some (ok, s') \<and> rep s' (m(k := if ok then val a else None))"
    and found_law: "rep s m \<Longrightarrow> okget k \<Longrightarrow> found s k (m k)"
begin

lemma run_rep:
  "rep s m \<Longrightarrow> \<forall>(k, a) \<in> set ops. okput k a \<Longrightarrow>
    \<exists>oks s'. run_puts put ops s = Some (oks, s') \<and> length oks = length ops \<and> rep s' (replay val ops oks m)"
proof (induction ops arbitrary: s m)
  case (Cons op ops)
  obtain k a where op: "op = (k, a)" by fastforce
  obtain ok s1 where 1: "put k a s = Some (ok, s1)" "rep s1 (m(k := if ok then val a else None))"
    using put_law [OF Cons.prems(1), of k a] Cons.prems(2) op by auto
  obtain oks s' where 2: "run_puts put ops s1 = Some (oks, s')" "length oks = length ops"
    "rep s' (replay val ops oks (m(k := if ok then val a else None)))"
    using Cons.IH [OF 1(2)] Cons.prems(2) by (metis list.set_intros(2))
  show ?case using 1 2 by (intro exI [of _ "ok # oks"] exI [of _ s']) (simp add: op)
qed simp

lemma run_found:
  assumes "rep s m" "\<forall>(k, a) \<in> set ops. okput k a"
  shows "\<exists>oks s'. run_puts put ops s = Some (oks, s') \<and> length oks = length ops \<and>
    (\<forall>k. okget k \<longrightarrow> found s' k (replay val ops oks m k))"
proof -
  obtain oks s' where r: "run_puts put ops s = Some (oks, s')" "length oks = length ops" "rep s' (replay val ops oks m)"
    using run_rep [OF assms] by blast
  then have "\<forall>k. okget k \<longrightarrow> found s' k (replay val ops oks m k)" using found_law by blast
  with r show ?thesis by blast
qed

end

text \<open>The environment is such a store: \<open>setenv\<close> with its values, deletion when there are none.\<close>

definition env_put :: "'x env_io \<Rightarrow> u8 list \<Rightarrow> u8 list list \<Rightarrow> genv \<times> 'x \<Rightarrow> (bool \<times> genv \<times> 'x) option" where
  "env_put io name vals s =
     (case do_setenv' io name vals (fst s) (snd s) of Done rc g x \<Rightarrow> Some (rc = 0, g, x) | _ \<Rightarrow> None)"

definition env_val :: "u8 list list \<Rightarrow> u8 list option" where
  "env_val vals = (if vals = [] then None else Some (join_values vals))"

definition env_models :: "genv \<times> 'x \<Rightarrow> (u8 list \<rightharpoonup> u8 list) \<Rightarrow> bool" where
  "env_models s m \<longleftrightarrow> (\<exists>es. env_rep (env_data (fst s)) es \<and> m = map_of es)"

definition setenv_ok :: "u8 list \<Rightarrow> u8 list list \<Rightarrow> bool" where
  "setenv_ok name vals \<longleftrightarrow> plain_name name \<and> (\<forall>v \<in> set vals. 0 \<notin> set v)"

definition name_ok :: "u8 list \<Rightarrow> bool" where
  "name_ok name \<longleftrightarrow> 0x3d \<notin> set name \<and> 0 \<notin> set name"

definition getenv_is :: "mem \<Rightarrow> u8 list \<Rightarrow> u8 list option \<Rightarrow> bool" where
  "getenv_is d name vo =
     (case vo of None \<Rightarrow> getenv d name = Some None | Some v \<Rightarrow> \<exists>p. getenv d name = Some (Some p) \<and> cstr d p v)"

lemma map_of_without: "map_of (without name es) = (map_of es)(name := None)"
  unfolding without_def by (induction es) (auto simp: fun_eq_iff)

lemma map_of_snoc: "map_of (without name es @ [(name, v)]) = (map_of es)(name := Some v)"
  by (rule ext) (auto simp: map_of_without map_add_def split: option.splits)

lemma ENV_SIZE_le: "n + 1 \<le> ENV_SIZE \<Longrightarrow> n \<le> CFG_ENV_SIZE"
  by (simp add: ENV_SIZE_def CFG_ENV_SIZE_def)

lemma getenv_is_rep:
  assumes "env_rep d es" "name_ok name"
  shows "getenv_is d name (map_of es name)"
proof -
  have "env_at d 0 es" "\<forall>e \<in> set es. var_ok e" "0 + length (flat es) \<le> CFG_ENV_SIZE"
    using assms(1) ENV_SIZE_le by (auto simp: env_rep_def)
  from getenv_from_env [OF this(1,2) _ _ this(3), of name] assms(2)
  show ?thesis using assms(2) by (cases "map_of es name") (simp_all add: getenv_is_def getenv_def name_ok_def)
qed

lemma env_put_law:
  assumes r: "env_models s m" and ok: "setenv_ok name vals"
  shows "\<exists>ok s'. env_put io name vals s = Some (ok, s') \<and> env_models s' (m(name := if ok then env_val vals else None))"
proof -
  obtain es where es: "env_rep (env_data (fst s)) es" "m = map_of es" using r by (auto simp: env_models_def)
  from ok have n: "plain_name name" and v: "\<forall>v \<in> set vals. 0 \<notin> set v" by (simp_all add: setenv_ok_def)
  from do_setenv_rep [OF es(1) n v, of io "snd s"] obtain rc g' where
    d: "do_setenv' io name vals (fst s) (snd s) = Done rc g' (snd s)"
    and c: "if vals = [] then rc = 0 \<and> env_rep (env_data g') (without name es) \<and> crc_current g'
     else if length (flat (without name es)) + length (entry (name, join_values vals)) + 2 \<le> ENV_SIZE
     then rc = 0 \<and> env_rep (env_data g') (without name es @ [(name, join_values vals)]) \<and> crc_current g'
     else rc = 1 \<and> env_rep (env_data g') (without name es) \<and> env_crc32 g' = env_crc32 (fst s)" by blast
  have "env_models (g', snd s) (m(name := if rc = 0 then env_val vals else None))"
  proof (cases "rc = 0 \<and> vals \<noteq> []")
    case True
    then have "env_rep (env_data g') (without name es @ [(name, join_values vals)])" using c by (auto split: if_splits)
    moreover have "m(name := if rc = 0 then env_val vals else None) = map_of (without name es @ [(name, join_values vals)])"
      using True unfolding map_of_snoc by (simp add: es(2) env_val_def)
    ultimately show ?thesis unfolding env_models_def fst_conv by (intro exI conjI)
  next
    case False
    then have "env_rep (env_data g') (without name es)" using c by (cases "vals = []") (simp_all split: if_splits)
    moreover have "m(name := if rc = 0 then env_val vals else None) = map_of (without name es)"
      using False unfolding map_of_without by (auto simp: es(2) env_val_def)
    ultimately show ?thesis unfolding env_models_def fst_conv by (intro exI conjI)
  qed
  then show ?thesis unfolding env_put_def d env_out.case by (intro exI conjI) (rule refl)
qed

lemma env_found_law: "env_models s m \<Longrightarrow> name_ok name \<Longrightarrow> getenv_is (env_data (fst s)) name (m name)"
  unfolding env_models_def using getenv_is_rep by blast

interpretation env: kv_store env_models setenv_ok name_ok "env_put io" env_val "\<lambda>s. getenv_is (env_data (fst s))" for io
  by unfold_locales (rule env_put_law env_found_law; assumption)+

text \<open>C4: Any sequence of \<open>setenv\<close> calls (names without a side effect on the console, values without a
  terminator) acts as updates of a finite map: every call returns, a successful one binds the name to its values joined by
  spaces or removes it, a failed one removes it, and \<open>getenv\<close> afterwards finds exactly what the map holds.\<close>

theorem setenv_getenv:
  assumes "env_rep (env_data g) es" "\<forall>(name, vals) \<in> set ops. setenv_ok name vals"
  shows "\<exists>oks g' x'. run_puts (env_put io) ops (g, x) = Some (oks, g', x') \<and> length oks = length ops \<and>
    (\<forall>name. name_ok name \<longrightarrow> getenv_is (env_data g') name (replay env_val ops oks (map_of es) name))"
proof -
  have "env_models (g, x) (map_of es)" using assms(1) by (auto simp: env_models_def)
  from env.run_found [OF this assms(2)] show ?thesis by fastforce
qed

section \<open>The environment in flash\<close>

lemma le32_bytes_le32: "le32_bytes (le32 [a, b, c, d] 0) = [a, b, c, d]"
  by (simp add: le32_bytes_def byte_of_le32)

lemma nth_four: "i < 4 \<Longrightarrow> [m a, m (a + 1), m (a + 2), m (a + 3)] ! i = (m (a + i) :: u8)" for a :: nat
proof -
  assume "i < 4"
  then have "i = 0 \<or> i = 1 \<or> i = 2 \<or> i = 3" by linarith
  then show ?thesis by auto
qed

lemma env_crc_loop_bytes: "env_crc_loop emi off len c = crc32 c (bytes emi off len)"
proof (induction emi off len c rule: env_crc_loop.induct)
  case (1 emi off len new)
  show ?case
  proof (cases "0 < len")
    case True
    define n where "n = (if 4 < len then 4 else len)"
    have n: "n \<le> 4" "n \<le> len" by (simp_all add: n_def)
    have "take n (le32_bytes (spiboot_get_u32 emi off)) = bytes emi off n"
      using n(1) nth_four by (intro nth_equalityI) (simp_all add: spiboot_get_u32_def le32_bytes_le32)
    moreover have "bytes emi off n @ bytes emi (off + n) (len - n) = bytes emi off len"
      using n(2) by (intro nth_equalityI) (auto simp: nth_append)
    ultimately show ?thesis using True 1
      by (subst env_crc_loop.simps) (simp add: Let_def n_def [symmetric] crc32_append)
  next
    case False
    then show ?thesis by (subst env_crc_loop.simps) simp
  qed
qed

definition flash_has :: "mem \<Rightarrow> genv \<Rightarrow> bool" where
  "flash_has emi g \<longleftrightarrow> (\<forall>i < CFG_ENV_SIZE. emi (CFG_ENV_OFFSET + i) = env_image g ! i)"

lemma length_env_image [simp]: "length (env_image g) = CFG_ENV_SIZE"
  by (simp add: env_image_def CFG_ENV_SIZE_def ENV_SIZE_def)

lemma env_image_crc: "i < 4 \<Longrightarrow> env_image g ! i = byte_of (env_crc32 g) i"
  by (auto simp: env_image_def nth_append le32_bytes_def less_Suc_eq numeral_eq_Suc)

lemma env_image_data: "i < ENV_SIZE \<Longrightarrow> env_image g ! (4 + i) = env_data g i"
  by (simp add: env_image_def nth_append)

lemma flash_has_data: "flash_has emi g \<Longrightarrow> i < ENV_SIZE \<Longrightarrow> emi (CFG_ENV_OFFSET + 4 + i) = env_data g i"
  unfolding flash_has_def add.assoc using env_image_data [of i g] by (simp add: ENV_SIZE_def CFG_ENV_SIZE_def)

lemma flash_has_crc: "flash_has emi g \<Longrightarrow> i < 4 \<Longrightarrow> emi (CFG_ENV_OFFSET + i) = byte_of (env_crc32 g) i"
  unfolding flash_has_def by (simp add: env_image_crc CFG_ENV_SIZE_def)

lemma flash_has_word: "flash_has emi g \<Longrightarrow> spiboot_get_u32 emi CFG_ENV_OFFSET = env_crc32 g"
  using flash_has_crc [of emi g 0] flash_has_crc [of emi g 1] flash_has_crc [of emi g 2] flash_has_crc [of emi g 3]
    le32_le32_bytes [of "env_crc32 g"]
  by (simp add: spiboot_get_u32_def le32_bytes_def)

lemma flash_has_bytes: "flash_has emi g \<Longrightarrow> bytes emi (CFG_ENV_OFFSET + 4) ENV_SIZE = bytes (env_data g) 0 ENV_SIZE"
  by (intro nth_equalityI) (simp_all add: flash_has_data)

lemma env_init_flash: "flash_has emi g \<Longrightarrow> env_init emi = crc_current g"
  by (simp add: env_init_def env_crc_loop_bytes flash_has_word flash_has_bytes crc_current_def)

lemma env_rep_cong:
  assumes "\<forall>i < ENV_SIZE. d i = d' i"
  shows "env_rep d es = env_rep d' es"
proof -
  have "env_at d 0 es = env_at d' 0 es" if "length (flat es) + 1 \<le> ENV_SIZE"
    using assms that unfolding env_at_iff by auto
  moreover have "d 1 = d' 1" using assms by (simp add: ENV_SIZE_def)
  ultimately show ?thesis by (auto simp: env_rep_def)
qed

lemma saveenv_flash:
  assumes m: "m25p pn N ch" and d: "dev_ok dev N" and p: "bus_idle ch p" "busy_reads ch p = 0"
    and N: "CFG_ENV_OFFSET + CFG_ENV_SIZE \<le> N"
  shows "\<exists>dev' p'. saveenv pn dev g p = Some (0, dev', p') \<and> flash_has (contents ch p') g \<and>
    contents ch p' = overwrite (contents ch p) CFG_ENV_OFFSET (env_image g)"
proof -
  have "env_image g \<noteq> []" by (simp add: env_image_def le32_bytes_def)
  moreover have "CFG_ENV_OFFSET + length (env_image g) \<le> N" using N by simp
  ultimately obtain dev' p' where w: "eeprom_write pn dev 0 (word_of_nat CFG_ENV_OFFSET) (env_image g)
      (word_of_nat (length (env_image g))) p = Some (0, dev', p')"
    "contents ch p' = overwrite (contents ch p) CFG_ENV_OFFSET (env_image g)"
    using eeprom_write_overwrites [OF m d p] by blast
  have "flash_has (contents ch p') g" unfolding w(2) flash_has_def by (simp add: overwrite_def)
  with w show ?thesis by (simp add: saveenv_def)
qed

text \<open>C5: \<open>saveenv\<close> stores the block and its CRC and touches nothing else; at the next start \<open>env_init\<close> accepts
  it exactly when the CRC was current, and \<open>env_relocate_spec\<close> brings back the same variables.\<close>

theorem saveenv_restart:
  assumes m: "m25p pn N ch" and d: "dev_ok dev N" and p: "bus_idle ch p" "busy_reads ch p = 0"
    and N: "CFG_ENV_OFFSET + CFG_ENV_SIZE \<le> N"
  shows "\<exists>dev' p'. saveenv pn dev g p = Some (0, dev', p') \<and>
    contents ch p' = overwrite (contents ch p) CFG_ENV_OFFSET (env_image g) \<and>
    env_init (contents ch p') = crc_current g \<and>
    env_crc32 (env_relocate_spec (contents ch p') g1) = env_crc32 g \<and>
    (\<forall>es. env_rep (env_data (env_relocate_spec (contents ch p') g1)) es = env_rep (env_data g) es)"
proof -
  obtain dev' p' where w: "saveenv pn dev g p = Some (0, dev', p')" and f: "flash_has (contents ch p') g"
    and c: "contents ch p' = overwrite (contents ch p) CFG_ENV_OFFSET (env_image g)"
    using saveenv_flash [OF assms] by blast
  have "\<forall>i < ENV_SIZE. env_data (env_relocate_spec (contents ch p') g1) i = env_data g i"
    using flash_has_data [OF f] by (simp add: env_relocate_spec_def)
  from env_rep_cong [OF this] have "\<forall>es. env_rep (env_data (env_relocate_spec (contents ch p') g1)) es = env_rep (env_data g) es"
    by blast
  moreover have "env_crc32 (env_relocate_spec (contents ch p') g1) = env_crc32 g"
    using flash_has_word [OF f] by (simp add: env_relocate_spec_def)
  ultimately show ?thesis using w c env_init_flash [OF f] by blast
qed

text \<open>Before relocation the index counts from the CRC.\<close>

lemma spiboot_get_byte_emi: "spiboot_get_byte emi i = emi i"
proof -
  define k where "k = i - i mod 4"
  have i: "i = k + i mod 4" by (simp add: k_def)
  have "ucast (drop_bit (j * 8) (le32 [emi k, emi (k + 1), emi (k + 2), emi (k + 3)] 0) AND 0xff :: u32) = emi (k + j)" if "j < 4" for j
  proof -
    have m: "(0xff :: u32) = mask 8" by (simp add: mask_eq_exp_minus_1)
    have "ucast (x AND 0xff :: u32) = (ucast x :: u8)" for x :: u32
      unfolding m by (intro bit_word_eqI) (simp add: bit_simps)
    moreover have "j = 0 \<or> j = 1 \<or> j = 2 \<or> j = 3" using that by linarith
    ultimately show ?thesis
      using byte_of_le32 [of j "[emi k, emi (k + 1), emi (k + 2), emi (k + 3)]" 0]
      by (auto simp: byte_of_def mult.commute)
  qed
  from this [of "i mod 4"] show ?thesis
    unfolding spiboot_get_byte_def spiboot_get_u32_def Let_def k_def [symmetric] using i by simp
qed

text \<open>Before relocation the characters of a valid environment are read four bytes too low: the first four
  are the bytes of the CRC, and character \<open>i + 4\<close> is character \<open>i\<close> of the variables.\<close>

theorem early_env_offset:
  assumes "flash_has emi g" "i < ENV_SIZE" "j < 4"
  shows "env_get_char_init emi default_environment True (i + 4) = env_data g i \<and>
    env_get_char_init emi default_environment True j = byte_of (env_crc32 g) j"
  using flash_has_data [OF assms(1,2)] flash_has_crc [OF assms(1,3)]
  by (simp_all add: env_get_char_init_def env_get_char_spec_def spiboot_get_byte_emi add.commute add.left_commute)

section \<open>Copying a value out\<close>

lemma getenv_copy_cstr:
  assumes "cstr d p v" 
  shows "getenv_copy d p len n buf =
    (if n + length v < len then (n + length v + 1, buf @ v @ [0])
     else (max n len + 1, buf @ take (len - n) v))"
  using assms
proof (induction v arbitrary: p n buf)
  case Nil
  then show ?case by (subst getenv_copy.simps) simp
next
  case (Cons c v)
  then have c: "d p = c" "c \<noteq> 0" "cstr d (p + 1) v" by simp_all
  show ?case
  proof (cases "n < len")
    case True
    then obtain k where k: "len - n = Suc k" "len - (n + 1) = k" by (cases "len - n") auto
    show ?thesis using True c Cons.IH [OF c(3), of "n + 1" "buf @ [c]"] k
      by (subst getenv_copy.simps) auto
  next
    case False
    then show ?thesis by (subst getenv_copy.simps) simp
  qed
qed

text \<open>What \<open>getenv_r\<close> stores in a buffer of \<open>len\<close> bytes: a terminated value when there is room to
  spare, a second terminator one byte past the end when the value just fits, and no terminator when it does not.\<close>

theorem getenv_r_stores:
  assumes r: "env_rep d es" "name_ok name" and v: "map_of es name = Some v"
  shows "getenv_r d name len = Some
    (if length v + 1 < len then (int (length v) + 1, v @ [0])
     else if length v + 1 = len then (int len, v @ [0, 0])
     else (int len + 1, take len v))"
proof -
  obtain p where g: "getenv d name = Some (Some p)" and c: "cstr d p v"
    using getenv_is_rep [OF r] v by (auto simp: getenv_is_def)
  show ?thesis unfolding getenv_r_def g option.case getenv_copy_cstr [OF c] by (auto simp: Let_def)
qed

section \<open>The error paths of \<open>setenv\<close>\<close>

text \<open>The last of several variables goes by clearing its first character.\<close>

lemma env_delete_last:
  assumes r: "env_rep d (es @ [e])" and ne: "es \<noteq> []"
  shows "env_delete d (length (flat es)) (length (flat es) + length (entry e)) = Some (d(length (flat es) := 0))"
proof -
  have "env_at d 0 (es @ [e])" using r by (simp add: env_rep_def)
  then have "d (length (flat es) + length (entry e) + 1) = 0" unfolding env_at_append by simp
  moreover have "0 < length (flat es)" using ne by simp
  ultimately show ?thesis by (simp add: env_delete_def)
qed

text \<open>C39: When the new value of the last variable does not fit, \<open>do_setenv\<close> reports an error and has deleted the
  variable, but leaves the CRC of the old block: it no longer matches.\<close>

theorem setenv_overflow_breaks_crc:
  assumes r: "env_rep (env_data g) (es @ [(name, w)])" and ne: "es \<noteq> []" and c: "crc_current g"
    and n: "plain_name name" and v: "\<forall>v \<in> set vals. 0 \<notin> set v" "vals \<noteq> []"
    and big: "ENV_SIZE < length (flat es) + length (entry (name, join_values vals)) + 2"
  shows "\<exists>g'. do_setenv io (cmd # name # vals) g x = Done 1 g' x \<and>
    env_rep (env_data g') es \<and> \<not> crc_current g'"
proof -
  let ?a = "length (flat es)" and ?d = "env_data g"
  have neq: "0x3d \<notin> set name" "0 \<notin> set name" using n by (simp_all add: plain_name_def)
  have at: "env_at ?d 0 (es @ [(name, w)])" "\<forall>e \<in> set (es @ [(name, w)]). var_ok e"
    and dist: "distinct (map fst (es @ [(name, w)]))" using r unfolding env_rep_def by blast+
  have new: "name \<notin> fst ` set es" using dist by auto
  have f: "find_var ?d name 0 = Some (Some (?a, ?a + length (entry (name, w)), ?a + length name + 1))"
    using find_var_env [OF at neq] new by simp
  define g1 where "g1 = g\<lparr>env_data := ?d(?a := 0)\<rparr>"
  have d': "env_delete ?d ?a (?a + length (entry (name, w))) = Some (?d(?a := 0))"
    by (rule env_delete_last [OF r ne])
  have r1: "env_rep (env_data g1) es"
    using env_delete_rep [of ?d es "(name, w)" "[]"] r d' by (simp add: g1_def)
  have s: "do_setenv io (cmd # name # vals) g x = setenv_append name vals g1 x"
    unfolding do_setenv_def list.sel list.case do_setenv'_def f using neq n d'
    by (simp add: plain_name_def check_console_plain switch_baudrate_plain g1_def)
  have "0 \<notin> set (join_values vals)" using v(1) by (induction vals rule: join_values.induct) auto
  then have "var_ok (name, join_values vals)" using neq by (simp add: var_ok_def)
  from setenv_append_rep [OF r1 new this, of x] v(2) big
  have t: "setenv_append name vals g1 x = Done 1 g1 x" by auto
  have a: "?a < ENV_SIZE" using r by (simp add: env_rep_def)
  have "cstr ?d ?a (entry (name, w))" using at(1) unfolding env_at_append by simp
  then have nz: "?d ?a \<noteq> 0" by (cases "entry (name, w)") auto
  have "bytes (env_data g1) 0 ENV_SIZE = (bytes ?d 0 ENV_SIZE)[?a := 0]"
    using a by (intro nth_equalityI) (auto simp: g1_def nth_list_update)
  then have "\<not> crc_current g1"
    using crc32_byte_changed [of ?a "bytes ?d 0 ENV_SIZE" 0 0] a nz c by (simp add: crc_current_def g1_def)
  then show ?thesis using s t r1 by simp
qed

text \<open>Deleting the rate of an environment that defines it reads through the missing argument.\<close>

lemma setenv_baudrate_null:
  assumes r: "env_rep (env_data g) es" and b: "ascii ''baudrate'' \<in> fst ` set es"
  shows "setenv io (ascii ''baudrate'') None g x = Null_read"
proof -
  have neq: "0x3d \<notin> set (ascii ''baudrate'')" "0 \<notin> set (ascii ''baudrate'')" "console_of (ascii ''baudrate'') = - 1"
    by (simp_all add: ascii_def console_of_def)
  have at: "env_at (env_data g) 0 es" "\<forall>e \<in> set es. var_ok e" using r by (simp_all add: env_rep_def)
  obtain es1 w es2 where es: "es = es1 @ (ascii ''baudrate'', w) # es2" "ascii ''baudrate'' \<notin> fst ` set es1"
    using b by (rule split_first)
  obtain env nxt k where "find_var (env_data g) (ascii ''baudrate'') 0 = Some (Some (env, nxt, k))"
    using find_var_env [OF at neq(1,2)] es by blast
  then show ?thesis using neq(1,3) by (simp add: setenv_def do_setenv'_def check_console_plain switch_baudrate_def)
qed

text \<open>\<open>do_setenv\<close> on its arguments: what becomes of a well-formed environment and its CRC.\<close>

text \<open>C29: \<open>do_setenv\<close> keeps a well-formed environment: the old definition is removed wherever it stands, the
  new one is appended, the block ends with two zeros and its CRC is that of the new block.\<close>

theorem do_setenv_keeps:
  assumes "env_rep (env_data g) es" "plain_name name" "\<forall>v \<in> set vals. 0 \<notin> set v"
    "vals = [] \<or> length (flat (without name es)) + length (entry (name, join_values vals)) + 2 \<le> ENV_SIZE"
  shows "\<exists>g'. do_setenv io (cmd # name # vals) g x = Done 0 g' x \<and> crc_current g' \<and>
    env_rep (env_data g') (without name es @ (if vals = [] then [] else [(name, join_values vals)]))"
proof -
  obtain rc g' where "do_setenv' io name vals g x = Done rc g' x"
    "if vals = [] then rc = 0 \<and> env_rep (env_data g') (without name es) \<and> crc_current g'
     else if length (flat (without name es)) + length (entry (name, join_values vals)) + 2 \<le> ENV_SIZE
     then rc = 0 \<and> env_rep (env_data g') (without name es @ [(name, join_values vals)]) \<and> crc_current g'
     else rc = 1 \<and> env_rep (env_data g') (without name es) \<and> env_crc32 g' = env_crc32 g"
    using do_setenv_rep [OF assms(1-3), of io x] by blast
  then show ?thesis using assms(4) by (cases "vals = []") (simp_all add: do_setenv_def)
qed

section \<open>Instances\<close>

definition blank_env :: genv where
  "blank_env = \<lparr>env_data = \<lambda>_. 0, env_crc32 = 0, gd_baudrate = 115200, bi_enetaddr = replicate 6 0, bi_ip_addr = 0,
     load_addr = 0, BootFile = []\<rparr>"

definition silent_io :: "unit env_io" where
  "silent_io = \<lparr>io_console_assign = \<lambda>_ _ x. (0, x), io_setbrg = \<lambda>_ x. x, io_getc = \<lambda>x. (0x0d, x)\<rparr>"

definition env_of :: "var list \<Rightarrow> genv" where
  "env_of es = env_crc_update (blank_env\<lparr>env_data := overwrite (\<lambda>_. 0) 0 (flat es @ [0])\<rparr>)"

lemma env_of_rep:
  assumes "\<forall>e \<in> set es. var_ok e" "distinct (map fst es)" "length (flat es) + 1 \<le> ENV_SIZE"
  shows "env_rep (env_data (env_of es)) es"
  using assms env_at_overwrite [of es "\<lambda>_. 0" 0] var_ok_entry by (auto simp: env_rep_def env_of_def overwrite_def)

lemma a_plain: "plain_name (ascii ''a'')"
  by (simp add: plain_name_def ascii_def console_of_def)

theorem setenv_getenv_witness:
  "\<exists>oks g' x'. run_puts (env_put silent_io) [(ascii ''a'', [ascii ''b''])] (env_of [], ()) = Some (oks, g', x') \<and> length oks = 1 \<and>
     getenv_is (env_data g') (ascii ''a'') (replay env_val [(ascii ''a'', [ascii ''b''])] oks (map_of []) (ascii ''a''))"
proof -
  have r: "env_rep (env_data (env_of [])) []" by (rule env_of_rep) (simp_all add: ENV_SIZE_def)
  have o: "\<forall>(name, vals) \<in> set [(ascii ''a'', [ascii ''b''])]. setenv_ok name vals"
    using a_plain by (simp add: setenv_ok_def ascii_def)
  have "name_ok (ascii ''a'')" by (simp add: name_ok_def ascii_def)
  then show ?thesis using setenv_getenv [OF r o, of silent_io "()"] by auto
qed

theorem do_setenv_keeps_witness:
  "\<exists>g'. do_setenv silent_io [ascii ''setenv'', ascii ''a'', ascii ''b'', ascii ''c''] (env_of []) () = Done 0 g' () \<and> crc_current g' \<and>
    env_rep (env_data g') (without (ascii ''a'') [] @
      (if [ascii ''b'', ascii ''c''] = [] then [] else [(ascii ''a'', join_values [ascii ''b'', ascii ''c''])]))"
  by (rule do_setenv_keeps [OF env_of_rep a_plain])
    (simp_all add: ENV_SIZE_def ascii_def without_def length_entry)

theorem setenv_overflow_breaks_crc_witness:
  "\<exists>g'. do_setenv silent_io (ascii ''setenv'' # ascii ''a'' # [replicate 65536 0x62]) (env_of ([(ascii ''b'', [])] @ [(ascii ''a'', [])])) ()
      = Done 1 g' () \<and> env_rep (env_data g') [(ascii ''b'', [])] \<and> \<not> crc_current g'"
proof (rule setenv_overflow_breaks_crc [OF env_of_rep])
  show "crc_current (env_of ([(ascii ''b'', [])] @ [(ascii ''a'', [])]))" unfolding env_of_def by simp
  show "plain_name (ascii ''a'')" by (rule a_plain)
qed (simp_all add: ENV_SIZE_def ascii_def var_ok_def length_entry)

theorem getenv_r_stores_witness:
  "getenv_r (env_data (env_of [(ascii ''a'', ascii ''b'')])) (ascii ''a'') 2 = Some
    (if length (ascii ''b'') + 1 < 2 then (int (length (ascii ''b'')) + 1, ascii ''b'' @ [0])
     else if length (ascii ''b'') + 1 = 2 then (int 2, ascii ''b'' @ [0, 0])
     else (int 2 + 1, take 2 (ascii ''b'')))"
  by (rule getenv_r_stores [OF env_of_rep]) (simp_all add: name_ok_def var_ok_def ascii_def ENV_SIZE_def length_entry)

theorem saveenv_restart_witness:
  "\<exists>dev' p'. saveenv (slave_pins flash_slave) m25p80_dev (env_of []) m25p80_idle = Some (0, dev', p') \<and>
    contents flash_chip p' = overwrite (contents flash_chip m25p80_idle) CFG_ENV_OFFSET (env_image (env_of [])) \<and>
    env_init (contents flash_chip p') = crc_current (env_of []) \<and>
    env_crc32 (env_relocate_spec (contents flash_chip p') blank_env) = env_crc32 (env_of []) \<and>
    (\<forall>es. env_rep (env_data (env_relocate_spec (contents flash_chip p') blank_env)) es = env_rep (env_data (env_of [])) es)"
  by (rule saveenv_restart [OF flash_is_m25p m25p80_ok m25p80_idle]) (simp_all add: CFG_ENV_OFFSET_def CFG_ENV_SIZE_def)

theorem early_env_offset_witness:
  "env_get_char_init (\<lambda>a. env_image (env_of []) ! (a - CFG_ENV_OFFSET)) [] True (0 + 4) = env_data (env_of []) 0 \<and>
    env_get_char_init (\<lambda>a. env_image (env_of []) ! (a - CFG_ENV_OFFSET)) [] True 0 = byte_of (env_crc32 (env_of [])) 0"
  by (rule early_env_offset) (simp_all add: flash_has_def ENV_SIZE_def)

end
