(* ===== verification/Console.thy ===== *)
theory Console
  imports Vsprintf
begin

text \<open>
  The console of \<open>common/console.c\<close> on one serial line: characters are taken from what the other
  side sends and appended to what it receives. Whether a character has already arrived when the
  line is polled is not up to this program: \<open>con_ready\<close> answers the polls in turn. Waiting for a
  character that never comes is \<open>None\<close>. After \<open>console_init_r\<close> every stream is the device \<open>serial\<close>.
\<close>

record con =
  con_in :: "u8 list"
  con_out :: "u8 list"
  con_ready :: "nat \<Rightarrow> bool"
  con_polls :: nat
  have_console :: bool
  ctrlc_disabled :: bool
  ctrlc_was_pressed :: bool

definition getc :: "con \<Rightarrow> (u8 \<times> con) option" where
  "getc c = (case con_in c of [] \<Rightarrow> None | x # xs \<Rightarrow> Some (x, c\<lparr>con_in := xs\<rparr>))"

definition tstc :: "con \<Rightarrow> bool \<times> con" where
  "tstc c = (con_in c \<noteq> [] \<and> con_ready c (con_polls c), c\<lparr>con_polls := con_polls c + 1\<rparr>)"

definition putc :: "u8 \<Rightarrow> con \<Rightarrow> con" where
  "putc x c = c\<lparr>con_out := con_out c @ [x]\<rparr>"

definition puts :: "u8 list \<Rightarrow> con \<Rightarrow> con" where
  "puts s c = fold putc s c"

text \<open>\<open>ctrlc\<close>: any other character that has arrived is dropped.\<close>

definition ctrlc :: "con \<Rightarrow> (bool \<times> con) option" where
  "ctrlc c =
     (if \<not> ctrlc_disabled c \<and> have_console c then
        let (ready, c) = tstc c in
        if ready then
          Option.bind (getc c) (\<lambda>(x, c). if x = 0x03 then Some (True, c\<lparr>ctrlc_was_pressed := True\<rparr>) else Some (False, c))
        else Some (False, c)
      else Some (False, c))"

definition disable_ctrlc :: "bool \<Rightarrow> con \<Rightarrow> bool \<times> con" where
  "disable_ctrlc d c = (let prev = ctrlc_disabled c in (prev, c\<lparr>ctrlc_disabled := d\<rparr>))"

definition had_ctrlc :: "con \<Rightarrow> bool" where "had_ctrlc c = ctrlc_was_pressed c"

definition clear_ctrlc :: "con \<Rightarrow> con" where "clear_ctrlc c = c\<lparr>ctrlc_was_pressed := False\<rparr>"

text \<open>A line on which no character has arrived yet when it is polled.\<close>

definition slow :: "con \<Rightarrow> bool" where
  "slow c \<longleftrightarrow> con_ready c = (\<lambda>_. False)"

definition idle_con :: con where
  "idle_con = \<lparr>con_in = [], con_out = [], con_ready = \<lambda>_. False, con_polls = 0, have_console = True,
     ctrlc_disabled = False, ctrlc_was_pressed = False\<rparr>"

lemma puts_out: "puts s c = c\<lparr>con_out := con_out c @ s\<rparr>"
  unfolding puts_def by (induction s arbitrary: c) (simp_all add: putc_def)

lemma ctrlc_slow:
  assumes "slow c"
  shows "\<exists>k. ctrlc c = Some (False, c\<lparr>con_polls := k\<rparr>)"
proof (cases "\<not> ctrlc_disabled c \<and> have_console c")
  case True
  then show ?thesis using assms by (auto simp: ctrlc_def tstc_def slow_def)
next
  case False
  then show ?thesis unfolding ctrlc_def by (simp only: if_False) (rule exI [of _ "con_polls c"], simp)
qed

lemma ctrlc_drops:
  assumes "con_in c = x # xs" "con_ready c (con_polls c)" "x \<noteq> 0x03" "\<not> ctrlc_disabled c" "have_console c"
  shows "\<exists>c'. ctrlc c = Some (False, c') \<and> con_in c' = xs"
  using assms by (simp add: ctrlc_def tstc_def getc_def)

end
