(* ===== verification/SRecord.thy ===== *)
theory SRecord
  imports Console
begin

text \<open>
  Motorola S-records: the decoder of \<open>common/s_record.c\<close> and the commands \<open>loads\<close> and \<open>saves\<close> of
  \<open>common/cmd_load.c\<close>. Lines are lists of characters before the terminator; memory is a function of
  32-bit addresses.
\<close>

section \<open>Decoding\<close>

definition hex1_bin :: "u8 \<Rightarrow> int" where
  "hex1_bin c =
     (if 0x30 \<le> c \<and> c \<le> 0x39 then int (unat c) - 0x30
      else if 0x61 \<le> c \<and> c \<le> 0x66 then int (unat c) + 10 - 0x61
      else if 0x41 \<le> c \<and> c \<le> 0x46 then int (unat c) + 10 - 0x41
      else - 1)"

definition hex2_bin :: "u8 list \<Rightarrow> int" where
  "hex2_bin s =
     (let i = hex1_bin (deref s) in
      if i < 0 then - 1
      else let j = hex1_bin (deref (tl s)) in if j < 0 then - 1 else push_bit 4 i + j)"

fun skip_to_S :: "u8 list \<Rightarrow> u8 list" where
  "skip_to_S [] = []"
| "skip_to_S (c # input) = (if c = 0x53 then input else skip_to_S input)"

text \<open>The record types: the code returned and the count of data bytes.\<close>

definition srec_kind :: "u8 \<Rightarrow> int \<Rightarrow> (int \<times> int) option" where
  "srec_kind v count =
     (if v = 0x30 then Some (0, count - 3)
      else if v = 0x31 then Some (1, count - 3)
      else if v = 0x32 then Some (2, count - 4)
      else if v = 0x33 then Some (3, count - 5)
      else if v = 0x35 then Some (5, 0)
      else if v = 0x37 then Some (7, count - 5)
      else if v = 0x38 then Some (8, count - 4)
      else if v = 0x39 then Some (9, count - 3)
      else None)"

definition addr_bytes :: "u8 \<Rightarrow> nat" where
  "addr_bytes v = (if v = 0x33 \<or> v = 0x37 then 4 else if v = 0x32 \<or> v = 0x38 then 3 else 2)"

text \<open>\<open>n\<close> bytes in hexadecimal: those read before the first bad one, the rest, and whether all were good.\<close>

fun hex_bytes :: "nat \<Rightarrow> u8 list \<Rightarrow> u8 list \<times> u8 list \<times> bool" where
  "hex_bytes 0 input = ([], input, True)"
| "hex_bytes (Suc n) input =
     (let v = hex2_bin input in
      if v < 0 then ([], input, False)
      else let (bs, rest, ok) = hex_bytes n (drop 2 input) in (word_of_int v # bs, rest, ok))"

text \<open>
  \<open>srec_decode\<close>: the result, the count, the address (both keep their old values on an early return)
  and the bytes stored in the buffer.
\<close>

definition srec_decode :: "u8 list \<Rightarrow> int \<Rightarrow> u32 \<Rightarrow> int \<times> int \<times> u32 \<times> u8 list" where
  "srec_decode input count addr =
     (case skip_to_S input of
        [] \<Rightarrow> (10, count, addr, [])
      | v # input \<Rightarrow>
          let count = hex2_bin input in
          if count < 0 then (- 2, count, addr, [])
          else
            let chksum = word_of_int count :: u8; input = drop 2 input in
            (case srec_kind v count of
               None \<Rightarrow> (- 1, count, addr, [])
             | Some (srec_type, count) \<Rightarrow>
                 let (as, input, ok) = hex_bytes (addr_bytes v) input;
                     addr = fold (\<lambda>b addr. push_bit 8 addr + ucast b) as 0;
                     chksum = chksum + sum_list as
                 in if \<not> ok then (- 2, count, addr, [])
                 else
                   let (data, input, ok) = hex_bytes (nat count) input; chksum = chksum + sum_list data in
                   if \<not> ok then (- 2, count, addr, data)
                   else
                     let v = hex2_bin input in
                     if v < 0 then (- 2, count, addr, data)
                     else if word_of_int v \<noteq> NOT chksum then (- 3, count, addr, data)
                     else (srec_type, count, addr, data)))"

section \<open>\<open>loads\<close>\<close>

definition SREC_MAXRECLEN :: nat where "SREC_MAXRECLEN = 512 + 4"

text \<open>
  \<open>read_record\<close> with room for \<open>n\<close> more characters: the line, or \<open>None\<close> for -1. \<open>redirected\<close> tells
  whether the jump table's \<open>getc\<close> differs from \<open>getc\<close>.
\<close>

fun read_record :: "bool \<Rightarrow> bool \<Rightarrow> nat \<Rightarrow> u8 list \<Rightarrow> con \<Rightarrow> (u8 list option \<times> con) option" where
  "read_record do_echo redirected 0 buf c = Some (Some buf, c)"
| "read_record do_echo redirected (Suc n) buf c =
     Option.bind (getc c) (\<lambda>(x, c).
       let c = (if do_echo then putc x c else c) in
       if x = 0x0d \<or> x = 0x0a then Some (Some buf, c)
       else if x = 0x00 \<or> x = 0x03 then Some (None, c)
       else if redirected then
         Option.bind (ctrlc c) (\<lambda>(pressed, c).
           if pressed then Some (None, c) else read_record do_echo redirected n (buf @ [x]) c)
       else read_record do_echo redirected n (buf @ [x]) c)"

record loader =
  ld_mem :: "u32 \<Rightarrow> u8"
  ld_con :: con
  ld_filesize :: "u8 list option"

text \<open>A negative length makes \<open>memcpy\<close> run through all of memory.\<close>

datatype load_out = Loaded u32 loader | Overrun

definition store_bytes :: "(u32 \<Rightarrow> u8) \<Rightarrow> u32 \<Rightarrow> u8 list \<Rightarrow> u32 \<Rightarrow> u8" where
  "store_bytes m a bs = (\<lambda>x. let i = unat (x - a) in if i < length bs then bs ! i else m x)"

definition dot :: "bool \<Rightarrow> nat \<Rightarrow> loader \<Rightarrow> loader" where
  "dot do_echo line_count st =
     (if \<not> do_echo \<and> line_count mod 100 = 0 then st\<lparr>ld_con := putc 0x2e (ld_con st)\<rparr> else st)"

partial_function (option) load_records ::
    "bool \<Rightarrow> bool \<Rightarrow> u32 \<Rightarrow> int \<Rightarrow> u32 \<Rightarrow> u32 \<Rightarrow> u32 \<Rightarrow> nat \<Rightarrow> loader \<Rightarrow> load_out option" where
  "load_records do_echo redirected offset binlen addr start_addr end_addr line_count st =
     Option.bind (read_record do_echo redirected SREC_MAXRECLEN [] (ld_con st)) (\<lambda>(r, c).
       let st = st\<lparr>ld_con := c\<rparr> in
       case r of
         None \<Rightarrow> Some (Loaded (- 1) st)
       | Some record' \<Rightarrow>
           let (type, binlen, addr, data) = srec_decode record' binlen addr in
           if type < 0 then Some (Loaded (- 1) st)
           else if type \<in> {1, 2, 3} then
             if binlen < 0 then Some Overrun
             else
               let store_addr = addr + offset;
                   st = st\<lparr>ld_mem := store_bytes (ld_mem st) store_addr data\<rparr>;
                   last = store_addr + word_of_int binlen - 1
               in load_records do_echo redirected offset binlen addr
                    (if store_addr < start_addr then store_addr else start_addr)
                    (if end_addr < last then last else end_addr)
                    (line_count + 1) (dot do_echo (line_count + 1) st)
           else if type \<in> {7, 8, 9} then
             let len = end_addr - start_addr + 1
             in Some (Loaded addr (st\<lparr>ld_filesize := map_option fst (vsprintf (ascii ''%lX'') [Word len])\<rparr>))
           else
             load_records do_echo redirected offset binlen addr start_addr end_addr (line_count + 1)
               (dot do_echo (line_count + 1) st))"

definition load_serial :: "bool \<Rightarrow> bool \<Rightarrow> u32 \<Rightarrow> loader \<Rightarrow> load_out option" where
  "load_serial do_echo redirected offset st = load_records do_echo redirected offset 0 0 (- 1) 0 0 st"

section \<open>\<open>saves\<close>\<close>

definition SREC_BYTES_PER_RECORD :: nat where "SREC_BYTES_PER_RECORD = 16"

definition write_record :: "u8 list \<Rightarrow> con \<Rightarrow> (int \<times> con) option" where
  "write_record buf c = Option.bind (ctrlc (puts buf c)) (\<lambda>(pressed, c). Some (if pressed then - 1 else 0, c))"

definition hex_chars :: "u8 list" where "hex_chars = ascii ''0123456789ABCDEF''"

text \<open>The text of a data record; \<open>None\<close> would be a format that does not fit its arguments.\<close>

definition srec3_record :: "nat \<Rightarrow> u32 \<Rightarrow> u8 list \<Rightarrow> int \<Rightarrow> u8 list option" where
  "srec3_record reclen address data checksum =
     (let len = 4 + int reclen + 1;
          checksum = fold (\<lambda>i s. s + (drop_bit (8 * i) len AND 0xff)) [0, 1] checksum;
          checksum = fold (\<lambda>i s. s + uint (drop_bit (8 * i) address AND 0xff)) [0, 1, 2, 3] checksum;
          checksum = NOT checksum AND 0xff
      in map_option fst (vsprintf (ascii ''S3%02X%08lX%s%02X'' @ [0x0a])
           [Word (word_of_int len), Word address, Text (Some data), Word (word_of_int checksum)]))"

text \<open>The \<open>do \<dots> while (count)\<close> loop with the bytes collected for the current record.\<close>

function save_loop ::
    "(u32 \<Rightarrow> u8) \<Rightarrow> u32 \<Rightarrow> nat \<Rightarrow> nat \<Rightarrow> int \<Rightarrow> u8 list \<Rightarrow> con \<Rightarrow> (int \<times> con) option" where
  "save_loop m address count reclen checksum data c =
     (let (reclen, checksum, data, count) =
            (if count \<noteq> 0 then
               let b = m (address + word_of_nat reclen)
               in (reclen + 1, checksum + int (unat b),
                   data @ [hex_chars ! (unat (drop_bit 4 b AND 0x0f)), hex_chars ! (unat (b AND 0x0f))], count - 1)
             else (reclen, checksum, data, count))
      in if reclen = SREC_BYTES_PER_RECORD \<or> count = 0 then
           Option.bind
             (if reclen \<noteq> 0
              then Option.bind (srec3_record reclen address data checksum) (\<lambda>record'. write_record record' c)
              else Some (0, c))
             (\<lambda>(r, c). if r \<noteq> 0 then Some (- 1, c)
               else if count \<noteq> 0 then save_loop m (address + word_of_nat reclen) count 0 0 [] c else Some (0, c))
         else save_loop m address count reclen checksum data c)"
  by pat_completeness auto
termination
  by (relation "measure (\<lambda>(_, _, count, _). count)") (auto simp: Let_def split: if_splits)

declare save_loop.simps [simp del]

definition save_serial :: "(u32 \<Rightarrow> u8) \<Rightarrow> u32 \<Rightarrow> nat \<Rightarrow> con \<Rightarrow> (int \<times> con) option" where
  "save_serial m address count c =
     Option.bind (write_record (ascii ''S0030000FC'' @ [0x0a]) c) (\<lambda>(r, c).
       if r \<noteq> 0 then Some (- 1, c)
       else Option.bind (save_loop m address count 0 0 [] c) (\<lambda>(r, c).
         if r \<noteq> 0 then Some (- 1, c)
         else Option.bind (write_record (ascii ''S70500000000FA'' @ [0x0a]) c) (\<lambda>(r, c).
           Some (if r \<noteq> 0 then - 1 else 0, c))))"

section \<open>Hexadecimal text\<close>

text \<open>\<open>k\<close> digits of a number, most significant first.\<close>

fun hexs :: "nat \<Rightarrow> nat \<Rightarrow> u8 list" where
  "hexs 0 n = []"
| "hexs (Suc k) n = hexs k (n div 16) @ [upper_digits ! (n mod 16)]"

lemma length_hexs [simp]: "length (hexs k n) = k"
  by (induction k n rule: hexs.induct) simp_all

lemma hexs_0: "hexs k 0 = replicate k 0x30"
  by (induction k) (simp_all add: upper_digits_def ascii_def replicate_append_same)

lemma hexs_add: "hexs (i + k) n = hexs i (n div 16 ^ k) @ hexs k n"
  by (induction k arbitrary: n) (simp_all add: div_mult2_eq [symmetric] mult.commute)

lemma hexs_mod: "hexs k (n mod 16 ^ k) = hexs k n"
proof (induction k arbitrary: n)
  case (Suc k)
  have "n mod 16 ^ Suc k div 16 = n div 16 mod 16 ^ k" "n mod 16 ^ Suc k mod 16 = n mod 16"
    by (simp_all add: mod_mult2_eq mod_mod_cancel)
  then show ?case using Suc [of "n div 16"] by simp
qed simp

lemma digit_loop_hexs:
  "unat n < 16 ^ k \<Longrightarrow> length (digit_loop upper_digits 16 n) \<le> k \<and>
    replicate (k - length (digit_loop upper_digits 16 n)) 0x30 @ rev (digit_loop upper_digits 16 n) = hexs k (unat n)"
proof (induction k arbitrary: n)
  case 0
  then have "n = 0" by (simp add: unat_eq_zero)
  then show ?case by (simp add: digit_loop.simps)
next
  case (Suc k)
  show ?case
  proof (cases "n = 0")
    case True
    then show ?thesis by (simp add: digit_loop.simps hexs_0 replicate_append_same)
  next
    case False
    have u: "unat (n div 16) = unat n div 16" "unat (n mod 16) = unat n mod 16" by (simp_all add: unat_div unat_mod)
    have "unat (n div 16) < 16 ^ k" unfolding u using Suc.prems by (simp add: less_mult_imp_div_less mult.commute)
    from Suc.IH [OF this] False u show ?thesis by (subst (1 2 3) digit_loop.simps) simp
  qed
qed

lemma number_hexs:
  assumes "unat n < 16 ^ k" "1 \<le> k"
  shows "number n 16 (int k) (- 1) 65 = Some (hexs k (unat n))"
proof -
  define D where "D = (if n = 0 then [0x30] else digit_loop upper_digits 16 n)"
  have d: "length D \<le> k \<and> replicate (k - length D) 0x30 @ rev D = hexs k (unat n)"
  proof (cases "n = 0")
    case True
    obtain j where "k = Suc j" using assms(2) by (cases k) auto
    with True show ?thesis by (simp add: D_def hexs_0 replicate_append_same)
  next
    case False
    then show ?thesis using digit_loop_hexs [OF assms(1)] by (simp add: D_def)
  qed
  have "nat (int k - int (length D)) = k - length D" by simp
  then show ?thesis using d
    by (cases "n = 0") (simp_all add: number_def Let_def has_def pad_loop_def D_def)
qed

lemma hex1_upper: "k < 16 \<Longrightarrow> hex1_bin (upper_digits ! k) = int k"
proof -
  assume "k < 16"
  then have "k \<in> {0,1,2,3,4,5,6,7,8,9,10,11,12,13,14,15}" by (auto simp: numeral_eq_Suc less_Suc_eq)
  then show ?thesis by (elim insertE emptyE) (simp_all add: hex1_bin_def upper_digits_def ascii_def)
qed

lemma hexs_2: "hexs 2 n = [upper_digits ! (n div 16 mod 16), upper_digits ! (n mod 16)]"
  by (simp add: numeral_2_eq_2)

lemma hex2_hexs: "hex2_bin (hexs 2 (unat b) @ s) = int (unat (b :: u8))"
proof -
  have "unat b < 256" using unsigned_less [of b] by simp
  then have "unat b div 16 < 16" "unat b div 16 mod 16 = unat b div 16" by auto
  then have "hex2_bin (hexs 2 (unat b) @ s) = int (unat b div 16) * 16 + int (unat b mod 16)"
    by (simp add: hexs_2 hex2_bin_def hex1_upper Let_def push_bit_eq_mult)
  also have "\<dots> = int (unat b div 16 * 16 + unat b mod 16)" by (simp only: of_nat_add of_nat_mult of_nat_numeral)
  finally show ?thesis by (simp only: div_mult_mod_eq)
qed

definition hex_text :: "u8 list \<Rightarrow> u8 list" where
  "hex_text bs = concat (map (\<lambda>b. hexs 2 (unat b)) bs)"

lemma hex_text_simps [simp]: "hex_text [] = []" "hex_text (b # bs) = hexs 2 (unat b) @ hex_text bs"
  "hex_text (xs @ ys) = hex_text xs @ hex_text ys"
  by (simp_all add: hex_text_def)

lemma length_hex_text [simp]: "length (hex_text bs) = 2 * length bs"
  by (induction bs) simp_all

lemma hex_bytes_text: "hex_bytes (length bs) (hex_text bs @ s) = (bs, s, True)"
proof (induction bs)
  case (Cons b bs)
  then show ?case using hex2_hexs [of b "hex_text bs @ s"] by simp
qed simp

lemma hex_chars_upper: "k < 16 \<Longrightarrow> hex_chars ! k = upper_digits ! k"
proof -
  assume "k < 16"
  then have "k \<in> {0,1,2,3,4,5,6,7,8,9,10,11,12,13,14,15}" by (auto simp: numeral_eq_Suc less_Suc_eq)
  then show ?thesis by (elim insertE emptyE) (simp_all add: hex_chars_def upper_digits_def ascii_def)
qed

lemma hex_chars_byte:
  "[hex_chars ! unat (drop_bit 4 b AND 0x0f), hex_chars ! unat (b AND 0x0f)] = hexs 2 (unat (b :: u8))"
proof -
  have m: "x AND 0x0f = take_bit 4 x" for x :: u8
    by (simp add: take_bit_eq_mask mask_eq_exp_minus_1)
  have "unat (drop_bit 4 b AND 0x0f) = unat b div 16 mod 16" "unat (b AND 0x0f) = unat b mod 16"
    unfolding m by (simp_all only: unsigned_take_bit_eq unat_drop_bit_eq) (simp_all add: take_bit_eq_mod drop_bit_eq_div)
  moreover have "unat b div 16 mod 16 < 16" "unat b mod 16 < 16" by simp_all
  ultimately show ?thesis by (simp only: hexs_2 hex_chars_upper)
qed

section \<open>One record\<close>

definition srec_sum :: "u32 \<Rightarrow> u8 list \<Rightarrow> u8" where
  "srec_sum a bs = word_of_nat (5 + length bs) + ucast (drop_bit 24 a) + ucast (drop_bit 16 a) + ucast (drop_bit 8 a) + ucast a + sum_list bs"

definition srec_line :: "u32 \<Rightarrow> u8 list \<Rightarrow> u8 list" where
  "srec_line a bs = 0x53 # 0x33 # hexs 2 (5 + length bs) @ hexs 8 (unat a) @ hex_text bs @ hexs 2 (unat (NOT (srec_sum a bs)))"

lemma length_srec_line: "length (srec_line a bs) = 14 + 2 * length bs"
  by (simp add: srec_line_def)

lemma conversion_hex2:
  "unat w < 256 \<Longrightarrow> conversion (0x30 # 0x32 # 0x58 # fmt) (Word w # args) n = Some (hexs 2 (unat w), [], fmt, args)"
  using number_hexs [of w 2]
  by (simp add: conversion_def read_width_def read_precision_def is_digit_def convert_def int_format_def int_arg_def)

lemma conversion_hex8:
  "conversion (0x30 # 0x38 # 0x6c # 0x58 # fmt) (Word w # args) n = Some (hexs 8 (unat w), [], fmt, args)"
  using number_hexs [of w 8] unsigned_less [of w]
  by (simp add: conversion_def read_width_def read_precision_def is_digit_def convert_def int_format_def int_arg_def)

lemma conversion_string:
  assumes "length s < 2 ^ 32"
  shows "conversion (0x73 # fmt) (Text (Some s) # args) n = Some (s, [], fmt, args)"
proof -
  have "unat (- 1 :: u32) = 4294967295" by (simp add: unsigned_minus_1_eq_mask mask_eq_exp_minus_1)
  then show ?thesis using assms
    by (simp add: conversion_def read_width_def read_precision_def is_digit_def convert_def put_string_def
        pad_loop_def has_def Let_def)
qed

lemma vsprintf_srec3:
  assumes "unat l < 256" "unat c < 256" "length s < 2 ^ 32"
  shows "vsprintf (ascii ''S3%02X%08lX%s%02X'' @ [0x0a]) [Word l, Word a, Text (Some s), Word c]
    = Some (0x53 # 0x33 # hexs 2 (unat l) @ hexs 8 (unat a) @ s @ hexs 2 (unat c) @ [0x0a],
        int (length (0x53 # 0x33 # hexs 2 (unat l) @ hexs 8 (unat a) @ s @ hexs 2 (unat c) @ [0x0a :: u8])), [])"
proof -
  have f: "ascii ''S3%02X%08lX%s%02X'' @ [0x0a] = [0x53, 0x33, 0x25, 0x30, 0x32, 0x58, 0x25, 0x30, 0x38, 0x6c, 0x58,
      0x25, 0x73, 0x25, 0x30, 0x32, 0x58, 0x0a]"
    by (simp add: ascii_def)
  show ?thesis using assms unfolding f vsprintf_def
    by (simp add: conversion_hex2 conversion_hex8 conversion_string)
qed

lemma ucast_u8_mod: "ucast (w :: u32) = (word_of_nat (unat w) :: u8)"
  by (simp add: word_of_nat_eq_iff unsigned_ucast_eq word_unat_eq_iff)

lemma srec3_record_line:
  assumes "length bs \<le> 16" "s = int (sum_list (map unat bs))"
  shows "srec3_record (length bs) a (hex_text bs) s = Some (srec_line a bs @ [0x0a])"
proof -
  let ?n = "length bs"
  define c where "c = fold (\<lambda>i s. s + uint (drop_bit (8 * i) a AND 0xff)) [0, 1, 2, 3]
    (fold (\<lambda>i s. s + (drop_bit (8 * i) (4 + int ?n + 1) AND 0xff)) [0, 1] s)"
  have l: "4 + int ?n + 1 = int (5 + ?n)" by simp
  have n: "5 + ?n < 256" using assms(1) by simp
  have ff: "(0xff :: int) = mask 8" "(0xff :: u32) = mask 8" by (simp_all add: mask_eq_exp_minus_1)
  have cs: "(word_of_int c :: u8) = srec_sum a bs"
  proof -
    have 1: "drop_bit (8 * 0) (4 + int ?n + 1) AND 0xff = 5 + int ?n" "drop_bit (8 * 1) (4 + int ?n + 1) AND 0xff = 0"
      using n unfolding ff take_bit_eq_mask [symmetric] by (simp_all add: take_bit_int_eq_self drop_bit_eq_div take_bit_eq_mod)
    have 2: "(word_of_int (uint (x AND 0xff :: u32)) :: u8) = ucast x" for x
    proof -
      have "(word_of_int (uint (x AND 0xff :: u32)) :: u8) = ucast (x AND 0xff)" by simp
      also have "\<dots> = ucast x" unfolding ff by (intro bit_word_eqI) (simp add: bit_simps)
      finally show ?thesis .
    qed
    have 3: "(word_of_int s :: u8) = sum_list bs" unfolding assms(2) by (induction bs) simp_all
    have c: "c = s + (5 + int ?n) + uint (drop_bit 0 a AND 0xff) + uint (drop_bit 8 a AND 0xff) +
        uint (drop_bit 16 a AND 0xff) + uint (drop_bit 24 a AND 0xff)"
      unfolding c_def using 1 by simp
    show ?thesis unfolding c of_int_add 2 3 srec_sum_def by (simp add: ac_simps)
  qed
  have lt: "unat x < 256" for x :: u8 using unsigned_less [where ?'a = nat and w = x] by simp
  have "NOT c AND 0xff = int (unat (NOT (srec_sum a bs)))"
  proof -
    have "NOT c AND 0xff = take_bit 8 (NOT c)" unfolding ff by (simp add: take_bit_eq_mask)
    also have "\<dots> = uint (NOT (word_of_int c :: u8))" by (simp add: unsigned_not_eq unsigned_of_int take_bit_not_take_bit)
    finally show ?thesis by (simp add: cs)
  qed
  moreover have "unat (word_of_nat (5 + ?n) :: u32) = 5 + ?n" using n by (subst unat_of_nat) simp
  moreover have "unat (word_of_nat (unat (NOT (srec_sum a bs))) :: u32) = unat (NOT (srec_sum a bs))"
    using lt [of "NOT (srec_sum a bs)"] by (subst unat_of_nat) simp
  moreover have "unat (NOT (srec_sum a bs)) < 256" by (rule lt)
  moreover have "length (hex_text bs) < 2 ^ 32" using assms(1) by simp
  ultimately show ?thesis
    unfolding srec3_record_def Let_def c_def [symmetric] unfolding l of_int_of_nat_eq using n
    by (simp add: vsprintf_srec3 srec_line_def)
qed

lemma hexs_8: "hexs 8 (unat a) = hex_text [ucast (drop_bit 24 a), ucast (drop_bit 16 a), ucast (drop_bit 8 a), ucast (a :: u32)]"
proof -
  have h: "hexs 2 (unat (ucast (drop_bit k a) :: u8)) = hexs 2 (unat a div 2 ^ k)" for k
  proof -
    have "unat (ucast (drop_bit k a) :: u8) = unat a div 2 ^ k mod 16 ^ 2"
      by (simp only: unsigned_ucast_eq unat_drop_bit_eq) (simp add: take_bit_eq_mod drop_bit_eq_div)
    then show ?thesis by (simp only: hexs_mod)
  qed
  have "hexs (2 + (2 + (2 + 2))) (unat a) = hexs 2 (unat a div 2 ^ 24) @ hexs 2 (unat a div 2 ^ 16) @ hexs 2 (unat a div 2 ^ 8) @ hexs 2 (unat a)"
    unfolding hexs_add [of 2] by (simp add: div_mult2_eq [symmetric])
  then show ?thesis using h [of 24] h [of 16] h [of 8] h [of 0] by simp
qed

definition srec_text :: "u32 \<Rightarrow> u8 list \<Rightarrow> u8 \<Rightarrow> u8 list" where
  "srec_text a bs k = 0x53 # 0x33 # hexs 2 (5 + length bs) @ hexs 8 (unat a) @ hex_text bs @ hexs 2 (unat k)"

lemma srec_decode_text:
  assumes "length bs \<le> 250"
  shows "srec_decode (srec_text a bs k) c0 a0 = (if k = NOT (srec_sum a bs) then 3 else - 3, int (length bs), a, bs)"
proof -
  let ?n = "length bs" and ?as = "[ucast (drop_bit 24 a), ucast (drop_bit 16 a), ucast (drop_bit 8 a), ucast (a :: u32)] :: u8 list"
  have u: "unat (word_of_nat (5 + ?n) :: u8) = 5 + ?n" using assms by (subst unat_of_nat) simp
  have s: "skip_to_S (srec_text a bs k) = 0x33 # hexs 2 (5 + ?n) @ hex_text ?as @ hex_text bs @ hexs 2 (unat k)"
    unfolding srec_text_def hexs_8 by simp
  have c: "hex2_bin (hexs 2 (5 + ?n) @ r) = 5 + int ?n" for r
    using hex2_hexs [of "word_of_nat (5 + ?n)" r] unfolding u by simp
  have f: "fold (\<lambda>b addr. push_bit 8 addr + ucast b) ?as 0 = a"
  proof -
    have "push_bit 8 x + ucast (y :: u8) = push_bit 8 x OR ucast y" for x :: u32 and y
      by (rule disjunctive_add) (auto simp: bit_simps dest: bit_imp_le_length)
    moreover have "push_bit 8 (push_bit 8 (push_bit 8 (push_bit 8 0 OR ucast (ucast (drop_bit 24 a) :: u8)) OR
        ucast (ucast (drop_bit 16 a) :: u8)) OR ucast (ucast (drop_bit 8 a) :: u8)) OR ucast (ucast a :: u8) = a" (is "?e = a")
    proof (rule bit_word_eqI)
      fix n assume "n < LENGTH(32)"
      then consider "n < 8" | "8 \<le> n" "n < 16" | "16 \<le> n" "n < 24" | "24 \<le> n" "n < 32" by fastforce
      then show "bit ?e n = bit a n"
        by cases (auto simp: bit_simps)
    qed
    ultimately show ?thesis by (simp only: fold_simps)
  qed
  have h: "hex_bytes 4 (hex_text ?as @ r) = (?as, r, True)" for r
  proof -
    have "length ?as = 4" by simp
    then show ?thesis using hex_bytes_text [of ?as r] by (simp only:)
  qed
  have d: "drop 2 (hexs 2 (5 + ?n) @ r) = r" for r by simp
  have k: "hex2_bin (hexs 2 (unat k)) = int (unat k)" using hex2_hexs [of k "[]"] by simp
  have w: "(word_of_int (5 + int ?n) :: u8) + sum_list ?as + sum_list bs = srec_sum a bs"
    by (simp add: srec_sum_def ac_simps)
  show ?thesis
    unfolding srec_decode_def s list.case Let_def c d
    using f w by (simp add: srec_kind_def addr_bytes_def h hex_bytes_text k del: fold_simps sum_list.Cons hex_text_simps)
qed

lemma srec_decode_line:
  assumes "length bs \<le> 250"
  shows "srec_decode (srec_line a bs) c0 a0 = (3, int (length bs), a, bs)"
  using srec_decode_text [OF assms, of a "NOT (srec_sum a bs)"] by (simp add: srec_line_def srec_text_def)

section \<open>Whole transfers\<close>

function srec_lines :: "u32 \<Rightarrow> u8 list \<Rightarrow> u8 list" where
  "srec_lines a bs = (if bs = [] then [] else srec_line a (take 16 bs) @ [0x0a] @ srec_lines (a + 16) (drop 16 bs))"
  by pat_completeness auto
termination by (relation "measure (\<lambda>(_, bs). length bs)") auto

declare srec_lines.simps [simp del]

definition read_mem :: "(u32 \<Rightarrow> u8) \<Rightarrow> u32 \<Rightarrow> nat \<Rightarrow> u8 list" where
  "read_mem m a n = map (\<lambda>i. m (a + word_of_nat i)) [0..<n]"

lemma read_mem_simps [simp]: "read_mem m a 0 = []" "length (read_mem m a n) = n"
  by (simp_all add: read_mem_def)

lemma read_mem_Suc: "read_mem m a (Suc n) = m a # read_mem m (a + 1) n"
  unfolding read_mem_def
  by (simp add: upt_conv_Cons del: upt_Suc flip: map_Suc_upt) (simp add: comp_def add.assoc)

lemma write_record_slow:
  assumes "slow c"
  shows "\<exists>k. write_record buf c = Some (0, c\<lparr>con_out := con_out c @ buf, con_polls := k\<rparr>)"
proof -
  have "slow (puts buf c)" using assms by (simp add: puts_out slow_def)
  then obtain k where "ctrlc (puts buf c) = Some (False, (puts buf c)\<lparr>con_polls := k\<rparr>)" using ctrlc_slow by blast
  then show ?thesis by (auto simp: write_record_def puts_out)
qed

lemma save_loop_lines:
  assumes "slow c" "0 < n" "length ds < 16"
  shows "\<exists>k. save_loop m a n (length ds) (int (sum_list (map unat ds))) (hex_text ds) c =
    Some (0, c\<lparr>con_out := con_out c @ srec_lines a (ds @ read_mem m (a + word_of_nat (length ds)) n), con_polls := k\<rparr>)"
  using assms
proof (induction n arbitrary: a ds c)
  case (Suc n)
  let ?b = "m (a + word_of_nat (length ds))"
  let ?ds = "ds @ [?b]"
  let ?s = "int (sum_list (map unat ?ds))" and ?r = "read_mem m (a + word_of_nat (length ds) + 1) n"
  have step: "save_loop m a (Suc n) (length ds) (int (sum_list (map unat ds))) (hex_text ds) c =
     (if length ?ds = 16 \<or> n = 0 then
        Option.bind (Option.bind (srec3_record (length ?ds) a (hex_text ?ds) ?s) (\<lambda>record'. write_record record' c))
          (\<lambda>(r, c). if r \<noteq> 0 then Some (- 1, c)
             else if n \<noteq> 0 then save_loop m (a + word_of_nat (Suc (length ds))) n 0 0 [] c else Some (0, c))
      else save_loop m a n (length ?ds) ?s (hex_text ?ds) c)"
    by (subst save_loop.simps) (simp add: SREC_BYTES_PER_RECORD_def hex_chars_byte Let_def)
  have rm: "ds @ read_mem m (a + word_of_nat (length ds)) (Suc n) = ?ds @ ?r" by (simp add: read_mem_Suc)
  show ?case
  proof (cases "length ?ds = 16 \<or> n = 0")
    case False
    then obtain k where "save_loop m a n (length ?ds) ?s (hex_text ?ds) c =
      Some (0, c\<lparr>con_out := con_out c @ srec_lines a (?ds @ read_mem m (a + word_of_nat (length ?ds)) n), con_polls := k\<rparr>)"
      using Suc.IH [of c ?ds a] Suc.prems by auto
    moreover have "read_mem m (a + word_of_nat (length ?ds)) n = ?r" by (simp add: add.assoc add.commute [of 1])
    ultimately show ?thesis unfolding step rm using False by auto
  next
    case True
    have le: "length ?ds \<le> 16" using Suc.prems(3) by simp
    have rec: "srec3_record (length ?ds) a (hex_text ?ds) ?s = Some (srec_line a ?ds @ [0x0a])"
      by (rule srec3_record_line [OF le refl])
    obtain k1 where w: "write_record (srec_line a ?ds @ [0x0a]) c =
        Some (0, c\<lparr>con_out := con_out c @ srec_line a ?ds @ [0x0a], con_polls := k1\<rparr>)"
      using write_record_slow [OF Suc.prems(1)] by blast
    show ?thesis
    proof (cases "n = 0")
      case n: True
      then have "srec_lines a (?ds @ ?r) = srec_line a ?ds @ [0x0a]"
        using le by (subst srec_lines.simps) (simp add: srec_lines.simps)
      then show ?thesis unfolding step rm rec using n w by auto
    next
      case n: False
      then have l16: "length ?ds = 16" using True by simp
      define c1 where "c1 = c\<lparr>con_out := con_out c @ srec_line a ?ds @ [0x0a], con_polls := k1\<rparr>"
      have "slow c1" using Suc.prems(1) by (simp add: c1_def slow_def)
      then obtain k where "save_loop m (a + 16) n 0 0 [] c1 =
        Some (0, c1\<lparr>con_out := con_out c1 @ srec_lines (a + 16) (read_mem m (a + 16) n), con_polls := k\<rparr>)"
        using Suc.IH [of c1 "[]" "a + 16"] n by auto
      moreover have "?r = read_mem m (a + 16) n"
      proof -
        have "length ds = 15" using l16 by simp
        then show ?thesis by (simp add: add.commute)
      qed
      moreover have "srec_lines a (?ds @ ?r) = srec_line a ?ds @ [0x0a] @ srec_lines (a + 16) ?r"
        using l16 by (subst srec_lines.simps) simp
      ultimately show ?thesis unfolding step rm rec using n w l16
        by (auto simp: c1_def [symmetric]) (auto simp: c1_def)
    qed
  qed
qed simp

definition line_char :: "u8 \<Rightarrow> bool" where
  "line_char x \<longleftrightarrow> x \<noteq> 0x0d \<and> x \<noteq> 0x0a \<and> x \<noteq> 0x00 \<and> x \<noteq> 0x03"

lemma line_char_upper: "k < 16 \<Longrightarrow> line_char (upper_digits ! k)"
proof -
  assume "k < 16"
  then have "k \<in> {0,1,2,3,4,5,6,7,8,9,10,11,12,13,14,15}" by (auto simp: numeral_eq_Suc less_Suc_eq)
  then show ?thesis by (elim insertE emptyE) (simp_all add: line_char_def upper_digits_def ascii_def)
qed

lemma line_char_hexs: "x \<in> set (hexs k n) \<Longrightarrow> line_char x"
  by (induction k n rule: hexs.induct) (auto intro: line_char_upper)

lemma line_char_srec: "x \<in> set (srec_line a bs) \<Longrightarrow> line_char x"
  unfolding srec_line_def hex_text_def by (auto dest: line_char_hexs) (simp_all add: line_char_def)

lemma read_record_line:
  assumes "slow c" "con_in c = l @ 0x0a # rest" "length l < n" "\<forall>x \<in> set l. line_char x"
  shows "\<exists>k out. read_record e r n buf c = Some (Some (buf @ l), c\<lparr>con_in := rest, con_out := out, con_polls := k\<rparr>)"
  using assms
proof (induction l arbitrary: n buf c)
  case Nil
  then obtain j where n: "n = Suc j" by (cases n) auto
  obtain out where "(if e then putc 0x0a (c\<lparr>con_in := rest\<rparr>) else c\<lparr>con_in := rest\<rparr>) = c\<lparr>con_in := rest, con_out := out, con_polls := con_polls c\<rparr>"
  proof
    let ?out = "if e then con_out c @ [0x0a] else con_out c"
    show "(if e then putc 0x0a (c\<lparr>con_in := rest\<rparr>) else c\<lparr>con_in := rest\<rparr>) = c\<lparr>con_in := rest, con_out := ?out, con_polls := con_polls c\<rparr>"
      by (cases c) (simp add: putc_def)
  qed
  then have "read_record e r n buf c = Some (Some (buf @ []), c\<lparr>con_in := rest, con_out := out, con_polls := con_polls c\<rparr>)"
    using Nil n by (simp add: getc_def)
  then show ?case by blast
next
  case (Cons x l)
  then obtain j where n: "n = Suc j" "length l < j" by (cases n) auto
  let ?c = "c\<lparr>con_in := l @ 0x0a # rest\<rparr>"
  define c1 where "c1 = (if e then putc x ?c else ?c)"
  have c1: "slow c1" "con_in c1 = l @ 0x0a # rest" "c1\<lparr>con_in := rest, con_out := o', con_polls := k\<rparr> = c\<lparr>con_in := rest, con_out := o', con_polls := k\<rparr>" for o' k
    using Cons.prems(1) by (simp_all add: c1_def putc_def slow_def)
  obtain k1 where k1: "ctrlc c1 = Some (False, c1\<lparr>con_polls := k1\<rparr>)" using ctrlc_slow [OF c1(1)] by blast
  define c2 where "c2 = (if r then c1\<lparr>con_polls := k1\<rparr> else c1)"
  have c2: "slow c2" "con_in c2 = l @ 0x0a # rest" "c2\<lparr>con_in := rest, con_out := o', con_polls := k\<rparr> = c\<lparr>con_in := rest, con_out := o', con_polls := k\<rparr>" for o' k
    using c1 by (simp_all add: c2_def slow_def)
  have ls: "\<forall>x \<in> set l. line_char x" using Cons.prems(4) by simp
  from Cons.IH [OF c2(1,2) n(2) ls, of "buf @ [x]"] obtain k out where
    "read_record e r j (buf @ [x]) c2 = Some (Some (buf @ x # l), c\<lparr>con_in := rest, con_out := out, con_polls := k\<rparr>)"
    unfolding c2(3) by auto
  moreover have "read_record e r (Suc j) buf c = read_record e r j (buf @ [x]) c2"
    using Cons.prems(2,4) k1 by (simp add: getc_def c1_def [symmetric] c2_def line_char_def)
  ultimately have "read_record e r (Suc j) buf c = Some (Some (buf @ x # l), c\<lparr>con_in := rest, con_out := out, con_polls := k\<rparr>)"
    by (simp only:)
  then show ?case unfolding n(1) by blast
qed

lemma store_bytes_append:
  assumes "length xs + length ys \<le> 2 ^ 32"
  shows "store_bytes (store_bytes m a xs) (a + word_of_nat (length xs)) ys = store_bytes m a (xs @ ys)"
proof
  fix x
  let ?i = "unat (x - a)" and ?n = "length xs"
  have e: "x - (a + word_of_nat ?n) = (x - a) - word_of_nat ?n" by simp
  show "store_bytes (store_bytes m a xs) (a + word_of_nat ?n) ys x = store_bytes m a (xs @ ys) x"
  proof (cases "ys = []")
    case True
    then show ?thesis by (simp add: store_bytes_def)
  next
    case False
    then have n: "?n < 2 ^ 32" using assms by (cases ys) simp_all
    then have un: "unat (word_of_nat ?n :: u32) = ?n" by (subst unat_of_nat) simp
    show ?thesis
    proof (cases "?n \<le> ?i")
      case True
      then have "unat (x - a - word_of_nat ?n) = ?i - ?n"
        using un by (simp add: unat_sub word_le_nat_alt)
      with True show ?thesis unfolding store_bytes_def Let_def e
        by (simp add: nth_append less_diff_conv2 add.commute)
    next
      case False
      then have "x - a - word_of_nat ?n = - (word_of_nat (?n - ?i))"
        by (simp add: of_nat_diff)
      moreover have "unat (- (word_of_nat (?n - ?i) :: u32)) = 2 ^ 32 - (?n - ?i)"
      proof -
        have "(word_of_nat (2 ^ 32 - (?n - ?i)) :: u32) = word_of_nat (2 ^ 32) - word_of_nat (?n - ?i)"
          using n by (intro of_nat_diff) simp
        then have "- (word_of_nat (?n - ?i) :: u32) = word_of_nat (2 ^ 32 - (?n - ?i))" by simp
        moreover have "2 ^ 32 - (?n - ?i) < 2 ^ 32" using False by simp
        ultimately show ?thesis by (simp only: unat_of_nat) simp
      qed
      ultimately have "\<not> unat (x - (a + word_of_nat ?n)) < length ys"
        unfolding e using assms n False by simp
      with False show ?thesis by (simp add: store_bytes_def Let_def nth_append)
    qed
  qed
qed

lemma hex_bytes_numeral:
  "hex_bytes (numeral k) input =
     (let v = hex2_bin input in
      if v < 0 then ([], input, False)
      else let (bs, rest, ok) = hex_bytes (pred_numeral k) (drop 2 input) in (word_of_int v # bs, rest, ok))"
  by (simp add: numeral_eq_Suc)

lemma hex_bytes_1:
  "hex_bytes 1 input =
     (let v = hex2_bin input in
      if v < 0 then ([], input, False)
      else let (bs, rest, ok) = hex_bytes 0 (drop 2 input) in (word_of_int v # bs, rest, ok))"
  by simp

lemmas srec_eval = ascii_def srec_decode_def srec_kind_def addr_bytes_def hex2_bin_def hex1_bin_def
  hex_bytes_numeral hex_bytes_1 push_bit_eq_mult

lemma srec_end: "srec_decode (ascii ''S70500000000FA'') c a = (7, 0, 0, [])"
  by (simp add: srec_eval)

lemma srec_start: "srec_decode (ascii ''S0030000FC'') c a = (0, 0, 0, [])"
  by (simp add: srec_eval)

text \<open>A record that claims fewer bytes than its address and checksum take is accepted with a negative length.\<close>

lemma srec_negative: "srec_decode (ascii ''S1010000FE'') c a = (1, - 2, 0, [])"
  by (simp add: srec_eval)

lemma vsprintf_hex: "\<exists>s. vsprintf (ascii ''%lX'') [Word w] = Some (s, int (length s), [])"
proof -
  define s where "s = (if w = 0 then [0x30] else rev (digit_loop upper_digits 16 w))"
  have "number w 16 (- 1) (- 1) LARGE = Some s"
    by (simp add: number_def has_def pad_loop_def Let_def s_def)
  moreover have "ascii ''%lX'' = [0x25, 0x6c, 0x58]" by (simp add: ascii_def)
  ultimately have "vsprintf (ascii ''%lX'') [Word w] = Some (s, int (length s), [])"
    by (simp add: vsprintf_conversion conversion_def read_width_def read_precision_def is_digit_def convert_def
        int_format_def int_arg_def)
  then show ?thesis by blast
qed

lemma dot_con: "\<exists>out. ld_con (dot e n st) = (ld_con st)\<lparr>con_out := out\<rparr> \<and> ld_mem (dot e n st) = ld_mem st"
proof -
  have "\<exists>out. ld_con st = (ld_con st)\<lparr>con_out := out\<rparr>"
    by (rule exI [of _ "con_out (ld_con st)"]) simp
  then show ?thesis by (cases "\<not> e \<and> n mod 100 = 0") (auto simp: dot_def putc_def)
qed

definition size_text :: "u32 \<Rightarrow> u8 list option" where
  "size_text n = map_option fst (vsprintf (ascii ''%lX'') [Word n])"

abbreviation end_line :: "u8 list" where
  "end_line \<equiv> ascii ''S70500000000FA'' @ [0x0a]"

lemma line_char_end: "\<forall>x \<in> set (ascii ''S70500000000FA''). line_char x" "\<forall>x \<in> set (ascii ''S0030000FC''). line_char x"
  by (simp_all add: ascii_def line_char_def)

lemma load_records_end:
  assumes "slow (ld_con st)" "con_in (ld_con st) = end_line @ rest"
  shows "\<exists>st'. load_records e r off bl ad start hi n st = Some (Loaded 0 st') \<and>
    ld_mem st' = ld_mem st \<and> con_in (ld_con st') = rest \<and> ld_filesize st' = size_text (hi - start + 1)"
proof -
  have "length (ascii ''S70500000000FA'') < SREC_MAXRECLEN" by (simp add: ascii_def SREC_MAXRECLEN_def)
  with assms obtain k out where
    "read_record e r SREC_MAXRECLEN [] (ld_con st) = Some (Some ([] @ ascii ''S70500000000FA''), (ld_con st)\<lparr>con_in := rest, con_out := out, con_polls := k\<rparr>)"
    using read_record_line [OF assms(1) _ _ line_char_end(1), of rest SREC_MAXRECLEN e r "[]"] by auto
  then show ?thesis by (subst load_records.simps) (simp add: srec_end size_text_def)
qed

lemma load_records_data:
  assumes "slow (ld_con st)" "con_in (ld_con st) = srec_line a bs @ 0x0a # rest" "length bs \<le> 16"
  shows "\<exists>st'. load_records e r off bl ad start hi n st =
      load_records e r off (int (length bs)) a (min start (a + off)) (max hi (a + off + word_of_nat (length bs) - 1)) (n + 1) st' \<and>
    slow (ld_con st') \<and> con_in (ld_con st') = rest \<and> ld_mem st' = store_bytes (ld_mem st) (a + off) bs"
proof -
  have "length (srec_line a bs) < SREC_MAXRECLEN" using assms(3) by (simp add: length_srec_line SREC_MAXRECLEN_def)
  then obtain k out where rr:
    "read_record e r SREC_MAXRECLEN [] (ld_con st) = Some (Some ([] @ srec_line a bs), (ld_con st)\<lparr>con_in := rest, con_out := out, con_polls := k\<rparr>)"
    using read_record_line [OF assms(1,2), of SREC_MAXRECLEN e r "[]"] line_char_srec by blast
  let ?st = "(st\<lparr>ld_con := (ld_con st)\<lparr>con_in := rest, con_out := out, con_polls := k\<rparr>\<rparr>)\<lparr>ld_mem := store_bytes (ld_mem st) (a + off) bs\<rparr>"
  have d: "srec_decode (srec_line a bs) bl ad = (3, int (length bs), a, bs)" using assms(3) by (intro srec_decode_line) simp
  have mn: "(if x < y then x else y) = min y x" "(if x < y then y else x) = max x y" for x y :: u32 by (auto simp: min_def max_def)
  have "load_records e r off bl ad start hi n st =
      load_records e r off (int (length bs)) a (min start (a + off)) (max hi (a + off + word_of_nat (length bs) - 1)) (n + 1) (dot e (n + 1) ?st)"
    by (subst load_records.simps) (simp add: rr d mn Let_def)
  moreover obtain out' where "ld_con (dot e (n + 1) ?st) = (ld_con ?st)\<lparr>con_out := out'\<rparr>" "ld_mem (dot e (n + 1) ?st) = ld_mem ?st"
    using dot_con by blast
  ultimately show ?thesis using assms(1) by (intro exI [of _ "dot e (n + 1) ?st"]) (simp add: slow_def)
qed

lemma load_records_lines:
  assumes "slow (ld_con st)" "con_in (ld_con st) = srec_lines a bs @ end_line @ rest"
    "unat (a + off) + length bs \<le> 2 ^ 32"
  shows "\<exists>st'. load_records e r off bl ad start hi n st = Some (Loaded 0 st') \<and>
    ld_mem st' = store_bytes (ld_mem st) (a + off) bs \<and> con_in (ld_con st') = rest \<and>
    ld_filesize st' = size_text (if bs = [] then hi - start + 1
      else max hi (a + off + word_of_nat (length bs) - 1) - min start (a + off) + 1)"
  using assms
proof (induction "length bs" arbitrary: a bs bl ad start hi n st rule: less_induct)
  case less
  show ?case
  proof (cases "bs = []")
    case True
    then have "con_in (ld_con st) = end_line @ rest" using less.prems(2) by (simp add: srec_lines.simps)
    moreover have "store_bytes (ld_mem st) (a + off) [] = ld_mem st" by (simp add: store_bytes_def)
    ultimately show ?thesis using load_records_end [OF less.prems(1)] True by auto
  next
    case False
    let ?t = "take 16 bs" and ?d = "drop 16 bs" and ?o = "a + off"
    have lt: "length ?t \<le> 16" "0 < length ?t" using False by simp_all
    have "con_in (ld_con st) = srec_line a ?t @ 0x0a # srec_lines (a + 16) ?d @ end_line @ rest"
      using less.prems(2) False by (subst (asm) srec_lines.simps) simp
    from load_records_data [OF less.prems(1) this lt(1), of e r off bl ad start hi n] obtain st1 where
      s1: "load_records e r off bl ad start hi n st =
        load_records e r off (int (length ?t)) a (min start ?o) (max hi (?o + word_of_nat (length ?t) - 1)) (n + 1) st1"
      "slow (ld_con st1)" "con_in (ld_con st1) = srec_lines (a + 16) ?d @ end_line @ rest"
      "ld_mem st1 = store_bytes (ld_mem st) ?o ?t" by blast
    show ?thesis
    proof (cases "?d = []")
      case True
      then have t: "?t = bs" by simp
      have "con_in (ld_con st1) = end_line @ rest" using s1(3) True by (simp add: srec_lines.simps)
      from load_records_end [OF s1(2) this] show ?thesis unfolding s1(1) s1(4) t using False by simp
    next
      case d: False
      then have l: "16 < length bs" by simp
      then have t16: "length ?t = 16" by simp
      have o16: "a + 16 + off = ?o + 16" by simp
      have u: "unat (?o + word_of_nat j) = unat ?o + j" if "j < length bs" for j
        using that less.prems(3) by (simp add: unat_word_ariths unat_of_nat)
      have w: "unat (a + 16 + off) + length ?d \<le> 2 ^ 32" using u [of 16] l less.prems(3) by (simp add: o16)
      have "length ?d < length bs" using l by simp
      note ih = less.hyps [OF this s1(2,3) w, unfolded o16 if_not_P [OF d],
          where bl = "int (length ?t)" and ad = a and start = "min start ?o"
            and hi = "max hi (?o + word_of_nat (length ?t) - 1)" and n = "n + 1"]
      obtain st' where
        s2: "load_records e r off (int (length ?t)) a (min start ?o) (max hi (?o + word_of_nat (length ?t) - 1)) (n + 1) st1 = Some (Loaded 0 st')"
        "ld_mem st' = store_bytes (ld_mem st1) (?o + 16) ?d" "con_in (ld_con st') = rest"
        "ld_filesize st' = size_text (max (max hi (?o + word_of_nat (length ?t) - 1)) (?o + 16 + word_of_nat (length ?d) - 1)
          - min (min start ?o) (?o + 16) + 1)"
        using ih by blast
      have "ld_mem st' = store_bytes (ld_mem st) ?o bs"
        using store_bytes_append [of ?t ?d "ld_mem st" ?o] less.prems(3) t16 unfolding s2(2) s1(4) by simp
      moreover have "?o \<le> ?o + 16" using u [of 16] l by (simp add: word_le_nat_alt)
      then have e1: "min (min start ?o) (?o + 16) = min start ?o" by (simp add: min.assoc min_absorb1)
      have e2: "?o + 16 + word_of_nat (length ?d) - 1 = ?o + word_of_nat (length bs) - 1"
        using l by (simp add: of_nat_diff)
      have e3: "max (max hi (?o + word_of_nat (length ?t) - 1)) (?o + word_of_nat (length bs) - 1)
          = max hi (?o + word_of_nat (length bs) - 1)"
      proof -
        have "?o + word_of_nat (length ?t) - 1 = ?o + word_of_nat 15" using t16 by simp
        moreover have "?o + word_of_nat (length bs) - 1 = ?o + word_of_nat (length bs - 1)" using l by (simp add: of_nat_diff)
        ultimately have "?o + word_of_nat (length ?t) - 1 \<le> ?o + word_of_nat (length bs) - 1"
          using u [of 15] u [of "length bs - 1"] l by (simp only: word_le_nat_alt)
        then show ?thesis by (simp add: max.assoc max_absorb2)
      qed
      have "ld_filesize st' = size_text (max hi (?o + word_of_nat (length bs) - 1) - min start ?o + 1)"
        unfolding s2(4) e1 e2 e3 ..
      ultimately show ?thesis unfolding s1(1) if_not_P [OF False] using s2(1,3) by blast
    qed
  qed
qed

lemma save_serial_lines:
  assumes "slow c" 
  shows "\<exists>k. save_serial m a n c = Some (0, c\<lparr>con_out :=
    con_out c @ ascii ''S0030000FC'' @ 0x0a # srec_lines a (read_mem m a n) @ end_line, con_polls := k\<rparr>)"
proof -
  obtain k1 where 1: "write_record (ascii ''S0030000FC'' @ [0x0a]) c =
      Some (0, c\<lparr>con_out := con_out c @ ascii ''S0030000FC'' @ [0x0a], con_polls := k1\<rparr>)"
    using write_record_slow [OF assms] by blast
  define c1 where "c1 = c\<lparr>con_out := con_out c @ ascii ''S0030000FC'' @ [0x0a], con_polls := k1\<rparr>"
  have s1: "slow c1" using assms by (simp add: c1_def slow_def)
  obtain k2 where 2: "save_loop m a n 0 0 [] c1 =
      Some (0, c1\<lparr>con_out := con_out c1 @ srec_lines a (read_mem m a n), con_polls := k2\<rparr>)"
  proof (cases "n = 0")
    case True
    then have "save_loop m a n 0 0 [] c1 = Some (0, c1)" by (simp add: save_loop.simps SREC_BYTES_PER_RECORD_def)
    moreover have "c1\<lparr>con_out := con_out c1 @ srec_lines a [], con_polls := con_polls c1\<rparr> = c1" by (simp add: srec_lines.simps)
    ultimately show thesis using that [of "con_polls c1"] True by simp
  next
    case False
    then show thesis using save_loop_lines [OF s1, of n "[]" m a] that by auto
  qed
  define c2 where "c2 = c1\<lparr>con_out := con_out c1 @ srec_lines a (read_mem m a n), con_polls := k2\<rparr>"
  have "slow c2" using s1 by (simp add: c2_def slow_def)
  then obtain k3 where 3: "write_record end_line c2 = Some (0, c2\<lparr>con_out := con_out c2 @ end_line, con_polls := k3\<rparr>)"
    using write_record_slow by blast
  have "save_serial m a n c = Some (0, c2\<lparr>con_out := con_out c2 @ end_line, con_polls := k3\<rparr>)"
    using 1 2 3 by (simp add: save_serial_def c1_def [symmetric] c2_def [symmetric])
  then show ?thesis by (intro exI [of _ k3]) (simp add: c1_def c2_def)
qed

lemma load_serial_lines:
  assumes "slow (ld_con st)" "con_in (ld_con st) = ascii ''S0030000FC'' @ 0x0a # srec_lines a bs @ end_line @ rest"
    "unat (a + off) + length bs \<le> 2 ^ 32"
  shows "\<exists>st'. load_serial e r off st = Some (Loaded 0 st') \<and>
    ld_mem st' = store_bytes (ld_mem st) (a + off) bs \<and> con_in (ld_con st') = rest \<and>
    ld_filesize st' = size_text (if bs = [] then 2 else word_of_nat (length bs))"
proof -
  have "length (ascii ''S0030000FC'') < SREC_MAXRECLEN" by (simp add: ascii_def SREC_MAXRECLEN_def)
  then obtain k out where rr:
    "read_record e r SREC_MAXRECLEN [] (ld_con st) = Some (Some ([] @ ascii ''S0030000FC''), (ld_con st)\<lparr>con_in := srec_lines a bs @ end_line @ rest, con_out := out, con_polls := k\<rparr>)"
    using read_record_line [OF assms(1,2) _ line_char_end(2), of SREC_MAXRECLEN e r "[]"] by blast
  let ?st = "st\<lparr>ld_con := (ld_con st)\<lparr>con_in := srec_lines a bs @ end_line @ rest, con_out := out, con_polls := k\<rparr>\<rparr>"
  define st1 where "st1 = dot e 1 ?st"
  obtain out' where d: "ld_con st1 = (ld_con ?st)\<lparr>con_out := out'\<rparr>" "ld_mem st1 = ld_mem ?st"
    using dot_con unfolding st1_def by blast
  have "load_serial e r off st = load_records e r off 0 0 (- 1) 0 1 st1"
    unfolding load_serial_def st1_def by (subst load_records.simps) (simp add: rr srec_start)
  moreover have "slow (ld_con st1)" "con_in (ld_con st1) = srec_lines a bs @ end_line @ rest"
    using assms(1) by (simp_all add: d slow_def)
  ultimately obtain st' where l: "load_serial e r off st = Some (Loaded 0 st')"
    "ld_mem st' = store_bytes (ld_mem st1) (a + off) bs" "con_in (ld_con st') = rest"
    "ld_filesize st' = size_text (if bs = [] then 0 - (- 1) + 1
      else max 0 (a + off + word_of_nat (length bs) - 1) - min (- 1) (a + off) + 1)"
    using load_records_lines [of st1 a bs rest off e r 0 0 "- 1" 0 1] assms(3) by auto
  have "max 0 x = x" "min (- 1) x = x" for x :: u32
    by (simp_all add: max_def min_absorb2 [OF word_order.extremum])
  then have "ld_filesize st' = size_text (if bs = [] then 2 else word_of_nat (length bs))"
    unfolding l(4) by simp
  with l(1-3) show ?thesis unfolding d by auto
qed

text \<open>C16: On a line that has nothing to say, \<open>save_serial\<close> sends the header, the data records and the end
  record; fed with that text and at any offset, \<open>load_serial\<close> stores exactly the bytes sent, consumes exactly the text,
  reports the start address 0 of the end record and sets the size (2 when nothing was sent, because of the initial range).\<close>

theorem saves_loads:
  assumes "slow c" "con_out c = []" "slow (ld_con st)" "unat (a + off) + n \<le> 2 ^ 32"
  shows "\<exists>c' st'. save_serial m a n c = Some (0, c') \<and>
    load_serial do_echo redirected off (st\<lparr>ld_con := (ld_con st)\<lparr>con_in := con_out c' @ rest\<rparr>\<rparr>) = Some (Loaded 0 st') \<and>
    ld_mem st' = store_bytes (ld_mem st) (a + off) (read_mem m a n) \<and> con_in (ld_con st') = rest \<and>
    ld_filesize st' = size_text (if n = 0 then 2 else word_of_nat n)"
proof -
  let ?text = "ascii ''S0030000FC'' @ 0x0a # srec_lines a (read_mem m a n) @ end_line"
  obtain k where "save_serial m a n c = Some (0, c\<lparr>con_out := con_out c @ ?text, con_polls := k\<rparr>)"
    using save_serial_lines [OF assms(1)] by blast
  moreover define c' where "c' = c\<lparr>con_out := con_out c @ ?text, con_polls := k\<rparr>"
  ultimately have s: "save_serial m a n c = Some (0, c')" by simp
  let ?st = "st\<lparr>ld_con := (ld_con st)\<lparr>con_in := con_out c' @ rest\<rparr>\<rparr>"
  have "slow (ld_con ?st)" using assms(3) by (simp add: slow_def)
  moreover have "con_in (ld_con ?st) = ascii ''S0030000FC'' @ 0x0a # srec_lines a (read_mem m a n) @ end_line @ rest"
    using assms(2) by (simp add: c'_def)
  moreover have "unat (a + off) + length (read_mem m a n) \<le> 2 ^ 32" using assms(4) by simp
  ultimately obtain st' where "load_serial do_echo redirected off ?st = Some (Loaded 0 st')"
    "ld_mem st' = store_bytes (ld_mem ?st) (a + off) (read_mem m a n)" "con_in (ld_con st') = rest"
    "ld_filesize st' = size_text (if read_mem m a n = [] then 2 else word_of_nat (length (read_mem m a n)))"
    using load_serial_lines by blast
  moreover have "read_mem m a n = [] \<longleftrightarrow> n = 0" by (simp add: read_mem_def)
  ultimately show ?thesis using s by (intro exI [of _ c'] exI [of _ st']) simp
qed

text \<open>A changed data byte is noticed.\<close>

lemma sum_list_update_ne:
  "i < length bs \<Longrightarrow> sum_list (bs[i := (b :: u8)]) = sum_list bs - bs ! i + b"
  by (induction bs arbitrary: i) (auto split: nat.split simp: algebra_simps)

text \<open>\<open>srec_decode\<close> reads a data record back, and rejects it with the checksum error when any one data byte is changed.\<close>

theorem srec_byte_error:
  assumes "length bs \<le> 250" "i < length bs" "b \<noteq> bs ! i"
  shows "srec_decode (srec_text a bs (NOT (srec_sum a bs))) c0 a0 = (3, int (length bs), a, bs) \<and>
    srec_decode (srec_text a (bs[i := b]) (NOT (srec_sum a bs))) c0 a0 = (- 3, int (length bs), a, bs[i := b])"
proof -
  have "srec_sum a (bs[i := b]) \<noteq> srec_sum a bs"
    using assms(2,3) by (simp add: srec_sum_def sum_list_update_ne)
  then have "NOT (srec_sum a bs) \<noteq> NOT (srec_sum a (bs[i := b]))" by simp
  then show ?thesis using srec_decode_text [of bs] srec_decode_text [of "bs[i := b]"] assms(1) by simp
qed

text \<open>The text of a record fits the buffer \<open>record[48]\<close>.\<close>

lemma srec_line_fits: "length bs \<le> 16 \<Longrightarrow> length (srec_line a bs @ [0x0a]) + 1 \<le> 2 * 16 + 16"
  by (simp add: length_srec_line)

text \<open>\<open>for (i=0; i<100; ++i)\<close>: characters that have arrived are thrown away.\<close>

fun drain :: "nat \<Rightarrow> con \<Rightarrow> con option" where
  "drain 0 c = Some c"
| "drain (Suc n) c =
     (let (ready, c) = tstc c
      in if ready then Option.bind (getc c) (\<lambda>(_, c). drain n c) else drain n c)"

text \<open>The command \<open>loads\<close>: its result with the new \<open>load_addr\<close>; \<open>Inl ()\<close> when the copy overran.\<close>

definition do_load_serial ::
    "(u8 list \<Rightarrow> u8 list option) \<Rightarrow> bool \<Rightarrow> u8 list list \<Rightarrow> u32 \<Rightarrow> loader \<Rightarrow> (unit + int \<times> u32 \<times> loader) option" where
  "do_load_serial getenv redirected argv load_addr st =
     (let do_echo = (case getenv (ascii ''loads_echo'') of None \<Rightarrow> False | Some v \<Rightarrow> deref v = 0x31);
          offset = (if length argv = 2 then fst (simple_strtoul (argv ! 1) 16) else 0)
      in Option.bind (load_serial do_echo redirected offset st) (\<lambda>r.
           case r of
             Overrun \<Rightarrow> Some (Inl ())
           | Loaded addr st \<Rightarrow>
               Option.bind (drain 100 (ld_con st)) (\<lambda>c.
                 let st = st\<lparr>ld_con := c\<rparr>
                 in Some (Inr (if addr = - 1 then (1, load_addr, st) else (0, addr, st))))))"

text \<open>On a fast line the poll for control-C swallows the next character of the record.\<close>

text \<open>Because \<open>read_record\<close> polls for control-C after each character, a second character that has already arrived is
  lost from the record.\<close>

theorem loads_loses_character:
  assumes "con_in c = x # y # s" "line_char x" "y \<noteq> 0x03" "con_ready c (con_polls c)"
    "\<not> ctrlc_disabled c" "have_console c"
  shows "\<exists>c'. read_record do_echo True (Suc n) buf c = read_record do_echo True n (buf @ [x]) c' \<and> con_in c' = s"
proof -
  define c1 where "c1 = (if do_echo then putc x (c\<lparr>con_in := y # s\<rparr>) else c\<lparr>con_in := y # s\<rparr>)"
  have "con_in c1 = y # s" "con_ready c1 (con_polls c1)" "\<not> ctrlc_disabled c1" "have_console c1"
    using assms(4-6) by (simp_all add: c1_def putc_def)
  then obtain c2 where "ctrlc c1 = Some (False, c2)" "con_in c2 = s" using ctrlc_drops [of c1 y s] assms(3) by blast
  then show ?thesis using assms(1,2) by (intro exI [of _ c2]) (simp add: getc_def c1_def [symmetric] line_char_def)
qed

text \<open>A record whose count is smaller than its address and checksum passes \<open>srec_decode\<close> with a negative length, and
  \<open>load_serial\<close> hands that to \<open>memcpy\<close>.\<close>

theorem loads_negative_length:
  assumes "slow (ld_con st)" "con_in (ld_con st) = ascii ''S1010000FE'' @ 0x0a # rest"
  shows "load_serial do_echo redirected off st = Some Overrun"
proof -
  have "length (ascii ''S1010000FE'') < SREC_MAXRECLEN" "\<forall>x \<in> set (ascii ''S1010000FE''). line_char x"
    by (simp_all add: ascii_def SREC_MAXRECLEN_def line_char_def)
  then obtain k out where "read_record do_echo redirected SREC_MAXRECLEN [] (ld_con st) =
      Some (Some ([] @ ascii ''S1010000FE''), (ld_con st)\<lparr>con_in := rest, con_out := out, con_polls := k\<rparr>)"
    using read_record_line [OF assms, of SREC_MAXRECLEN do_echo redirected "[]"] by blast
  then show ?thesis unfolding load_serial_def by (subst load_records.simps) (simp add: srec_negative)
qed

definition idle_loader :: loader where
  "idle_loader = \<lparr>ld_mem = \<lambda>_. 0, ld_con = idle_con, ld_filesize = None\<rparr>"

theorem saves_loads_witness:
  "\<exists>c' st'. save_serial (\<lambda>a. ucast a) 0x1000 100 idle_con = Some (0, c') \<and>
    load_serial False True 0x80000000 (idle_loader\<lparr>ld_con := (ld_con idle_loader)\<lparr>con_in := con_out c' @ [0x0a]\<rparr>\<rparr>) = Some (Loaded 0 st') \<and>
    ld_mem st' = store_bytes (ld_mem idle_loader) (0x1000 + 0x80000000) (read_mem (\<lambda>a. ucast a) 0x1000 100) \<and>
    con_in (ld_con st') = [0x0a] \<and> ld_filesize st' = size_text (if 100 = (0 :: nat) then 2 else word_of_nat 100)"
  by (rule saves_loads) (simp_all add: slow_def idle_con_def idle_loader_def)

theorem srec_byte_error_witness:
  "srec_decode (srec_text 0x1000 [1, 2, 3] (NOT (srec_sum 0x1000 [1, 2, 3]))) 0 0 = (3, int (length [1, 2, 3 :: u8]), 0x1000, [1, 2, 3]) \<and>
    srec_decode (srec_text 0x1000 ([1, 2, 3][1 := 9]) (NOT (srec_sum 0x1000 [1, 2, 3]))) 0 0 =
      (- 3, int (length [1, 2, 3 :: u8]), 0x1000, [1, 2, 3][1 := 9])"
  by (rule srec_byte_error) simp_all

theorem loads_loses_character_witness:
  "\<exists>c'. read_record False True (Suc 9) [] (idle_con\<lparr>con_in := [0x53, 0x37, 0x0a], con_ready := \<lambda>_. True\<rparr>) =
      read_record False True 9 ([] @ [0x53]) c' \<and> con_in c' = [0x0a]"
  by (rule loads_loses_character [where y = "0x37"]) (simp_all add: idle_con_def line_char_def)

theorem loads_negative_length_witness:
  "load_serial False True 0 (idle_loader\<lparr>ld_con := idle_con\<lparr>con_in := ascii ''S1010000FE'' @ 0x0a # []\<rparr>\<rparr>) = Some Overrun"
  by (rule loads_negative_length) (simp_all add: slow_def idle_con_def)

end
