(* ===== verification/Kermit.thy ===== *)
theory Kermit
  imports SRecord
begin

text \<open>
  The Kermit receiver of \<open>common/cmd_load.c\<close> (\<open>loadb\<close>). Characters are bytes: \<open>char\<close> is signed on this
  target, which only matters in \<open>chk1\<close>. The packet types are \<open>S\<close> (0x53), \<open>D\<close> (0x44), \<open>Y\<close> (0x59),
  \<open>N\<close> (0x4e) and \<open>B\<close> (0x42).
\<close>

definition tochar :: "int \<Rightarrow> u8" where "tochar x = word_of_int (x + 0x20)"
definition untochar :: "u8 \<Rightarrow> int" where "untochar x = int (unat (x - 0x20))"

definition ktrans :: "u8 \<Rightarrow> u8" where
  "ktrans c =
     (if c AND 0x60 = 0x40 then c AND NOT 0x40 else if c AND 0x7f = 0x3f then c OR 0x40 else c)"

text \<open>Up to the terminator, with signed characters.\<close>

definition chk1 :: "u8 list \<Rightarrow> int" where
  "chk1 buffer =
     (let total = sum_list (map sint (takeWhile (\<lambda>c. c \<noteq> 0) buffer))
      in (total + (drop_bit 6 total AND 0x03)) AND 0x3f)"

text \<open>The variables of the receiver.\<close>

record kermit =
  k_con :: con
  k_mem :: "u32 \<Rightarrow> u8"
  his_eol :: u8
  his_pad_count :: int
  his_pad_char :: u8
  his_quote :: u8
  bin_start_address :: u32
  os_data_addr :: u32
  os_data_addr_saved :: u32
  k_data_escape :: bool
  k_data_escape_saved :: bool
  k_state :: u8
  k_state_saved :: u8
  k_n :: int
  k_last_n :: int
  send_parms :: "u8 list"

section \<open>Replies\<close>

definition send_pad :: "kermit \<Rightarrow> kermit" where
  "send_pad k = k\<lparr>k_con := puts (replicate (nat (his_pad_count k)) (his_pad_char k)) (k_con k)\<rparr>"

definition s1_sendpacket :: "u8 list \<Rightarrow> kermit \<Rightarrow> kermit" where
  "s1_sendpacket packet k =
     (let k = send_pad k in k\<lparr>k_con := puts (takeWhile (\<lambda>c. c \<noteq> 0) packet) (k_con k)\<rparr>)"

definition reply :: "u8 \<Rightarrow> int \<Rightarrow> u8 list \<Rightarrow> kermit \<Rightarrow> kermit" where
  "reply type n data k =
     (let body = [tochar (3 + int (length data)), tochar n, type] @ data
      in s1_sendpacket ([0x01] @ body @ [tochar (chk1 body), his_eol k]) k)"

definition send_ack :: "int \<Rightarrow> kermit \<Rightarrow> kermit" where "send_ack n k = reply 0x59 n [] k"
definition send_nack :: "int \<Rightarrow> kermit \<Rightarrow> kermit" where "send_nack n k = reply 0x4e n [] k"

text \<open>
  \<open>handle_send_packet\<close>: each parameter he gives is taken in turn and answered; \<open>bytes\<close> is how many he gave.
\<close>

definition given_bytes :: "kermit \<Rightarrow> nat" where
  "given_bytes k = (if length (send_parms k) = 19 then 18 else length (send_parms k))"

definition take_parms :: "kermit \<Rightarrow> kermit" where
  "take_parms k =
     (let p = send_parms k; bytes = given_bytes k in
      k\<lparr>his_pad_count := (if 3 \<le> bytes then untochar (p ! 2) else 0),
        his_pad_char := (if 4 \<le> bytes then ktrans (p ! 3) else 0),
        his_eol := (if 5 \<le> bytes then word_of_int (untochar (p ! 4)) else 0x0d),
        his_quote := (if 6 \<le> bytes then p ! 5 else 0x23)\<rparr>)"

definition handle_send_packet :: "int \<Rightarrow> kermit \<Rightarrow> kermit" where
  "handle_send_packet n k =
     (let bytes = given_bytes k;
          answer = take bytes [tochar 94, tochar 1, tochar 0, 0x40, tochar 0x0d, 0x23, 0x4e, 0x31, 0x4e] @
            (if 10 \<le> bytes then [tochar 2, tochar 0, tochar 94, tochar 94] else [])
      in reply 0x59 n answer (take_parms k))"

section \<open>Data\<close>

definition bin_data_char :: "u8 \<Rightarrow> kermit \<Rightarrow> kermit" where
  "bin_data_char c k = k\<lparr>k_mem := (k_mem k)(os_data_addr k := c), os_data_addr := os_data_addr k + 1\<rparr>"

definition k_data_save :: "kermit \<Rightarrow> kermit" where
  "k_data_save k = k\<lparr>k_data_escape_saved := k_data_escape k, os_data_addr_saved := os_data_addr k\<rparr>"

definition k_data_restore :: "kermit \<Rightarrow> kermit" where
  "k_data_restore k = k\<lparr>k_data_escape := k_data_escape_saved k, os_data_addr := os_data_addr_saved k\<rparr>"

definition k_data_char :: "u8 \<Rightarrow> kermit \<Rightarrow> kermit" where
  "k_data_char c k =
     (if k_data_escape k then (bin_data_char (ktrans c) k)\<lparr>k_data_escape := False\<rparr>
      else if c = his_quote k then k\<lparr>k_data_escape := True\<rparr>
      else bin_data_char c k)"

definition keep_parm :: "u8 \<Rightarrow> kermit \<Rightarrow> kermit" where
  "keep_parm c k = (if length (send_parms k) = 19 then k else k\<lparr>send_parms := send_parms k @ [c]\<rparr>)"

section \<open>\<open>k_recv\<close>\<close>

text \<open>The next character of a packet: a control character goes to \<open>packet_error\<close>.\<close>

definition next_char :: "kermit \<Rightarrow> (u8 \<Rightarrow> kermit \<Rightarrow> 'a option) \<Rightarrow> (kermit \<Rightarrow> 'a option) \<Rightarrow> 'a option" where
  "next_char k f packet_error =
     Option.bind (getc (k_con k)) (\<lambda>(c, con).
       let k = k\<lparr>k_con := con\<rparr> in if c AND 0xE0 = 0 then packet_error k else f c k)"

definition sum_char :: "int \<Rightarrow> u8" where
  "sum_char acc = tochar ((acc + (drop_bit 6 acc AND 0x03)) AND 0x3f)"

text \<open>\<open>while (length > 1)\<close>, the rest of the packet: whether it was good, and the sum.\<close>

fun packet_body :: "nat \<Rightarrow> int \<Rightarrow> kermit \<Rightarrow> (bool \<times> int \<times> kermit) option" where
  "packet_body 0 acc k = Some (True, acc, k)"
| "packet_body (Suc len) acc k =
     next_char k
       (\<lambda>c k. packet_body len (acc + int (unat c))
          (if k_state k = 0x44 then k_data_char c k else if k_state k = 0x53 then keep_parm c k else k))
       (\<lambda>k. Some (False, acc, k))"

text \<open>The check character and the end of the packet: whether the packet was good.\<close>

definition packet_end :: "int \<Rightarrow> kermit \<Rightarrow> (bool \<times> kermit) option" where
  "packet_end acc k =
     next_char k
       (\<lambda>c k. if c \<noteq> sum_char acc then Some (False, k)
          else Option.bind (getc (k_con k)) (\<lambda>(c, con). Some (c = 0x0d, k\<lparr>k_con := con\<rparr>)))
       (\<lambda>k. Some (False, k))"

text \<open>The extended header: the length, and whether it was good.\<close>

definition long_header :: "int \<Rightarrow> kermit \<Rightarrow> (bool \<times> int \<times> int \<times> kermit) option" where
  "long_header acc k =
     next_char k
       (\<lambda>hi k. let acc = acc + int (unat hi) in next_char k
          (\<lambda>lo k. let acc = acc + int (unat lo) in next_char k
             (\<lambda>c k. if c \<noteq> sum_char acc then Some (False, 0, acc, k)
                else Some (True, untochar hi * 95 + untochar lo, acc + int (unat c), k))
             (\<lambda>k. Some (False, 0, acc, k)))
          (\<lambda>k. Some (False, 0, acc, k)))
       (\<lambda>k. Some (False, 0, acc, k))"

text \<open>A packet with a sequence number seen before is a retry: start again from the state before it.\<close>

definition checkpoint :: "int \<Rightarrow> kermit \<Rightarrow> kermit" where
  "checkpoint n k =
     (let k = k\<lparr>k_n := n\<rparr> in
      if n = k_last_n k then k_data_restore (k\<lparr>k_state := k_state_saved k\<rparr>)
      else k_data_save (k\<lparr>k_last_n := n, k_state_saved := k_state k\<rparr>))"

text \<open>A packet from its length on.\<close>

definition packet :: "kermit \<Rightarrow> (bool \<times> kermit) option" where
  "packet k =
     next_char k
       (\<lambda>len k. next_char k
          (\<lambda>n k. let k = checkpoint (untochar n) k in next_char k
             (\<lambda>type k.
                let acc = int (unat len) + int (unat n) + int (unat type);
                    k = k\<lparr>k_state := type\<rparr>;
                    length' = untochar len - 2
                in Option.bind (if length' = - 2 then long_header acc k else Some (True, length', acc, k))
                     (\<lambda>(good, length', acc, k).
                       if \<not> good then Some (False, k)
                       else Option.bind (packet_body (nat (length' - 1)) acc k) (\<lambda>(good, acc, k).
                         if \<not> good then Some (False, k) else packet_end acc k)))
             (\<lambda>k. Some (False, k)))
          (\<lambda>k. Some (False, k)))
       (\<lambda>k. Some (False, k))"

text \<open>Waiting for the start of a packet: false for control-C.\<close>

fun wait_start :: "u8 list \<Rightarrow> (bool \<times> u8 list) option" where
  "wait_start [] = None"
| "wait_start (c # s) = (if c = 0x01 then Some (True, s) else if c = 0x03 then Some (False, s) else wait_start s)"

text \<open>The main loop; the result is the number of bytes, 0 after a control-C.\<close>

partial_function (option) recv_loop :: "kermit \<Rightarrow> (u32 \<times> kermit) option" where
  "recv_loop k =
     Option.bind (wait_start (con_in (k_con k))) (\<lambda>(started, s).
       let k = k\<lparr>k_con := (k_con k)\<lparr>con_in := s\<rparr>, send_parms := []\<rparr> in
       if \<not> started then Some (0, k)
       else Option.bind (packet k) (\<lambda>(good, k).
         if \<not> good then recv_loop (send_nack (k_n k) (k_data_restore (k\<lparr>k_state := k_state_saved k\<rparr>)))
         else if k_state k = 0x53 then recv_loop (handle_send_packet (k_n k) k)
         else
           let k = send_ack (k_n k) k in
           if k_state k = 0x42 then Some (os_data_addr k - bin_start_address k, k) else recv_loop k))"

definition k_recv :: "kermit \<Rightarrow> (u32 \<times> kermit) option" where
  "k_recv k =
     recv_loop (k\<lparr>his_eol := 0x0d, his_pad_count := 0, his_pad_char := 0, his_quote := 0x23, k_state := 0,
       k_data_escape := False, os_data_addr := bin_start_address k, k_state_saved := 0,
       k_data_escape_saved := False, os_data_addr_saved := bin_start_address k, k_n := 0, k_last_n := - 1\<rparr>)"

text \<open>\<open>load_serial_bin\<close>: the address to load to, and the value for \<open>filesize\<close>.\<close>

definition load_serial_bin :: "u32 \<Rightarrow> kermit \<Rightarrow> (u32 \<times> u8 list option \<times> kermit) option" where
  "load_serial_bin offset k =
     Option.bind (k_recv (k\<lparr>bin_start_address := offset\<rparr>)) (\<lambda>(len, k).
       Option.bind (drain 100 (k_con k)) (\<lambda>c.
         Some (offset, map_option fst (vsprintf (ascii ''%X'') [Word len]), k\<lparr>k_con := c\<rparr>)))"

section \<open>What the receiver does with a packet\<close>

text \<open>The state when the rest of the input is \<open>s\<close>.\<close>

definition feed :: "kermit \<Rightarrow> u8 list \<Rightarrow> kermit" where
  "feed k s = k\<lparr>k_con := (k_con k)\<lparr>con_in := s\<rparr>\<rparr>"

named_theorems feed_simps

lemma feed_feed [feed_simps]: "feed (feed k s) s' = feed k s'"
  "con_in (k_con (feed k s)) = s"
  by (simp_all add: feed_def)

lemma feed_fields [feed_simps]: "k_mem (feed k s) = k_mem k" "his_quote (feed k s) = his_quote k"
  "bin_start_address (feed k s) = bin_start_address k" "os_data_addr (feed k s) = os_data_addr k"
  "os_data_addr_saved (feed k s) = os_data_addr_saved k" "k_data_escape (feed k s) = k_data_escape k"
  "k_data_escape_saved (feed k s) = k_data_escape_saved k" "k_state (feed k s) = k_state k"
  "k_state_saved (feed k s) = k_state_saved k" "k_n (feed k s) = k_n k" "k_last_n (feed k s) = k_last_n k"
  "send_parms (feed k s) = send_parms k"
  by (simp_all add: feed_def)

lemma feed_ops [feed_simps]:
  "k_data_char c (feed k s) = feed (k_data_char c k) s"
  "keep_parm c (feed k s) = feed (keep_parm c k) s"
  "checkpoint n (feed k s) = feed (checkpoint n k) s"
  "k_data_restore (feed k s) = feed (k_data_restore k) s"
  "(feed k s)\<lparr>k_state := t\<rparr> = feed (k\<lparr>k_state := t\<rparr>) s"
  by (simp_all add: feed_def k_data_char_def bin_data_char_def keep_parm_def checkpoint_def k_data_restore_def
      k_data_save_def Let_def)

lemma feed_self: "con_in (k_con k) = s \<Longrightarrow> feed k s = k"
  by (cases k; cases "k_con k") (auto simp: feed_def)

definition plain :: "u8 \<Rightarrow> bool" where "plain c \<longleftrightarrow> c AND 0xE0 \<noteq> 0"

lemma next_char_plain:
  "plain c \<Longrightarrow> next_char (feed k (c # s)) f e = f c (feed k s)"
  by (simp add: next_char_def getc_def feed_def plain_def)

definition deliver :: "u8 \<Rightarrow> u8 list \<Rightarrow> kermit \<Rightarrow> kermit" where
  "deliver t d k = fold (\<lambda>c k. if t = 0x44 then k_data_char c k else if t = 0x53 then keep_parm c k else k) d k"

lemma deliver_simps [simp]: "deliver t [] k = k"
  "deliver t (c # d) k = deliver t d (if t = 0x44 then k_data_char c k else if t = 0x53 then keep_parm c k else k)"
  by (simp_all add: deliver_def)

lemma k_state_ops [simp]: "k_state (k_data_char c k) = k_state k" "k_state (keep_parm c k) = k_state k"
  by (simp_all add: k_data_char_def bin_data_char_def keep_parm_def)

definition chars_sum :: "u8 list \<Rightarrow> int" where "chars_sum cs = int (sum_list (map unat cs))"

lemma chars_sum_simps [simp]: "chars_sum [] = 0" "chars_sum (c # cs) = int (unat c) + chars_sum cs"
  "chars_sum (xs @ ys) = chars_sum xs + chars_sum ys"
  by (simp_all add: chars_sum_def)

lemma packet_body_deliver:
  "\<forall>c \<in> set d. plain c \<Longrightarrow> k_state k = t \<Longrightarrow>
    packet_body (length d) acc (feed k (d @ s)) = Some (True, acc + chars_sum d, feed (deliver t d k) s)"
proof (induction d arbitrary: k acc)
  case (Cons c d)
  define k1 where "k1 = (if t = 0x44 then k_data_char c k else if t = 0x53 then keep_parm c k else k)"
  have s1: "k_state k1 = t" using Cons.prems(2) by (simp add: k1_def)
  have "packet_body (length (c # d)) acc (feed k ((c # d) @ s)) = packet_body (length d) (acc + int (unat c)) (feed k1 (d @ s))"
    using Cons.prems by (simp add: next_char_plain k1_def feed_simps)
  also have "\<dots> = Some (True, acc + int (unat c) + chars_sum d, feed (deliver t d k1) s)"
    by (rule Cons.IH [OF _ s1]) (use Cons.prems in simp)
  finally show ?case by (simp add: k1_def add.assoc)
qed simp

section \<open>Frames\<close>

definition header :: "int \<Rightarrow> u8 \<Rightarrow> nat \<Rightarrow> u8 list" where
  "header n t len =
     (if len \<le> 91 then [tochar (int len + 3), tochar n, t]
      else let h = [tochar 0, tochar n, t, tochar (int ((len + 1) div 95)), tochar (int ((len + 1) mod 95))]
           in h @ [sum_char (chars_sum h)])"

definition check :: "int \<Rightarrow> u8 \<Rightarrow> u8 list \<Rightarrow> u8" where
  "check n t d = sum_char (chars_sum (header n t (length d) @ d))"

lemma untochar_tochar: "0 \<le> x \<Longrightarrow> x < 256 \<Longrightarrow> untochar (tochar x) = x"
  by (simp add: untochar_def tochar_def unsigned_of_int take_bit_int_eq_self)

lemma uint_tochar: "0 \<le> x \<Longrightarrow> x < 224 \<Longrightarrow> uint (tochar x) = x + 32"
  unfolding tochar_def by (subst uint_word_of_int_eq) (simp add: take_bit_int_eq_self)

lemma control_less:
  assumes "c AND 0xE0 = (0 :: u8)"
  shows "unat c < 32"
proof -
  have e: "(0xE0 :: u8) = NOT (mask 5)" by (simp add: mask_eq_exp_minus_1)
  have "c AND NOT (mask 5) = 0" using assms unfolding e .
  then have "c = c AND mask 5" by (simp add: bit_eq_iff bit_simps) blast
  then have "c = take_bit 5 c" by (simp add: take_bit_eq_mask)
  then have "unat c = take_bit 5 (unat c)" by (metis unsigned_take_bit_eq)
  then show ?thesis using take_bit_nat_less_exp [of 5 "unat c"] by simp
qed

lemma plain_tochar: "0 \<le> x \<Longrightarrow> x < 224 \<Longrightarrow> plain (tochar x)"
proof -
  assume x: "0 \<le> x" "x < 224"
  have "int (unat (tochar x)) = x + 32" using uint_tochar [OF x] by simp
  then have "\<not> unat (tochar x) < 32" using x by linarith
  then show ?thesis unfolding plain_def using control_less by blast
qed

lemma plain_sum_char: "plain (sum_char acc)"
proof -
  let ?x = "(acc + (drop_bit 6 acc AND 0x03)) AND 0x3f"
  have "?x = take_bit 6 (acc + (drop_bit 6 acc AND 0x03))"
    by (simp add: take_bit_eq_mask mask_eq_exp_minus_1)
  then have "0 \<le> ?x" "?x < 64" using take_bit_int_less_exp [of 6 "acc + (drop_bit 6 acc AND 0x03)"] by simp_all
  then show ?thesis unfolding sum_char_def by (intro plain_tochar) linarith+
qed

lemma next_char_control: "\<not> plain c \<Longrightarrow> next_char (feed k (c # s)) f e = e (feed k s)"
  by (simp add: next_char_def getc_def feed_def plain_def)

lemma packet_end_good: "c = sum_char acc \<Longrightarrow> packet_end acc (feed k (c # 0x0d # s)) = Some (True, feed k s)"
  by (simp add: packet_end_def next_char_plain plain_sum_char feed_simps getc_def) (simp add: feed_def)

lemma packet_end_bad: "c \<noteq> sum_char acc \<Longrightarrow> packet_end acc (feed k (c # s)) = Some (False, feed k s)"
  by (cases "plain c") (simp_all add: packet_end_def next_char_plain next_char_control)

text \<open>A whole frame, with the check character it carries.\<close>

definition frame :: "int \<Rightarrow> u8 \<Rightarrow> u8 list \<Rightarrow> u8 \<Rightarrow> u8 list" where
  "frame n t d c = 0x01 # header n t (length d) @ d @ [c, 0x0d]"

definition frame_ok :: "int \<Rightarrow> u8 \<Rightarrow> u8 list \<Rightarrow> bool" where
  "frame_ok n t d \<longleftrightarrow> 0 \<le> n \<and> n < 64 \<and> plain t \<and> (\<forall>c \<in> set d. plain c) \<and> length d \<le> 9024"

definition enter :: "int \<Rightarrow> u8 \<Rightarrow> u8 list \<Rightarrow> kermit \<Rightarrow> kermit" where
  "enter n t d k = deliver t d ((checkpoint n k)\<lparr>k_state := t\<rparr>)"

text \<open>
  The header bytes of a packet with their sequence number and type, and the number of data
  characters they announce.
\<close>

inductive announces :: "u8 list \<Rightarrow> int \<Rightarrow> u8 \<Rightarrow> nat \<Rightarrow> bool" where
  short: "plain L \<Longrightarrow> plain N \<Longrightarrow> plain t \<Longrightarrow> untochar L \<noteq> 0 \<Longrightarrow>
    announces [L, N, t] (untochar N) t (nat (untochar L - 3))"
| long: "plain L \<Longrightarrow> plain N \<Longrightarrow> plain t \<Longrightarrow> plain hi \<Longrightarrow> plain lo \<Longrightarrow> untochar L = 0 \<Longrightarrow>
    announces [L, N, t, hi, lo, sum_char (chars_sum [L, N, t, hi, lo])] (untochar N) t
      (nat (untochar hi * 95 + untochar lo - 1))"

lemma packet_announced:
  assumes "announces h n t l"
  shows "packet (feed k (h @ s)) =
    Option.bind (packet_body l (chars_sum h) (feed ((checkpoint n k)\<lparr>k_state := t\<rparr>) s))
      (\<lambda>(good, acc, k). if \<not> good then Some (False, k) else packet_end acc k)"
  using assms
proof cases
  case (short L N)
  have u: "untochar L - 2 \<noteq> - 2" "nat (untochar L - 2 - 1) = nat (untochar L - 3)" using short(7) by simp_all
  show ?thesis unfolding short(1-3) packet_def using short(4-6) u by (simp add: next_char_plain feed_simps Let_def add.assoc)
next
  case (long L N hi lo)
  let ?s0 = "int (unat L) + int (unat N) + int (unat t)"
  define q where "q = sum_char (chars_sum [L, N, t, hi, lo])"
  have q: "plain q" "q = sum_char (?s0 + int (unat hi) + int (unat lo))" by (simp_all add: q_def plain_sum_char add.assoc)
  have lh: "long_header ?s0 (feed k' (hi # lo # q # s)) =
      Some (True, untochar hi * 95 + untochar lo, ?s0 + int (unat hi) + int (unat lo) + int (unat q), feed k' s)" for k'
    unfolding long_header_def using long(7,8) q(1) q(2) [symmetric] by (simp add: next_char_plain Let_def)
  show ?thesis unfolding long(1-3) packet_def q_def [symmetric] using long(4-6,9) lh
    by (simp add: next_char_plain feed_simps Let_def add.assoc)
qed

lemma header_announces:
  assumes "0 \<le> n" "n < 64" "plain t" "len \<le> 9024"
  shows "announces (header n t len) n t len"
proof -
  have pn: "plain (tochar n)" "untochar (tochar n) = n" using assms(1,2) by (simp_all add: plain_tochar untochar_tochar)
  show ?thesis
  proof (cases "len \<le> 91")
    case True
    then have "plain (tochar (int len + 3))" "untochar (tochar (int len + 3)) = int len + 3"
      by (simp_all add: plain_tochar untochar_tochar)
    with announces.short [OF this(1) pn(1) assms(3)] pn(2) True show ?thesis by (simp add: header_def)
  next
    case False
    define hi where "hi = tochar (int ((len + 1) div 95))"
    define lo where "lo = tochar (int ((len + 1) mod 95))"
    have hl: "(len + 1) div 95 < 96" using assms(4) by (intro less_mult_imp_div_less) simp
    have ll: "(len + 1) mod 95 < 95" by simp
    have p: "plain (tochar 0)" "plain hi" "plain lo" unfolding hi_def lo_def using hl ll by (intro plain_tochar; simp)+
    have "untochar hi * 95 + untochar lo = int ((len + 1) div 95) * 95 + int ((len + 1) mod 95)"
      unfolding hi_def lo_def using hl ll by (simp only: untochar_tochar)
    also have "\<dots> = int ((len + 1) div 95 * 95 + (len + 1) mod 95)" by (simp only: of_nat_add of_nat_mult of_nat_numeral)
    also have "\<dots> = int len + 1" by (simp only: div_mult_mod_eq)
    finally have u: "nat (untochar hi * 95 + untochar lo - 1) = len" by simp
    have u0: "untochar (tochar 0) = 0" by (rule untochar_tochar) simp_all
    have h: "header n t len = [tochar 0, tochar n, t, hi, lo, sum_char (chars_sum [tochar 0, tochar n, t, hi, lo])]"
      using False by (simp add: header_def Let_def hi_def lo_def)
    show ?thesis unfolding h using announces.long [OF p(1) pn(1) assms(3) p(2,3) u0] unfolding pn(2) u .
  qed
qed

lemma packet_announced_body:
  assumes "announces h n t (length d)" "\<forall>c \<in> set d. plain c"
  shows "packet (feed k (h @ d @ s)) = packet_end (chars_sum (h @ d)) (feed (enter n t d k) s)"
  unfolding packet_announced [OF assms(1)]
  using packet_body_deliver [OF assms(2), of "(checkpoint n k)\<lparr>k_state := t\<rparr>" t "chars_sum h" s] by (simp add: enter_def)

lemma packet_frame:
  assumes "frame_ok n t d"
  shows "packet (feed k (header n t (length d) @ d @ s)) =
    packet_end (chars_sum (header n t (length d) @ d)) (feed (enter n t d k) s)"
  using assms by (intro packet_announced_body header_announces) (auto simp: frame_ok_def)

lemma packet_good:
  assumes "frame_ok n t d"
  shows "packet (feed k (header n t (length d) @ d @ check n t d # 0x0d # s)) = Some (True, feed (enter n t d k) s)"
  unfolding packet_frame [OF assms] by (rule packet_end_good) (simp add: check_def)

text \<open>
  What an error in transmission can make of a packet, from the length on: the ways in which the
  receiver comes to reject it, with the sequence number it has read by then. The packet is cut by a
  control character in any place, its header or data are wrong at their check character, or it does
  not end with a carriage return.
\<close>

inductive damaged :: "int option \<Rightarrow> u8 list \<Rightarrow> bool" where
  no_length: "\<not> plain x \<Longrightarrow> damaged None [x]"
| no_number: "plain L \<Longrightarrow> \<not> plain x \<Longrightarrow> damaged None [L, x]"
| no_type: "plain L \<Longrightarrow> plain N \<Longrightarrow> \<not> plain x \<Longrightarrow> damaged (Some (untochar N)) [L, N, x]"
| cut_header: "plain L \<Longrightarrow> plain N \<Longrightarrow> plain t \<Longrightarrow> untochar L = 0 \<Longrightarrow> length hs \<le> 2 \<Longrightarrow> list_all plain hs \<Longrightarrow>
    \<not> plain x \<Longrightarrow> damaged (Some (untochar N)) ([L, N, t] @ hs @ [x])"
| wrong_header: "plain L \<Longrightarrow> plain N \<Longrightarrow> plain t \<Longrightarrow> untochar L = 0 \<Longrightarrow> plain hi \<Longrightarrow> plain lo \<Longrightarrow>
    x \<noteq> sum_char (chars_sum [L, N, t, hi, lo]) \<Longrightarrow> damaged (Some (untochar N)) [L, N, t, hi, lo, x]"
| cut_data: "announces h n t l \<Longrightarrow> list_all plain d \<Longrightarrow> length d < l \<Longrightarrow> \<not> plain x \<Longrightarrow> damaged (Some n) (h @ d @ [x])"
| wrong_check: "announces h n t (length d) \<Longrightarrow> list_all plain d \<Longrightarrow> x \<noteq> sum_char (chars_sum (h @ d)) \<Longrightarrow>
    damaged (Some n) (h @ d @ [x])"
| wrong_end: "announces h n t (length d) \<Longrightarrow> list_all plain d \<Longrightarrow> x \<noteq> 0x0d \<Longrightarrow>
    damaged (Some n) (h @ d @ [sum_char (chars_sum (h @ d)), x])"

lemma packet_body_cut:
  "list_all plain d \<Longrightarrow> length d < l \<Longrightarrow> \<not> plain x \<Longrightarrow> k_state k = t \<Longrightarrow>
    \<exists>acc'. packet_body l acc (feed k (d @ x # s)) = Some (False, acc', feed (deliver t d k) s)"
proof (induction d arbitrary: k acc l)
  case Nil
  then obtain l' where "l = Suc l'" by (cases l) auto
  with Nil show ?case by (simp add: next_char_control)
next
  case (Cons c d)
  then obtain l' where l: "l = Suc l'" by (cases l) auto
  define k1 where "k1 = (if t = 0x44 then k_data_char c k else if t = 0x53 then keep_parm c k else k)"
  have s1: "k_state k1 = t" using Cons.prems(4) by (simp add: k1_def)
  have "packet_body l acc (feed k ((c # d) @ x # s)) = packet_body l' (acc + int (unat c)) (feed k1 (d @ x # s))"
    using Cons.prems l by (simp add: next_char_plain k1_def feed_simps)
  with Cons.IH [of l' k1] Cons.prems s1 l show ?case by (auto simp: k1_def)
qed

text \<open>A rejected packet has checkpointed its number, if it was read, and delivered some characters.\<close>

lemma packet_damaged:
  assumes "damaged m bs"
  shows "\<exists>k'. packet (feed k (bs @ s)) = Some (False, feed k' s) \<and>
    (case m of None \<Rightarrow> k' = k
     | Some n \<Rightarrow> \<exists>t d st. k' = deliver t d ((checkpoint n k)\<lparr>k_state := st\<rparr>) \<and> length d \<le> length bs)"
proof -
  have fin: ?thesis
    if "packet (feed k (bs @ s)) = Some (False, feed (deliver t d ((checkpoint n k)\<lparr>k_state := st\<rparr>)) s)"
      "length d \<le> length bs" "m = Some n" for n t d st
    using that by (intro exI [of _ "deliver t d ((checkpoint n k)\<lparr>k_state := st\<rparr>)"]) auto
  show ?thesis
  using assms
proof cases
  case no_length
  then show ?thesis by (simp add: packet_def next_char_control)
next
  case no_number
  then show ?thesis by (simp add: packet_def next_char_control next_char_plain)
next
  case (no_type L N x)
  let ?c = "checkpoint (untochar N) k"
  have "packet (feed k (bs @ s)) = Some (False, feed ?c s)"
    unfolding no_type(2) using no_type(3-5) by (simp add: packet_def next_char_control next_char_plain feed_simps Let_def)
  moreover have "?c = deliver 0 [] (?c\<lparr>k_state := k_state ?c\<rparr>)" by simp
  ultimately have "packet (feed k (bs @ s)) = Some (False, feed (deliver 0 [] (?c\<lparr>k_state := k_state ?c\<rparr>)) s)" by simp
  then show ?thesis by (rule fin) (simp_all add: no_type(1))
next
  case (cut_header L N t hs x)
  let ?k = "(checkpoint (untochar N) k)\<lparr>k_state := t\<rparr>"
  have lh: "\<exists>l acc'. long_header acc (feed ?k (hs @ x # s)) = Some (False, l, acc', feed ?k s)" for acc
  proof -
    consider "hs = []" | c where "hs = [c]" | c c' where "hs = [c, c']"
      using cut_header(7) by (cases hs; cases "tl hs"; cases "tl (tl hs)") auto
    then show ?thesis
    proof cases
      case 3
      have "x \<noteq> sum_char y" for y using plain_sum_char cut_header(9) by metis
      with 3 cut_header(8,9) show ?thesis by (simp add: long_header_def next_char_plain next_char_control)
    qed (use cut_header(8,9) in \<open>simp_all add: long_header_def next_char_plain next_char_control\<close>)
  qed
  obtain l acc' where l: "long_header (int (unat L) + int (unat N) + int (unat t)) (feed ?k (hs @ x # s)) = Some (False, l, acc', feed ?k s)"
    using lh by blast
  have "packet (feed k (bs @ s)) = Some (False, feed (deliver t [] ?k) s)"
    unfolding cut_header(2) using cut_header(3-6) l by (simp add: packet_def next_char_plain feed_simps Let_def)
  then show ?thesis by (rule fin) (simp_all add: cut_header(1))
next
  case (wrong_header L N t hi lo x)
  let ?k = "(checkpoint (untochar N) k)\<lparr>k_state := t\<rparr>"
  let ?s0 = "int (unat L) + int (unat N) + int (unat t)"
  have "\<exists>l acc'. long_header ?s0 (feed ?k (hi # lo # x # s)) = Some (False, l, acc', feed ?k s)"
    using wrong_header(7-9) by (cases "plain x") (simp_all add: long_header_def next_char_plain next_char_control Let_def add.assoc)
  then obtain l acc' where l: "long_header ?s0 (feed ?k (hi # lo # x # s)) = Some (False, l, acc', feed ?k s)" by blast
  have "packet (feed k (bs @ s)) = Some (False, feed (deliver t [] ?k) s)"
    unfolding wrong_header(2) using wrong_header(3-6) l by (simp add: packet_def next_char_plain feed_simps Let_def)
  then show ?thesis by (rule fin) (simp_all add: wrong_header(1))
next
  case (cut_data h n t l d x)
  let ?k = "(checkpoint n k)\<lparr>k_state := t\<rparr>"
  obtain acc' where "packet_body l (chars_sum h) (feed ?k (d @ x # s)) = Some (False, acc', feed (deliver t d ?k) s)"
    using packet_body_cut [OF cut_data(4-6), of ?k t "chars_sum h" s] by auto
  then have "packet (feed k (bs @ s)) = Some (False, feed (deliver t d ?k) s)"
    unfolding cut_data(2) using packet_announced [OF cut_data(3), of k "d @ x # s"] by simp
  then show ?thesis by (rule fin) (simp_all add: cut_data(1,2))
next
  case (wrong_check h n t d x)
  have "packet (feed k (bs @ s)) = Some (False, feed (enter n t d k) s)"
    unfolding wrong_check(2) using packet_announced_body [OF wrong_check(3), of k "x # s"] wrong_check(4,5)
    by (simp add: list_all_iff packet_end_bad)
  then show ?thesis unfolding enter_def by (rule fin) (simp_all add: wrong_check(1,2))
next
  case (wrong_end h n t d x)
  have "packet_end acc (feed k' (sum_char acc # x # s)) = Some (False, feed k' s)" for acc k'
    using wrong_end(5) by (simp add: packet_end_def next_char_plain plain_sum_char feed_simps getc_def) (simp add: feed_def)
  then have "packet (feed k (bs @ s)) = Some (False, feed (enter n t d k) s)"
    unfolding wrong_end(2) using packet_announced_body [OF wrong_end(3), of k "sum_char (chars_sum (h @ d)) # x # s"] wrong_end(4)
    by (simp add: list_all_iff)
  then show ?thesis unfolding enter_def by (rule fin) (simp_all add: wrong_end(1,2))
qed
qed

section \<open>The file received so far\<close>

fun kdecode :: "u8 \<Rightarrow> bool \<Rightarrow> u8 list \<Rightarrow> u8 list \<times> bool" where
  "kdecode q esc [] = ([], esc)"
| "kdecode q esc (c # d) =
     (if esc then let (bs, e) = kdecode q False d in (ktrans c # bs, e)
      else if c = q then kdecode q True d
      else let (bs, e) = kdecode q False d in (c # bs, e))"

lemma kdecode_append:
  "kdecode q esc (xs @ ys) = (let (a, e) = kdecode q esc xs; (b, e') = kdecode q e ys in (a @ b, e'))"
  by (induction q esc xs rule: kdecode.induct) (auto simp: Let_def split: prod.splits)

lemma length_kdecode: "length (fst (kdecode q esc d)) \<le> length d"
proof (induction q esc d rule: kdecode.induct)
  case (2 q esc c d)
  then show ?case by (cases esc) (auto simp: Let_def le_Suc_eq split: prod.splits)
qed simp

definition holds :: "(u32 \<Rightarrow> u8) \<Rightarrow> u32 \<Rightarrow> u8 list \<Rightarrow> bool" where
  "holds m a bs \<longleftrightarrow> read_mem m a (length bs) = bs"

definition got :: "kermit \<Rightarrow> u8 list \<Rightarrow> bool" where
  "got k bs \<longleftrightarrow> os_data_addr k = bin_start_address k + word_of_nat (length bs) \<and>
     holds (k_mem k) (bin_start_address k) bs"

definition saved :: "kermit \<Rightarrow> int \<Rightarrow> bool \<Rightarrow> u8 list \<Rightarrow> bool" where
  "saved k n esc bs \<longleftrightarrow> k_last_n k = n \<and> k_data_escape_saved k = esc \<and>
     os_data_addr_saved k = bin_start_address k + word_of_nat (length bs) \<and>
     holds (k_mem k) (bin_start_address k) bs"

lemma read_mem_nth: "read_mem m a (length bs) = bs \<longleftrightarrow> (\<forall>i < length bs. m (a + word_of_nat i) = bs ! i)"
  using list_eq_iff_nth_eq [of "read_mem m a (length bs)" bs] by (simp add: read_mem_def)

lemma read_mem_prefix: "read_mem m a (length (xs @ ys)) = xs @ ys \<Longrightarrow> read_mem m a (length xs) = xs"
proof -
  assume "read_mem m a (length (xs @ ys)) = xs @ ys"
  then have "m (a + word_of_nat i) = xs ! i" if "i < length xs" for i
    using that read_mem_nth [of m a "xs @ ys"] by (simp add: nth_append)
  then show "read_mem m a (length xs) = xs" unfolding read_mem_nth by blast
qed

lemma holds_prefix: "holds m a (xs @ ys) \<Longrightarrow> holds m a xs"
  unfolding holds_def by (rule read_mem_prefix)

lemma got_bin_data_char:
  assumes "got k bs" "length bs < 2 ^ 32"
  shows "got (bin_data_char c k) (bs @ [c])"
proof -
  have "k_mem (bin_data_char c k) (bin_start_address k + word_of_nat i) = (bs @ [c]) ! i" if i: "i < length (bs @ [c])" for i
  proof (cases "i = length bs")
    case True
    then show ?thesis using assms(1) by (simp add: bin_data_char_def got_def)
  next
    case False
    then have i: "i < length bs" using i by simp
    have "(word_of_nat i :: u32) \<noteq> word_of_nat (length bs)"
    proof
      assume "(word_of_nat i :: u32) = word_of_nat (length bs)"
      then have "unat (word_of_nat i :: u32) = unat (word_of_nat (length bs) :: u32)" by simp
      then show False using i assms(2) by (simp only: unat_of_nat) simp
    qed
    then show ?thesis using assms(1) i unfolding got_def holds_def read_mem_nth
      by (simp add: bin_data_char_def nth_append)
  qed
  then show ?thesis using assms(1) unfolding got_def holds_def read_mem_nth
    by (simp add: bin_data_char_def add.assoc add.commute [of 1])
qed

lemma k_data_fields [simp]:
  "his_quote (k_data_char c k) = his_quote k" "bin_start_address (k_data_char c k) = bin_start_address k"
  "k_last_n (k_data_char c k) = k_last_n k" "k_n (k_data_char c k) = k_n k" "k_data_escape_saved (k_data_char c k) = k_data_escape_saved k"
  "os_data_addr_saved (k_data_char c k) = os_data_addr_saved k" "send_parms (k_data_char c k) = send_parms k"
  by (simp_all add: k_data_char_def bin_data_char_def)

lemma deliver_data:
  assumes "got k bs" "length bs + length d < 2 ^ 32"
  shows "got (deliver 0x44 d k) (bs @ fst (kdecode (his_quote k) (k_data_escape k) d)) \<and>
    k_data_escape (deliver 0x44 d k) = snd (kdecode (his_quote k) (k_data_escape k) d) \<and>
    his_quote (deliver 0x44 d k) = his_quote k \<and> bin_start_address (deliver 0x44 d k) = bin_start_address k \<and>
    k_last_n (deliver 0x44 d k) = k_last_n k \<and> k_n (deliver 0x44 d k) = k_n k \<and> k_state (deliver 0x44 d k) = k_state k \<and>
    k_data_escape_saved (deliver 0x44 d k) = k_data_escape_saved k \<and>
    os_data_addr_saved (deliver 0x44 d k) = os_data_addr_saved k"
  using assms
proof (induction d arbitrary: k bs)
  case (Cons c d)
  have lt: "length bs < 2 ^ 32" using Cons.prems(2) by simp
  consider (esc) "k_data_escape k" | (quote) "\<not> k_data_escape k" "c = his_quote k" | (other) "\<not> k_data_escape k" "c \<noteq> his_quote k"
    by blast
  then show ?case
  proof cases
    case esc
    then have e: "\<not> k_data_escape (k_data_char c k)" "got (k_data_char c k) (bs @ [ktrans c])"
      using got_bin_data_char [OF Cons.prems(1) lt] by (simp_all add: k_data_char_def got_def)
    show ?thesis using Cons.IH [OF e(2)] Cons.prems(2) esc e(1) by (simp add: case_prod_unfold Let_def)
  next
    case quote
    then have e: "k_data_escape (k_data_char c k)" "got (k_data_char c k) bs"
      using Cons.prems(1) by (simp_all add: k_data_char_def got_def)
    show ?thesis using Cons.IH [OF e(2)] Cons.prems(2) quote e(1) by simp
  next
    case other
    then have e: "\<not> k_data_escape (k_data_char c k)" "got (k_data_char c k) (bs @ [c])"
      using got_bin_data_char [OF Cons.prems(1) lt] by (simp_all add: k_data_char_def bin_data_char_def)
    show ?thesis using Cons.IH [OF e(2)] Cons.prems(2) other e(1) by (simp add: case_prod_unfold Let_def)
  qed
qed simp

lemma deliver_parms:
  "length (send_parms k) + length d \<le> 19 \<or> length (send_parms k) \<le> 19 \<Longrightarrow>
    deliver 0x53 d k = k\<lparr>send_parms := take 19 (send_parms k @ d)\<rparr>"
proof (induction d arbitrary: k)
  case (Cons c d)
  then have le: "length (send_parms k) \<le> 19" by auto
  show ?case
  proof (cases "length (send_parms k) = 19")
    case True
    then show ?thesis using Cons.IH [of k] by (simp add: keep_parm_def)
  next
    case False
    then have "length (send_parms (keep_parm c k)) \<le> 19" using le by (simp add: keep_parm_def)
    then show ?thesis using Cons.IH [of "keep_parm c k"] False by (simp add: keep_parm_def)
  qed
qed simp

lemma deliver_other: "t \<noteq> 0x44 \<Longrightarrow> t \<noteq> 0x53 \<Longrightarrow> deliver t d k = k"
  by (induction d) simp_all

section \<open>The abstract receiver\<close>

text \<open>
  What has been received is a text and whether a quoting prefix is pending. The abstract receiver has
  the last sequence number, what it had received when that number first came, and what it has now.
\<close>

type_synonym text_so_far = "u8 list \<times> bool"
type_synonym receiver = "int \<times> text_so_far \<times> text_so_far"

fun append_data :: "u8 \<Rightarrow> u8 list \<Rightarrow> text_so_far \<Rightarrow> text_so_far" where
  "append_data t d (bs, e) = (if t = 0x44 then let (b, e) = kdecode 0x23 e d in (bs @ b, e) else (bs, e))"

fun take_number :: "int \<Rightarrow> receiver \<Rightarrow> receiver" where
  "take_number n (l, s, c) = (if n = l then (l, s, s) else (n, c, c))"

text \<open>
  An attempt at a packet, with the characters on the line behind it: damaged, with the number the
  receiver has read, or intact.
\<close>

datatype attempt = Damaged "int option" "u8 list" "u8 list" | Intact int u8 "u8 list" "u8 list"

fun receive_attempt :: "attempt \<Rightarrow> receiver \<Rightarrow> receiver" where
  "receive_attempt (Damaged None _ _) (l, s, c) = (l, s, s)"
| "receive_attempt (Damaged (Some n) _ _) r = (let (l, s, c) = take_number n r in (l, s, s))"
| "receive_attempt (Intact n t d _) r = (let (l, s, c) = take_number n r in (l, s, append_data t d c))"

fun attempt_bytes :: "attempt \<Rightarrow> u8 list" where
  "attempt_bytes (Damaged m bs z) = 0x01 # bs @ z"
| "attempt_bytes (Intact n t d z) = frame n t d (check n t d) @ z"

definition quote_ok :: "u8 \<Rightarrow> u8 list \<Rightarrow> bool" where
  "quote_ok t d \<longleftrightarrow> (t = 0x53 \<longrightarrow> 6 \<le> length d \<longrightarrow> d ! 5 = 0x23)"

definition line_noise :: "u8 list \<Rightarrow> bool" where
  "line_noise z \<longleftrightarrow> 0x01 \<notin> set z \<and> 0x03 \<notin> set z"

fun attempt_ok :: "attempt \<Rightarrow> bool" where
  "attempt_ok (Damaged m bs z) \<longleftrightarrow> damaged m bs \<and> line_noise z"
| "attempt_ok (Intact n t d z) \<longleftrightarrow> frame_ok n t d \<and> quote_ok t d \<and> t \<noteq> 0x42 \<and> line_noise z"

text \<open>The variables of the code hold the state of the abstract receiver.\<close>

fun tracks :: "kermit \<Rightarrow> u32 \<Rightarrow> receiver \<Rightarrow> bool" where
  "tracks k a (l, (sb, se), (cb, ce)) \<longleftrightarrow>
     bin_start_address k = a \<and> his_quote k = 0x23 \<and> k_last_n k = l \<and>
     os_data_addr_saved k = a + word_of_nat (length sb) \<and> k_data_escape_saved k = se \<and>
     got k cb \<and> k_data_escape k = ce \<and> (\<exists>zs. cb = sb @ zs)"

lemma tracks_restore: "tracks k a (l, s, c) \<Longrightarrow> tracks (k_data_restore k) a (l, s, s)"
  by (cases s; cases c) (auto simp: got_def k_data_restore_def dest: holds_prefix)

lemma tracks_checkpoint: "tracks k a r \<Longrightarrow> tracks (checkpoint n k) a (take_number n r) \<and> k_n (checkpoint n k) = n \<and>
    send_parms (checkpoint n k) = send_parms k"
proof -
  obtain l sb se cb ce where rr: "r = (l, (sb, se), (cb, ce))" by (metis prod.exhaust)
  assume "tracks k a r"
  then show ?thesis unfolding rr
    by (auto simp: checkpoint_def got_def k_data_restore_def k_data_save_def Let_def dest: holds_prefix)
qed

lemma tracks_fields [simp]:
  "tracks (k\<lparr>k_state := st\<rparr>) a r = tracks k a r" "tracks (k\<lparr>send_parms := p\<rparr>) a r = tracks k a r"
  "tracks (reply y n x k) a r = tracks k a r"
  by (cases "(k, a, r)" rule: tracks.cases; simp add: got_def reply_def s1_sendpacket_def send_pad_def Let_def)+

lemma tracks_deliver:
  assumes r: "tracks k a (l, s, c)" and len: "length (fst c) + length d < 2 ^ 32" and p: "length (send_parms k) \<le> 19"
  shows "tracks (deliver t d k) a (l, s, append_data t d c) \<and> k_n (deliver t d k) = k_n k \<and>
    (t = 0x53 \<longrightarrow> send_parms (deliver t d k) = take 19 (send_parms k @ d)) \<and> k_state (deliver t d k) = k_state k"
proof -
  obtain sb se cb ce where sc: "s = (sb, se)" "c = (cb, ce)" by fastforce
  note r = r [unfolded sc]
  consider "t = 0x44" | "t = 0x53" | "t \<noteq> 0x44" "t \<noteq> 0x53" by blast
  then show ?thesis
  proof cases
    case 1
    from r len sc have "got k cb" "length cb + length d < 2 ^ 32" by simp_all
    from deliver_data [OF this] r show ?thesis unfolding 1 sc by (auto simp: Let_def case_prod_unfold)
  next
    case 2
    have "deliver 0x53 d k = k\<lparr>send_parms := take 19 (send_parms k @ d)\<rparr>" using deliver_parms p by blast
    then show ?thesis using r unfolding 2 sc by (auto simp: got_def)
  next
    case 3
    then show ?thesis using r unfolding sc by (simp add: deliver_other)
  qed
qed

lemma length_append_data: "length (fst (append_data t d c)) \<le> length (fst c) + length d"
  by (cases c) (use length_kdecode [of "0x23" "snd c" d] in \<open>auto simp: Let_def case_prod_unfold\<close>)

section \<open>Replies leave the transfer alone\<close>

lemma reply_feed [feed_simps]: "reply t n d (feed k s) = feed (reply t n d k) s"
  by (simp add: feed_def reply_def s1_sendpacket_def send_pad_def puts_out Let_def)

lemma take_parms_feed [feed_simps]: "take_parms (feed k s) = feed (take_parms k) s" "given_bytes (feed k s) = given_bytes k"
  by (simp_all add: feed_def take_parms_def given_bytes_def Let_def)

lemma handle_send_packet_feed [feed_simps]: "handle_send_packet n (feed k s) = feed (handle_send_packet n k) s"
  by (simp only: handle_send_packet_def feed_simps Let_def)

lemma reply_state: "k_state (reply y n' x k) = k_state k"
  by (simp add: reply_def s1_sendpacket_def send_pad_def Let_def)

lemma tracks_handle_send:
  assumes r: "tracks k a r" and q: "quote_ok 0x53 d" "send_parms k = take 19 d"
  shows "tracks (handle_send_packet n k) a r"
proof -
  have "his_quote (take_parms k) = 0x23"
  proof (cases "6 \<le> given_bytes k")
    case g: True
    then have "6 \<le> length d" "take 19 d ! 5 = d ! 5" using q(2) by (auto simp: given_bytes_def split: if_splits)
    then show ?thesis using g q by (simp add: take_parms_def Let_def quote_ok_def)
  next
    case False
    then show ?thesis by (simp add: take_parms_def Let_def)
  qed
  then have "tracks (take_parms k) a r"
    using r by (cases "(k, a, r)" rule: tracks.cases) (simp add: got_def take_parms_def Let_def)
  then show ?thesis by (simp add: handle_send_packet_def Let_def)
qed

section \<open>Attempts\<close>

lemma parms_con: "k\<lparr>k_con := c, send_parms := p\<rparr> = k\<lparr>send_parms := p, k_con := c\<rparr>"
  by (cases k) simp

lemma recv_loop_start:
  "recv_loop (feed k (0x01 # s)) = Option.bind (packet (feed (k\<lparr>send_parms := []\<rparr>) s)) (\<lambda>(good, k).
     if \<not> good then recv_loop (send_nack (k_n k) (k_data_restore (k\<lparr>k_state := k_state_saved k\<rparr>)))
     else if k_state k = 0x53 then recv_loop (handle_send_packet (k_n k) k)
     else
       let k = send_ack (k_n k) k in
       if k_state k = 0x42 then Some (os_data_addr k - bin_start_address k, k) else recv_loop k)"
  by (subst recv_loop.simps) (simp add: feed_def parms_con)

lemma recv_loop_skip: "line_noise z \<Longrightarrow> recv_loop (feed k (z @ s)) = recv_loop (feed k s)"
proof -
  assume "line_noise z"
  then have "wait_start (z @ s) = wait_start s" by (induction z) (auto simp: line_noise_def)
  then show ?thesis by (subst (1 2) recv_loop.simps) (simp add: feed_def)
qed

text \<open>The receiver follows the abstract one, attempt by attempt.\<close>

lemma attempt_received:
  assumes r: "tracks k a r" and x: "attempt_ok x" and len: "length (fst (snd (snd r))) + length (attempt_bytes x) < 2 ^ 32"
  shows "\<exists>k'. recv_loop (feed k (attempt_bytes x @ rest)) = recv_loop (feed k' rest) \<and> tracks k' a (receive_attempt x r)"
proof -
  let ?k = "k\<lparr>send_parms := []\<rparr>"
  obtain l s c where lsc: "r = (l, s, c)" by (cases r)
  have c: "length (fst (snd (snd (take_number n r)))) \<le> length (fst c)" for n
    using r unfolding lsc by (cases s; cases c) auto
  show ?thesis
  proof (cases x)
    case (Damaged m bs z)
    then have d: "damaged m bs" "line_noise z" using x by simp_all
    from packet_damaged [OF d(1), of ?k "z @ rest"] obtain k1 where
      k1: "packet (feed ?k (bs @ z @ rest)) = Some (False, feed k1 (z @ rest))"
      "case m of None \<Rightarrow> k1 = ?k
       | Some n \<Rightarrow> \<exists>t d st. k1 = deliver t d ((checkpoint n ?k)\<lparr>k_state := st\<rparr>) \<and> length d \<le> length bs" by blast
    define k' where "k' = send_nack (k_n k1) (k_data_restore (k1\<lparr>k_state := k_state_saved k1\<rparr>))"
    have "recv_loop (feed k (attempt_bytes x @ rest)) = recv_loop (feed k' (z @ rest))"
      using k1(1) recv_loop_start [of k "bs @ z @ rest"] by (simp add: Damaged feed_simps k'_def send_nack_def)
    then have "recv_loop (feed k (attempt_bytes x @ rest)) = recv_loop (feed k' rest)" using recv_loop_skip [OF d(2)] by simp
    moreover have "tracks k' a (receive_attempt x r)"
    proof (cases m)
      case None
      with k1(2) r show ?thesis unfolding lsc Damaged k'_def send_nack_def by (simp add: tracks_restore)
    next
      case (Some n)
      with k1(2) obtain t d st where k2: "k1 = deliver t d ((checkpoint n ?k)\<lparr>k_state := st\<rparr>)" "length d \<le> length bs" by auto
      obtain l' s' c' where n: "take_number n r = (l', s', c')" by (cases "take_number n r")
      have "tracks ((checkpoint n ?k)\<lparr>k_state := st\<rparr>) a (l', s', c')" "send_parms (checkpoint n ?k) = []"
        using tracks_checkpoint [of ?k a r n] r n by simp_all
      moreover have "length (fst c') + length d < 2 ^ 32" using len c [of n, unfolded n] k2(2) unfolding lsc by (simp add: Damaged)
      ultimately have "tracks k1 a (l', s', append_data t d c')" unfolding k2(1) by (intro conjunct1 [OF tracks_deliver]) simp_all
      then show ?thesis unfolding Damaged Some k'_def send_nack_def
        by (simp add: n) (rule tracks_restore, simp)
    qed
    ultimately show ?thesis by blast
  next
    case (Intact n t d z)
    then have f: "frame_ok n t d" "quote_ok t d" "t \<noteq> 0x42" "line_noise z" using x by simp_all
    obtain l' s' c' where n: "take_number n r = (l', s', c')" by (cases "take_number n r")
    let ?e = "enter n t d ?k"
    have k2: "tracks ((checkpoint n ?k)\<lparr>k_state := t\<rparr>) a (l', s', c')" "send_parms (checkpoint n ?k) = []" "k_n (checkpoint n ?k) = n"
      using tracks_checkpoint [of ?k a r n] r n by simp_all
    have "length (fst c') + length d < 2 ^ 32" using len c [of n, unfolded n] unfolding lsc by (simp add: Intact frame_def)
    from tracks_deliver [OF k2(1) this] k2 have e: "tracks ?e a (l', s', append_data t d c')" "k_n ?e = n" "k_state ?e = t"
      "t = 0x53 \<Longrightarrow> send_parms ?e = take 19 d"
      unfolding enter_def by simp_all
    define k' where "k' = (if t = 0x53 then handle_send_packet (k_n ?e) ?e else send_ack (k_n ?e) ?e)"
    have "recv_loop (feed k (attempt_bytes x @ rest)) = recv_loop (feed k' (z @ rest))"
      using packet_good [OF f(1), of ?k "z @ rest"] recv_loop_start [of k "header n t (length d) @ d @ check n t d # 0x0d # z @ rest"] e(3) f(3)
      by (simp add: Intact frame_def feed_simps k'_def send_ack_def reply_state Let_def)
    then have "recv_loop (feed k (attempt_bytes x @ rest)) = recv_loop (feed k' rest)" using recv_loop_skip [OF f(4)] by simp
    moreover have "tracks k' a (receive_attempt x r)"
    proof (cases "t = 0x53")
      case True
      then show ?thesis using tracks_handle_send [OF e(1) _ e(4)] f(2) by (simp add: Intact n k'_def)
    next
      case False
      then show ?thesis using e(1) by (simp add: Intact n k'_def send_ack_def)
    qed
    ultimately show ?thesis by blast
  qed
qed

definition line_bytes :: "attempt list \<Rightarrow> u8 list" where
  "line_bytes xs = concat (map attempt_bytes xs)"

lemma line_bytes_simps [simp]: "line_bytes [] = []" "line_bytes (x # xs) = attempt_bytes x @ line_bytes xs"
  "line_bytes (xs @ ys) = line_bytes xs @ line_bytes ys"
  by (simp_all add: line_bytes_def)

lemma receive_attempt_length:
  assumes "tracks k a r"
  shows "length (fst (snd (snd (receive_attempt x r)))) \<le> length (fst (snd (snd r))) + length (attempt_bytes x)"
proof -
  obtain l s c where r: "r = (l, s, c)" by (cases r)
  have s: "length (fst s) \<le> length (fst c)" using assms unfolding r by (cases s; cases c) auto
  show ?thesis
  proof (cases x)
    case (Damaged m bs z)
    then show ?thesis using s unfolding r by (cases m) auto
  next
    case (Intact n t d z)
    then show ?thesis
      using s length_append_data [of t d s] length_append_data [of t d c] unfolding r by (auto simp: frame_def)
  qed
qed

lemma attempts_received:
  assumes "tracks k a r" "list_all attempt_ok xs" "length (fst (snd (snd r))) + length (line_bytes xs) < 2 ^ 32"
  shows "\<exists>k'. recv_loop (feed k (line_bytes xs @ rest)) = recv_loop (feed k' rest) \<and> tracks k' a (fold receive_attempt xs r) \<and>
    length (fst (snd (snd (fold receive_attempt xs r)))) \<le> length (fst (snd (snd r))) + length (line_bytes xs)"
  using assms
proof (induction xs arbitrary: k r)
  case (Cons x xs)
  from Cons.prems have x: "attempt_ok x" "length (fst (snd (snd r))) + length (attempt_bytes x) < 2 ^ 32" by simp_all
  from attempt_received [OF Cons.prems(1) x, of "line_bytes xs @ rest"] obtain k1 where
    k1: "recv_loop (feed k (attempt_bytes x @ line_bytes xs @ rest)) = recv_loop (feed k1 (line_bytes xs @ rest))"
    "tracks k1 a (receive_attempt x r)" by blast
  have l: "length (fst (snd (snd (receive_attempt x r)))) \<le> length (fst (snd (snd r))) + length (attempt_bytes x)"
    by (rule receive_attempt_length [OF Cons.prems(1)])
  have "list_all attempt_ok xs" "length (fst (snd (snd (receive_attempt x r)))) + length (line_bytes xs) < 2 ^ 32"
    using Cons.prems(2,3) l by simp_all
  from Cons.IH [OF k1(2) this] obtain k' where
    "recv_loop (feed k1 (line_bytes xs @ rest)) = recv_loop (feed k' rest)" "tracks k' a (fold receive_attempt xs (receive_attempt x r))"
    "length (fst (snd (snd (fold receive_attempt xs (receive_attempt x r))))) \<le>
       length (fst (snd (snd (receive_attempt x r)))) + length (line_bytes xs)" by blast
  then show ?case using k1(1) l by (intro exI [of _ k']) simp
qed auto

text \<open>
  Whatever attempts come before an intact break packet, the receiver returns the length of what the
  abstract receiver has then, and memory holds it.
\<close>

abbreviation nothing :: receiver where "nothing \<equiv> (- 1, ([], False), ([], False))"

lemma k_recv_attempts:
  assumes xs: "list_all attempt_ok xs" and f: "frame_ok n 0x42 d"
    and len: "length (line_bytes xs) + length d < 2 ^ 32"
    and r: "take_number n (fold receive_attempt xs nothing) = (l, s, (bs, e))"
  shows "\<exists>k'. k_recv (feed k (line_bytes xs @ frame n 0x42 d (check n 0x42 d) @ rest)) = Some (word_of_nat (length bs), k') \<and>
    read_mem (k_mem k') (bin_start_address k) (length bs) = bs \<and> con_in (k_con k') = rest"
proof -
  let ?a = "bin_start_address k"
  define k0 where "k0 = k\<lparr>his_eol := 0x0d, his_pad_count := 0, his_pad_char := 0, his_quote := 0x23, k_state := 0,
       k_data_escape := False, os_data_addr := ?a, k_state_saved := 0,
       k_data_escape_saved := False, os_data_addr_saved := ?a, k_n := 0, k_last_n := - 1\<rparr>"
  have k0: "k_recv (feed k y) = recv_loop (feed k0 y)" for y
    by (cases k) (simp add: k_recv_def k0_def feed_def)
  have t0: "tracks k0 ?a nothing" by (simp add: k0_def got_def holds_def)
  have "length (fst (snd (snd nothing))) + length (line_bytes xs) < 2 ^ 32" using len by simp
  from attempts_received [OF t0 xs this, of "frame n 0x42 d (check n 0x42 d) @ rest"] obtain k1 where
    k1: "k_recv (feed k (line_bytes xs @ frame n 0x42 d (check n 0x42 d) @ rest)) = recv_loop (feed k1 (frame n 0x42 d (check n 0x42 d) @ rest))"
    "tracks k1 ?a (fold receive_attempt xs nothing)"
    "length (fst (snd (snd (fold receive_attempt xs nothing)))) \<le> length (line_bytes xs)"
    unfolding k0 by auto
  let ?k = "k1\<lparr>send_parms := []\<rparr>"
  let ?e = "enter n 0x42 d ?k"
  have k2: "tracks ((checkpoint n ?k)\<lparr>k_state := 0x42\<rparr>) ?a (l, s, (bs, e))"
    using tracks_checkpoint [of ?k ?a _ n] k1(2) r by (metis tracks_fields(1,2))
  then have e: "tracks ?e ?a (l, s, (bs, e))" "k_state ?e = 0x42"
    by (simp_all add: enter_def deliver_other)
  define k' where "k' = send_ack (k_n ?e) ?e"
  have "tracks k' ?a (l, s, (bs, e))" using e(1) by (simp add: k'_def send_ack_def)
  then have g: "bin_start_address k' = ?a" "got k' bs" by (cases s; simp)+
  then have "os_data_addr k' - bin_start_address k' = word_of_nat (length bs)" by (simp add: got_def)
  moreover have "recv_loop (feed k1 (frame n 0x42 d (check n 0x42 d) @ rest)) =
      Some (os_data_addr k' - bin_start_address k', feed k' rest)"
    using packet_good [OF f, of ?k rest] recv_loop_start [of k1 "header n 0x42 (length d) @ d @ check n 0x42 d # 0x0d # rest"] e(2)
    by (simp add: frame_def feed_simps k'_def send_ack_def reply_state Let_def)
  ultimately show ?thesis using g unfolding k1(1) by (auto simp: feed_simps got_def holds_def)
qed

text \<open>Control-character quoting as the sender does it, with \<open>#\<close> and no other prefix.\<close>

definition kquote :: "u8 \<Rightarrow> u8 list" where
  "kquote c =
     (if c AND 0x7f < 0x20 \<or> c AND 0x7f = 0x7f then [0x23, c XOR 0x40]
      else if c = 0x23 then [0x23, 0x23] else [c])"

definition kencode :: "u8 list \<Rightarrow> u8 list" where
  "kencode bs = concat (map kquote bs)"

lemma kquote_ok: "list_all (\<lambda>i. let c = word_of_nat i :: u8 in
    kdecode 0x23 False (kquote c) = ([c], False) \<and> list_all (\<lambda>x. x AND 0xE0 \<noteq> 0) (kquote c)) [0..<256]"
  by code_simp

lemma kquote_decode: "kdecode 0x23 False (kquote c) = ([c], False)" "\<forall>x \<in> set (kquote c). plain x"
proof -
  have "let c = c in kdecode 0x23 False (kquote c) = ([c], False) \<and> list_all (\<lambda>x. x AND 0xE0 \<noteq> 0) (kquote c)"
    by (rule word8_cases_unat [where P = "\<lambda>c. let c = c in kdecode 0x23 False (kquote c) = ([c], False) \<and>
      list_all (\<lambda>x. x AND 0xE0 \<noteq> 0) (kquote c)"]) (rule kquote_ok)
  then show "kdecode 0x23 False (kquote c) = ([c], False)" "\<forall>x \<in> set (kquote c). plain x"
    by (simp_all add: Let_def list_all_iff plain_def)
qed

lemma kdecode_kencode: "kdecode 0x23 False (kencode bs) = (bs, False)"
  by (induction bs) (simp_all add: kencode_def kdecode_append kquote_decode)

lemma kencode_plain: "\<forall>c \<in> set (kencode bs). plain c"
  by (simp add: kencode_def kquote_decode)

section \<open>Sessions\<close>

text \<open>
  The attempts at a packet up to the first intact one are damaged. They may be damaged in any way, but
  the first is not cut before its sequence number nor given the number \<open>p\<close> of the packet before.
\<close>

definition first_attempts_ok :: "int \<Rightarrow> attempt list \<Rightarrow> bool" where
  "first_attempts_ok p xs \<longleftrightarrow>
     list_all (\<lambda>x. case x of Damaged m bs z \<Rightarrow> True | Intact n t d z \<Rightarrow> False) xs \<and>
     (case xs of Damaged None bs z # _ \<Rightarrow> False | Damaged (Some m) bs z # _ \<Rightarrow> m \<noteq> p | _ \<Rightarrow> True)"

text \<open>Later attempts are the same packet again, its number not damaged into another one.\<close>

fun resend :: "int \<Rightarrow> u8 \<Rightarrow> u8 list \<Rightarrow> attempt \<Rightarrow> bool" where
  "resend n t d (Damaged m bs z) \<longleftrightarrow> m = None \<or> m = Some n"
| "resend n t d (Intact n' t' d' z) \<longleftrightarrow> n' = n \<and> t' = t \<and> d' = d"

definition intact :: "attempt \<Rightarrow> bool" where
  "intact x \<longleftrightarrow> (case x of Damaged m bs z \<Rightarrow> False | Intact n t d z \<Rightarrow> True)"

text \<open>
  A session: the packets with their sequence numbers, types and data, each with its damaged first
  attempts, and with the attempts from the first intact one to the last, which is intact again.
\<close>

type_synonym sent = "int \<times> u8 \<times> u8 list \<times> attempt list \<times> attempt list"

fun session_ok :: "int \<Rightarrow> sent list \<Rightarrow> bool" where
  "session_ok p [] \<longleftrightarrow> True"
| "session_ok p ((n, t, d, before, after) # ps) \<longleftrightarrow>
     n \<noteq> p \<and> first_attempts_ok p before \<and> after \<noteq> [] \<and> intact (hd after) \<and> intact (last after) \<and>
     list_all (resend n t d) after \<and> list_all attempt_ok (before @ after) \<and> session_ok n ps"

definition session_attempts :: "sent list \<Rightarrow> attempt list" where
  "session_attempts ps = concat (map (\<lambda>(n, t, d, before, after). before @ after) ps)"

text \<open>The data of the data packets.\<close>

definition payload :: "sent list \<Rightarrow> u8 list" where
  "payload ps = concat (map (\<lambda>(n, t, d, before, after). if t = 0x44 then d else []) ps)"

definition last_number :: "int \<Rightarrow> sent list \<Rightarrow> int" where
  "last_number p ps = (if ps = [] then p else fst (last ps))"

lemma damaged_again:
  "list_all (\<lambda>x. case x of Damaged m bs z \<Rightarrow> True | Intact n t d z \<Rightarrow> False) xs \<Longrightarrow>
    \<exists>l'. fold receive_attempt xs (l, c, c) = (l', c, c)"
proof (induction xs arbitrary: l)
  case (Cons x xs)
  then obtain m bs z where "x = Damaged m bs z" by (cases x) auto
  then have "\<exists>l1. receive_attempt x (l, c, c) = (l1, c, c)" by (cases m) auto
  with Cons show ?case by auto
qed simp

lemma received_before:
  assumes "first_attempts_ok p xs" "n \<noteq> p"
  shows "take_number n (fold receive_attempt xs (p, s, c)) = (n, c, c)"
proof (cases xs)
  case (Cons x ys)
  with assms(1) obtain m bs z where x: "x = Damaged (Some m) bs z" "m \<noteq> p"
    by (auto simp: first_attempts_ok_def split: attempt.splits option.splits)
  obtain l where "fold receive_attempt ys (m, c, c) = (l, c, c)"
    using damaged_again [of ys m c] assms(1) Cons by (auto simp: first_attempts_ok_def)
  with x Cons show ?thesis by simp
qed (use assms in simp)

lemma received_after:
  "list_all (resend n t d) xs \<Longrightarrow>
    fold receive_attempt xs (n, c, x) = (n, c, if xs = [] then x else if intact (last xs) then append_data t d c else c)"
proof (induction xs rule: rev_induct)
  case (snoc y xs)
  then show ?case by (cases y rule: attempt.exhaust; cases "case y of Damaged m _ _ \<Rightarrow> m | _ \<Rightarrow> None") (auto simp: intact_def)
qed simp

lemma session_received:
  "session_ok p ps \<Longrightarrow> \<exists>s'. fold receive_attempt (session_attempts ps) (p, s, (bs, e)) =
     (last_number p ps, s', (bs @ fst (kdecode 0x23 e (payload ps)), snd (kdecode 0x23 e (payload ps))))"
proof (induction p ps arbitrary: s bs e rule: session_ok.induct)
  case (2 p n t d before after ps)
  then obtain z ys where a: "after = Intact n t d z # ys" "list_all (resend n t d) ys"
    by (cases after; cases "hd after") (auto simp: intact_def)
  define c where "c = (bs, e)"
  have "take_number n (fold receive_attempt before (p, s, c)) = (n, c, c)"
    using 2(2) by (intro received_before) simp_all
  then have "fold receive_attempt (before @ after) (p, s, c) = fold receive_attempt ys (n, c, append_data t d c)"
    by (simp add: a(1))
  also have "\<dots> = (n, c, append_data t d c)"
    using received_after [OF a(2), of c "append_data t d c"] 2(2) a(1) by (auto split: if_splits)
  finally have f: "fold receive_attempt (before @ after) (p, s, (bs, e)) = (n, c, append_data t d (bs, e))"
    by (simp add: c_def)
  obtain b e' where be: "append_data t d (bs, e) = (bs @ b, e')"
    "kdecode 0x23 e (payload ((n, t, d, before, after) # ps)) = (b @ fst (kdecode 0x23 e' (payload ps)), snd (kdecode 0x23 e' (payload ps)))"
    by (cases "t = 0x44") (auto simp: payload_def kdecode_append Let_def case_prod_unfold)
  from 2(1) [of c "bs @ b" e'] 2(2) obtain s' where
    "fold receive_attempt (session_attempts ps) (n, c, (bs @ b, e')) =
      (last_number n ps, s', ((bs @ b) @ fst (kdecode 0x23 e' (payload ps)), snd (kdecode 0x23 e' (payload ps))))" by auto
  moreover have "session_attempts ((n, t, d, before, after) # ps) = (before @ after) @ session_attempts ps"
    by (simp add: session_attempts_def)
  moreover have "last_number p ((n, t, d, before, after) # ps) = last_number n ps" by (simp add: last_number_def)
  ultimately show ?case using f be by simp
qed (auto simp: session_attempts_def payload_def last_number_def)

lemma session_attempts_ok: "session_ok p ps \<Longrightarrow> list_all attempt_ok (session_attempts ps)"
  by (induction p ps rule: session_ok.induct) (auto simp: session_attempts_def)

text \<open>C11: A Kermit download over a disturbed line. Each packet is sent until an intact copy arrives, and
  may be sent again; the other copies are damaged in any way the receiver rejects: cut short by a
  control character, with a wrong check character in header or data (type, length and data being
  anything), or without the carriage return, and with noise behind them. Excluded is what the
  receiver does not withstand: a first copy cut before its sequence number or given the number of
  the packet before, a repetition given another number, and a damaged repetition with no intact
  one after it. If the data packets carry the file in control quoting, \<open>k_recv\<close> returns the file's
  length, memory from \<open>bin_start_address\<close> on holds the file and the input behind the break packet
  has not been touched.\<close>

theorem kermit_transfer:
  assumes s: "session_ok (- 1) ps" and p: "payload ps = kencode file'"
    and b: "n \<noteq> last_number (- 1) ps" "frame_ok n 0x42 d" "first_attempts_ok (last_number (- 1) ps) bad" "list_all attempt_ok bad"
    and len: "length (line_bytes (session_attempts ps @ bad)) + length d < 2 ^ 32"
  shows "\<exists>k'. k_recv (feed k (line_bytes (session_attempts ps @ bad) @ frame n 0x42 d (check n 0x42 d) @ rest))
      = Some (word_of_nat (length file'), k') \<and>
    read_mem (k_mem k') (bin_start_address k) (length file') = file' \<and> con_in (k_con k') = rest"
proof -
  obtain s' where "fold receive_attempt (session_attempts ps) nothing = (last_number (- 1) ps, s', (file', False))"
    using session_received [OF s, of "([], False)" "[]" False] by (auto simp: p kdecode_kencode)
  then have r: "take_number n (fold receive_attempt (session_attempts ps @ bad) nothing) = (n, (file', False), (file', False))"
    using received_before [OF b(3,1), of s' "(file', False)"] by simp
  have "list_all attempt_ok (session_attempts ps @ bad)" using session_attempts_ok [OF s] b(4) by simp
  from k_recv_attempts [OF this b(2) len r] show ?thesis .
qed

text \<open>
  What the receiver does not withstand: a start character and a control character after it between two
  packets, and the packet before them is lost; a repetition whose number is damaged, and the
  next one is taken for a new packet.
\<close>

theorem kermit_cut_loses:
  assumes "frame_ok m 0x44 (kencode xs)" "frame_ok n 0x44 (kencode ys)" "frame_ok b 0x42 []" "m \<noteq> n" "n \<noteq> b" "\<not> plain x"
  shows "\<exists>k'. k_recv (feed k (frame m 0x44 (kencode xs) (check m 0x44 (kencode xs)) @ [0x01, x] @
      frame n 0x44 (kencode ys) (check n 0x44 (kencode ys)) @ frame b 0x42 [] (check b 0x42 []) @ rest))
      = Some (word_of_nat (length ys), k') \<and>
    read_mem (k_mem k') (bin_start_address k) (length ys) = ys"
proof -
  let ?xs = "[Intact m 0x44 (kencode xs) [], Damaged None [x] [], Intact n 0x44 (kencode ys) []]"
  have ok: "list_all attempt_ok ?xs"
    using assms by (simp add: quote_ok_def line_noise_def damaged.no_length)
  have m: "m \<noteq> - 1" using assms(1) by (auto simp: frame_ok_def)
  have r: "take_number b (fold receive_attempt ?xs nothing) = (b, (ys, False), (ys, False))"
    using assms(4,5) m by (simp add: kdecode_kencode)
  have "length (kencode xs) \<le> 9024" "length (kencode ys) \<le> 9024" using assms(1,2) by (simp_all add: frame_ok_def)
  moreover have "length (header n t l) \<le> 6" for n t l by (simp add: header_def Let_def)
  then have "length (header m 0x44 (length (kencode xs))) \<le> 6" "length (header n 0x44 (length (kencode ys))) \<le> 6" by blast+
  ultimately have "length (line_bytes ?xs) + length ([] :: u8 list) < 2 ^ 32" by (simp add: frame_def)
  from k_recv_attempts [OF ok assms(3) this r, of k rest] show ?thesis by auto
qed

theorem kermit_renumbered_repeats:
  assumes "frame_ok m 0x44 (kencode xs)" "frame_ok b 0x42 []" "m \<noteq> b" "damaged (Some n) bs" "n \<noteq> m" "length bs < 2 ^ 16"
  shows "\<exists>k'. k_recv (feed k (frame m 0x44 (kencode xs) (check m 0x44 (kencode xs)) @ (0x01 # bs) @
      frame m 0x44 (kencode xs) (check m 0x44 (kencode xs)) @ frame b 0x42 [] (check b 0x42 []) @ rest))
      = Some (word_of_nat (length (xs @ xs)), k') \<and>
    read_mem (k_mem k') (bin_start_address k) (length (xs @ xs)) = xs @ xs"
proof -
  let ?xs = "[Intact m 0x44 (kencode xs) [], Damaged (Some n) bs [], Intact m 0x44 (kencode xs) []]"
  have ok: "list_all attempt_ok ?xs"
    using assms by (simp add: quote_ok_def line_noise_def)
  have m: "m \<noteq> - 1" using assms(1) by (auto simp: frame_ok_def)
  have r: "take_number b (fold receive_attempt ?xs nothing) = (b, (xs @ xs, False), (xs @ xs, False))"
    using assms(3,5) m by (auto simp: kdecode_kencode)
  have "length (kencode xs) \<le> 9024" using assms(1) by (simp add: frame_ok_def)
  moreover have "length (header m 0x44 (length (kencode xs))) \<le> 6" by (simp add: header_def Let_def)
  ultimately have "length (line_bytes ?xs) + length ([] :: u8 list) < 2 ^ 32" using assms(6) by (simp add: frame_def)
  from k_recv_attempts [OF ok assms(2) this r, of k rest] show ?thesis by auto
qed

text \<open>Control-C while the receiver waits for the start of a packet. \<open>load_serial_bin\<close> returns
  the load address and sets \<open>filesize\<close> to the text of 0, without a change of memory: the caller's test for
  an aborted download never holds.\<close>

theorem loadb_interrupted:
  assumes "con_in (k_con k) = noise @ 0x03 # rest" "\<forall>x \<in> set noise. x \<noteq> 0x01 \<and> x \<noteq> 0x03" "slow (k_con k)"
  shows "\<exists>k'. load_serial_bin offset k = Some (offset, map_option fst (vsprintf (ascii ''%X'') [Word 0]), k') \<and> k_mem k' = k_mem k"
proof -
  have w: "wait_start (noise @ 0x03 # rest) = Some (False, rest)" using assms(2) by (induction noise) auto
  define k0 where "k0 = k\<lparr>bin_start_address := offset, his_eol := 0x0d, his_pad_count := 0, his_pad_char := 0,
       his_quote := 0x23, k_state := 0, k_data_escape := False, os_data_addr := offset, k_state_saved := 0,
       k_data_escape_saved := False, os_data_addr_saved := offset, k_n := 0, k_last_n := - 1\<rparr>"
  define k1 where "k1 = k0\<lparr>k_con := (k_con k0)\<lparr>con_in := rest\<rparr>, send_parms := []\<rparr>"
  have f: "k_con k0 = k_con k" "k_mem k0 = k_mem k" by (simp_all add: k0_def)
  have "k_recv (k\<lparr>bin_start_address := offset\<rparr>) = recv_loop k0" by (simp add: k_recv_def k0_def)
  also have "... = Some (0, k1)"
    by (subst recv_loop.simps) (simp add: f assms(1) w k1_def)
  finally have k1: "k_recv (k\<lparr>bin_start_address := offset\<rparr>) = Some (0, k1)" "slow (k_con k1)" "k_mem k1 = k_mem k"
    using assms(3) by (simp_all add: k1_def f slow_def)
  have "\<exists>c'. drain m c = Some c'" if "slow c" for m c
    using that by (induction m arbitrary: c) (auto simp: tstc_def slow_def Let_def)
  then obtain c' where "drain 100 (k_con k1) = Some c'" using k1(2) by blast
  then show ?thesis using k1 by (simp add: load_serial_bin_def)
qed

definition kermit_0 :: kermit where
  "kermit_0 = \<lparr>k_con = idle_con, k_mem = \<lambda>_. 0, his_eol = 0, his_pad_count = 0, his_pad_char = 0, his_quote = 0,
     bin_start_address = 0x84000000, os_data_addr = 0, os_data_addr_saved = 0, k_data_escape = False,
     k_data_escape_saved = False, k_state = 0, k_state_saved = 0, k_n = 0, k_last_n = 0, send_parms = []\<rparr>"

text \<open>
  A session with disturbances: a data packet arrives with a wrong check character, then intact, and is
  sent once more after a control character cut a repetition; the break packet has a first copy
  with another number and a wrong check.
\<close>

definition whole :: "int \<Rightarrow> u8 \<Rightarrow> u8 list \<Rightarrow> sent" where
  "whole n t d = (n, t, d, [], [Intact n t d []])"

definition bad_break :: "u8 list" where
  "bad_break = [0x23, 0x3f, 0x42, 0x20]"

definition session_0 :: "sent list" where
  "session_0 =
     [whole 0 0x53 (ascii ''~* @-#N1''), whole 1 0x46 (ascii ''U.BIN''),
      (2, 0x44, [0x41, 0x23], [Damaged (Some 2) [0x25, 0x22, 0x44, 0x41, 0x23, 0x20] [0x0d]],
        [Intact 2 0x44 [0x41, 0x23] [0x0a], Damaged None [0x25, 0x0d] [], Intact 2 0x44 [0x41, 0x23] []]),
      whole 3 0x44 [0x4a], whole 4 0x5a []]"

lemma session_0_damage: "damaged (Some 2) [0x25, 0x22, 0x44, 0x41, 0x23, 0x20]" "damaged None [0x25, 0x0d]"
  "damaged (Some 31) bad_break"
proof -
  have "announces [0x25, 0x22, 0x44] (untochar 0x22) 0x44 (nat (untochar 0x25 - 3))"
    by (rule announces.short) (simp_all add: plain_def untochar_def)
  moreover have "untochar 0x22 = 2" "nat (untochar 0x25 - 3) = length [0x41, 0x23 :: u8]" by (simp_all add: untochar_def)
  ultimately have "announces [0x25, 0x22, 0x44] 2 0x44 (length [0x41, 0x23 :: u8])" by simp
  with wrong_check [of "[0x25, 0x22, 0x44]" 2 "0x44" "[0x41, 0x23]" "0x20"] show "damaged (Some 2) [0x25, 0x22, 0x44, 0x41, 0x23, 0x20]"
    by (simp add: plain_def sum_char_def chars_sum_def tochar_def)
  show "damaged None [0x25, 0x0d]" by (rule no_number) (simp_all add: plain_def)
  have "announces [0x23, 0x3f, 0x42] (untochar 0x3f) 0x42 (nat (untochar 0x23 - 3))"
    by (rule announces.short) (simp_all add: plain_def untochar_def)
  then have "announces [0x23, 0x3f, 0x42] 31 0x42 (length ([] :: u8 list))" by (simp add: untochar_def)
  from wrong_check [OF this, of "0x20"] show "damaged (Some 31) bad_break"
    by (simp add: bad_break_def sum_char_def chars_sum_def tochar_def)
qed

theorem kermit_transfer_witness:
  "\<exists>k'. k_recv (feed kermit_0 (line_bytes (session_attempts session_0 @ [Damaged (Some 31) bad_break []]) @
      frame 5 0x42 [] (check 5 0x42 []) @ [0x0a])) = Some (word_of_nat (length [0x41, 0x0a :: u8]), k') \<and>
    read_mem (k_mem k') (bin_start_address kermit_0) (length [0x41, 0x0a :: u8]) = [0x41, 0x0a] \<and> con_in (k_con k') = [0x0a]"
proof (rule kermit_transfer)
  have f: "frame_ok 0 0x53 (ascii ''~* @-#N1'')" "frame_ok 1 0x46 (ascii ''U.BIN'')" "frame_ok 2 0x44 [0x41, 0x23]"
    "frame_ok 3 0x44 [0x4a]" "frame_ok 4 0x5a []"
    by (simp_all add: frame_ok_def plain_def ascii_def)
  show "session_ok (- 1) session_0"
    using session_0_damage f
    by (simp add: session_0_def whole_def first_attempts_ok_def intact_def line_noise_def quote_ok_def ascii_def)
  show "list_all attempt_ok [Damaged (Some 31) bad_break []]"
    using session_0_damage by (simp add: line_noise_def)
  have "length (header n t l) \<le> 6" for n t l by (simp add: header_def Let_def)
  then show "length (line_bytes (session_attempts session_0 @ [Damaged (Some 31) bad_break []])) + length [] < 2 ^ 32"
    by (simp add: session_0_def whole_def session_attempts_def frame_def bad_break_def ascii_def header_def)
qed (simp_all add: session_0_def whole_def payload_def kencode_def kquote_def last_number_def frame_ok_def plain_def
    first_attempts_ok_def)

theorem loadb_interrupted_witness:
  "\<exists>k'. load_serial_bin 0x84000000 (feed kermit_0 ([0x20] @ 0x03 # [])) =
      Some (0x84000000, map_option fst (vsprintf (ascii ''%X'') [Word 0]), k') \<and> k_mem k' = k_mem (feed kermit_0 ([0x20] @ 0x03 # []))"
  by (rule loadb_interrupted [where noise = "[0x20]" and rest = "[]"])
    (simp_all add: feed_def kermit_0_def slow_def idle_con_def)

end
