(* ===== verification/CircBuf.thy ===== *)
theory CircBuf
  imports Prelude
begin

text \<open>
  The circular buffer of \<open>common/circbuf.c\<close>. The pointers into the buffer are offsets from
  \<open>data\<close>, \<open>end\<close> is the length of \<open>data\<close>, and the memory \<open>malloc\<close> returns is a parameter: a list of bytes,
  or nothing.
\<close>

record circbuf =
  cb_size :: u32
  cb_totalsize :: u32
  cb_top :: nat
  cb_tail :: nat
  cb_data :: "u8 list"

definition buf_init :: "(nat \<Rightarrow> u8 list option) \<Rightarrow> u32 \<Rightarrow> circbuf option" where
  "buf_init malloc n =
     map_option (\<lambda>d. \<lparr>cb_size = 0, cb_totalsize = n, cb_top = 0, cb_tail = 0, cb_data = d\<rparr>) (malloc (unat n))"

definition buf_free :: "circbuf \<Rightarrow> circbuf" where
  "buf_free buf = \<lparr>cb_size = 0, cb_totalsize = 0, cb_top = 0, cb_tail = 0, cb_data = []\<rparr>"

text \<open>\<open>p++\<close> with the bounds check.\<close>

definition wrap_next :: "circbuf \<Rightarrow> nat \<Rightarrow> nat" where
  "wrap_next buf p = (if p + 1 = length (cb_data buf) then 0 else p + 1)"

fun pop_loop :: "circbuf \<Rightarrow> nat \<Rightarrow> nat \<Rightarrow> u8 list \<times> nat" where
  "pop_loop buf 0 p = ([], p)"
| "pop_loop buf (Suc n) p =
     (let (xs, q) = pop_loop buf n (wrap_next buf p) in ((cb_data buf ! p) # xs, q))"

text \<open>The bytes put into \<open>dest\<close>, whose number is the return value.\<close>

definition buf_pop :: "u32 \<Rightarrow> circbuf \<Rightarrow> u8 list \<times> circbuf" where
  "buf_pop len buf =
     (let len = (if len > cb_size buf then cb_size buf else len);
          (dest, p) = pop_loop buf (unat len) (cb_top buf)
      in (dest, buf\<lparr>cb_top := p, cb_size := cb_size buf - len\<rparr>))"

fun push_loop :: "u8 list \<Rightarrow> nat \<Rightarrow> circbuf \<Rightarrow> circbuf \<times> nat" where
  "push_loop [] p buf = (buf, p)"
| "push_loop (c # src) p buf =
     (let buf = buf\<lparr>cb_data := (cb_data buf)[p := c]\<rparr>;
          p = wrap_next buf p;
          buf = (if cb_size buf < cb_totalsize buf then buf\<lparr>cb_size := cb_size buf + 1\<rparr>
                 else buf\<lparr>cb_top := wrap_next buf (cb_top buf)\<rparr>)
      in push_loop src p buf)"

definition buf_push :: "u8 list \<Rightarrow> circbuf \<Rightarrow> circbuf" where
  "buf_push src buf = (let (buf, p) = push_loop src (cb_tail buf) buf in buf\<lparr>cb_tail := p\<rparr>)"

section \<open>A bounded queue that forgets its oldest elements\<close>

definition newest :: "nat \<Rightarrow> 'a list \<Rightarrow> 'a list" where
  "newest n xs = drop (length xs - n) xs"

lemma newest_all [simp]: "length xs \<le> n \<Longrightarrow> newest n xs = xs"
  by (simp add: newest_def)

lemma length_newest [simp]: "length (newest n xs) = min n (length xs)"
  by (simp add: newest_def)

lemma newest_newest: "newest n (newest n xs @ ys) = newest n (xs @ ys)"
  by (cases "n \<le> length xs") (simp_all add: newest_def add.commute)

datatype ('a, 'n) action = Push "'a list" | Pop 'n

text \<open>A run of a buffer: the elements it gave out and what it is afterwards.\<close>

fun run_actions :: "('a list \<Rightarrow> 'q \<Rightarrow> 'q) \<Rightarrow> ('n \<Rightarrow> 'q \<Rightarrow> 'a list \<times> 'q) \<Rightarrow> ('a, 'n) action list \<Rightarrow> 'q \<Rightarrow> 'a list \<times> 'q" where
  "run_actions push pop [] q = ([], q)"
| "run_actions push pop (Push xs # as) q = run_actions push pop as (push xs q)"
| "run_actions push pop (Pop n # as) q =
     (let (ys, q) = pop n q; (zs, q) = run_actions push pop as q in (ys @ zs, q))"

text \<open>The actions that never put in more than there is room for, from \<open>len\<close> elements on.\<close>

fun roomy :: "('n \<Rightarrow> nat) \<Rightarrow> nat \<Rightarrow> nat \<Rightarrow> ('a, 'n) action list \<Rightarrow> bool" where
  "roomy count cap len [] \<longleftrightarrow> True"
| "roomy count cap len (Push xs # as) \<longleftrightarrow> len + length xs \<le> cap \<and> roomy count cap (len + length xs) as"
| "roomy count cap len (Pop n # as) \<longleftrightarrow> roomy count cap (len - count n) as"

fun pushed :: "('a, 'n) action list \<Rightarrow> 'a list" where
  "pushed [] = []"
| "pushed (Push xs # as) = xs @ pushed as"
| "pushed (Pop n # as) = pushed as"

text \<open>The interface: what every buffer of this kind promises of its contents.\<close>

locale bounded_queue =
  fixes good :: "'q \<Rightarrow> bool"
    and contents :: "'q \<Rightarrow> 'a list"
    and capacity :: "'q \<Rightarrow> nat"
    and push :: "'a list \<Rightarrow> 'q \<Rightarrow> 'q"
    and pop :: "'n \<Rightarrow> 'q \<Rightarrow> 'a list \<times> 'q"
    and count :: "'n \<Rightarrow> nat"
  assumes fits: "good q \<Longrightarrow> length (contents q) \<le> capacity q"
    and push_law: "good q \<Longrightarrow> good (push xs q) \<and> capacity (push xs q) = capacity q \<and>
      contents (push xs q) = newest (capacity q) (contents q @ xs)"
    and pop_law: "good q \<Longrightarrow> good (snd (pop n q)) \<and> capacity (snd (pop n q)) = capacity q \<and>
      fst (pop n q) = take (count n) (contents q) \<and> contents (snd (pop n q)) = drop (count n) (contents q)"
begin

abbreviation run where "run \<equiv> run_actions push pop"

lemma run_Pop: "run (Pop n # as) q = (fst (pop n q) @ fst (run as (snd (pop n q))), snd (run as (snd (pop n q))))"
  by (simp add: Let_def split: prod.splits)

lemma run_good: "good q \<Longrightarrow> good (snd (run as q)) \<and> capacity (snd (run as q)) = capacity q"
proof (induction as arbitrary: q)
  case (Cons a as)
  then show ?case using push_law [OF Cons.prems] pop_law [OF Cons.prems]
    by (cases a) (auto simp: Cons.IH run_Pop simp del: run_actions.simps(3))
qed simp

text \<open>First in, first out, and nothing lost.\<close>

lemma run_fifo:
  "good q \<Longrightarrow> roomy count (capacity q) (length (contents q)) as \<Longrightarrow>
   fst (run as q) @ contents (snd (run as q)) = contents q @ pushed as"
proof (induction as arbitrary: q)
  case (Cons a as)
  show ?case
  proof (cases a)
    case (Push xs)
    then have "contents (push xs q) = contents q @ xs" using Cons.prems push_law [OF Cons.prems(1), of xs] by simp
    then show ?thesis using Push Cons.IH [of "push xs q"] Cons.prems push_law [OF Cons.prems(1), of xs] by simp
  next
    case (Pop n)
    let ?q = "snd (pop n q)"
    have l: "good ?q" "capacity ?q = capacity q" "fst (pop n q) = take (count n) (contents q)" "contents ?q = drop (count n) (contents q)"
      using pop_law [OF Cons.prems(1), of n] by simp_all
    have "fst (run as ?q) @ contents (snd (run as ?q)) = contents ?q @ pushed as"
      by (rule Cons.IH [OF l(1)]) (use Cons.prems(2) Pop in \<open>simp add: l(2,4)\<close>)
    then show ?thesis by (simp add: Pop run_Pop l(3,4) del: run_actions.simps(3))
  qed
qed simp

text \<open>Without that restriction the contents are always the newest elements.\<close>

lemma push_push: "good q \<Longrightarrow> contents (push ys (push xs q)) = contents (push (xs @ ys) q)"
  using push_law [of q xs] push_law [of "push xs q" ys] push_law [of q "xs @ ys"] by (simp add: newest_newest)

end

section \<open>The circular buffer is one\<close>

definition circ_good :: "circbuf \<Rightarrow> bool" where
  "circ_good b \<longleftrightarrow> 0 < length (cb_data b) \<and> unat (cb_totalsize b) = length (cb_data b) \<and>
     cb_size b \<le> cb_totalsize b \<and> cb_top b < length (cb_data b) \<and>
     cb_tail b = (cb_top b + unat (cb_size b)) mod length (cb_data b)"

definition circ_at :: "circbuf \<Rightarrow> nat \<Rightarrow> nat \<Rightarrow> u8 list" where
  "circ_at b p n = map (\<lambda>i. cb_data b ! ((p + i) mod length (cb_data b))) [0..<n]"

definition circ_contents :: "circbuf \<Rightarrow> u8 list" where
  "circ_contents b = circ_at b (cb_top b) (unat (cb_size b))"

lemma wrap_next_mod: "p < length (cb_data b) \<Longrightarrow> wrap_next b p = (p + 1) mod length (cb_data b)"
  by (simp add: wrap_next_def)

lemma circ_at_simps: "circ_at b p 0 = []"
  "p < length (cb_data b) \<Longrightarrow> circ_at b p (Suc n) = cb_data b ! p # circ_at b ((p + 1) mod length (cb_data b)) n"
  by (simp_all add: circ_at_def upt_conv_Cons map_Suc_upt [symmetric] mod_simps ac_simps del: upt_Suc)

lemma pop_loop_at:
  "p < length (cb_data b) \<Longrightarrow> pop_loop b n p = (circ_at b p n, (p + n) mod length (cb_data b))"
proof (induction n arbitrary: p)
  case (Suc n)
  have "(p + 1) mod length (cb_data b) < length (cb_data b)" using Suc.prems by (intro mod_less_divisor) linarith
  from Suc.IH [OF this] show ?case using Suc.prems by (simp add: wrap_next_mod circ_at_simps mod_simps Let_def)
qed (simp add: circ_at_simps)


lemma nth_circ_at [simp]: "i < n \<Longrightarrow> circ_at b p n ! i = cb_data b ! ((p + i) mod length (cb_data b))"
  by (simp add: circ_at_def)

lemma length_circ_at [simp]: "length (circ_at b p n) = n"
  by (simp add: circ_at_def)

lemma length_circ_contents [simp]: "length (circ_contents b) = unat (cb_size b)"
  by (simp add: circ_contents_def)

lemma mod_add_inj:
  assumes "i < n" "j < n" "(t + i) mod n = (t + j) mod (n :: nat)"
  shows "i = j"
proof -
  have *: "a = b" if "a \<le> b" "b < n" "(t + b) mod n = (t + a) mod n" for a b
  proof -
    have "n dvd b - a" using that mod_eq_dvd_iff_nat [of "t + a" "t + b" n] by simp
    then show "a = b" using that by (metis diff_is_0_eq le_antisym less_imp_diff_less nat_dvd_not_less not_gr_zero)
  qed
  then show ?thesis using assms by (metis nat_le_linear)
qed

text \<open>One character, the tail being \<open>p\<close>.\<close>

definition push_char :: "u8 \<Rightarrow> nat \<Rightarrow> circbuf \<Rightarrow> circbuf" where
  "push_char c p b =
     (let b = b\<lparr>cb_data := (cb_data b)[p := c]\<rparr>
      in if cb_size b < cb_totalsize b then b\<lparr>cb_size := cb_size b + 1\<rparr> else b\<lparr>cb_top := wrap_next b (cb_top b)\<rparr>)"

lemma push_loop_char: "push_loop (c # src) p b = push_loop src (wrap_next b p) (push_char c p b)"
  by (simp add: push_char_def Let_def wrap_next_def)

lemma push_char_roomy:
  assumes g: "circ_good (b\<lparr>cb_tail := p\<rparr>)" and s: "cb_size b < cb_totalsize b"
  shows "circ_good ((push_char c p b)\<lparr>cb_tail := wrap_next b p\<rparr>)"
    "circ_contents (push_char c p b) = circ_contents b @ [c]"
proof -
  let ?n = "length (cb_data b)" and ?t = "cb_top b" and ?s = "unat (cb_size b)"
  have f: "0 < ?n" "unat (cb_totalsize b) = ?n" "?t < ?n" "p = (?t + ?s) mod ?n" using g by (simp_all add: circ_good_def)
  have sn: "?s < ?n" using s f(2) by (simp add: word_less_nat_alt)
  have p: "p < ?n" using f by simp
  have s1: "unat (cb_size b + 1) = ?s + 1" using sn f(2) unsigned_less [of "cb_totalsize b", where ?'a = nat] by (simp add: unat_word_ariths)
  have c': "push_char c p b = b\<lparr>cb_data := (cb_data b)[p := c], cb_size := cb_size b + 1\<rparr>"
    using s by (simp add: push_char_def)
  show "circ_good ((push_char c p b)\<lparr>cb_tail := wrap_next b p\<rparr>)"
    unfolding c' using f sn p s1 by (simp add: circ_good_def wrap_next_mod word_le_nat_alt mod_Suc_eq)
  show "circ_contents (push_char c p b) = circ_contents b @ [c]"
  proof (rule nth_equalityI)
    show "length (circ_contents (push_char c p b)) = length (circ_contents b @ [c])" by (simp add: c' s1)
    fix i assume "i < length (circ_contents (push_char c p b))"
    then have i: "i < ?s + 1" by (simp add: c' s1)
    show "circ_contents (push_char c p b) ! i = (circ_contents b @ [c]) ! i"
    proof (cases "i = ?s")
      case True
      then show ?thesis using p unfolding c' circ_contents_def by (simp add: s1 nth_append f(4) [symmetric])
    next
      case False
      then have "i < ?s" using i by simp
      moreover have "(?t + i) mod ?n \<noteq> p" using mod_add_inj [of i ?n ?s ?t] \<open>i < ?s\<close> sn f(4) by auto
      ultimately show ?thesis by (simp add: circ_contents_def c' s1 nth_append)
    qed
  qed
qed

lemma push_char_full:
  assumes g: "circ_good (b\<lparr>cb_tail := p\<rparr>)" and s: "\<not> cb_size b < cb_totalsize b"
  shows "circ_good ((push_char c p b)\<lparr>cb_tail := wrap_next b p\<rparr>)"
    "circ_contents (push_char c p b) = tl (circ_contents b) @ [c]"
proof -
  let ?n = "length (cb_data b)" and ?t = "cb_top b"
  have f: "0 < ?n" "unat (cb_totalsize b) = ?n" "?t < ?n" "p = (?t + unat (cb_size b)) mod ?n" using g by (simp_all add: circ_good_def)
  have sn: "unat (cb_size b) = ?n" using g s f(2) by (simp add: circ_good_def word_le_nat_alt word_less_nat_alt)
  have p: "p = ?t" using f sn by simp
  have c': "push_char c p b = b\<lparr>cb_data := (cb_data b)[p := c], cb_top := (?t + 1) mod ?n\<rparr>"
    using s f by (simp add: push_char_def wrap_next_mod)
  show "circ_good ((push_char c p b)\<lparr>cb_tail := wrap_next b p\<rparr>)"
    unfolding c' using g f p sn by (simp add: circ_good_def wrap_next_mod)
  show "circ_contents (push_char c p b) = tl (circ_contents b) @ [c]"
  proof (rule nth_equalityI)
    show "length (circ_contents (push_char c p b)) = length (tl (circ_contents b) @ [c])"
      using f(1) by (simp add: c' sn)
    fix i assume "i < length (circ_contents (push_char c p b))"
    then have i: "i < ?n" by (simp add: c' sn)
    have m: "((?t + 1) mod ?n + i) mod ?n = (?t + (i + 1)) mod ?n" by (simp add: mod_simps)
    show "circ_contents (push_char c p b) ! i = (tl (circ_contents b) @ [c]) ! i"
    proof (cases "i + 1 = ?n")
      case True
      then have "(?t + (i + 1)) mod ?n = p" "\<not> i < ?n - 1" using f(3) p by simp_all
      then show ?thesis using True i m f(3) p unfolding c' circ_contents_def by (simp add: sn nth_append)
    next
      case False
      then have "i + 1 < ?n" using i by simp
      moreover have "(?t + (i + 1)) mod ?n \<noteq> p" using mod_add_inj [of "i + 1" ?n 0 ?t] \<open>i + 1 < ?n\<close> f(1,3) p by auto
      ultimately show ?thesis using m by (auto simp: circ_contents_def c' sn nth_append nth_tl)
    qed
  qed
qed


lemma push_char_fields:
  "length (cb_data (push_char c p b)) = length (cb_data b)" "cb_totalsize (push_char c p b) = cb_totalsize b"
  "push_char c p (b\<lparr>cb_tail := q\<rparr>) = (push_char c p b)\<lparr>cb_tail := q\<rparr>"
  by (simp_all add: push_char_def Let_def wrap_next_def)

lemma circ_contents_tail [simp]: "circ_contents (b\<lparr>cb_tail := q\<rparr>) = circ_contents b"
  by (simp add: circ_contents_def circ_at_def)

lemma push_char_newest:
  assumes "circ_good (b\<lparr>cb_tail := p\<rparr>)"
  shows "circ_good ((push_char c p b)\<lparr>cb_tail := wrap_next b p\<rparr>) \<and>
    circ_contents (push_char c p b) = newest (unat (cb_totalsize b)) (circ_contents b @ [c])"
proof (cases "cb_size b < cb_totalsize b")
  case True
  then have "unat (cb_size b) + 1 \<le> unat (cb_totalsize b)" by (simp add: word_less_nat_alt)
  then show ?thesis using push_char_roomy [OF assms True] by simp
next
  case False
  then have "unat (cb_size b) = unat (cb_totalsize b)" using assms by (simp add: circ_good_def word_le_nat_alt word_less_nat_alt)
  moreover have "circ_contents b \<noteq> []"
    using calculation assms length_circ_contents [of b] by (auto simp: circ_good_def simp del: length_circ_contents)
  moreover have "0 < unat (cb_totalsize b)" using assms by (simp add: circ_good_def)
  ultimately show ?thesis using push_char_full [OF assms False] by (simp add: newest_def drop_Suc)
qed

lemma push_loop_newest:
  assumes "circ_good (b\<lparr>cb_tail := p\<rparr>)" "push_loop src p b = (b', p')"
  shows "circ_good (b'\<lparr>cb_tail := p'\<rparr>) \<and> cb_totalsize b' = cb_totalsize b \<and>
    circ_contents b' = newest (unat (cb_totalsize b)) (circ_contents b @ src)"
  using assms
proof (induction src arbitrary: p b)
  case Nil
  then show ?case by (auto simp: circ_good_def word_le_nat_alt)
next
  case (Cons c src)
  have g: "circ_good ((push_char c p b)\<lparr>cb_tail := wrap_next b p\<rparr>)"
    "circ_contents (push_char c p b) = newest (unat (cb_totalsize b)) (circ_contents b @ [c])"
    using push_char_newest [OF Cons.prems(1)] by simp_all
  have "push_loop src (wrap_next b p) (push_char c p b) = (b', p')" using Cons.prems(2) by (simp only: push_loop_char)
  from Cons.IH [OF g(1) this] show ?case
    by (simp add: g(2) push_char_fields newest_newest)
qed

lemma buf_push_newest:
  assumes "circ_good b"
  shows "circ_good (buf_push src b) \<and> unat (cb_totalsize (buf_push src b)) = unat (cb_totalsize b) \<and>
    circ_contents (buf_push src b) = newest (unat (cb_totalsize b)) (circ_contents b @ src)"
proof -
  obtain b' p' where p: "push_loop src (cb_tail b) b = (b', p')" by fastforce
  have "circ_good (b\<lparr>cb_tail := cb_tail b\<rparr>)" using assms by simp
  from push_loop_newest [OF this p] show ?thesis by (simp add: buf_push_def p)
qed

lemma buf_pop_oldest:
  assumes "circ_good b"
  shows "circ_good (snd (buf_pop len b)) \<and> unat (cb_totalsize (snd (buf_pop len b))) = unat (cb_totalsize b) \<and>
    fst (buf_pop len b) = take (unat len) (circ_contents b) \<and>
    circ_contents (snd (buf_pop len b)) = drop (unat len) (circ_contents b)"
proof -
  define l where "l = (if len > cb_size b then cb_size b else len)"
  let ?n = "length (cb_data b)" and ?t = "cb_top b"
  have l: "l \<le> cb_size b" "take (unat l) (circ_contents b) = take (unat len) (circ_contents b)"
    "drop (unat l) (circ_contents b) = drop (unat len) (circ_contents b)"
    by (auto simp: l_def word_less_nat_alt word_le_nat_alt)
  have le: "unat l \<le> unat (cb_size b)" using l(1) by (simp add: word_le_nat_alt)
  have sub: "unat (cb_size b - l) = unat (cb_size b) - unat l" using l(1) by (rule unat_sub)
  have f: "0 < ?n" "?t < ?n" using assms by (simp_all add: circ_good_def)
  have "((?t + unat l) mod ?n + (unat (cb_size b) - unat l)) mod ?n = (?t + unat l + (unat (cb_size b) - unat l)) mod ?n"
    by (rule mod_add_left_eq)
  then have tail: "((?t + unat l) mod ?n + (unat (cb_size b) - unat l)) mod ?n = (?t + unat (cb_size b)) mod ?n"
    using le by simp
  have p: "buf_pop len b = (circ_at b ?t (unat l), b\<lparr>cb_top := (?t + unat l) mod ?n, cb_size := cb_size b - l\<rparr>)"
    using f by (simp add: buf_pop_def l_def [symmetric] pop_loop_at)
  have "circ_at b ?t (unat l) = take (unat l) (circ_contents b)"
    using le by (auto simp: circ_contents_def circ_at_def take_map intro!: nth_equalityI)
  moreover have "circ_contents (snd (buf_pop len b)) = drop (unat l) (circ_contents b)"
    unfolding p using le by (auto simp: circ_contents_def circ_at_def sub mod_simps add.assoc intro!: nth_equalityI)
  moreover have "circ_good (snd (buf_pop len b))"
    unfolding p using assms le f tail by (auto simp: circ_good_def word_le_nat_alt sub)
  ultimately show ?thesis using l p by simp
qed

interpretation circ: bounded_queue circ_good circ_contents "\<lambda>b. unat (cb_totalsize b)" buf_push buf_pop unat
proof
  fix q xs n
  assume g: "circ_good q"
  show "length (circ_contents q) \<le> unat (cb_totalsize q)" using g by (simp add: circ_good_def word_le_nat_alt)
  show "circ_good (buf_push xs q) \<and> unat (cb_totalsize (buf_push xs q)) = unat (cb_totalsize q) \<and>
      circ_contents (buf_push xs q) = newest (unat (cb_totalsize q)) (circ_contents q @ xs)"
    by (rule buf_push_newest [OF g])
  show "circ_good (snd (buf_pop n q)) \<and> unat (cb_totalsize (snd (buf_pop n q))) = unat (cb_totalsize q) \<and>
      fst (buf_pop n q) = take (unat n) (circ_contents q) \<and> circ_contents (snd (buf_pop n q)) = drop (unat n) (circ_contents q)"
    by (rule buf_pop_oldest [OF g])
qed

lemma buf_init_good:
  "malloc (unat n) = Some d \<Longrightarrow> length d = unat n \<Longrightarrow> 0 < n \<Longrightarrow>
   buf_init malloc n = Some b \<Longrightarrow> circ_good b \<and> circ_contents b = [] \<and> cb_totalsize b = n"
  by (auto simp: buf_init_def circ_good_def circ_contents_def circ_at_def word_less_nat_alt)

text \<open>Overwriting. What is read after pushes of any length is taken from the newest \<open>totalsize\<close> bytes:
  a push that exceeds the room left replaces the oldest bytes and nothing else.\<close>

theorem circbuf_newest:
  assumes "malloc (unat n) = Some d" "length d = unat n" "0 < n" "buf_init malloc n = Some b"
  shows "fst (buf_pop len (buf_push ys (snd (buf_pop k (buf_push xs b))))) =
    take (unat len) (newest (unat n) (drop (unat k) (newest (unat n) xs) @ ys))"
  using buf_init_good [OF assms] by (simp add: circ.push_law circ.pop_law)

text \<open>C36: First in, first out. From \<open>buf_init\<close> on, after any sequence of calls of \<open>buf_push\<close> and \<open>buf_pop\<close> that
  never put in more than there is room for, the bytes given out followed by the bytes still
  held are exactly the bytes put in, and the pointers and counters satisfy the representation invariant.\<close>

theorem circbuf_fifo:
  assumes "malloc (unat n) = Some d" "length d = unat n" "0 < n" "buf_init malloc n = Some b"
    "roomy unat (unat n) 0 as" "run_actions buf_push buf_pop as b = (out, b')"
  shows "out @ circ_contents b' = pushed as \<and> circ_good b'"
  using buf_init_good [OF assms(1-4)] circ.run_fifo [of b as] circ.run_good [of b as] assms(5,6) by auto

definition buf4 :: circbuf where
  "buf4 = \<lparr>cb_size = 0, cb_totalsize = 4, cb_top = 0, cb_tail = 0, cb_data = [0, 0, 0, 0]\<rparr>"

definition actions4 :: "(u8, u32) action list" where
  "actions4 = [Push [1, 2, 3], Pop 2, Push [4, 5], Pop 1]"

lemma actions4_out: "fst (run_actions buf_push buf_pop actions4 buf4) = [1, 2, 3]" "roomy unat 4 0 actions4"
  by code_simp+

theorem circbuf_fifo_witness:
  "[1, 2, 3] @ circ_contents (snd (run_actions buf_push buf_pop actions4 buf4)) = pushed actions4 \<and>
    circ_good (snd (run_actions buf_push buf_pop actions4 buf4))"
  by (rule circbuf_fifo [where malloc = "\<lambda>k. Some [0, 0, 0, 0]" and n = 4 and d = "[0, 0, 0, 0]" and b = buf4])
    (simp_all add: buf_init_def buf4_def [symmetric] actions4_out prod_eq_iff)

theorem circbuf_newest_witness:
  "fst (buf_pop 3 (buf_push [7, 8] (snd (buf_pop 1 (buf_push [1, 2, 3, 4, 5] buf4))))) =
    take (unat (3 :: u32)) (newest (unat (4 :: u32)) (drop (unat (1 :: u32)) (newest (unat (4 :: u32)) [1, 2, 3, 4, 5]) @ [7, 8]))"
  by (rule circbuf_newest [where malloc = "\<lambda>k. Some [0, 0, 0, 0]" and d = "[0, 0, 0, 0]"])
    (simp_all add: buf_init_def buf4_def)


end
