(* ===== verification/Command.thy ===== *)
theory Command
  imports Env Console "HOL-Library.Multiset"
begin

text \<open>
  \<open>common/command.c\<close>: the command table, looking up and completing commands, and the commands
  \<open>version\<close>, \<open>echo\<close>, \<open>test\<close>, \<open>exit\<close> and \<open>help\<close>. Strings are lists of characters without the
  terminator. The table is what the linker collects from the \<open>U_BOOT_CMD\<close> macros: a parameter. A
  function in it is a number; the only completion function there is is \<open>var_complete\<close>.
\<close>

record cmd_tbl =
  c_name :: "u8 list"
  c_maxargs :: int
  c_repeatable :: int
  c_cmd :: nat
  c_usage :: "u8 list option"
  c_help :: "u8 list option"
  c_complete :: bool

section \<open>Strings as lists\<close>

text \<open>\<open>strcmp\<close> and the test of \<open>strncmp\<close> for 0.\<close>

fun strcmp_l :: "u8 list \<Rightarrow> u8 list \<Rightarrow> int" where
  "strcmp_l [] [] = 0"
| "strcmp_l [] (y # ys) = sint (0 - y)"
| "strcmp_l (x # xs) [] = sint x"
| "strcmp_l (x # xs) (y # ys) = (if sint (x - y) \<noteq> 0 then sint (x - y) else strcmp_l xs ys)"

lemma strcmp_list: "cstr m a xs \<Longrightarrow> cstr m b ys \<Longrightarrow> strcmp m a b = Some (strcmp_l xs ys)"
proof (induction xs ys arbitrary: a b rule: strcmp_l.induct)
  case (2 y ys)
  then show ?case using sint_diff_0 [of 0 y] by (subst strcmp.simps) (auto simp: Let_def)
next
  case (3 x xs)
  then show ?case using sint_diff_0 [of x 0] by (subst strcmp.simps) (auto simp: Let_def)
next
  case (4 x xs y ys)
  then show ?case by (subst strcmp.simps) (auto simp: Let_def)
qed (subst strcmp.simps, simp)

definition same_prefix :: "nat \<Rightarrow> u8 list \<Rightarrow> u8 list \<Rightarrow> bool" where
  "same_prefix n cs ct \<longleftrightarrow> take n (cs @ [0]) = take n (ct @ [0])"

lemma strncmp_loop_list:
  "cstr m a xs \<Longrightarrow> cstr m b ys \<Longrightarrow> strncmp_loop m a b n 0 = 0 \<longleftrightarrow> same_prefix n xs ys"
proof (induction xs arbitrary: a b ys n)
  case Nil
  then show ?case using sint_diff_0 [of "m a" "m b"]
    by (cases n; cases ys) (auto simp: same_prefix_def Let_def)
next
  case (Cons x xs)
  have x: "m a = x" "x \<noteq> 0" "cstr m (a + 1) xs" using Cons.prems by auto
  show ?case
  proof (cases n)
    case (Suc k)
    show ?thesis
    proof (cases "m b = x")
      case True
      with Cons.prems x obtain ys' where "ys = x # ys'" "cstr m (b + 1) ys'" by (cases ys) auto
      with True Cons.IH [OF x(3) this(2), of k] x Suc show ?thesis by (simp add: same_prefix_def)
    next
      case False
      then have "take n (ys @ [0]) \<noteq> take n ((x # xs) @ [0])" using Cons.prems(2) x Suc by (cases ys) auto
      with False x Suc sint_diff_0 [of x "m b"] show ?thesis by (auto simp: same_prefix_def Let_def)
    qed
  qed (simp add: same_prefix_def)
qed

lemma strncmp_list: "cstr m a xs \<Longrightarrow> cstr m b ys \<Longrightarrow> strncmp m a b n = 0 \<longleftrightarrow> same_prefix n xs ys"
  by (simp add: strncmp_def strncmp_loop_list)

lemma same_prefix_take:
  assumes "n \<le> length cs" "0 \<notin> set cs"
  shows "same_prefix n cs ct \<longleftrightarrow> n \<le> length ct \<and> take n ct = take n cs"
proof (cases "n \<le> length ct")
  case False
  then have "0 \<in> set (take n (ct @ [0]))" by simp
  moreover have "0 \<notin> set (take n (cs @ [0]))" using assms in_set_takeD [of 0 n cs] by auto
  ultimately show ?thesis using False by (metis same_prefix_def)
qed (use assms in \<open>auto simp: same_prefix_def\<close>)

section \<open>Looking up a command\<close>

text \<open>A command may have a length modifier (\<open>cp.b\<close>): only what is before the first dot counts.\<close>

definition stem :: "u8 list \<Rightarrow> u8 list" where
  "stem cmd = takeWhile (\<lambda>c. c \<noteq> 0x2e) cmd"

text \<open>The loop of \<open>find_cmd\<close> from index \<open>i\<close> on: \<open>Inl\<close> the full match, \<open>Inr\<close> the last match and their number.\<close>

fun find_loop :: "cmd_tbl list \<Rightarrow> u8 list \<Rightarrow> nat \<Rightarrow> nat \<Rightarrow> nat \<Rightarrow> nat \<Rightarrow> nat + nat \<times> nat" where
  "find_loop [] cmd len i tmp n_found = Inr (tmp, n_found)"
| "find_loop (cmdtp # t) cmd len i tmp n_found =
     (if same_prefix len cmd (c_name cmdtp)
      then if len = length (c_name cmdtp) then Inl i else find_loop t cmd len (i + 1) i (n_found + 1)
      else find_loop t cmd len (i + 1) tmp n_found)"

text \<open>The index of the entry.\<close>

definition find_cmd :: "cmd_tbl list \<Rightarrow> u8 list \<Rightarrow> nat option" where
  "find_cmd tbl cmd =
     (let len = length (stem cmd) in
      case find_loop tbl cmd len 0 0 0 of
        Inl i \<Rightarrow> Some i
      | Inr (tmp, n_found) \<Rightarrow> if n_found = 1 then Some tmp else None)"

text \<open>The reference: the first exact match, or else the only entry the name abbreviates.\<close>

definition exact :: "cmd_tbl list \<Rightarrow> u8 list \<Rightarrow> nat list" where
  "exact tbl key = filter (\<lambda>i. c_name (tbl ! i) = key) [0..<length tbl]"

definition abbreviated :: "cmd_tbl list \<Rightarrow> u8 list \<Rightarrow> nat list" where
  "abbreviated tbl key = filter (\<lambda>i. length key \<le> length (c_name (tbl ! i)) \<and> take (length key) (c_name (tbl ! i)) = key) [0..<length tbl]"

definition find_ref :: "cmd_tbl list \<Rightarrow> u8 list \<Rightarrow> nat option" where
  "find_ref tbl key =
     (case exact tbl key of i # _ \<Rightarrow> Some i
      | [] \<Rightarrow> (case abbreviated tbl key of [i] \<Rightarrow> Some i | _ \<Rightarrow> None))"

lemma stem_prefix:
  assumes "0 \<notin> set cmd"
  shows "same_prefix (length (stem cmd)) cmd name \<longleftrightarrow> length (stem cmd) \<le> length name \<and> take (length (stem cmd)) name = stem cmd"
proof -
  have "take (length (stem cmd)) cmd = stem cmd" by (simp add: stem_def takeWhile_eq_take [symmetric])
  moreover have "length (stem cmd) \<le> length cmd" by (simp add: stem_def length_takeWhile_le)
  ultimately show ?thesis using same_prefix_take [of "length (stem cmd)" cmd name] assms by simp
qed


lemma filter_upt_Suc: "filter P [0..<Suc n] = (if P 0 then [0] else []) @ map Suc (filter (\<lambda>i. P (Suc i)) [0..<n])"
  by (simp add: upt_conv_Cons map_Suc_upt [symmetric] filter_map o_def del: upt_Suc)

lemma exact_Cons: "exact (c # t) key = (if c_name c = key then [0] else []) @ map Suc (exact t key)"
  unfolding exact_def length_Cons filter_upt_Suc by simp

lemma abbreviated_Cons: "abbreviated (c # t) key =
    (if length key \<le> length (c_name c) \<and> take (length key) (c_name c) = key then [0] else []) @ map Suc (abbreviated t key)"
  unfolding abbreviated_def length_Cons filter_upt_Suc by simp

lemma find_loop_exact:
  assumes "0 \<notin> set cmd" "key = stem cmd" "exact t key = e # es"
  shows "find_loop t cmd (length key) i tmp n = Inl (i + e)"
  using assms(3)
proof (induction t arbitrary: i tmp n e es)
  case (Cons c t)
  note p = stem_prefix [OF assms(1), of "c_name c", folded assms(2)]
  show ?case
  proof (cases "c_name c = key")
    case True
    with Cons.prems p show ?thesis by (auto simp: exact_Cons)
  next
    case False
    with Cons.prems obtain e' es' where e: "e = Suc e'" "exact t key = e' # es'" by (auto simp: exact_Cons)
    have "\<not> (same_prefix (length key) cmd (c_name c) \<and> length key = length (c_name c))" using False p by auto
    then show ?thesis using Cons.IH [OF e(2)] e(1) by auto
  qed
qed (simp add: exact_def)

lemma find_loop_abbreviated:
  assumes "0 \<notin> set cmd" "key = stem cmd" "exact t key = []"
  shows "find_loop t cmd (length key) i tmp n =
    Inr (if abbreviated t key = [] then tmp else i + last (abbreviated t key), n + length (abbreviated t key))"
  using assms(3)
proof (induction t arbitrary: i tmp n)
  case (Cons c t)
  note p = stem_prefix [OF assms(1), of "c_name c", folded assms(2)]
  have c: "c_name c \<noteq> key" "exact t key = []" using Cons.prems by (auto simp: exact_Cons split: if_splits)
  have "\<not> (same_prefix (length key) cmd (c_name c) \<and> length key = length (c_name c))" using c(1) p by auto
  then show ?case using Cons.IH [OF c(2)] p by (auto simp: abbreviated_Cons last_map)
qed (simp add: abbreviated_def)

text \<open>C30: Looking up a command. \<open>find_cmd\<close> finds the first command with exactly the name given, a length
  modifier left out, and otherwise the only command whose name starts with it; an ambiguous or unknown name
  finds nothing.\<close>

theorem find_cmd_abbreviation:
  assumes "0 \<notin> set cmd"
  shows "find_cmd tbl cmd = find_ref tbl (stem cmd)"
proof (cases "exact tbl (stem cmd)")
  case Nil
  then show ?thesis using find_loop_abbreviated [OF assms refl Nil, of 0 0 0]
    by (auto simp: find_cmd_def find_ref_def length_Suc_conv split: list.splits)
next
  case (Cons e es)
  then show ?thesis using find_loop_exact [OF assms refl Cons] by (simp add: find_cmd_def find_ref_def)
qed

definition named :: "string \<Rightarrow> cmd_tbl" where
  "named s = \<lparr>c_name = ascii s, c_maxargs = 1, c_repeatable = 1, c_cmd = 0, c_usage = None, c_help = None, c_complete = False\<rparr>"

theorem find_cmd_abbreviation_witness:
  "find_cmd [named ''cp'', named ''cmp'', named ''crc32''] (ascii ''cr.b'') =
    find_ref [named ''cp'', named ''cmp'', named ''crc32''] (stem (ascii ''cr.b''))"
  by (rule find_cmd_abbreviation) (simp add: ascii_def)

section \<open>\<open>version\<close>, \<open>echo\<close>, \<open>exit\<close>\<close>

text \<open>A command gets its arguments, its name first, and returns a code.\<close>

definition do_version :: "u8 list \<Rightarrow> con \<Rightarrow> int \<times> con" where
  "do_version version_string c = (0, puts (ascii [CHR 0x0a] @ version_string @ ascii [CHR 0x0a]) c)"

text \<open>The characters of one argument, and whether the newline is still wanted.\<close>

fun echo_arg :: "u8 list \<Rightarrow> bool \<Rightarrow> u8 list \<times> bool" where
  "echo_arg [] putnl = ([], putnl)"
| "echo_arg (c # p) putnl =
     (if c = 0x5c \<and> p \<noteq> [] \<and> hd p = 0x63 then echo_arg (tl p) False
      else let (s, putnl) = echo_arg p putnl in (c # s, putnl))"

fun echo_args :: "u8 list list \<Rightarrow> bool \<Rightarrow> bool \<Rightarrow> con \<Rightarrow> bool \<times> con" where
  "echo_args [] first putnl c = (putnl, c)"
| "echo_args (a # as) first putnl c =
     (let c = (if first then c else putc 0x20 c); (s, putnl) = echo_arg a putnl
      in echo_args as False putnl (puts s c))"

definition do_echo :: "u8 list list \<Rightarrow> con \<Rightarrow> int \<times> con" where
  "do_echo argv c =
     (let (putnl, c) = echo_args (tl argv) True True c in (0, if putnl then putc 0x0a c else c))"

definition do_exit :: "u8 list list \<Rightarrow> int" where
  "do_exit argv =
     (let r = (if length argv > 1 then sint (fst (simple_strtoul (argv ! 1) 10)) else 0)
      in sint (word_of_int (- r - 2) :: u32))"

section \<open>\<open>test\<close>\<close>

definition adv_of :: "u8 list \<Rightarrow> nat" where
  "adv_of a =
     (if strcmp_l a (ascii ''-o'') = 0 \<or> strcmp_l a (ascii ''-a'') = 0 then 1
      else if strcmp_l a (ascii ''-z'') = 0 \<or> strcmp_l a (ascii ''-n'') = 0 then 2 else 3)"

lemma adv_of_pos [simp]: "0 < adv_of a"
  by (simp add: adv_of_def)

definition test_unary :: "u8 list \<Rightarrow> u8 list \<Rightarrow> int option" where
  "test_unary op x =
     (if strcmp_l op (ascii ''-z'') = 0 then Some (if length x = 0 then 1 else 0)
      else if strcmp_l op (ascii ''-n'') = 0 then Some (if length x = 0 then 0 else 1) else None)"

definition test_binary :: "u8 list \<Rightarrow> u8 list \<Rightarrow> u8 list \<Rightarrow> int option" where
  "test_binary x op y =
     (let a = fst (simple_strtol x 10); b = fst (simple_strtol y 10) in
      if strcmp_l op (ascii ''='') = 0 then Some (of_bool (strcmp_l x y = 0))
      else if strcmp_l op (ascii ''!='') = 0 then Some (of_bool (strcmp_l x y \<noteq> 0))
      else if strcmp_l op (ascii ''>'') = 0 then Some (of_bool (strcmp_l x y > 0))
      else if strcmp_l op (ascii ''<'') = 0 then Some (of_bool (strcmp_l x y < 0))
      else if strcmp_l op (ascii ''-eq'') = 0 then Some (of_bool (a = b))
      else if strcmp_l op (ascii ''-ne'') = 0 then Some (of_bool (a \<noteq> b))
      else if strcmp_l op (ascii ''-lt'') = 0 then Some (of_bool (a < b))
      else if strcmp_l op (ascii ''-le'') = 0 then Some (of_bool (a \<le> b))
      else if strcmp_l op (ascii ''-gt'') = 0 then Some (of_bool (a > b))
      else if strcmp_l op (ascii ''-ge'') = 0 then Some (of_bool (a \<ge> b))
      else None)"

text \<open>The value joined to what came before: \<open>last_cmp\<close> is 0 after \<open>-o\<close>, 1 after \<open>-a\<close>.\<close>

definition joined :: "int \<Rightarrow> int \<Rightarrow> int \<Rightarrow> int" where
  "joined last_cmp last_expr expr =
     (if last_cmp = 0 then of_bool (last_expr \<noteq> 0 \<or> expr \<noteq> 0)
      else if last_cmp = 1 then of_bool (last_expr \<noteq> 0 \<and> expr \<noteq> 0) else expr)"

text \<open>\<open>while (left > 0)\<close>: the value of \<open>expr\<close> at its end.\<close>

function test_loop :: "u8 list list \<Rightarrow> int \<Rightarrow> int \<Rightarrow> int \<Rightarrow> int" where
  "test_loop ap expr last_expr last_cmp =
     (if ap = [] then expr
      else
        let adv = adv_of (hd ap) in
        if length ap < adv then 1
        else if adv = 1 then
          test_loop (tl ap) expr expr (if strcmp_l (hd ap) (ascii ''-o'') = 0 then 0 else 1)
        else
          (case (if adv = 2 then test_unary (ap ! 0) (ap ! 1) else test_binary (ap ! 0) (ap ! 1) (ap ! 2)) of
             None \<Rightarrow> 1
           | Some e \<Rightarrow> test_loop (drop adv ap) (joined last_cmp last_expr e) last_expr (- 1)))"
  by pat_completeness auto
termination by (relation "measure (\<lambda>(ap, _). length ap)") (simp_all add: Let_def)

declare test_loop.simps [simp del]

text \<open>The exit code: 0 for true.\<close>

definition do_test :: "u8 list list \<Rightarrow> int" where
  "do_test argv =
     (if length argv < 3 then 1
      else
        let ap = tl argv;
            neg = (strcmp_l (hd ap) (ascii ''!'') = 0);
            expr = test_loop (if neg then tl ap else ap) (- 1) (- 1) (- 1);
            expr = (if neg then of_bool (expr = 0) else expr)
        in of_bool (expr = 0))"

text \<open>What the arguments mean: comparisons joined from left to right, perhaps negated as a whole.\<close>

datatype relation = Eq | Ne | Gt | Lt | NumEq | NumNe | NumLt | NumLe | NumGt | NumGe

datatype primary = Empty "u8 list" | Nonempty "u8 list" | Compare "u8 list" relation "u8 list"

datatype connective = Or | And

fun relation_text :: "relation \<Rightarrow> string" where
  "relation_text Eq = ''=''" | "relation_text Ne = ''!=''" | "relation_text Gt = ''>''" | "relation_text Lt = ''<''"
| "relation_text NumEq = ''-eq''" | "relation_text NumNe = ''-ne''" | "relation_text NumLt = ''-lt''"
| "relation_text NumLe = ''-le''" | "relation_text NumGt = ''-gt''" | "relation_text NumGe = ''-ge''"

definition number_of :: "u8 list \<Rightarrow> int" where "number_of x = fst (simple_strtol x 10)"

fun relation_holds :: "relation \<Rightarrow> u8 list \<Rightarrow> u8 list \<Rightarrow> bool" where
  "relation_holds Eq x y \<longleftrightarrow> x = y" | "relation_holds Ne x y \<longleftrightarrow> x \<noteq> y"
| "relation_holds Gt x y \<longleftrightarrow> strcmp_l x y > 0" | "relation_holds Lt x y \<longleftrightarrow> strcmp_l x y < 0"
| "relation_holds NumEq x y \<longleftrightarrow> number_of x = number_of y" | "relation_holds NumNe x y \<longleftrightarrow> number_of x \<noteq> number_of y"
| "relation_holds NumLt x y \<longleftrightarrow> number_of x < number_of y" | "relation_holds NumLe x y \<longleftrightarrow> number_of x \<le> number_of y"
| "relation_holds NumGt x y \<longleftrightarrow> number_of x > number_of y" | "relation_holds NumGe x y \<longleftrightarrow> number_of x \<ge> number_of y"

fun primary_args :: "primary \<Rightarrow> u8 list list" where
  "primary_args (Empty x) = [ascii ''-z'', x]"
| "primary_args (Nonempty x) = [ascii ''-n'', x]"
| "primary_args (Compare x r y) = [x, ascii (relation_text r), y]"

fun primary_holds :: "primary \<Rightarrow> bool" where
  "primary_holds (Empty x) \<longleftrightarrow> x = []"
| "primary_holds (Nonempty x) \<longleftrightarrow> x \<noteq> []"
| "primary_holds (Compare x r y) \<longleftrightarrow> relation_holds r x y"

fun join :: "bool \<Rightarrow> connective \<times> primary \<Rightarrow> bool" where
  "join b (Or, p) = (b \<or> primary_holds p)"
| "join b (And, p) = (b \<and> primary_holds p)"

definition connective_arg :: "connective \<Rightarrow> u8 list" where
  "connective_arg k = (case k of Or \<Rightarrow> ascii ''-o'' | And \<Rightarrow> ascii ''-a'')"

definition test_args :: "bool \<Rightarrow> primary \<Rightarrow> (connective \<times> primary) list \<Rightarrow> u8 list list" where
  "test_args neg p ps =
     (if neg then [ascii ''!''] else []) @ primary_args p @ concat (map (\<lambda>(k, p). connective_arg k # primary_args p) ps)"

text \<open>The left operand of a comparison must not look like an operator.\<close>

definition operand_ok :: "primary \<Rightarrow> bool" where
  "operand_ok p = (case p of Compare x r y \<Rightarrow> adv_of x = 3 | _ \<Rightarrow> True)"

lemma strcmp_l_0 [simp]: "0 \<notin> set xs \<Longrightarrow> 0 \<notin> set ys \<Longrightarrow> strcmp_l xs ys = 0 \<longleftrightarrow> xs = ys"
proof (induction xs ys rule: strcmp_l.induct)
  case (2 y ys)
  then show ?case using sint_diff_0 [of 0 y] by auto
next
  case (3 x xs)
  then show ?case using sint_diff_0 [of x 0] by auto
next
  case (4 x xs y ys)
  then show ?case using sint_diff_0 [of x y] by auto
qed simp



lemma ascii_inj [simp]: "ascii s = ascii t \<longleftrightarrow> s = t"
proof -
  have "inj (\<lambda>c :: char. word_of_nat (of_char c) :: u8)"
  proof (rule injI)
    fix c d :: char
    assume "(word_of_nat (of_char c) :: u8) = word_of_nat (of_char d)"
    then have "take_bit 8 (of_char c :: nat) = take_bit 8 (of_char d)" by (simp add: word_of_nat_eq_iff)
    then show "c = d" by (simp add: take_bit_nat_eq_self of_char_eq_iff)
  qed
  then show ?thesis by (simp add: ascii_def inj_map_eq_map)
qed

lemma operator_nonzero: "0 \<notin> set (ascii ''-o'')" "0 \<notin> set (ascii ''-a'')" "0 \<notin> set (ascii ''-z'')" "0 \<notin> set (ascii ''-n'')"
  "0 \<notin> set (ascii ''!'')" "0 \<notin> set (ascii (relation_text r))"
  by (simp_all add: ascii_def) (cases r; simp)

definition text_ok :: "primary \<Rightarrow> bool" where
  "text_ok p \<longleftrightarrow> operand_ok p \<and> (\<forall>a \<in> set (primary_args p). 0 \<notin> set a)"

lemma test_binary_relation:
  assumes "0 \<notin> set x" "0 \<notin> set y"
  shows "test_binary x (ascii (relation_text r)) y = Some (of_bool (relation_holds r x y))"
proof -
  have t: "strcmp_l (ascii (relation_text r)) (ascii (relation_text r')) = 0 \<longleftrightarrow> relation_text r = relation_text r'" for r'
    by (simp add: operator_nonzero)
  note ts = t [of Eq] t [of Ne] t [of Gt] t [of Lt] t [of NumEq] t [of NumNe] t [of NumLt] t [of NumLe] t [of NumGt] t [of NumGe]
  show ?thesis
    unfolding test_binary_def Let_def ts [unfolded relation_text.simps]
    by (cases r) (simp_all add: assms number_of_def)
qed

lemma adv_of_operators [simp]: "adv_of (ascii ''-o'') = 1" "adv_of (ascii ''-a'') = 1" "adv_of (ascii ''-z'') = 2" "adv_of (ascii ''-n'') = 2"
  by (simp_all add: adv_of_def operator_nonzero)

lemma test_loop_primary:
  assumes "text_ok p"
  shows "test_loop (primary_args p @ rest) expr last_expr last_cmp =
    test_loop rest (joined last_cmp last_expr (of_bool (primary_holds p))) last_expr (- 1)"
proof (cases p)
  case (Empty x)
  then show ?thesis by (subst test_loop.simps) (simp add: test_unary_def operator_nonzero)
next
  case (Nonempty x)
  then show ?thesis by (subst test_loop.simps) (simp add: test_unary_def operator_nonzero)
next
  case (Compare x r y)
  with assms have "adv_of x = 3" "0 \<notin> set x" "0 \<notin> set y" by (simp_all add: text_ok_def operand_ok_def)
  with Compare show ?thesis
    by (subst test_loop.simps) (simp add: test_binary_relation numeral_3_eq_3)
qed

lemma test_loop_connective:
  "test_loop (connective_arg k # ap) expr last_expr last_cmp =
    test_loop ap expr expr (case k of Or \<Rightarrow> 0 | And \<Rightarrow> 1)"
  by (subst test_loop.simps) (cases k; simp add: connective_arg_def operator_nonzero)

lemma test_loop_rest:
  "\<forall>(k, p) \<in> set ps. text_ok p \<Longrightarrow>
   test_loop (concat (map (\<lambda>(k, p). connective_arg k # primary_args p) ps)) (of_bool b) last_expr (- 1) = of_bool (foldl join b ps)"
proof (induction ps arbitrary: b last_expr)
  case Nil
  then show ?case by (subst test_loop.simps) simp
next
  case (Cons kp ps)
  obtain k p where kp: "kp = (k, p)" by fastforce
  have "test_loop (concat (map (\<lambda>(k, p). connective_arg k # primary_args p) (kp # ps))) (of_bool b) last_expr (- 1) =
      test_loop (concat (map (\<lambda>(k, p). connective_arg k # primary_args p) ps)) (of_bool (join b kp)) (of_bool b) (- 1)"
    using Cons.prems kp by (cases k) (simp_all add: test_loop_connective test_loop_primary joined_def)
  then show ?case using Cons by simp
qed

lemma test_args_length: "2 \<le> length (primary_args p)" by (cases p) simp_all

text \<open>The \<open>test\<close> command. Given comparisons joined by \<open>-o\<close> and \<open>-a\<close>, after \<open>!\<close> or not, it returns 0
  exactly when the expression holds: the connectives apply from left to right without precedence, and
  the negation covers all of it.\<close>

theorem do_test_evaluates:
  assumes "\<forall>(k, p) \<in> set ((Or, p) # ps). text_ok p" "hd (primary_args p) \<noteq> ascii ''!''"
  shows "do_test (cmd # test_args neg p ps) = (if foldl join (primary_holds p) ps \<noteq> neg then 0 else 1)"
proof -
  let ?ap = "primary_args p @ concat (map (\<lambda>(k, p). connective_arg k # primary_args p) ps)"
  have p: "text_ok p" using assms(1) by simp
  have "test_loop ?ap (- 1) (- 1) (- 1) = of_bool (foldl join (primary_holds p) ps)"
    using assms(1) p by (simp add: test_loop_primary joined_def test_loop_rest)
  moreover have "0 \<notin> set (hd (primary_args p))" using p by (cases p) (auto simp: text_ok_def operator_nonzero)
  ultimately show ?thesis using assms(2) test_args_length [of p]
    by (cases neg) (auto simp: do_test_def test_args_def operator_nonzero Let_def hd_append)
qed

theorem do_test_evaluates_witness:
  "do_test (ascii ''test'' # test_args True (Compare (ascii ''12'') NumLt (ascii ''9'')) [(And, Nonempty (ascii ''x''))]) =
    (if foldl join (primary_holds (Compare (ascii ''12'') NumLt (ascii ''9''))) [(And, Nonempty (ascii ''x''))] \<noteq> True then 0 else 1)"
  by (rule do_test_evaluates) (simp_all add: text_ok_def operand_ok_def adv_of_def ascii_def strcmp_l.simps)

section \<open>\<open>help\<close>\<close>

text \<open>One pass of the bubble sort over the first \<open>i + 1\<close> entries, with the number of swaps.\<close>

definition swap_step :: "nat \<Rightarrow> cmd_tbl list \<times> nat \<Rightarrow> cmd_tbl list \<times> nat" where
  "swap_step j = (\<lambda>(a, swaps).
     if strcmp_l (c_name (a ! j)) (c_name (a ! (j + 1))) > 0
     then (a[j := a ! (j + 1), j + 1 := a ! j], swaps + 1) else (a, swaps))"

definition sort_pass :: "nat \<Rightarrow> cmd_tbl list \<Rightarrow> cmd_tbl list \<times> nat" where
  "sort_pass i a = fold swap_step [0..<i] (a, 0)"

text \<open>\<open>for (i = cmd_items - 1; i > 0; --i)\<close>.\<close>

fun help_sort :: "nat \<Rightarrow> cmd_tbl list \<Rightarrow> cmd_tbl list" where
  "help_sort 0 a = a"
| "help_sort (Suc i) a = (let (a, swaps) = sort_pass (Suc i) a in if swaps = 0 then a else help_sort i a)"

fun print_usages :: "cmd_tbl list \<Rightarrow> con \<Rightarrow> (int \<times> con) option" where
  "print_usages [] c = Some (0, c)"
| "print_usages (cmdtp # a) c =
     Option.bind (ctrlc c) (\<lambda>(abort, c).
       if abort then Some (1, c)
       else print_usages a (case c_usage cmdtp of None \<Rightarrow> c | Some usage \<Rightarrow> puts usage c))"

definition print_help :: "cmd_tbl \<Rightarrow> int \<Rightarrow> con \<Rightarrow> int \<times> con" where
  "print_help cmdtp rcode c =
     (let c = putc 0x20 (puts (c_name cmdtp) c);
          (rcode, c) = (case c_help cmdtp of Some help \<Rightarrow> (rcode, puts help c)
            | None \<Rightarrow> (1, puts (ascii ''- No help available.'' @ [0x0a]) c))
      in (rcode, putc 0x0a c))"

text \<open>The help on each argument.\<close>

fun help_args :: "cmd_tbl list \<Rightarrow> u8 list list \<Rightarrow> int \<Rightarrow> con \<Rightarrow> int \<times> con" where
  "help_args tbl [] rcode c = (rcode, c)"
| "help_args tbl (a # as) rcode c =
     (case find_cmd tbl a of
        Some i \<Rightarrow> let (rcode, c) = print_help (tbl ! i) rcode c in help_args tbl as rcode c
      | None \<Rightarrow> help_args tbl as 1
          (puts (ascii ''Unknown command '' @ [0x27] @ a @ [0x27] @ ascii '' - try '' @ [0x27] @ ascii ''help'' @ [0x27]
             @ ascii '' without arguments for list of all known commands'' @ [0x0a, 0x0a]) c))"

definition do_help :: "cmd_tbl list \<Rightarrow> u8 list list \<Rightarrow> con \<Rightarrow> (int \<times> con) option" where
  "do_help tbl argv c =
     (if length argv = 1 then print_usages (help_sort (length tbl - 1) tbl) c
      else Some (help_args tbl (tl argv) 0 c))"

text \<open>Commands in order, for names in ASCII.\<close>

definition named_ascii :: "cmd_tbl \<Rightarrow> bool" where
  "named_ascii c \<longleftrightarrow> (\<forall>x \<in> set (c_name c). x \<noteq> 0 \<and> unat x < 128)"

definition name_key :: "cmd_tbl \<Rightarrow> nat list" where "name_key c = map unat (c_name c)"

lemma strcmp_l_ascii:
  "\<forall>x \<in> set xs \<union> set ys. x \<noteq> 0 \<and> unat x < 128 \<Longrightarrow> strcmp_l xs ys > 0 \<longleftrightarrow> map unat ys < map unat xs"
proof (induction xs ys rule: strcmp_l.induct)
  case (2 y ys)
  then show ?case using sint_diff_ascii [of 0 y] unat_gt_0 [of y] by auto
next
  case (3 x xs)
  then show ?case using sint_diff_ascii [of x 0] sint_diff_0 [of x 0] unat_gt_0 [of x] by auto
next
  case (4 x xs y ys)
  then show ?case using sint_diff_ascii [of x y] sint_diff_0 [of x y] by (auto simp: word_unat_eq_iff)
qed simp

lemma strcmp_l_key: "named_ascii c \<Longrightarrow> named_ascii d \<Longrightarrow> strcmp_l (c_name c) (c_name d) > 0 \<longleftrightarrow> name_key d < name_key c"
  unfolding name_key_def by (rule strcmp_l_ascii) (auto simp: named_ascii_def)

text \<open>What a pass over the first \<open>j\<close> positions has done.\<close>

definition passed :: "cmd_tbl list \<Rightarrow> nat \<Rightarrow> cmd_tbl list \<times> nat \<Rightarrow> bool" where
  "passed a j = (\<lambda>(b, swaps).
     mset b = mset a \<and> (\<forall>k > j. k < length a \<longrightarrow> b ! k = a ! k) \<and> (\<forall>k < j. name_key (b ! k) \<le> name_key (b ! j)) \<and>
     (swaps = 0 \<longrightarrow> b = a \<and> (\<forall>k < j. name_key (a ! k) \<le> name_key (a ! (k + 1)))))"

lemma mset_swap: "i < length a \<Longrightarrow> j < length a \<Longrightarrow> mset (a[i := a ! j, j := a ! i]) = mset a"
  by (simp add: mset_update multiset_eq_iff) (auto simp: nth_list_update)

lemma swap_step_passed:
  assumes p: "passed a j (b, swaps)" and l: "j + 1 < length a" and n: "\<forall>c \<in> set a. named_ascii c"
  shows "passed a (j + 1) (swap_step j (b, swaps))"
proof -
  have lb: "length b = length a" "set b = set a" using p by (auto simp: passed_def dest: mset_eq_length mset_eq_setD)
  have na: "named_ascii (b ! j)" "named_ascii (b ! (j + 1))" using l n lb nth_mem [of j b] nth_mem [of "j + 1" b] by auto
  show ?thesis
  proof (cases "name_key (b ! (j + 1)) < name_key (b ! j)")
    case True
    let ?b = "b[j := b ! (j + 1), j + 1 := b ! j]"
    have "mset ?b = mset a" using p l lb mset_swap [of j b "j + 1"] by (simp add: passed_def)
    moreover have "name_key (?b ! k) \<le> name_key (?b ! (j + 1))" if "k < j + 1" for k
    proof (cases "k = j")
      case True
      then show ?thesis using \<open>name_key (b ! (j + 1)) < name_key (b ! j)\<close> l lb by simp
    next
      case False
      then show ?thesis using that p l lb by (simp add: passed_def)
    qed
    moreover have "?b ! k = a ! k" if "k > j + 1" "k < length a" for k using that p by (simp add: passed_def)
    ultimately show ?thesis using True strcmp_l_key [OF na] by (simp add: passed_def swap_step_def)
  next
    case False
    then have le: "name_key (b ! j) \<le> name_key (b ! (j + 1))" by simp
    have "name_key (b ! k) \<le> name_key (b ! (j + 1))" if "k < j + 1" for k
      using that p le by (cases "k = j") (auto simp: passed_def less_Suc_eq intro: order_trans)
    moreover have "name_key (a ! k) \<le> name_key (a ! (k + 1))" if "swaps = 0" "k < j + 1" for k
      using that p le by (cases "k = j") (auto simp: passed_def less_Suc_eq)
    ultimately show ?thesis using False p strcmp_l_key [OF na] by (auto simp: passed_def swap_step_def)
  qed
qed

lemma sort_pass_passed:
  assumes "\<forall>c \<in> set a. named_ascii c" "i < length a"
  shows "passed a i (sort_pass i a)"
  using assms(2)
proof (induction i)
  case 0
  then show ?case by (simp add: passed_def sort_pass_def)
next
  case (Suc i)
  then have "passed a i (sort_pass i a)" by simp
  then show ?case using swap_step_passed [of a i "fst (sort_pass i a)" "snd (sort_pass i a)"] Suc.prems assms(1)
    by (simp add: sort_pass_def)
qed

text \<open>Everything from position \<open>i\<close> on is in its place.\<close>

definition settled :: "nat \<Rightarrow> cmd_tbl list \<Rightarrow> bool" where
  "settled i a \<longleftrightarrow> (\<forall>k < length a. \<forall>l < length a. k < l \<and> i < l \<longrightarrow> name_key (a ! k) \<le> name_key (a ! l))"

lemma help_sort_sorted:
  assumes "\<forall>c \<in> set a. named_ascii c" "i < length a" "settled i a"
  shows "mset (help_sort i a) = mset a \<and> settled 0 (help_sort i a)"
  using assms
proof (induction i arbitrary: a)
  case (Suc i)
  obtain b swaps where b: "sort_pass (Suc i) a = (b, swaps)" by fastforce
  have p: "passed a (Suc i) (b, swaps)" using sort_pass_passed [OF Suc.prems(1,2)] b by simp
  have lb: "length b = length a" "set b = set a" "mset b = mset a" using p by (auto simp: passed_def dest: mset_eq_length mset_eq_setD)
  show ?case
  proof (cases "swaps = 0")
    case True
    then have ba: "b = a" and st: "\<forall>k < Suc i. name_key (a ! k) \<le> name_key (a ! (k + 1))" using p by (auto simp: passed_def)
    have up: "k + d \<le> Suc i \<Longrightarrow> name_key (a ! k) \<le> name_key (a ! (k + d))" for k d
    proof (induction d)
      case (Suc d)
      then show ?case using st [rule_format, of "k + d"] order_trans by fastforce
    qed simp
    have "name_key (a ! k) \<le> name_key (a ! l)" if "k < length a" "l < length a" "k < l" for k l
      using that Suc.prems(3) up [of k "l - k"] by (cases "Suc i < l") (auto simp: settled_def)
    then show ?thesis using True ba b by (simp add: settled_def)
  next
    case False
    have "name_key (b ! k) \<le> name_key (b ! l)" if kl: "k < length b" "l < length b" "k < l" "i < l" for k l
    proof (cases "l = Suc i")
      case True
      then show ?thesis using p kl by (simp add: passed_def)
    next
      case False
      then have l: "Suc i < l" using kl by simp
      have bl: "b ! l = a ! l" using p l kl lb by (simp add: passed_def)
      have "b ! k \<in> set (take l a)"
      proof -
        have "drop l b = drop l a" using p l lb by (intro nth_equalityI) (auto simp: passed_def)
        then have "mset (take l b) = mset (take l a)"
          using lb(3) by (metis add_right_cancel append_take_drop_id mset_append)
        then have "set (take l b) = set (take l a)" by (rule mset_eq_setD)
        moreover have "b ! k \<in> set (take l b)" using kl by (auto simp: in_set_conv_nth)
        ultimately show ?thesis by simp
      qed
      then obtain m where "m < l" "m < length a" "b ! k = a ! m" by (auto simp: in_set_conv_nth)
      then show ?thesis using Suc.prems(3) l kl lb bl by (simp add: settled_def)
    qed
    then have "settled i b" by (simp add: settled_def)
    from Suc.IH [OF _ _ this] show ?thesis using Suc.prems(1,2) lb b False by simp
  qed
qed simp

text \<open>The list of commands. \<open>help\<close> without arguments prints the usage of every command once, in the
  order of the names, when no key is pressed.\<close>

theorem do_help_sorted:
  assumes "\<forall>c \<in> set tbl. named_ascii c" "slow c" "length argv = 1"
  shows "\<exists>sorted c'. mset sorted = mset tbl \<and> sorted_wrt (\<lambda>x y. name_key x \<le> name_key y) sorted \<and>
    do_help tbl argv c = Some (0, c') \<and>
    con_out c' = con_out c @ concat (map (\<lambda>x. case c_usage x of None \<Rightarrow> [] | Some usage \<Rightarrow> usage) sorted)"
proof -
  let ?s = "help_sort (length tbl - 1) tbl"
  have s: "mset ?s = mset tbl \<and> settled 0 ?s"
  proof (cases "tbl = []")
    case False
    then show ?thesis by (intro help_sort_sorted [OF assms(1)]) (auto simp: settled_def)
  qed (simp add: settled_def)
  have p: "slow c \<Longrightarrow> \<exists>c'. print_usages a c = Some (0, c') \<and>
      con_out c' = con_out c @ concat (map (\<lambda>x. case c_usage x of None \<Rightarrow> [] | Some usage \<Rightarrow> usage) a)" for a c
  proof (induction a arbitrary: c)
    case (Cons x a)
    obtain k where k: "ctrlc c = Some (False, c\<lparr>con_polls := k\<rparr>)" using ctrlc_slow [OF Cons.prems] by blast
    define c1 where "c1 = (case c_usage x of None \<Rightarrow> c\<lparr>con_polls := k\<rparr> | Some usage \<Rightarrow> puts usage (c\<lparr>con_polls := k\<rparr>))"
    have "slow c1" "con_out c1 = con_out c @ (case c_usage x of None \<Rightarrow> [] | Some usage \<Rightarrow> usage)"
      using Cons.prems by (auto simp: c1_def slow_def puts_out split: option.splits)
    with Cons.IH [OF this(1)] show ?case by (auto simp: k c1_def)
  qed simp
  obtain c' where "print_usages ?s c = Some (0, c')"
    "con_out c' = con_out c @ concat (map (\<lambda>x. case c_usage x of None \<Rightarrow> [] | Some usage \<Rightarrow> usage) ?s)"
    using p [OF assms(2)] by blast
  moreover have "sorted_wrt (\<lambda>x y. name_key x \<le> name_key y) ?s"
    using s by (auto simp: sorted_wrt_iff_nth_less settled_def)
  ultimately show ?thesis using s assms(3) by (auto simp: do_help_def)
qed

theorem do_help_sorted_witness:
  "\<exists>sorted c'. mset sorted = mset [named ''md'', named ''cp''] \<and> sorted_wrt (\<lambda>x y. name_key x \<le> name_key y) sorted \<and>
    do_help [named ''md'', named ''cp''] [ascii ''help''] idle_con = Some (0, c') \<and>
    con_out c' = con_out idle_con @ concat (map (\<lambda>x. case c_usage x of None \<Rightarrow> [] | Some usage \<Rightarrow> usage) sorted)"
  by (rule do_help_sorted) (simp_all add: named_def named_ascii_def ascii_def slow_def idle_con_def)

section \<open>Completion\<close>

definition CFG_CBSIZE :: nat where "CFG_CBSIZE = 1024"
definition CFG_MAXARGS :: nat where "CFG_MAXARGS = 16"
definition CFG_PROMPT :: "u8 list" where "CFG_PROMPT = ascii ''PDK7105> ''"

definition blank :: "u8 \<Rightarrow> bool" where "blank c \<longleftrightarrow> c = 0x20 \<or> c = 0x09"

text \<open>The names in \<open>cmdv\<close>, which has room for \<open>maxv\<close> pointers.\<close>

fun collect :: "nat \<Rightarrow> u8 list list \<Rightarrow> u8 list list \<Rightarrow> u8 list list" where
  "collect maxv [] found = found"
| "collect maxv (n # ns) found =
     (if maxv - 2 \<le> length found then found @ [ascii ''...''] else collect maxv ns (found @ [n]))"

text \<open>
  \<open>env_complete\<close> from the string at \<open>i\<close> on, with \<open>bufsz\<close> bytes left for names. \<open>None\<close> when the search
  for the end of a string runs away.
\<close>

partial_function (option) env_complete_loop ::
    "mem \<Rightarrow> u8 list \<Rightarrow> nat \<Rightarrow> nat \<Rightarrow> int \<Rightarrow> u8 list list \<Rightarrow> u8 list list option" where
  "env_complete_loop d var maxv i bufsz cmdv =
     (if d i \<noteq> 0 then
        Option.bind (to_end d i) (\<lambda>nxt.
          let lval = takeWhile (\<lambda>c. c \<noteq> 0x3d) (bytes d i (nxt - i)) in
          if 0 < length var \<and> (length lval < length var \<or> take (length var) lval \<noteq> var)
          then env_complete_loop d var maxv (nxt + 1) bufsz cmdv
          else if maxv - 2 \<le> length cmdv \<or> bufsz < int (length lval) + 1 then Some (cmdv @ [ascii ''...''])
          else env_complete_loop d var maxv (nxt + 1) (bufsz - int (length lval) - 1) (cmdv @ [lval]))
      else Some cmdv)"

definition env_complete :: "mem \<Rightarrow> u8 list \<Rightarrow> nat \<Rightarrow> int \<Rightarrow> u8 list list option" where
  "env_complete d var maxv bufsz = env_complete_loop d var maxv 0 bufsz []"

text \<open>\<open>last_char\<close> at the start of a word.\<close>

definition at_word_start :: "u8 \<Rightarrow> bool" where
  "at_word_start last_char \<longleftrightarrow> last_char = 0 \<or> blank last_char"

definition var_complete :: "mem \<Rightarrow> u8 list list \<Rightarrow> u8 \<Rightarrow> nat \<Rightarrow> u8 list list option" where
  "var_complete d argv last_char maxv =
     (if at_word_start last_char \<and> length argv = 1 then env_complete d [] maxv 512
      else if \<not> at_word_start last_char \<and> length argv = 2 then env_complete d (argv ! 1) maxv 512
      else Some [])"

definition install_handler :: "u8 list \<Rightarrow> cmd_tbl list \<Rightarrow> cmd_tbl list" where
  "install_handler cmd tbl =
     (case find_cmd tbl cmd of None \<Rightarrow> tbl | Some i \<Rightarrow> tbl[i := (tbl ! i)\<lparr>c_complete := True\<rparr>])"

definition install_auto_complete :: "cmd_tbl list \<Rightarrow> cmd_tbl list" where
  "install_auto_complete tbl =
     install_handler (ascii ''run'') (install_handler (ascii ''setenv'') (install_handler (ascii ''printenv'') tbl))"

text \<open>The completions in \<open>cmdv\<close>, \<open>Inl\<close> for a negative result.\<close>

definition complete_cmdv ::
    "cmd_tbl list \<Rightarrow> mem \<Rightarrow> u8 list list \<Rightarrow> u8 \<Rightarrow> nat \<Rightarrow> (int + u8 list list) option" where
  "complete_cmdv tbl d argv last_char maxv =
     (if maxv < 2 then Some (Inl (- 2))
      else if argv = [] then Some (Inr (collect maxv (map c_name tbl) []))
      else if length argv > 1 \<or> at_word_start last_char then
        (case find_cmd tbl (argv ! 0) of
           None \<Rightarrow> Some (Inr [])
         | Some i \<Rightarrow>
             if c_complete (tbl ! i) then map_option Inr (var_complete d argv last_char maxv) else Some (Inr []))
      else
        let cmd = argv ! 0; len = length (stem cmd) in
        Some (Inr (collect maxv
          (filter (\<lambda>name. len \<le> length name \<and> take len name = take len cmd) (map c_name tbl)) [])))"

text \<open>\<open>make_argv\<close>, with room for \<open>n\<close> more words.\<close>

fun make_argv :: "nat \<Rightarrow> u8 list \<Rightarrow> u8 list list" where
  "make_argv 0 s = []"
| "make_argv (Suc n) s =
     (let s = dropWhile blank s in
      if s = [] then []
      else takeWhile (\<lambda>c. \<not> blank c) s # (case dropWhile (\<lambda>c. \<not> blank c) s of [] \<Rightarrow> [] | _ # s \<Rightarrow> make_argv n s))"

fun print_args :: "u8 list list \<Rightarrow> int \<Rightarrow> con \<Rightarrow> con" where
  "print_args [] i c = c"
| "print_args (a # argv) i c =
     (let len = int (length a) + 1;
          (i, c) = (if i + len \<ge> 78 then (2 - 1, puts (ascii ''  '') (puts [0x0a] c)) else (i, puts [0x20] c))
      in print_args argv (i + len) (puts a c))"

definition print_argv :: "u8 list list \<Rightarrow> con \<Rightarrow> con" where
  "print_argv argv c = puts [0x0a] (print_args argv 78 c)"

fun common :: "nat \<Rightarrow> u8 list \<Rightarrow> u8 list \<Rightarrow> nat" where
  "common (Suc len) (s # ss) (t # ts) = (if t = s then Suc (common len ss ts) else 0)"
| "common _ _ _ = 0"

definition find_common_prefix :: "u8 list list \<Rightarrow> nat" where
  "find_common_prefix argv =
     (case argv of [] \<Rightarrow> 0 | anchor # argv \<Rightarrow> fold (\<lambda>t len. common len anchor t) argv (length anchor))"

text \<open>
  What to insert: \<open>None\<close> for nothing, else the characters and the separator. The outer \<open>None\<close>: the code
  reads before \<open>argv\<close>, or past the end of a name, or prints names that were never set.
\<close>

definition completion :: "u8 list list \<Rightarrow> u8 list list \<Rightarrow> (u8 list \<times> u8 list) option option" where
  "completion argv cmdv =
     (if length cmdv = 1 then
        if argv = [] \<or> length (cmdv ! 0) < length (last argv) then None
        else Some (Some (drop (length (last argv)) (cmdv ! 0), [0x20]))
      else if 1 < length cmdv \<and> find_common_prefix cmdv \<noteq> 0 then
        if argv = [] then None
        else let j = int (find_common_prefix cmdv) - int (length (last argv)) in
          Some (if j > 0 then Some (take (nat j) (drop (length (last argv)) (cmdv ! 0)), []) else None)
      else Some None)"

text \<open>
  \<open>cmd_auto_complete\<close>: the result and, when it changes the line, the characters it puts at its end.
  \<open>buf\<close> is the text in the line buffer and \<open>n\<close> what the caller takes for its length.
\<close>

definition cmd_auto_complete ::
    "cmd_tbl list \<Rightarrow> mem \<Rightarrow> u8 list \<Rightarrow> u8 list \<Rightarrow> nat \<Rightarrow> con \<Rightarrow> (bool \<times> u8 list option \<times> con) option" where
  "cmd_auto_complete tbl d prompt buf n c =
     (if strcmp_l prompt CFG_PROMPT \<noteq> 0 then Some (False, None, c)
      else
        let last_char = (if buf \<noteq> [] then last buf else 0);
            argv = make_argv CFG_MAXARGS buf in
        Option.bind (complete_cmdv tbl d argv last_char 20) (\<lambda>r.
          case r of
            Inl _ \<Rightarrow> None
          | Inr cmdv \<Rightarrow>
              if cmdv = [] then Some (if length argv > 1 then (False, None, c) else (True, None, putc 0x07 c))
              else Option.bind (completion argv cmdv) (\<lambda>s.
                case s of
                  Some (s, sep) \<Rightarrow>
                    if n + (length s + length sep) \<ge> CFG_CBSIZE - 2 then Some (True, None, putc 0x07 c)
                    else let c = puts (s @ sep) c in
                      Some (True, Some (s @ sep), if sep = [] then putc 0x07 c else c)
                | None \<Rightarrow> Some (True, None, puts buf (puts prompt (print_argv cmdv c))))))"

lemma collect_all: "length found + length ns \<le> maxv - 2 \<Longrightarrow> collect maxv ns found = found @ ns"
  by (induction ns arbitrary: found) auto

lemma make_argv_word:
  assumes "w \<noteq> []" "\<forall>c \<in> set w. \<not> blank c" "0 < n"
  shows "make_argv n w = [w]"
proof -
  have "dropWhile blank w = w" using assms by (cases w) auto
  moreover have "dropWhile (\<lambda>c. \<not> blank c) w = []" "takeWhile (\<lambda>c. \<not> blank c) w = w" using assms by auto
  ultimately show ?thesis using assms by (cases n) (simp_all del: dropWhile_eq_Nil_conv)
qed

lemma make_argv_word_blank:
  assumes "w \<noteq> []" "\<forall>c \<in> set w. \<not> blank c" "1 < n"
  shows "make_argv n (w @ [0x20]) = [w]"
proof -
  have "dropWhile blank (w @ [0x20]) = w @ [0x20]" using assms by (cases w) auto
  moreover have "blank 0x20" by (simp add: blank_def)
  moreover obtain k where "n = Suc (Suc k)" using assms(3) by (cases n; cases "n - 1") auto
  ultimately show ?thesis using assms by (simp add: takeWhile_append dropWhile_append)
qed


lemma abbreviated_nth:
  assumes "abbreviated tbl key = [i]"
  shows "i < length tbl" "length key \<le> length (c_name (tbl ! i))" "take (length key) (c_name (tbl ! i)) = key"
proof -
  have "i \<in> set (abbreviated tbl key)" by (simp add: assms)
  then show "i < length tbl" "length key \<le> length (c_name (tbl ! i))" "take (length key) (c_name (tbl ! i)) = key"
    by (simp_all add: abbreviated_def)
qed

lemma filter_names:
  "filter (\<lambda>name. length key \<le> length name \<and> take (length key) name = key) (map c_name tbl) =
    map (\<lambda>i. c_name (tbl ! i)) (abbreviated tbl key)"
  by (induction tbl) (simp_all add: abbreviated_Cons o_def, simp add: abbreviated_def)

text \<open>A word, perhaps with a length modifier, that abbreviates one command only.\<close>

lemma complete_word:
  assumes "w \<noteq> []" "\<forall>c \<in> set w. \<not> blank c \<and> c \<noteq> 0" "abbreviated tbl (stem w) = [i]"
  shows "cmd_auto_complete tbl d CFG_PROMPT w n c =
    (if length (c_name (tbl ! i)) < length w then None
     else let s = drop (length w) (c_name (tbl ! i)) @ [0x20] in
       if n + length s \<ge> CFG_CBSIZE - 2 then Some (True, None, putc 0x07 c) else Some (True, Some s, puts s c))"
proof -
  have a: "make_argv CFG_MAXARGS w = [w]" using assms(1,2) by (simp add: make_argv_word CFG_MAXARGS_def)
  have l: "\<not> at_word_start (last w)" using assms(1,2) by (simp add: at_word_start_def)
  have st: "take (length (stem w)) w = stem w" by (simp add: stem_def takeWhile_eq_take [symmetric])
  have c: "complete_cmdv tbl d [w] (last w) 20 = Some (Inr [c_name (tbl ! i)])"
    by (simp add: complete_cmdv_def l st filter_names assms(3) collect_all)
  have p: "strcmp_l CFG_PROMPT CFG_PROMPT = 0" by (simp add: CFG_PROMPT_def ascii_def)
  show ?thesis using assms(1) by (auto simp: cmd_auto_complete_def a c p completion_def Let_def)
qed

text \<open>Completing a command. When the word typed abbreviates exactly one command, the tabulator appends
  the rest of its name and a blank, provided the line has room; the command found for the line is the
  same before and after.\<close>

theorem completion_keeps_command:
  assumes "w \<noteq> []" "\<forall>c \<in> set w. \<not> blank c \<and> c \<noteq> 0 \<and> c \<noteq> 0x2e" "abbreviated tbl w = [i]"
    "\<forall>cmd \<in> set tbl. 0x2e \<notin> set (c_name cmd) \<and> 0 \<notin> set (c_name cmd)" "n + length (c_name (tbl ! i)) + 1 < CFG_CBSIZE - 2 + length w"
  shows "\<exists>s. cmd_auto_complete tbl d CFG_PROMPT w n c = Some (True, Some s, puts s c) \<and>
    w @ s = c_name (tbl ! i) @ [0x20] \<and> find_cmd tbl w = Some i \<and> find_cmd tbl (c_name (tbl ! i)) = Some i"
proof -
  let ?name = "c_name (tbl ! i)"
  have st: "stem w = w" using assms(2) by (auto simp: stem_def takeWhile_eq_all_conv)
  note i = abbreviated_nth [OF assms(3)]
  have name: "w @ drop (length w) ?name = ?name" using i(3) by (metis append_take_drop_id)
  have sn: "stem ?name = ?name" "0 \<notin> set ?name" using assms(4) i(1) by (auto simp: stem_def takeWhile_eq_all_conv)
  have only: "j = i" if "j < length tbl" "length w \<le> length (c_name (tbl ! j))" "take (length w) (c_name (tbl ! j)) = w" for j
  proof -
    have "j \<in> set (abbreviated tbl w)" using that by (simp add: abbreviated_def)
    then show ?thesis using assms(3) by simp
  qed
  have ex: "exact tbl key = [i]" if "key = ?name" for key
  proof -
    have u: "[0..<length tbl] = [0..<i] @ i # [Suc i..<length tbl]"
      using i(1) upt_add_eq_append [of 0 i "length tbl - i"] upt_conv_Cons [OF i(1)] by simp
    have "c_name (tbl ! j) \<noteq> key" if "j < length tbl" "j \<noteq> i" for j
      using only [OF that(1)] that(2) i(2,3) \<open>key = ?name\<close> by metis
    then show ?thesis using i(1) that unfolding exact_def u by (simp add: filter_empty_conv)
  qed
  have e: "exact tbl w = (if w = ?name then [i] else [])"
    using ex [of w] only by (auto simp: exact_def filter_empty_conv)
  have "find_cmd tbl w = Some i"
    using assms(2,3) e by (subst find_cmd_abbreviation) (auto simp: st find_ref_def)
  moreover have "find_cmd tbl ?name = Some i"
    using sn ex by (subst find_cmd_abbreviation) (auto simp: find_ref_def)
  moreover have "length ?name \<ge> length w" by (rule i(2))
  ultimately show ?thesis using complete_word [of w tbl i d n c] assms name by (auto simp: st Let_def)
qed

text \<open>Completing past the end of a name. A word with a length modifier that is longer than the only
  command its stem abbreviates makes the completion read on behind that command's name.\<close>

theorem completion_overread:
  assumes "w \<noteq> []" "\<forall>c \<in> set w. \<not> blank c \<and> c \<noteq> 0" "abbreviated tbl (stem w) = [i]" "length (c_name (tbl ! i)) < length w"
  shows "cmd_auto_complete tbl d CFG_PROMPT w n c = None"
  using complete_word [OF assms(1-3)] assms(4) by simp

text \<open>Completing the first argument. After a command with variable completion and a blank, in an
  environment with one variable, the completion inserts the variable's name without its first characters, as
  many as the command has, and reads past its end when the command is longer.\<close>

theorem completion_skips:
  assumes "w \<noteq> []" "\<forall>c \<in> set w. \<not> blank c \<and> c \<noteq> 0" "find_cmd tbl w = Some i" "c_complete (tbl ! i)"
    "env_at d 0 [(name, val)]" "var_ok (name, val)" "length name < 512" "n + length name + 1 < CFG_CBSIZE - 2"
  shows "cmd_auto_complete tbl d CFG_PROMPT (w @ [0x20]) n c =
    (if length name < length w then None
     else let s = drop (length w) name @ [0x20] in Some (True, Some s, puts s c))"
proof -
  have a: "make_argv CFG_MAXARGS (w @ [0x20]) = [w]" using assms(1,2) by (simp add: make_argv_word_blank CFG_MAXARGS_def)
  have e: "cstr d 0 (entry (name, val))" "d (Suc (length (entry (name, val)))) = 0" using assms(5) by simp_all
  have nz: "d 0 \<noteq> 0" using e(1) by (cases "entry (name, val)") auto
  have "bytes d 0 (length (entry (name, val))) = entry (name, val)" using bytes_cstr [OF e(1), of 0 "length (entry (name, val))"] by simp
  moreover have "takeWhile (\<lambda>c. c \<noteq> 0x3d) (entry (name, val)) = name"
    using assms(6) by (simp add: entry_def var_ok_def takeWhile_append2 takeWhile_append)
  moreover have "to_end d 0 = Some (length (entry (name, val)))" using to_end_cstr [OF e(1)] by simp
  ultimately have "env_complete_loop d [] 20 0 512 [] = Some [name]"
    using nz e(2) assms(7) by (subst env_complete_loop.simps) (simp, subst env_complete_loop.simps, simp)
  then have c: "complete_cmdv tbl d [w] 0x20 20 = Some (Inr [name])"
    using assms(3,4) by (simp add: complete_cmdv_def at_word_start_def blank_def var_complete_def env_complete_def)
  have p: "strcmp_l CFG_PROMPT CFG_PROMPT = 0" by (simp add: CFG_PROMPT_def ascii_def)
  show ?thesis using assms(8) by (auto simp: cmd_auto_complete_def a c p completion_def Let_def)
qed


definition run_cmd :: cmd_tbl where "run_cmd = (named ''run'')\<lparr>c_complete := True\<rparr>"

theorem completion_keeps_command_witness:
  "\<exists>s. cmd_auto_complete [named ''cp'', named ''crc32''] (\<lambda>_. 0) CFG_PROMPT (ascii ''cr'') 2 idle_con =
      Some (True, Some s, puts s idle_con) \<and>
    ascii ''cr'' @ s = c_name ([named ''cp'', named ''crc32''] ! 1) @ [0x20] \<and>
    find_cmd [named ''cp'', named ''crc32''] (ascii ''cr'') = Some 1 \<and>
    find_cmd [named ''cp'', named ''crc32''] (c_name ([named ''cp'', named ''crc32''] ! 1)) = Some 1"
  by (rule completion_keeps_command)
    (simp_all add: ascii_def named_def blank_def abbreviated_def CFG_CBSIZE_def upt_conv_Cons)

theorem completion_overread_witness:
  "cmd_auto_complete [named ''cp'', named ''crc32''] (\<lambda>_. 0) CFG_PROMPT (ascii ''crc.long'') 8 idle_con = None"
  by (rule completion_overread [where i = 1])
    (simp_all add: ascii_def named_def blank_def abbreviated_def stem_def upt_conv_Cons)

theorem completion_skips_witness:
  "cmd_auto_complete [run_cmd] (overwrite (\<lambda>_. 0) 0 (flat [(ascii ''bootcmd'', ascii ''x'')] @ [0])) CFG_PROMPT
      (ascii ''run'' @ [0x20]) 4 idle_con =
    (if length (ascii ''bootcmd'') < length (ascii ''run'') then None
     else let s = drop (length (ascii ''run'')) (ascii ''bootcmd'') @ [0x20] in Some (True, Some s, puts s idle_con))"
  by (rule completion_skips [where i = 0 and val = "ascii ''x''"])
    (simp_all add: ascii_def named_def run_cmd_def blank_def find_cmd_def stem_def same_prefix_def
      var_ok_def CFG_CBSIZE_def overwrite_def entry_def nth_Cons')

end
