(* ===== verification/CmdLine.thy ===== *)
theory CmdLine
  imports Command
begin

text \<open>
  The simple command line of \<open>common/main.c\<close>: splitting a line into arguments, replacing variables, and
  running the commands of a line one after the other. It is what boards without the hush shell use.
  The functions of the commands are parameters, as what they do to the rest of the system.
\<close>

section \<open>Arguments\<close>

text \<open>The words of the line, and whether more than the maximum were there.\<close>

fun parse_loop :: "nat \<Rightarrow> u8 list \<Rightarrow> u8 list list \<times> bool" where
  "parse_loop 0 line = ([], True)"
| "parse_loop (Suc n) line =
     (let line = dropWhile blank line in
      if line = [] then ([], False)
      else
        let arg = takeWhile (\<lambda>c. \<not> blank c) line in
        (case dropWhile (\<lambda>c. \<not> blank c) line of
           [] \<Rightarrow> ([arg], False)
         | _ # line \<Rightarrow> let (argv, too_many) = parse_loop n line in (arg # argv, too_many)))"

definition parse_line :: "u8 list \<Rightarrow> con \<Rightarrow> u8 list list \<times> con" where
  "parse_line line c =
     (let (argv, too_many) = parse_loop CFG_MAXARGS line
      in (argv, if too_many then puts (ascii ''** Too many args (max. 16) **'' @ [0x0a]) c else c))"

section \<open>Variables\<close>

text \<open>\<open>while ((*envval) && outputcnt)\<close>: what is copied from \<open>v\<close> on, at most \<open>n\<close> characters.\<close>

fun copy_value :: "mem \<Rightarrow> nat \<Rightarrow> nat \<Rightarrow> u8 list" where
  "copy_value d v 0 = []"
| "copy_value d v (Suc n) = (if d v = 0 then [] else d v # copy_value d (v + 1) n)"

text \<open>
  The states of \<open>process_macros\<close>: waiting for \<open>$\<close>, for an opening bracket, for a closing bracket, and
  for a closing quote. With the second of the two goes \<open>varname_start\<close>.
\<close>

datatype mstate = Text_state | Dollar | Name_from "u8 list" | Quoted

text \<open>One character \<open>c\<close>, \<open>input\<close> being what follows it: the new state and what is appended, at most \<open>n\<close>.\<close>

definition macro_step ::
    "mem \<Rightarrow> mstate \<Rightarrow> u8 \<Rightarrow> u8 \<Rightarrow> u8 list \<Rightarrow> nat \<Rightarrow> (mstate \<times> u8 list) option" where
  "macro_step d state prev c input n =
     (case state of
        Text_state \<Rightarrow>
          Some (if c = 0x27 \<and> prev \<noteq> 0x5c then (Quoted, [])
            else if c = 0x24 \<and> prev \<noteq> 0x5c then (Dollar, []) else (Text_state, [c]))
      | Dollar \<Rightarrow>
          Some (if c = 0x28 \<or> c = 0x7b then (Name_from input, [])
            else (Text_state, if n - 1 \<noteq> 0 then [0x24, c] else [0x24]))
      | Name_from varname_start \<Rightarrow>
          if c = 0x29 \<or> c = 0x7d then
            Option.bind (getenv d (take (length varname_start - length input - 1) varname_start)) (\<lambda>envval.
              Some (Text_state, case envval of None \<Rightarrow> [] | Some v \<Rightarrow> copy_value d v n))
          else Some (state, [])
      | Quoted \<Rightarrow> Some (if c = 0x27 \<and> prev \<noteq> 0x5c then (Text_state, []) else (Quoted, [c])))"

text \<open>\<open>while (inputcnt && outputcnt)\<close>: \<open>outputcnt\<close> and the output.\<close>

function macro_loop :: "mem \<Rightarrow> mstate \<Rightarrow> u8 \<Rightarrow> u8 list \<Rightarrow> nat \<Rightarrow> u8 list \<Rightarrow> (nat \<times> u8 list) option" where
  "macro_loop d state prev input outputcnt output =
     (if input = [] \<or> outputcnt = 0 then Some (outputcnt, output)
      else
        let c = hd input; input = tl input in
        if state \<noteq> Quoted \<and> c = 0x5c \<and> prev \<noteq> 0x5c then
          if input = [] then Some (outputcnt, output)
          else
            Option.bind (macro_step d state 0x5c (hd input) (tl input) outputcnt) (\<lambda>(state, out).
              macro_loop d state (hd input) (tl input) (outputcnt - length out) (output @ out))
        else
          Option.bind (macro_step d state prev c input outputcnt) (\<lambda>(state, out).
            macro_loop d state c input (outputcnt - length out) (output @ out)))"
  by pat_completeness auto
termination by (relation "measure (\<lambda>(_, _, _, input, _). length input)") (auto simp: less_Suc_eq_le neq_Nil_conv)

declare macro_loop.simps [simp del]

definition process_macros :: "mem \<Rightarrow> u8 list \<Rightarrow> u8 list option" where
  "process_macros d input =
     map_option (\<lambda>(outputcnt, output). if outputcnt \<noteq> 0 then output else butlast output)
       (macro_loop d Text_state 0 input CFG_CBSIZE [])"

section \<open>\<open>run_command\<close>\<close>

text \<open>What the commands share: the console and the environment's data, and what else they work on.\<close>

record shell =
  sh_con :: con
  sh_env :: mem

text \<open>
  The end of a command in the line: the command and what follows the separator. \<open>prev\<close> is the character
  before; the code reads it even before the start of its buffer, which is \<open>None\<close>.
\<close>

fun find_sep :: "u8 option \<Rightarrow> bool \<Rightarrow> bool \<Rightarrow> u8 list \<Rightarrow> (u8 list \<times> u8 list) option" where
  "find_sep prev inquotes start [] = Some ([], [])"
| "find_sep prev inquotes start (c # sep) =
     (if c = 0x27 \<and> prev = None then None
      else
        let inquotes = (if c = 0x27 \<and> prev \<noteq> Some 0x5c then \<not> inquotes else inquotes) in
        if \<not> inquotes \<and> c = 0x3b \<and> \<not> start \<and> prev \<noteq> Some 0x5c then Some ([], sep)
        else map_option (\<lambda>(token, str). (c # token, str)) (find_sep (Some c) inquotes False sep))"

definition usage_text :: "cmd_tbl \<Rightarrow> u8 list" where
  "usage_text cmdtp = (case c_usage cmdtp of None \<Rightarrow> ascii ''<NULL>'' | Some u \<Rightarrow> u)"

abbreviation CMD_FLAG_BOOTD :: u32 where "CMD_FLAG_BOOTD \<equiv> 0x2"

text \<open>The commands of the system: the table, its functions and which of them is \<open>do_bootd\<close>.\<close>

record 'a commands =
  table :: "cmd_tbl list"
  call :: "nat \<Rightarrow> u32 \<Rightarrow> u8 list list \<Rightarrow> 'a shell_scheme \<Rightarrow> int \<times> 'a shell_scheme"
  do_bootd :: nat

text \<open>
  One command: the flag, the result code, whether it is repeatable and whether to stop. \<open>None\<close> for the
  codes left as they were.
\<close>

definition say :: "u8 list \<Rightarrow> 'a shell_scheme \<Rightarrow> 'a shell_scheme" where
  "say s sh = sh\<lparr>sh_con := puts s (sh_con sh)\<rparr>"

definition run_one ::
    "'a commands \<Rightarrow> u8 list \<Rightarrow> u32 \<Rightarrow> int \<Rightarrow> int \<Rightarrow> 'a shell_scheme \<Rightarrow> (bool \<times> u32 \<times> int \<times> int \<times> 'a shell_scheme) option" where
  "run_one cs token flag rc repeatable sh =
     Option.bind (process_macros (sh_env sh) token) (\<lambda>finaltoken.
       let (argv, c) = parse_line finaltoken (sh_con sh); sh = sh\<lparr>sh_con := c\<rparr> in
       if argv = [] then Some (False, flag, - 1, repeatable, sh)
       else
         (case find_cmd (table cs) (argv ! 0) of
            None \<Rightarrow> Some (False, flag, - 1, repeatable,
              say (ascii ''Unknown command '' @ [0x27] @ argv ! 0 @ [0x27] @ ascii '' - try '' @ [0x27] @ ascii ''help'' @ [0x27, 0x0a]) sh)
          | Some i \<Rightarrow>
              let cmdtp = table cs ! i in
              if int (length argv) > c_maxargs cmdtp then
                Some (False, flag, - 1, repeatable, say (ascii ''Usage:'' @ [0x0a] @ usage_text cmdtp @ [0x0a]) sh)
              else if c_cmd cmdtp = do_bootd cs \<and> flag AND CMD_FLAG_BOOTD \<noteq> 0 then
                Some (False, flag, - 1, repeatable, say ([0x27] @ ascii ''bootd'' @ [0x27] @ ascii '' recursion detected'' @ [0x0a]) sh)
              else
                let flag = (if c_cmd cmdtp = do_bootd cs then flag OR CMD_FLAG_BOOTD else flag);
                    (r, sh) = call cs (c_cmd cmdtp) flag argv sh;
                    rc = (if r \<noteq> 0 then - 1 else rc);
                    repeatable = repeatable AND c_repeatable cmdtp
                in Some (had_ctrlc (sh_con sh), flag, rc, repeatable, sh)))"

lemma find_sep_shorter:
  "find_sep prev q start s = Some (token, str) \<Longrightarrow> s \<noteq> [] \<Longrightarrow> length str < length s"
proof (induction prev q start s arbitrary: token str rule: find_sep.induct)
  case (2 prev q start c sep)
  then show ?case by (cases sep) (fastforce simp: Let_def split: if_splits)+
qed simp

text \<open>\<open>while (*str)\<close>: the result code.\<close>

function run_loop ::
    "'a commands \<Rightarrow> u8 option \<Rightarrow> u8 list \<Rightarrow> u32 \<Rightarrow> int \<Rightarrow> int \<Rightarrow> 'a shell_scheme \<Rightarrow> (int \<times> 'a shell_scheme) option" where
  "run_loop cs prev str flag rc repeatable sh =
     (if str = [] then Some (if rc \<noteq> 0 then rc else repeatable, sh)
      else
        (case find_sep prev False True str of
           None \<Rightarrow> None
         | Some (token, str) \<Rightarrow>
             (case run_one cs token flag rc repeatable sh of
                None \<Rightarrow> None
              | Some (stop, flag, rc, repeatable, sh) \<Rightarrow>
                  if stop then Some (- 1, sh) else run_loop cs (Some 0) str flag rc repeatable sh)))"
  by pat_completeness auto
termination by (relation "measure (\<lambda>(_, _, str, _). length str)") (auto dest: find_sep_shorter)

declare run_loop.simps [simp del]

definition run_command :: "'a commands \<Rightarrow> u8 list option \<Rightarrow> u32 \<Rightarrow> 'a shell_scheme \<Rightarrow> (int \<times> 'a shell_scheme) option" where
  "run_command cs cmd flag sh =
     (let sh = sh\<lparr>sh_con := clear_ctrlc (sh_con sh)\<rparr> in
      case cmd of
        None \<Rightarrow> Some (- 1, sh)
      | Some cmd \<Rightarrow>
          if cmd = [] then Some (- 1, sh)
          else if CFG_CBSIZE \<le> length cmd then Some (- 1, say (ascii ''## Command too long!'' @ [0x0a]) sh)
          else run_loop cs None cmd flag 0 1 sh)"

section \<open>Splitting into arguments\<close>


text \<open>The words between blanks.\<close>

definition words :: "u8 list \<Rightarrow> u8 list list" where
  "words s = tokens {0x20, 0x09} s"

lemma blank_set: "(\<lambda>c. c \<in> {0x20, 0x09}) = blank" "(\<lambda>c. c \<notin> {0x20, 0x09}) = (\<lambda>c. \<not> blank c)"
  by (auto simp: blank_def)

lemma words_blanks: "dropWhile blank s = [] \<Longrightarrow> words s = []"
  unfolding words_def by (subst tokens.simps) (simp only: blank_set list.case)

lemma words_word: "dropWhile blank s = s' \<Longrightarrow> s' \<noteq> [] \<Longrightarrow>
    words s = takeWhile (\<lambda>c. \<not> blank c) s' # words (dropWhile (\<lambda>c. \<not> blank c) s')"
  unfolding words_def by (rule tokens_Cons [of "{0x20, 0x09}", unfolded blank_set])

lemma words_Cons_blank: "blank b \<Longrightarrow> words (b # s) = words s"
  unfolding words_def by (intro tokens_delim) (simp add: blank_def)

lemma words_empty: "words s = [] \<Longrightarrow> s \<noteq> [] \<Longrightarrow> blank (last s)"
  using words_word [of s "dropWhile blank s"] last_in_set [of s] by (cases "dropWhile blank s = []") auto

lemma parse_loop_words:
  "parse_loop n s = (take n (words s), n < length (words s) \<or> n = length (words s) \<and> (n = 0 \<or> blank (last s)))"
proof (induction n arbitrary: s)
  case (Suc n)
  define s' where "s' = dropWhile blank s"
  show ?case
  proof (cases "s' = []")
    case True
    then show ?thesis using words_blanks [of s] by (simp add: s'_def [symmetric])
  next
    case False
    have w: "words s = takeWhile (\<lambda>c. \<not> blank c) s' # words (dropWhile (\<lambda>c. \<not> blank c) s')"
      by (rule words_word [OF s'_def [symmetric] False])
    have sl: "last s = last s'" using False unfolding s'_def by (metis last_appendR takeWhile_dropWhile_id)
    show ?thesis
    proof (cases "dropWhile (\<lambda>c. \<not> blank c) s'")
      case Nil
      then have "\<not> blank (last s')" using False last_in_set [of s'] by simp
      moreover have "words [] = []" by (simp add: words_def)
      ultimately show ?thesis using False Nil w sl by (simp add: s'_def [symmetric] Let_def del: dropWhile_eq_Nil_conv)
    next
      case (Cons b r)
      then have b: "blank b" by (metis dropWhile_eq_Cons_conv)
      have "last s' = last (b # r)" using Cons False by (metis last_appendR list.distinct(1) takeWhile_dropWhile_id)
      then have l: "blank (last s) \<longleftrightarrow> r = [] \<or> blank (last r)" using b sl by simp
      have "words s = takeWhile (\<lambda>c. \<not> blank c) s' # words r" using w Cons words_Cons_blank [OF b] by simp
      moreover have "r = [] \<Longrightarrow> words r = []" by (simp add: words_def)
      ultimately show ?thesis using False Cons Suc.IH [of r] l words_empty [of r] by (auto simp: s'_def [symmetric])
    qed
  qed
qed simp

lemma make_argv_words: "make_argv n s = take n (words s)"
proof -
  have "fst (parse_loop n s) = make_argv n s"
    by (induction n arbitrary: s) (simp_all add: Let_def split: list.splits prod.splits del: dropWhile_eq_Nil_conv, metis fst_conv)
  then show ?thesis by (simp add: parse_loop_words)
qed

text \<open>Arguments. \<open>parse_line\<close> returns the first 16 words of the line. It complains about too many when
  there are more, and also when there are exactly 16 and a blank follows the last.\<close>

theorem parse_line_words:
  "parse_line s c =
    (take 16 (words s),
     if 16 < length (words s) \<or> length (words s) = 16 \<and> blank (last s)
     then puts (ascii ''** Too many args (max. 16) **'' @ [0x0a]) c else c)"
  by (auto simp: parse_line_def parse_loop_words CFG_MAXARGS_def)

section \<open>Replacing variables\<close>

lemma length_copy_value: "length (copy_value d v n) \<le> n"
  by (induction n arbitrary: v) auto

lemma copy_value_cstr: "cstr d v xs \<Longrightarrow> length xs < n \<Longrightarrow> copy_value d v n = xs"
proof (induction xs arbitrary: v n)
  case Nil
  then show ?case by (cases n) auto
next
  case (Cons x xs)
  then obtain k where "n = Suc k" by (cases n) auto
  with Cons show ?case by auto
qed

lemma macro_step_length:
  "macro_step d state prev c input n = Some (state', out) \<Longrightarrow> 0 < n \<Longrightarrow> length out \<le> n"
  using length_copy_value [of d _ n]
  by (auto simp: macro_step_def split: mstate.splits if_splits option.splits bind_splits)

lemma macro_loop_length:
  "macro_loop d state prev input cnt out = Some (cnt', out') \<Longrightarrow> cnt' + length out' = cnt + length out"
proof (induction d state prev input cnt out rule: macro_loop.induct)
  case (1 d state prev input cnt out)
  show ?case
  proof (cases "input = [] \<or> cnt = 0")
    case True
    then show ?thesis using 1(3) by (subst (asm) macro_loop.simps) auto
  next
    case False
    let ?c = "hd input" and ?i = "tl input"
    let ?esc = "state \<noteq> Quoted \<and> ?c = 0x5c \<and> prev \<noteq> 0x5c"
    show ?thesis
    proof (cases "?esc \<and> ?i = []")
      case True
      then show ?thesis using 1(3) False by (subst (asm) macro_loop.simps) auto
    next
      case nesc: False
      define step where "step = (if ?esc then macro_step d state 0x5c (hd ?i) (tl ?i) cnt else macro_step d state prev ?c ?i cnt)"
      obtain st o' where s: "step = Some (st, o')"
        and m: "macro_loop d st (if ?esc then hd ?i else ?c) (if ?esc then tl ?i else ?i) (cnt - length o') (out @ o') = Some (cnt', out')"
        using 1(3) False nesc by (subst (asm) macro_loop.simps) (auto simp: step_def Let_def split: if_splits bind_splits)
      have "length o' \<le> cnt" using macro_step_length s False by (auto simp: step_def split: if_splits)
      moreover have "cnt' + length out' = (cnt - length o') + length (out @ o')"
        using 1(1) [OF False refl refl] 1(2) [OF False refl refl] s m nesc by (auto simp: step_def split: if_splits)
      ultimately show ?thesis by simp
    qed
  qed
qed

text \<open>Bounds. Whatever the line and the environment are, the expanded command and its terminator fit the
  buffer of \<open>CFG_CBSIZE\<close> characters.\<close>

theorem process_macros_fits:
  assumes "process_macros d input = Some out"
  shows "length out < CFG_CBSIZE"
proof -
  obtain cnt o' where "macro_loop d Text_state 0 input CFG_CBSIZE [] = Some (cnt, o')"
    "out = (if cnt \<noteq> 0 then o' else butlast o')" using assms by (auto simp: process_macros_def)
  then show ?thesis using macro_loop_length [of d Text_state 0 input CFG_CBSIZE "[]" cnt o']
    by (auto simp: CFG_CBSIZE_def)
qed

text \<open>A line as plain text, variables and quoted text, and what it stands for.\<close>

datatype segment = Plain "u8 list" | Variable "u8 list" | Verbatim "u8 list"

fun segment_text :: "segment \<Rightarrow> u8 list" where
  "segment_text (Plain s) = s"
| "segment_text (Variable name) = [0x24, 0x7b] @ name @ [0x7d]"
| "segment_text (Verbatim s) = [0x27] @ s @ [0x27]"

fun segment_value :: "var list \<Rightarrow> segment \<Rightarrow> u8 list" where
  "segment_value es (Plain s) = s"
| "segment_value es (Variable name) = (case map_of es name of None \<Rightarrow> [] | Some v \<Rightarrow> v)"
| "segment_value es (Verbatim s) = s"

fun segment_ok :: "segment \<Rightarrow> bool" where
  "segment_ok (Plain s) \<longleftrightarrow> (\<forall>c \<in> set s. c \<notin> {0x24, 0x27, 0x5c})"
| "segment_ok (Variable name) \<longleftrightarrow> name_ok name \<and> (\<forall>c \<in> set name. c \<notin> {0x29, 0x7d, 0x5c})"
| "segment_ok (Verbatim s) \<longleftrightarrow> 0x27 \<notin> set s \<and> (s \<noteq> [] \<longrightarrow> last s \<noteq> 0x5c)"

lemma macro_loop_plain:
  "\<forall>c \<in> set s. c \<notin> {0x24, 0x27, 0x5c} \<Longrightarrow> prev \<noteq> 0x5c \<Longrightarrow> length s < n \<Longrightarrow>
   \<exists>prev'. prev' \<noteq> 0x5c \<and>
     macro_loop d Text_state prev (s @ rest) n out = macro_loop d Text_state prev' rest (n - length s) (out @ s)"
proof (induction s arbitrary: prev n out)
  case (Cons c s)
  have "c \<noteq> 0x5c" "length s < n - 1" "\<forall>c \<in> set s. c \<notin> {0x24, 0x27, 0x5c}" using Cons.prems by auto
  from Cons.IH [OF this(3,1,2), of "out @ [c]"] obtain p where p: "p \<noteq> 0x5c"
    "macro_loop d Text_state c (s @ rest) (n - 1) (out @ [c]) = macro_loop d Text_state p rest (n - 1 - length s) ((out @ [c]) @ s)"
    by blast
  have "macro_loop d Text_state prev ((c # s) @ rest) n out = macro_loop d Text_state c (s @ rest) (n - 1) (out @ [c])"
    using Cons.prems by (subst macro_loop.simps) (auto simp: macro_step_def)
  then show ?case using p by auto
qed auto

lemma macro_loop_quoted:
  "0x27 \<notin> set s \<Longrightarrow> last (prev # s) \<noteq> 0x5c \<Longrightarrow> length s < n \<Longrightarrow>
   macro_loop d Quoted prev (s @ 0x27 # rest) n out = macro_loop d Text_state 0x27 rest (n - length s) (out @ s)"
proof (induction s arbitrary: prev n out)
  case Nil
  then show ?case by (subst macro_loop.simps) (simp add: macro_step_def)
next
  case (Cons c s)
  have "macro_loop d Quoted prev ((c # s) @ 0x27 # rest) n out = macro_loop d Quoted c (s @ 0x27 # rest) (n - 1) (out @ [c])"
    using Cons.prems by (subst macro_loop.simps) (auto simp: macro_step_def)
  then show ?case using Cons.IH [of c "n - 1" "out @ [c]"] Cons.prems by auto
qed

lemma macro_loop_name:
  assumes "getenv d (vs @ name) = Some envval" "\<forall>c \<in> set name. c \<notin> {0x29, 0x7d, 0x5c}" "0 < n"
  shows "macro_loop d (Name_from (vs @ name @ 0x7d # rest)) prev (name @ 0x7d # rest) n out =
    (let o' = (case envval of None \<Rightarrow> [] | Some v \<Rightarrow> copy_value d v n)
     in macro_loop d Text_state 0x7d rest (n - length o') (out @ o'))"
  using assms
proof (induction name arbitrary: vs prev)
  case Nil
  then show ?case by (subst macro_loop.simps) (simp add: macro_step_def Let_def)
next
  case (Cons c name)
  let ?s = "Name_from (vs @ (c # name) @ 0x7d # rest)"
  have "macro_loop d ?s prev ((c # name) @ 0x7d # rest) n out = macro_loop d ?s c (name @ 0x7d # rest) n out"
    using Cons.prems by (subst macro_loop.simps) (auto simp: macro_step_def)
  then show ?case using Cons.IH [of "vs @ [c]" c] Cons.prems by simp
qed

lemma macro_loop_variable:
  assumes r: "env_rep d es" and ok: "segment_ok (Variable name)" and prev: "prev \<noteq> 0x5c"
    and len: "length (segment_value es (Variable name)) < n"
  shows "macro_loop d Text_state prev (segment_text (Variable name) @ rest) n out =
    macro_loop d Text_state 0x7d rest (n - length (segment_value es (Variable name))) (out @ segment_value es (Variable name))"
proof -
  let ?v = "segment_value es (Variable name)"
  have "getenv_is d name (map_of es name)" using r ok by (intro getenv_is_rep) simp_all
  then obtain envval where e: "getenv d name = Some envval"
    and c: "(case envval of None \<Rightarrow> [] | Some v \<Rightarrow> copy_value d v n) = ?v"
    using len copy_value_cstr by (fastforce simp: getenv_is_def split: option.splits)
  have "macro_loop d Text_state prev (segment_text (Variable name) @ rest) n out =
      macro_loop d (Name_from ([] @ name @ 0x7d # rest)) 0x7b (name @ 0x7d # rest) n out"
    using prev len by (subst macro_loop.simps, simp add: macro_step_def) (subst macro_loop.simps, simp add: macro_step_def Let_def)
  also have "\<dots> = macro_loop d Text_state 0x7d rest (n - length ?v) (out @ ?v)"
    using macro_loop_name [where vs = "[]" and d = d and name = name and envval = envval and n = n] e c ok len by (simp add: Let_def)
  finally show ?thesis .
qed

lemma macro_loop_segment:
  assumes "env_rep d es" "segment_ok s" "prev \<noteq> 0x5c" "length (segment_value es s) < n"
  shows "\<exists>prev'. prev' \<noteq> 0x5c \<and> macro_loop d Text_state prev (segment_text s @ rest) n out =
    macro_loop d Text_state prev' rest (n - length (segment_value es s)) (out @ segment_value es s)"
proof (cases s)
  case (Plain t)
  then show ?thesis using macro_loop_plain [of t prev n d rest out] assms by simp
next
  case (Variable name)
  then show ?thesis using macro_loop_variable [OF assms(1) _ assms(3), of name n rest out] assms
    by (intro exI [of _ "0x7d"]) simp
next
  case (Verbatim t)
  have "macro_loop d Text_state prev (0x27 # t @ 0x27 # rest) n out = macro_loop d Quoted 0x27 (t @ 0x27 # rest) n out"
    using assms by (subst macro_loop.simps) (auto simp: macro_step_def)
  then show ?thesis using macro_loop_quoted [of t "0x27" n d rest out] assms Verbatim
    by (intro exI [of _ "0x27"]) simp
qed

lemma macro_loop_segments:
  assumes "env_rep d es"
  shows "\<forall>s \<in> set ss. segment_ok s \<Longrightarrow> prev \<noteq> 0x5c \<Longrightarrow> length (concat (map (segment_value es) ss)) < n \<Longrightarrow>
    macro_loop d Text_state prev (concat (map segment_text ss)) n out =
      Some (n - length (concat (map (segment_value es) ss)), out @ concat (map (segment_value es) ss))"
proof (induction ss arbitrary: prev n out)
  case Nil
  then show ?case by (subst macro_loop.simps) simp
next
  case (Cons s ss)
  obtain p where "p \<noteq> 0x5c" "macro_loop d Text_state prev (segment_text s @ concat (map segment_text ss)) n out =
      macro_loop d Text_state p (concat (map segment_text ss)) (n - length (segment_value es s)) (out @ segment_value es s)"
    using macro_loop_segment [OF assms, of s prev n "concat (map segment_text ss)" out] Cons.prems by auto
  then show ?case using Cons.IH [of p "n - length (segment_value es s)" "out @ segment_value es s"] Cons.prems by simp
qed

lemma process_macros_segments:
  assumes "env_rep d es" "\<forall>s \<in> set ss. segment_ok s" "length (concat (map (segment_value es) ss)) < CFG_CBSIZE"
  shows "process_macros d (concat (map segment_text ss)) = Some (concat (map (segment_value es) ss))"
  using macro_loop_segments [OF assms(1,2) _ assms(3), of 0 "[]"] assms(3)
  by (simp add: process_macros_def)

text \<open>C32: Replacing variables. In a line of plain text, variables in \<open>${}\<close> and quoted text,
  \<open>process_macros\<close> replaces every variable by its value in the environment, nothing if it has none, and takes
  quoted text as it is, as long as the result fits.\<close>

theorem process_macros_expands:
  assumes "env_rep d es" "\<forall>s \<in> set ss. segment_ok s" "length (concat (map (segment_value es) ss)) < CFG_CBSIZE"
  shows "process_macros d (concat (map segment_text ss)) = Some (concat (map (segment_value es) ss))"
  using assms by (rule process_macros_segments)

section \<open>Running the commands of a line\<close>

text \<open>The commands one after the other.\<close>

fun run_all :: "'a commands \<Rightarrow> u8 list list \<Rightarrow> u32 \<Rightarrow> int \<Rightarrow> int \<Rightarrow> 'a shell_scheme \<Rightarrow> (int \<times> 'a shell_scheme) option" where
  "run_all cs [] flag rc repeatable sh = Some (if rc \<noteq> 0 then rc else repeatable, sh)"
| "run_all cs (token # ts) flag rc repeatable sh =
     Option.bind (run_one cs token flag rc repeatable sh) (\<lambda>(stop, flag, rc, repeatable, sh).
       if stop then Some (- 1, sh) else run_all cs ts flag rc repeatable sh)"

fun separated :: "u8 list list \<Rightarrow> u8 list" where
  "separated [] = []"
| "separated [t] = t"
| "separated (t # ts) = t @ 0x3b # separated ts"

definition token_ok :: "u8 list \<Rightarrow> bool" where
  "token_ok t \<longleftrightarrow> t \<noteq> [] \<and> 0x27 \<notin> set t \<and> 0x3b \<notin> set t \<and> last t \<noteq> 0x5c"

lemma find_sep_token:
  "0x27 \<notin> set t \<Longrightarrow> 0x3b \<notin> set t \<Longrightarrow> t \<noteq> [] \<Longrightarrow> last t \<noteq> 0x5c \<Longrightarrow>
   find_sep prev False start t = Some (t, []) \<and> find_sep prev False start (t @ 0x3b # s) = Some (t, s)"
proof (induction t arbitrary: prev start)
  case (Cons c t)
  show ?case
  proof (cases "t = []")
    case True
    then show ?thesis using Cons.prems by (auto simp: Let_def)
  next
    case False
    then show ?thesis using Cons.IH [of "Some c" False] Cons.prems by (auto simp: Let_def)
  qed
qed simp

lemma run_loop_separated:
  "\<forall>t \<in> set ts. token_ok t \<Longrightarrow> run_loop cs prev (separated ts) flag rc repeatable sh = run_all cs ts flag rc repeatable sh"
proof (induction ts arbitrary: prev flag rc repeatable sh rule: separated.induct)
  case 1
  then show ?case by (subst run_loop.simps) simp
next
  case (2 t)
  then have "token_ok t" by simp
  then have "find_sep prev False True t = Some (t, [])" "t \<noteq> []" using find_sep_token [of t prev True] by (auto simp: token_ok_def)
  moreover have "run_loop cs p [] f r rep s = Some (if r \<noteq> 0 then r else rep, s)" for p f r rep and s :: "'a shell_scheme"
    by (subst run_loop.simps) simp
  ultimately show ?case by (subst run_loop.simps) (auto split: option.splits prod.splits)
next
  case (3 t t' ts)
  then have "token_ok t" by simp
  then have "find_sep prev False True (t @ 0x3b # separated (t' # ts)) = Some (t, separated (t' # ts))"
    using find_sep_token [of t prev True] by (auto simp: token_ok_def)
  then show ?case using 3 by (subst run_loop.simps) (auto split: option.splits prod.splits)
qed

text \<open>C28: A line of commands. \<open>run_command\<close> runs the commands between the semicolons in their order, each
  with the environment and the flag its predecessors left, goes on after one that fails, and stops after
  one during which control-C was seen.\<close>

theorem run_command_sequence:
  assumes "ts \<noteq> []" "\<forall>t \<in> set ts. token_ok t" "length (separated ts) < CFG_CBSIZE"
  shows "run_command cs (Some (separated ts)) flag sh =
    run_all cs ts flag 0 1 (sh\<lparr>sh_con := clear_ctrlc (sh_con sh)\<rparr>)"
proof -
  have "separated ts \<noteq> []" using assms(1,2) by (cases ts rule: separated.cases) (auto simp: token_ok_def)
  then show ?thesis using assms by (simp add: run_command_def run_loop_separated)
qed

text \<open>A command line that starts with a quote makes \<open>run_command\<close> look at the character before its own
  buffer.\<close>

theorem run_command_quote_underread:
  assumes "length cmd + 1 < CFG_CBSIZE"
  shows "run_command cs (Some (0x27 # cmd)) flag sh = None"
  using assms by (simp add: run_command_def run_loop.simps [of cs None "0x27 # cmd"])


definition shell_0 :: shell where
  "shell_0 = \<lparr>sh_con = idle_con, sh_env = overwrite (\<lambda>_. 0) 0 (flat [(ascii ''x'', ascii ''1 2'')] @ [0])\<rparr>"

definition commands_0 :: "unit commands" where
  "commands_0 = \<lparr>table = [named ''md'', named ''go''], call = \<lambda>f flag argv sh. (int f, sh), do_bootd = 7\<rparr>"

lemma env_rep_0: "env_rep (sh_env shell_0) [(ascii ''x'', ascii ''1 2'')]"
proof -
  have "env_rep (env_data (env_of [(ascii ''x'', ascii ''1 2'')])) [(ascii ''x'', ascii ''1 2'')]"
    by (rule env_of_rep) (simp_all add: var_ok_def ascii_def entry_def ENV_SIZE_def)
  then show ?thesis by (simp add: env_of_def shell_0_def env_crc_update_def)
qed

theorem process_macros_expands_witness:
  "process_macros (sh_env shell_0) (concat (map segment_text [Plain (ascii ''a''), Variable (ascii ''x''), Verbatim (ascii ''$b'')])) =
    Some (concat (map (segment_value [(ascii ''x'', ascii ''1 2'')]) [Plain (ascii ''a''), Variable (ascii ''x''), Verbatim (ascii ''$b'')]))"
  by (rule process_macros_expands [OF env_rep_0]) (simp_all add: ascii_def name_ok_def CFG_CBSIZE_def)

theorem process_macros_fits_witness: "length (ascii ''a1 2$b'') < CFG_CBSIZE"
  by (rule process_macros_fits [where d = "sh_env shell_0" and input = "concat (map segment_text
      [Plain (ascii ''a''), Variable (ascii ''x''), Verbatim (ascii ''$b'')])"])
    (subst process_macros_segments [OF env_rep_0], simp_all add: ascii_def name_ok_def CFG_CBSIZE_def)

theorem run_command_sequence_witness:
  "run_command commands_0 (Some (separated [ascii ''md 1'', ascii ''go''])) 0 shell_0 =
    run_all commands_0 [ascii ''md 1'', ascii ''go''] 0 0 1 (shell_0\<lparr>sh_con := clear_ctrlc (sh_con shell_0)\<rparr>)"
  by (rule run_command_sequence) (simp_all add: token_ok_def ascii_def CFG_CBSIZE_def)

theorem run_command_quote_underread_witness:
  "run_command commands_0 (Some (0x27 # ascii ''md'')) 0 shell_0 = None"
  by (rule run_command_quote_underread) (simp add: ascii_def CFG_CBSIZE_def)

end
