(* ===== verification/LineEdit.thy ===== *)
theory LineEdit
  imports Command
begin

text \<open>
  The line editor of \<open>common/main.c\<close> (\<open>CONFIG_CMDLINE_EDITING\<close>): \<open>readline\<close>, \<open>cread_line\<close> and the history.
  The line buffer is \<open>console_buffer\<close>, an array of \<open>CFG_CBSIZE\<close> characters; a line of the history is the
  text up to its terminator. \<open>char\<close> is signed, but the keys are only compared.
\<close>

section \<open>History\<close>

definition HIST_MAX :: nat where "HIST_MAX = 20"

record history =
  hist_max :: nat
  hist_add_idx :: nat
  hist_cur :: int
  hist_num :: u32
  hist_list :: "u8 list list"

definition hist_init :: history where
  "hist_init = \<lparr>hist_max = 0, hist_add_idx = 0, hist_cur = - 1, hist_num = 0, hist_list = replicate HIST_MAX []\<rparr>"

definition cread_add_to_hist :: "u8 list \<Rightarrow> history \<Rightarrow> history" where
  "cread_add_to_hist line h =
     (let h = h\<lparr>hist_list := (hist_list h)[hist_add_idx h := line]\<rparr>;
          idx = (if HIST_MAX \<le> hist_add_idx h + 1 then 0 else hist_add_idx h + 1)
      in h\<lparr>hist_add_idx := idx, hist_max := (if hist_max h < idx then idx else hist_max h), hist_num := hist_num h + 1\<rparr>)"

definition hist_prev :: "history \<Rightarrow> u8 list option \<times> history" where
  "hist_prev h =
     (if hist_cur h < 0 then (None, h)
      else
        let old_cur = hist_cur h; cur = (if old_cur - 1 < 0 then int (hist_max h) else old_cur - 1) in
        if cur = int (hist_add_idx h) then (None, h) else (Some (hist_list h ! nat cur), h\<lparr>hist_cur := cur\<rparr>))"

definition hist_next :: "history \<Rightarrow> u8 list option \<times> history" where
  "hist_next h =
     (if hist_cur h < 0 \<or> hist_cur h = int (hist_add_idx h) then (None, h)
      else
        let cur = (if int (hist_max h) < hist_cur h + 1 then 0 else hist_cur h + 1) in
        (Some (if cur = int (hist_add_idx h) then [] else hist_list h ! nat cur), h\<lparr>hist_cur := cur\<rparr>))"

section \<open>The line\<close>

record editor =
  ed_num :: nat
  ed_eol :: nat
  ed_buf :: "u8 list"
  ed_insert :: bool
  ed_esc :: "u8 list"
  ed_con :: con
  ed_hist :: history

definition MAX_CMDBUF_SIZE :: nat where "MAX_CMDBUF_SIZE = 1024"

definition emit :: "u8 list \<Rightarrow> editor \<Rightarrow> editor" where
  "emit s e = e\<lparr>ed_con := puts s (ed_con e)\<rparr>"

definition cbeep :: "editor \<Rightarrow> editor" where "cbeep e = emit [0x07] e"

text \<open>What \<open>printf("%.*s", n, str)\<close> prints.\<close>

definition nstr :: "u8 list \<Rightarrow> nat \<Rightarrow> u8 list" where
  "nstr str n = takeWhile (\<lambda>c. c \<noteq> 0) (take n str)"

definition BEGINNING_OF_LINE :: "editor \<Rightarrow> editor" where
  "BEGINNING_OF_LINE e = (emit (replicate (ed_num e) 0x08) e)\<lparr>ed_num := 0\<rparr>"

definition ERASE_TO_EOL :: "editor \<Rightarrow> editor" where
  "ERASE_TO_EOL e =
     (if ed_num e < ed_eol e
      then (emit (replicate (ed_eol e - ed_num e) 0x20 @ replicate (ed_eol e - ed_num e) 0x08) e)\<lparr>ed_eol := ed_num e\<rparr>
      else e)"

definition REFRESH_TO_EOL :: "editor \<Rightarrow> editor" where
  "REFRESH_TO_EOL e =
     (if ed_num e < ed_eol e
      then (emit (nstr (drop (ed_num e) (ed_buf e)) (ed_eol e - ed_num e)) e)\<lparr>ed_num := ed_eol e\<rparr>
      else e)"

definition cread_add_char :: "u8 \<Rightarrow> editor \<Rightarrow> editor" where
  "cread_add_char ichar e =
     (let grow = (ed_insert e \<or> ed_num e = ed_eol e) in
      if grow \<and> ed_eol e > MAX_CMDBUF_SIZE - 1 then cbeep e
      else
        let e = (if grow then e\<lparr>ed_eol := ed_eol e + 1\<rparr> else e); num = ed_num e in
        if ed_insert e then
          let wlen = ed_eol e - num;
              buf = (if wlen > 1 then blit (ed_buf e) (num + 1) (take (wlen - 1) (drop num (ed_buf e))) else ed_buf e);
              buf = buf[num := ichar]
          in (emit (nstr (drop num buf) wlen @ replicate (wlen - 1) 0x08) e)\<lparr>ed_buf := buf, ed_num := num + 1\<rparr>
        else
          let buf = (ed_buf e)[num := ichar]
          in (emit (nstr (drop num buf) 1) e)\<lparr>ed_buf := buf, ed_num := num + 1\<rparr>)"

definition cread_add_str :: "u8 list \<Rightarrow> editor \<Rightarrow> editor" where
  "cread_add_str str e = fold cread_add_char str e"

section \<open>Keys\<close>

text \<open>
  Escape sequences: \<open>Inl\<close> when the key is used up, else the key it stands for.
\<close>

definition escape :: "u8 \<Rightarrow> editor \<Rightarrow> editor + u8 \<times> editor" where
  "escape ichar e =
     (let esc = ed_esc e in
      if esc = [] then Inr (ichar, e)
      else if length esc = 1 then
        if ichar = 0x5b then Inl (e\<lparr>ed_esc := esc @ [ichar]\<rparr>)
        else Inl ((cread_add_str esc e)\<lparr>ed_esc := []\<rparr>)
      else if ichar = 0x44 then Inr (0x02, e\<lparr>ed_esc := []\<rparr>)
      else if ichar = 0x43 then Inr (0x06, e\<lparr>ed_esc := []\<rparr>)
      else if ichar = 0x48 then Inr (0x01, e\<lparr>ed_esc := []\<rparr>)
      else if ichar = 0x41 then Inr (0x10, e\<lparr>ed_esc := []\<rparr>)
      else if ichar = 0x42 then Inr (0x0e, e\<lparr>ed_esc := []\<rparr>)
      else Inl ((cread_add_str (esc @ [ichar]) e)\<lparr>ed_esc := []\<rparr>))"

definition key_right :: "editor \<Rightarrow> editor" where
  "key_right e =
     (if ed_num e < ed_eol e then (emit [ed_buf e ! ed_num e] e)\<lparr>ed_num := ed_num e + 1\<rparr> else e)"

definition key_left :: "editor \<Rightarrow> editor" where
  "key_left e = (if 0 < ed_num e then (emit [0x08] e)\<lparr>ed_num := ed_num e - 1\<rparr> else e)"

definition key_delete :: "editor \<Rightarrow> editor" where
  "key_delete e =
     (if ed_num e < ed_eol e then
        let num = ed_num e; wlen = ed_eol e - num - 1;
            buf = (if wlen \<noteq> 0 then blit (ed_buf e) num (take wlen (drop (num + 1) (ed_buf e))) else ed_buf e)
        in (emit ((if wlen \<noteq> 0 then nstr (drop num buf) wlen else []) @ [0x20] @ replicate (wlen + 1) 0x08) e)
             \<lparr>ed_buf := buf, ed_eol := ed_eol e - 1\<rparr>
      else e)"

definition key_backspace :: "editor \<Rightarrow> editor" where
  "key_backspace e =
     (if 0 < ed_num e then
        let wlen = ed_eol e - ed_num e; num = ed_num e - 1;
            buf = blit (ed_buf e) num (take wlen (drop (num + 1) (ed_buf e)))
        in (emit ([0x08] @ nstr (drop num buf) wlen @ [0x20] @ replicate (wlen + 1) 0x08) e)
             \<lparr>ed_buf := buf, ed_num := num, ed_eol := ed_eol e - 1\<rparr>
      else e)"

definition key_history :: "u8 list option \<times> history \<Rightarrow> editor \<Rightarrow> editor" where
  "key_history = (\<lambda>(hline, h) e.
     let e = e\<lparr>ed_esc := [], ed_hist := h\<rparr> in
     case hline of
       None \<Rightarrow> cbeep e
     | Some hline \<Rightarrow>
         let e = ERASE_TO_EOL (BEGINNING_OF_LINE e);
             e = e\<lparr>ed_buf := blit (ed_buf e) 0 (hline @ [0]), ed_eol := length hline\<rparr>
         in REFRESH_TO_EOL e)"

text \<open>The text in the buffer.\<close>

definition ctext :: "u8 list \<Rightarrow> u8 list" where
  "ctext buf = takeWhile (\<lambda>c. c \<noteq> 0) buf"

text \<open>
  The tabulator. \<open>None\<close>: a write behind the end of the buffer, or the undefined cases of the completion.
\<close>

definition key_tab :: "cmd_tbl list \<Rightarrow> mem \<Rightarrow> u8 list \<Rightarrow> editor \<Rightarrow> editor option" where
  "key_tab tbl d prompt e =
     (if ed_num e < ed_eol e then Some (cbeep e)
      else if length (ed_buf e) \<le> ed_num e then None
      else
        let e = e\<lparr>ed_buf := (ed_buf e)[ed_num e := 0]\<rparr>; text = ctext (ed_buf e) in
        Option.bind (cmd_auto_complete tbl d prompt text (ed_num e) (ed_con e)) (\<lambda>(_, added, c).
          let e = e\<lparr>ed_con := c\<rparr> in
          Some (case added of None \<Rightarrow> e
            | Some s \<Rightarrow> e\<lparr>ed_buf := blit (ed_buf e) (length text) (s @ [0]), ed_num := ed_num e + length s,
                ed_eol := ed_eol e + length s\<rparr>)))"

text \<open>The keys that do not end the line.\<close>

definition plain_key :: "cmd_tbl list \<Rightarrow> mem \<Rightarrow> u8 list \<Rightarrow> u8 \<Rightarrow> editor \<Rightarrow> editor option" where
  "plain_key tbl d prompt ichar e =
     (if ichar = 0x1b then
        Some (if ed_esc e = [] then e\<lparr>ed_esc := [ichar]\<rparr>
          else (emit (ascii ''impossible condition #876'' @ [0x0a]) e)\<lparr>ed_esc := []\<rparr>)
      else if ichar = 0x01 then Some (BEGINNING_OF_LINE e)
      else if ichar = 0x06 then Some (key_right e)
      else if ichar = 0x02 then Some (key_left e)
      else if ichar = 0x04 then Some (key_delete e)
      else if ichar = 0x0b then Some (ERASE_TO_EOL e)
      else if ichar = 0x05 then Some (REFRESH_TO_EOL e)
      else if ichar = 0x0f then Some (e\<lparr>ed_insert := \<not> ed_insert e\<rparr>)
      else if ichar = 0x18 \<or> ichar = 0x15 then Some (ERASE_TO_EOL (BEGINNING_OF_LINE e))
      else if ichar = 0xff \<or> ichar = 0x7f \<or> ichar = 0x08 then Some (key_backspace e)
      else if ichar = 0x10 then Some (key_history (hist_prev (ed_hist e)) e)
      else if ichar = 0x0e then Some (key_history (hist_next (ed_hist e)) e)
      else if ichar = 0x09 then key_tab tbl d prompt e
      else Some (cread_add_char ichar e))"

text \<open>
  How reading goes on: more input is needed, undefined behaviour, or \<open>cread_line\<close> returns.
\<close>

datatype line = Waiting editor | Undefined | Returned int editor

text \<open>After the newline: the line ends, goes into the history and is the result.\<close>

definition end_of_line :: "editor \<Rightarrow> line" where
  "end_of_line e =
     (if length (ed_buf e) \<le> ed_eol e then Undefined
      else
        let e = e\<lparr>ed_buf := (ed_buf e)[ed_eol e := 0]\<rparr>;
            h = (if ed_buf e ! 0 \<noteq> 0 \<and> ed_buf e ! 0 \<noteq> 0x21 then cread_add_to_hist (ctext (ed_buf e)) (ed_hist e) else ed_hist e)
        in Returned 0 (e\<lparr>ed_hist := h\<lparr>hist_cur := int (hist_add_idx h)\<rparr>\<rparr>))"

fun key_loop :: "cmd_tbl list \<Rightarrow> mem \<Rightarrow> u8 list \<Rightarrow> u8 list \<Rightarrow> editor \<Rightarrow> line" where
  "key_loop tbl d prompt [] e = Waiting e"
| "key_loop tbl d prompt (ichar # input) e =
     (if ichar = 0x0a \<or> ichar = 0x0d then
        end_of_line ((emit [0x0a] e)\<lparr>ed_con := (ed_con (emit [0x0a] e))\<lparr>con_in := input\<rparr>\<rparr>)
      else
        (case escape ichar e of
           Inl e \<Rightarrow> key_loop tbl d prompt input e
         | Inr (ichar, e) \<Rightarrow>
             if ichar = 0x03 then
               Returned (- 1) (e\<lparr>ed_buf := (ed_buf e)[0 := 0], ed_con := (ed_con e)\<lparr>con_in := input\<rparr>\<rparr>)
             else
               (case plain_key tbl d prompt ichar e of
                  None \<Rightarrow> Undefined
                | Some e \<Rightarrow> key_loop tbl d prompt input e)))"

text \<open>\<open>cread_line\<close> with the buffer and the history left from before; its length is \<open>ed_eol\<close>.\<close>

definition cread_line :: "cmd_tbl list \<Rightarrow> mem \<Rightarrow> u8 list \<Rightarrow> u8 list \<Rightarrow> history \<Rightarrow> con \<Rightarrow> line" where
  "cread_line tbl d prompt buf h c =
     key_loop tbl d prompt (con_in c)
       \<lparr>ed_num = 0, ed_eol = 0, ed_buf = buf, ed_insert = True, ed_esc = [], ed_con = c, ed_hist = h\<rparr>"

text \<open>\<open>readline\<close>: the number of characters or a negative code; \<open>hist\<close> is \<open>None\<close> before the first call.\<close>

definition readline :: "cmd_tbl list \<Rightarrow> mem \<Rightarrow> u8 list \<Rightarrow> u8 list \<Rightarrow> history option \<Rightarrow> con \<Rightarrow> (int \<times> editor) option" where
  "readline tbl d prompt buf hist c =
     (let h = (case hist of None \<Rightarrow> hist_init | Some h \<Rightarrow> h) in
      case cread_line tbl d prompt buf h (puts prompt c) of
        Returned rc e \<Rightarrow> Some (if rc < 0 then rc else int (ed_eol e), e)
      | _ \<Rightarrow> None)"

section \<open>The line as a pair: what is left and right of the cursor\<close>

text \<open>The editor holds \<open>l\<close> before the cursor and \<open>r\<close> from it on.\<close>

definition ed_is :: "editor \<Rightarrow> u8 list \<Rightarrow> u8 list \<Rightarrow> bool" where
  "ed_is e l r \<longleftrightarrow> length (ed_buf e) = CFG_CBSIZE \<and> length l + length r \<le> CFG_CBSIZE \<and>
     (\<exists>z. ed_buf e = l @ r @ z) \<and> ed_num e = length l \<and> ed_eol e = length l + length r"

text \<open>The changes are in the line and the output only.\<close>

definition edits :: "editor \<Rightarrow> u8 list \<Rightarrow> editor \<Rightarrow> bool" where
  "edits e out e' \<longleftrightarrow> ed_con e' = puts out (ed_con e) \<and> ed_insert e' = ed_insert e \<and> ed_esc e' = ed_esc e \<and> ed_hist e' = ed_hist e"

lemma ed_isE:
  assumes "ed_is e l r"
  obtains z where "ed_buf e = l @ r @ z" "ed_num e = length l" "ed_eol e = length l + length r"
    "length l + length r + length z = CFG_CBSIZE"
  using assms by (auto simp: ed_is_def)

lemma ed_isI:
  "ed_buf e = l @ r @ z \<Longrightarrow> ed_num e = length l \<Longrightarrow> ed_eol e = length l + length r \<Longrightarrow>
   length l + length r + length z = CFG_CBSIZE \<Longrightarrow> ed_is e l r"
  by (auto simp: ed_is_def)

lemma nstr_nonzero: "n = length xs \<Longrightarrow> 0 \<notin> set xs \<Longrightarrow> nstr (xs @ z) n = xs"
  by (auto simp: nstr_def takeWhile_eq_all_conv)

lemma blit_mid: "n = length l \<Longrightarrow> length y = length x \<Longrightarrow> blit (l @ x @ z) n y = l @ y @ z"
  by (simp add: blit_def)

lemma drop_shift: "drop (length r) (x # r @ z) = last (x # r) # z"
  by (induction r arbitrary: x) auto

lemma blit_left: "blit (l @ x # r @ z) (length l) r = l @ r @ last (x # r) # z"
  using drop_shift [of r x z] by (simp add: blit_def)

lemma blit_right: "(if r = [] then l @ y # z else (blit (l @ r @ y # z) (Suc (length l)) r))[length l := c] = l @ c # r @ z"
  by (cases r) (simp_all add: blit_def)

lemma emit_edits: "edits e out (emit out e)"
  by (simp add: edits_def emit_def)

lemma move_home:
  assumes "ed_is e l r"
  shows "ed_is (BEGINNING_OF_LINE e) [] (l @ r)" "edits e (replicate (length l) 0x08) (BEGINNING_OF_LINE e)"
  using assms by (auto simp: ed_is_def edits_def BEGINNING_OF_LINE_def emit_def)

lemma kill_right:
  assumes "ed_is e l r"
  shows "ed_is (ERASE_TO_EOL e) l []" "edits e (replicate (length r) 0x20 @ replicate (length r) 0x08) (ERASE_TO_EOL e)"
  using assms by (auto simp: ed_is_def edits_def ERASE_TO_EOL_def emit_def puts_def)

lemma move_end:
  assumes "ed_is e l r" "0 \<notin> set r"
  shows "ed_is (REFRESH_TO_EOL e) (l @ r) []" "edits e r (REFRESH_TO_EOL e)"
proof -
  from assms(1) obtain z where z: "ed_buf e = l @ r @ z" "ed_num e = length l" "ed_eol e = length l + length r"
    "length l + length r + length z = CFG_CBSIZE" by (rule ed_isE)
  then show "ed_is (REFRESH_TO_EOL e) (l @ r) []" by (intro ed_isI [where z = z]) (auto simp: REFRESH_TO_EOL_def emit_def)
  show "edits e r (REFRESH_TO_EOL e)"
    using z nstr_nonzero [of "length r" r z] assms(2) by (auto simp: REFRESH_TO_EOL_def emit_def edits_def puts_def)
qed

lemma move_right:
  assumes "ed_is e l (x # r)"
  shows "ed_is (key_right e) (l @ [x]) r" "edits e [x] (key_right e)"
  using assms by (auto simp: ed_is_def edits_def key_right_def emit_def)

lemma move_left:
  assumes "ed_is e (l @ [x]) r"
  shows "ed_is (key_left e) l (x # r)" "edits e [0x08] (key_left e)"
  using assms by (auto simp: ed_is_def edits_def key_left_def emit_def)

lemma delete_right:
  assumes "ed_is e l (x # r)" "0 \<notin> set r"
  shows "ed_is (key_delete e) l r" "edits e (r @ [0x20] @ replicate (length r + 1) 0x08) (key_delete e)"
proof -
  from assms(1) obtain z where z: "ed_buf e = l @ (x # r) @ z" "ed_num e = length l" "ed_eol e = length l + length (x # r)"
    "length l + length (x # r) + length z = CFG_CBSIZE" by (rule ed_isE)
  have n: "nstr (r @ y) (length r) = r" for y using assms(2) nstr_nonzero by simp
  have k: "key_delete e = (emit (r @ [0x20] @ replicate (length r + 1) 0x08) e)
      \<lparr>ed_buf := (if r = [] then ed_buf e else l @ r @ last (x # r) # z), ed_eol := length l + length r\<rparr>"
    using z n [of "last (x # r) # z"] blit_left [of l x r z]
    by (cases "r = []") (simp_all add: key_delete_def Let_def del: last.simps)
  show "edits e (r @ [0x20] @ replicate (length r + 1) 0x08) (key_delete e)"
    unfolding k by (simp add: edits_def emit_def)
  show "ed_is (key_delete e) l r"
    by (rule ed_isI [where z = "last (x # r) # z"]) (use z in \<open>simp_all add: k emit_def\<close>)
qed

lemma delete_left:
  assumes "ed_is e (l @ [x]) r" "0 \<notin> set r"
  shows "ed_is (key_backspace e) l r" "edits e ([0x08] @ r @ [0x20] @ replicate (length r + 1) 0x08) (key_backspace e)"
proof -
  from assms(1) obtain z where z: "ed_buf e = (l @ [x]) @ r @ z" "ed_num e = length (l @ [x])" "ed_eol e = length (l @ [x]) + length r"
    "length (l @ [x]) + length r + length z = CFG_CBSIZE" by (rule ed_isE)
  have n: "nstr (r @ y) (length r) = r" for y using assms(2) nstr_nonzero by simp
  have k: "key_backspace e = (emit ([0x08] @ r @ [0x20] @ replicate (length r + 1) 0x08) e)
      \<lparr>ed_buf := l @ r @ last (x # r) # z, ed_num := length l, ed_eol := length l + length r\<rparr>"
    using z n [of "last (x # r) # z"] blit_left [of l x r z]
    by (simp add: key_backspace_def Let_def del: last.simps)
  show "edits e ([0x08] @ r @ [0x20] @ replicate (length r + 1) 0x08) (key_backspace e)"
    unfolding k by (simp add: edits_def emit_def)
  show "ed_is (key_backspace e) l r"
    by (rule ed_isI [where z = "last (x # r) # z"]) (use z in \<open>simp_all add: k emit_def\<close>)
qed

lemma insert_char:
  assumes "ed_is e l r" "ed_insert e" "length l + length r < CFG_CBSIZE" "0 \<notin> set r" "c \<noteq> 0"
  shows "ed_is (cread_add_char c e) (l @ [c]) r" "edits e (c # r @ replicate (length r) 0x08) (cread_add_char c e)"
proof -
  from assms(1) obtain z where z: "ed_buf e = l @ r @ z" "ed_num e = length l" "ed_eol e = length l + length r"
    "length l + length r + length z = CFG_CBSIZE" by (rule ed_isE)
  obtain y z' where zz: "z = y # z'" using z(4) assms(3) by (cases z) auto
  have n: "nstr (c # r @ z') (length r + 1) = c # r" using nstr_nonzero [of "length r + 1" "c # r" z'] assms(4,5) by simp
  have k: "cread_add_char c e = (emit (c # r @ replicate (length r) 0x08) e)
      \<lparr>ed_buf := l @ c # r @ z', ed_num := length l + 1, ed_eol := length l + length r + 1\<rparr>"
    using z zz assms(2,3) n blit_right [of r l y z' c]
    by (cases "r = []") (simp_all add: cread_add_char_def Let_def emit_def MAX_CMDBUF_SIZE_def CFG_CBSIZE_def)
  show "edits e (c # r @ replicate (length r) 0x08) (cread_add_char c e)"
    unfolding k by (simp add: edits_def emit_def)
  show "ed_is (cread_add_char c e) (l @ [c]) r"
    by (rule ed_isI [where z = z']) (use z zz in \<open>simp_all add: k emit_def\<close>)
qed

lemma overwrite_char:
  assumes "ed_is e l (x # r)" "\<not> ed_insert e" "c \<noteq> 0"
  shows "ed_is (cread_add_char c e) (l @ [c]) r" "edits e [c] (cread_add_char c e)"
proof -
  from assms(1) obtain z where z: "ed_buf e = l @ (x # r) @ z" "ed_num e = length l" "ed_eol e = length l + length (x # r)"
    "length l + length (x # r) + length z = CFG_CBSIZE" by (rule ed_isE)
  have k: "cread_add_char c e = (emit [c] e)\<lparr>ed_buf := l @ c # r @ z, ed_num := length l + 1\<rparr>"
    using z assms(2,3) by (simp add: cread_add_char_def Let_def emit_def nstr_def)
  show "edits e [c] (cread_add_char c e)" unfolding k by (simp add: edits_def emit_def)
  show "ed_is (cread_add_char c e) (l @ [c]) r"
    by (rule ed_isI [where z = z]) (use z in \<open>simp_all add: k emit_def\<close>)
qed

lemma append_char:
  assumes "ed_is e l []" "length l < CFG_CBSIZE" "c \<noteq> 0"
  shows "ed_is (cread_add_char c e) (l @ [c]) []" "edits e [c] (cread_add_char c e)"
proof -
  from assms(1) obtain z where z: "ed_buf e = l @ [] @ z" "ed_num e = length l" "ed_eol e = length l + length ([] :: u8 list)"
    "length l + length ([] :: u8 list) + length z = CFG_CBSIZE" by (rule ed_isE)
  obtain y z' where zz: "z = y # z'" using z(4) assms(2) by (cases z) auto
  have k: "cread_add_char c e = (emit [c] e)\<lparr>ed_buf := l @ c # z', ed_num := length l + 1, ed_eol := length l + 1\<rparr>"
    using z zz assms(2,3) by (simp add: cread_add_char_def Let_def emit_def nstr_def MAX_CMDBUF_SIZE_def CFG_CBSIZE_def)
  show "edits e [c] (cread_add_char c e)" unfolding k by (simp add: edits_def emit_def)
  show "ed_is (cread_add_char c e) (l @ [c]) []"
    by (rule ed_isI [where z = z']) (use z zz in \<open>simp_all add: k emit_def\<close>)
qed

lemma full_char:
  assumes "ed_is e l r" "ed_insert e \<or> r = []" "length l + length r = CFG_CBSIZE"
  shows "ed_is (cread_add_char c e) l r" "edits e [0x07] (cread_add_char c e)"
  using assms by (auto simp: ed_is_def edits_def cread_add_char_def cbeep_def emit_def MAX_CMDBUF_SIZE_def CFG_CBSIZE_def)

section \<open>What a key does to the line\<close>

definition printable :: "u8 list \<Rightarrow> bool" where
  "printable s \<longleftrightarrow> (\<forall>c \<in> set s. 0x20 \<le> c)"

definition hist_ok :: "history \<Rightarrow> bool" where
  "hist_ok h \<longleftrightarrow> (\<forall>line \<in> set (hist_list h). printable line \<and> length line < CFG_CBSIZE) \<and>
     hist_max h < length (hist_list h) \<and> hist_cur h < int (length (hist_list h)) \<and> hist_add_idx h < length (hist_list h)"

definition control_keys :: "u8 list" where
  "control_keys = [0x01, 0x02, 0x04, 0x05, 0x06, 0x08, 0x0b, 0x0e, 0x0f, 0x10, 0x15, 0x18]"

definition editing_key :: "u8 \<Rightarrow> bool" where
  "editing_key k \<longleftrightarrow> k \<in> set control_keys \<or> 0x20 \<le> k"

type_synonym edited = "(u8 list \<times> u8 list) \<times> bool \<times> history"

definition recall :: "u8 list option \<times> history \<Rightarrow> edited \<Rightarrow> edited" where
  "recall = (\<lambda>(hline, h) (lr, ins, _). (case hline of None \<Rightarrow> lr | Some s \<Rightarrow> (s, []), ins, h))"

definition type_in :: "u8 \<Rightarrow> bool \<Rightarrow> u8 list \<times> u8 list \<Rightarrow> u8 list \<times> u8 list" where
  "type_in k ins = (\<lambda>(l, r).
     if ins \<or> r = [] then if length l + length r < CFG_CBSIZE then (l @ [k], r) else (l, r) else (l @ [k], tl r))"

definition key_ref :: "u8 \<Rightarrow> edited \<Rightarrow> edited" where
  "key_ref k = (\<lambda>((l, r), ins, h).
     if k = 0x01 then (([], l @ r), ins, h)
     else if k = 0x06 then ((l @ take 1 r, tl r), ins, h)
     else if k = 0x02 then ((butlast l, (if l = [] then [] else [last l]) @ r), ins, h)
     else if k = 0x04 then ((l, tl r), ins, h)
     else if k = 0x0b then ((l, []), ins, h)
     else if k = 0x05 then ((l @ r, []), ins, h)
     else if k = 0x0f then ((l, r), \<not> ins, h)
     else if k = 0x18 \<or> k = 0x15 then (([], []), ins, h)
     else if k = 0xff \<or> k = 0x7f \<or> k = 0x08 then ((butlast l, r), ins, h)
     else if k = 0x10 then recall (hist_prev h) ((l, r), ins, h)
     else if k = 0x0e then recall (hist_next h) ((l, r), ins, h)
     else (type_in k ins (l, r), ins, h))"

text \<open>A terminal: its cells, from the start of the prompt on, and the cursor.\<close>

definition type_char :: "u8 \<Rightarrow> u8 list \<times> nat \<Rightarrow> u8 list \<times> nat" where
  "type_char c = (\<lambda>(cells, p).
     if c = 0x08 then (cells, p - 1) else if c = 0x07 then (cells, p)
     else (if p < length cells then cells[p := c] else cells @ [c], p + 1))"

text \<open>It shows the prompt and the line, with the cursor in its place.\<close>

definition shows_line :: "u8 list \<Rightarrow> u8 list \<Rightarrow> u8 list \<Rightarrow> u8 list \<times> nat \<Rightarrow> bool" where
  "shows_line base l r t \<longleftrightarrow> (\<exists>n. t = (base @ l @ r @ replicate n 0x20, length base + length l))"

lemma printable_simps [simp]: "printable []" "printable (c # s) \<longleftrightarrow> 0x20 \<le> c \<and> printable s"
  "printable (s @ t) \<longleftrightarrow> printable s \<and> printable t"
  by (auto simp: printable_def)

lemma printable_sub: "printable s \<Longrightarrow> set t \<subseteq> set s \<Longrightarrow> printable t"
  by (auto simp: printable_def)

lemma printable_nonzero: "printable s \<Longrightarrow> 0 \<notin> set s"
  by (auto simp: printable_def word_le_nat_alt)

lemma type_printable:
  "printable s \<Longrightarrow> fold type_char s (a @ b, length a) = (a @ s @ drop (length s) b, length a + length s)"
proof (induction s arbitrary: a b)
  case (Cons c s)
  have c: "c \<noteq> 0x08" "c \<noteq> 0x07" using Cons.prems by (auto simp: word_le_nat_alt)
  have "type_char c (a @ b, length a) = ((a @ [c]) @ drop 1 b, length (a @ [c]))"
    using c by (cases b) (simp_all add: type_char_def)
  then show ?case using Cons.IH [of "a @ [c]" "drop 1 b"] Cons.prems by simp
qed simp

lemma type_backspaces: "(type_char 0x08 ^^ n) (cells, p) = (cells, p - n)"
  by (induction n) (simp_all add: type_char_def)

lemma type_back1: "type_char 0x08 (cells, p) = (cells, p - 1)"
  by (simp add: type_char_def)

lemma printable_blanks [simp]: "printable (replicate n 0x20)"
  by (simp add: printable_def)

lemma type_at: "printable s \<Longrightarrow> length a = p \<Longrightarrow> fold type_char s (a @ b, p) = (a @ s @ drop (length s) b, p + length s)"
  using type_printable [of s a b] by auto

text \<open>The output of each operation moves the terminal along with the line.\<close>

lemma shows_home: "shows_line base l r t \<Longrightarrow> shows_line base [] (l @ r) (fold type_char (replicate (length l) 0x08) t)"
  by (auto simp: shows_line_def type_backspaces)

lemma shows_right: "shows_line base l (x # r) t \<Longrightarrow> printable [x] \<Longrightarrow> shows_line base (l @ [x]) r (fold type_char [x] t)"
  using type_at [of "[x]" "base @ l" "length base + length l"]
  by (fastforce simp: shows_line_def)

lemma shows_left: "shows_line base (l @ [x]) r t \<Longrightarrow> shows_line base l (x # r) (fold type_char [0x08] t)"
  by (auto simp: shows_line_def type_char_def)

lemma shows_end: "shows_line base l r t \<Longrightarrow> printable r \<Longrightarrow> shows_line base (l @ r) [] (fold type_char r t)"
  using type_at [of r "base @ l" "length base + length l"] by (auto simp: shows_line_def)

lemma shows_erase:
  assumes "shows_line base l r t"
  shows "shows_line base l [] (fold type_char (replicate (length r) 0x20 @ replicate (length r) 0x08) t)"
proof -
  obtain n where t: "t = ((base @ l) @ r @ replicate n 0x20, length base + length l)" using assms by (auto simp: shows_line_def)
  show ?thesis unfolding t fold_append comp_apply
    using type_at [of "replicate (length r) 0x20" "base @ l" "length base + length l" "r @ replicate n 0x20"]
    by (auto simp: type_backspaces shows_line_def replicate_add [symmetric])
qed

lemma shows_delete:
  assumes "shows_line base l (x # r) t" "printable r"
  shows "shows_line base l r (fold type_char (r @ [0x20] @ replicate (length r + 1) 0x08) t)"
proof -
  obtain n where t: "t = ((base @ l) @ x # r @ replicate n 0x20, length base + length l)" using assms by (auto simp: shows_line_def)
  have "fold type_char (r @ [0x20]) t = ((base @ l) @ (r @ [0x20]) @ replicate n 0x20, length base + length l + length (r @ [0x20]))"
    unfolding t using type_at [of "r @ [0x20]" "base @ l" "length base + length l" "x # r @ replicate n 0x20"] assms(2) by simp
  then have "fold type_char ((r @ [0x20]) @ replicate (length r + 1) 0x08) t =
      fold type_char (replicate (length r + 1) 0x08) ((base @ l) @ r @ replicate (n + 1) 0x20, length base + length l + length r + 1)"
    by (simp only: fold_append comp_apply) simp
  also have "\<dots> = ((base @ l) @ r @ replicate (n + 1) 0x20, length base + length l)"
    unfolding fold_replicate type_backspaces by simp
  finally show ?thesis unfolding shows_line_def by (intro exI [of _ "n + 1"]) simp
qed

lemma shows_backspace:
  assumes "shows_line base (l @ [x]) r t" "printable r"
  shows "shows_line base l r (fold type_char ([0x08] @ r @ [0x20] @ replicate (length r + 1) 0x08) t)"
  using shows_delete [OF shows_left [OF assms(1)] assms(2)] by simp

lemma shows_insert:
  assumes "shows_line base l r t" "printable (c # r)"
  shows "shows_line base (l @ [c]) r (fold type_char (c # r @ replicate (length r) 0x08) t)"
proof -
  obtain n where t: "t = ((base @ l) @ r @ replicate n 0x20, length base + length l)" using assms by (auto simp: shows_line_def)
  have "drop (length (c # r)) (r @ replicate n 0x20) = replicate (n - 1) 0x20" by (cases n) simp_all
  then have "fold type_char (c # r) t = ((base @ l) @ (c # r) @ replicate (n - 1) 0x20, length base + length l + length (c # r))"
    unfolding t using type_at [OF assms(2), of "base @ l" "length base + length l" "r @ replicate n 0x20"] by simp
  then have "fold type_char ((c # r) @ replicate (length r) 0x08) t =
      fold type_char (replicate (length r) 0x08) ((base @ l) @ (c # r) @ replicate (n - 1) 0x20, length base + length l + length (c # r))"
    by (simp only: fold_append comp_apply)
  then have "fold type_char (c # r @ replicate (length r) 0x08) t = (base @ (l @ [c]) @ r @ replicate (n - 1) 0x20, length base + length (l @ [c]))"
    unfolding fold_replicate type_backspaces by simp
  then show ?thesis unfolding shows_line_def by blast
qed

lemma shows_overwrite: "shows_line base l (x # r) t \<Longrightarrow> printable [c] \<Longrightarrow> shows_line base (l @ [c]) r (fold type_char [c] t)"
  using type_at [of "[c]" "base @ l" "length base + length l"]
  by (fastforce simp: shows_line_def)

lemma shows_beep [simp]: "type_char 0x07 t = t"
  by (cases t) (simp add: type_char_def)

text \<open>From one line to another, with the terminal following.\<close>

definition moves :: "editor \<Rightarrow> u8 list \<times> u8 list \<Rightarrow> editor \<Rightarrow> u8 list \<times> u8 list \<Rightarrow> bool" where
  "moves e lr e' lr' \<longleftrightarrow> ed_is e' (fst lr') (snd lr') \<and> ed_insert e' = ed_insert e \<and> ed_esc e' = ed_esc e \<and> ed_hist e' = ed_hist e \<and>
     (\<exists>out. ed_con e' = puts out (ed_con e) \<and>
       (\<forall>base t. shows_line base (fst lr) (snd lr) t \<longrightarrow> shows_line base (fst lr') (snd lr') (fold type_char out t)))"

lemma movesI:
  "ed_is e' l' r' \<Longrightarrow> edits e out e' \<Longrightarrow> (\<And>base t. shows_line base l r t \<Longrightarrow> shows_line base l' r' (fold type_char out t)) \<Longrightarrow>
   moves e (l, r) e' (l', r')"
  by (auto simp: moves_def edits_def)

lemma moves_trans:
  assumes "moves e lr e1 lr1" "moves e1 lr1 e2 lr2"
  shows "moves e lr e2 lr2"
proof -
  from assms obtain o1 o2 where "ed_con e1 = puts o1 (ed_con e)" "ed_con e2 = puts o2 (ed_con e1)"
    "\<forall>base t. shows_line base (fst lr) (snd lr) t \<longrightarrow> shows_line base (fst lr1) (snd lr1) (fold type_char o1 t)"
    "\<forall>base t. shows_line base (fst lr1) (snd lr1) t \<longrightarrow> shows_line base (fst lr2) (snd lr2) (fold type_char o2 t)"
    by (auto simp: moves_def)
  note o12 = this
  have "ed_con e2 = puts (o1 @ o2) (ed_con e)" using o12(1,2) by (simp add: puts_out)
  moreover have "shows_line base (fst lr2) (snd lr2) (fold type_char (o1 @ o2) t)" if "shows_line base (fst lr) (snd lr) t" for base t
    unfolding fold_append comp_apply using o12(3,4) that by blast
  ultimately show ?thesis using assms unfolding moves_def by metis
qed

lemma moves_refl: "ed_is e l r \<Longrightarrow> moves e (l, r) e (l, r)"
  by (rule movesI [where out = "[]"]) (simp_all add: edits_def puts_def)

lemma moves_beep: "ed_is e l r \<Longrightarrow> moves e (l, r) (cbeep e) (l, r)"
  by (rule movesI [where out = "[0x07]"]) (simp_all add: shows_beep cbeep_def edits_def emit_def ed_is_def)

lemma moves_home: "ed_is e l r \<Longrightarrow> moves e (l, r) (BEGINNING_OF_LINE e) ([], l @ r)"
  by (rule movesI [OF move_home shows_home])

lemma moves_erase: "ed_is e l r \<Longrightarrow> moves e (l, r) (ERASE_TO_EOL e) (l, [])"
  by (rule movesI [OF kill_right shows_erase])

lemma moves_erase_all: "ed_is e l r \<Longrightarrow> moves e (l, r) (ERASE_TO_EOL (BEGINNING_OF_LINE e)) ([], [])"
  by (rule moves_trans [OF moves_home moves_erase]) (auto dest: move_home)

lemma moves_end: "ed_is e l r \<Longrightarrow> printable r \<Longrightarrow> moves e (l, r) (REFRESH_TO_EOL e) (l @ r, [])"
  by (rule movesI [OF move_end]) (auto intro: shows_end dest: printable_nonzero)

lemma moves_right:
  assumes "ed_is e l r" "printable r"
  shows "moves e (l, r) (key_right e) (l @ take 1 r, tl r)"
proof (cases r)
  case Nil
  then have "key_right e = e" using assms(1) by (simp add: key_right_def ed_is_def)
  then show ?thesis using moves_refl [OF assms(1)] Nil by simp
next
  case (Cons x s)
  then show ?thesis using assms movesI [OF move_right [of e l x s]] shows_right [of _ l x s] by auto
qed

lemma moves_left:
  assumes "ed_is e l r"
  shows "moves e (l, r) (key_left e) (butlast l, (if l = [] then [] else [last l]) @ r)"
proof (cases l rule: rev_cases)
  case Nil
  then have "key_left e = e" using assms by (simp add: key_left_def ed_is_def)
  then show ?thesis using moves_refl [OF assms(1)] Nil by simp
next
  case (snoc s x)
  then show ?thesis using assms movesI [OF move_left [of e s x r]] shows_left [of _ s x r] by auto
qed

lemma moves_delete:
  assumes "ed_is e l r" "printable r"
  shows "moves e (l, r) (key_delete e) (l, tl r)"
proof (cases r)
  case Nil
  then have "key_delete e = e" using assms(1) by (simp add: key_delete_def ed_is_def)
  then show ?thesis using moves_refl [OF assms(1)] Nil by simp
next
  case (Cons x s)
  have nz: "0 \<notin> set s" using assms(2) Cons printable_nonzero by auto
  show ?thesis using assms Cons movesI [OF delete_right [of e l x s, OF _ nz]] shows_delete [of _ l x s] by auto
qed

lemma moves_backspace:
  assumes "ed_is e l r" "printable r"
  shows "moves e (l, r) (key_backspace e) (butlast l, r)"
proof (cases l rule: rev_cases)
  case Nil
  then have "key_backspace e = e" using assms by (simp add: key_backspace_def ed_is_def)
  then show ?thesis using moves_refl [OF assms(1)] Nil by simp
next
  case (snoc s x)
  have nz: "0 \<notin> set r" using assms(2) printable_nonzero by auto
  show ?thesis using assms snoc movesI [OF delete_left [of e s x r, OF _ nz]] shows_backspace [of _ s x r] by auto
qed

lemma moves_type:
  assumes e: "ed_is e l r" "printable (k # r)"
  shows "moves e (l, r) (cread_add_char k e) (type_in k (ed_insert e) (l, r))"
proof -
  have le: "length l + length r \<le> CFG_CBSIZE" using e(1) by (simp add: ed_is_def)
  have nz: "k \<noteq> 0" "0 \<notin> set r" using printable_nonzero [OF e(2)] by auto
  consider "ed_insert e \<or> r = []" "length l + length r = CFG_CBSIZE" | "ed_insert e" "length l + length r < CFG_CBSIZE"
    | "r = []" "length l < CFG_CBSIZE" | x s where "\<not> ed_insert e" "r = x # s" using le by (cases r) fastforce+
  then show ?thesis
  proof cases
    case 1
    then show ?thesis using movesI [OF full_char [OF e(1)], of l r] shows_beep by (auto simp: type_in_def)
  next
    case 2
    then show ?thesis using movesI [OF insert_char [OF e(1) _ _ nz(2,1)], of l r] shows_insert [OF _ e(2)] by (simp add: type_in_def)
  next
    case 3
    then show ?thesis using movesI [OF append_char [of e l k]] e nz shows_insert [of _ l "[]" _ k] by (simp add: type_in_def)
  next
    case 4
    then show ?thesis using movesI [OF overwrite_char [of e l x s k]] e nz shows_overwrite [of _ l x s _ k] by (auto simp: type_in_def)
  qed
qed

lemma blit_start: "length hline < length buf \<Longrightarrow> \<exists>z. blit buf 0 (hline @ [0]) = hline @ z \<and> length hline + length z = length buf"
  by (simp add: blit_def)

lemma moves_recall:
  assumes e: "ed_is e l r" and ok: "\<forall>s. hline = Some s \<longrightarrow> printable s \<and> length s < CFG_CBSIZE"
  shows "moves (e\<lparr>ed_esc := [], ed_hist := h\<rparr>) (l, r) (key_history (hline, h) e) (case hline of None \<Rightarrow> (l, r) | Some s \<Rightarrow> (s, []))"
proof -
  let ?e = "e\<lparr>ed_esc := [], ed_hist := h\<rparr>"
  have i: "ed_is ?e l r" using e by (simp add: ed_is_def)
  show ?thesis
  proof (cases hline)
    case None
    then show ?thesis using moves_beep [OF i] by (simp add: key_history_def)
  next
    case (Some s)
    let ?e1 = "ERASE_TO_EOL (BEGINNING_OF_LINE ?e)"
    have m1: "moves ?e (l, r) ?e1 ([], [])" by (rule moves_erase_all [OF i])
    define e2 where "e2 = ?e1\<lparr>ed_buf := blit (ed_buf ?e1) 0 (s @ [0]), ed_eol := length s\<rparr>"
    have l1: "length (ed_buf ?e1) = CFG_CBSIZE" "ed_num ?e1 = 0" using m1 by (auto simp: moves_def ed_is_def)
    then obtain z where "blit (ed_buf ?e1) 0 (s @ [0]) = s @ z" "length s + length z = CFG_CBSIZE"
      using blit_start [of s "ed_buf ?e1"] ok Some by auto
    then have i2: "ed_is e2 [] s" using l1 by (intro ed_isI [where z = z]) (simp_all add: e2_def)
    have nz: "0 \<notin> set s" "printable s" using ok Some printable_nonzero by auto
    have "ed_is (REFRESH_TO_EOL e2) ([] @ s) []" "edits e2 s (REFRESH_TO_EOL e2)" using move_end [OF i2 nz(1)] by simp_all
    then have "ed_is (REFRESH_TO_EOL e2) s []" "edits ?e1 s (REFRESH_TO_EOL e2)" by (simp_all add: edits_def e2_def)
    moreover have "shows_line base s [] (fold type_char s t)" if st: "shows_line base [] [] t" for base t
    proof -
      obtain n where t: "t = (base @ replicate n 0x20, length base)" using st by (auto simp: shows_line_def)
      show ?thesis unfolding t using type_at [OF nz(2), of base "length base" "replicate n 0x20"] by (auto simp: shows_line_def)
    qed
    ultimately have "moves ?e1 ([], []) (REFRESH_TO_EOL e2) (s, [])" by (intro movesI) auto
    then show ?thesis using moves_trans [OF m1] Some by (simp add: key_history_def e2_def Let_def)
  qed
qed

lemma hist_ok_nth: "hist_ok h \<Longrightarrow> i < length (hist_list h) \<Longrightarrow> printable (hist_list h ! i) \<and> length (hist_list h ! i) < CFG_CBSIZE"
  by (simp add: hist_ok_def)

lemma hist_prev_ok:
  assumes "hist_ok h"
  shows "hist_ok (snd (hist_prev h))" "fst (hist_prev h) = Some s \<Longrightarrow> printable s \<and> length s < CFG_CBSIZE"
  using assms hist_ok_nth [OF assms] by (auto simp: hist_prev_def hist_ok_def Let_def split: if_splits)

lemma hist_next_ok:
  assumes "hist_ok h"
  shows "hist_ok (snd (hist_next h))" "fst (hist_next h) = Some s \<Longrightarrow> printable s \<and> length s < CFG_CBSIZE"
proof -
  have "0 < length (hist_list h)" using assms unfolding hist_ok_def by linarith
  then show "fst (hist_next h) = Some s \<Longrightarrow> printable s \<and> length s < CFG_CBSIZE"
    using assms hist_ok_nth [OF assms, of "nat (hist_cur h + 1)"] hist_ok_nth [OF assms, of 0]
    by (auto simp: hist_next_def hist_ok_def Let_def CFG_CBSIZE_def split: if_splits)
  show "hist_ok (snd (hist_next h))" using assms by (auto simp: hist_next_def hist_ok_def Let_def)
qed

section \<open>A key\<close>

definition edited_ok :: "edited \<Rightarrow> bool" where
  "edited_ok = (\<lambda>((l, r), ins, h). printable l \<and> printable r \<and> hist_ok h)"

lemma edited_ok_iff: "edited_ok ((l, r), ins, h) \<longleftrightarrow> printable l \<and> printable r \<and> hist_ok h"
  by (simp add: edited_ok_def)

text \<open>The editor holds the line, and its output keeps a terminal that showed \<open>lr0\<close> up to date.\<close>

definition holds :: "editor \<Rightarrow> edited \<Rightarrow> bool" where
  "holds e = (\<lambda>((l, r), ins, h). ed_is e l r \<and> ed_esc e = [] \<and> ed_insert e = ins \<and> ed_hist e = h)"

definition keeps_shown :: "editor \<Rightarrow> u8 list \<times> u8 list \<Rightarrow> editor \<Rightarrow> u8 list \<times> u8 list \<Rightarrow> bool" where
  "keeps_shown e lr e' lr' \<longleftrightarrow> (\<exists>out. ed_con e' = puts out (ed_con e) \<and>
     (\<forall>base t. shows_line base (fst lr) (snd lr) t \<longrightarrow> shows_line base (fst lr') (snd lr') (fold type_char out t)))"

lemma moves_holds:
  "moves e (l, r) e' lr' \<Longrightarrow> holds e ((l, r), ins, h) \<Longrightarrow> holds e' (lr', ins, h) \<and> keeps_shown e (l, r) e' lr'"
  by (cases lr') (auto simp: moves_def holds_def keeps_shown_def)

lemma sub_tl: "printable r \<Longrightarrow> printable (tl r)" "printable r \<Longrightarrow> printable (take n r)" "printable r \<Longrightarrow> printable (butlast r)"
  by (auto simp: printable_def dest: in_set_takeD in_set_butlastD list.set_sel(2) [rotated])
    (metis in_set_dropD drop_Suc drop_0)

text \<open>The keys, each with what it does.\<close>

lemma control_keys_distinct: "k \<in> set control_keys \<Longrightarrow> \<not> 0x20 \<le> k"
  by (auto simp: control_keys_def word_le_nat_alt)

lemma editing_key_char:
  assumes "editing_key k" "k \<notin> set control_keys"
  shows "0x20 \<le> k" "k \<noteq> 0x1b" "k \<noteq> 0x03" "k \<noteq> 0x0a" "k \<noteq> 0x0d" "k \<noteq> 0x09"
  using assms by (auto simp: editing_key_def word_le_nat_alt)

lemma editing_key_not: "editing_key k \<Longrightarrow> k \<noteq> 0x1b \<and> k \<noteq> 0x03 \<and> k \<noteq> 0x0a \<and> k \<noteq> 0x0d \<and> k \<noteq> 0x09"
  by (auto simp: editing_key_def control_keys_def word_le_nat_alt)

lemma plain_key_move:
  assumes h: "holds e ((l, r), ins, h)" and ok: "edited_ok ((l, r), ins, h)" and k: "editing_key k"
    and no: "k \<noteq> 0x0f" "k \<noteq> 0x10" "k \<noteq> 0x0e"
  shows "\<exists>e' lr'. plain_key tbl d prompt k e = Some e' \<and> key_ref k ((l, r), ins, h) = (lr', ins, h) \<and> moves e (l, r) e' lr'"
proof -
  have e: "ed_is e l r" "ed_insert e = ins" and p: "printable l" "printable r"
    using h ok by (simp_all add: holds_def edited_ok_def)
  note nk = editing_key_not [OF k]
  consider "k = 0x01" | "k = 0x06" | "k = 0x02" | "k = 0x04" | "k = 0x0b" | "k = 0x05" | "k = 0x18 \<or> k = 0x15"
    | "k = 0xff \<or> k = 0x7f \<or> k = 0x08" | "0x20 \<le> k" "k \<noteq> 0xff" "k \<noteq> 0x7f" "k \<noteq> 0x08" "k \<notin> set control_keys"
    using k no control_keys_distinct [of k] by (auto simp: editing_key_def control_keys_def)
  then show ?thesis
  proof cases
    case 1
    then show ?thesis using moves_home [OF e(1)] by (simp add: plain_key_def key_ref_def)
  next
    case 2
    then show ?thesis using moves_right [OF e(1) p(2)] by (simp add: plain_key_def key_ref_def)
  next
    case 3
    then show ?thesis using moves_left [OF e(1)] by (simp add: plain_key_def key_ref_def)
  next
    case 4
    then show ?thesis using moves_delete [OF e(1) p(2)] by (simp add: plain_key_def key_ref_def)
  next
    case 5
    then show ?thesis using moves_erase [OF e(1)] by (simp add: plain_key_def key_ref_def)
  next
    case 6
    then show ?thesis using moves_end [OF e(1) p(2)] by (simp add: plain_key_def key_ref_def)
  next
    case 7
    then show ?thesis using moves_erase_all [OF e(1)] by (auto simp: plain_key_def key_ref_def)
  next
    case 8
    then show ?thesis using moves_backspace [OF e(1) p(2)] by (auto simp: plain_key_def key_ref_def)
  next
    case 9
    then have "k \<noteq> 0x01" "k \<noteq> 0x06" "k \<noteq> 0x02" "k \<noteq> 0x04" "k \<noteq> 0x0b" "k \<noteq> 0x05" "k \<noteq> 0x18" "k \<noteq> 0x15"
      by (simp_all add: control_keys_def)
    then show ?thesis using moves_type [OF e(1), of k] e(2) p nk no 9 by (simp add: plain_key_def key_ref_def)
  qed
qed

lemma key_ref_ok:
  assumes "edited_ok s" "editing_key k"
  shows "edited_ok (key_ref k s)"
proof -
  obtain l r ins h where s: "s = ((l, r), ins, h)" by (cases s) auto
  have p: "printable l" "printable r" "hist_ok h" using assms(1) s by (simp_all add: edited_ok_def)
  have rc: "edited_ok (recall (hist_prev h) ((l, r), ins, h))" "edited_ok (recall (hist_next h) ((l, r), ins, h))"
    using p hist_prev_ok [OF p(3)] hist_next_ok [OF p(3)] by (auto simp: recall_def edited_ok_def split: prod.splits option.splits)
  have ty: "0x20 \<le> k \<Longrightarrow> edited_ok (type_in k ins (l, r), ins, h)" using p sub_tl(1) [of r] by (auto simp: type_in_def edited_ok_def)
  have bs: "printable (butlast l)" "l \<noteq> [] \<Longrightarrow> printable [last l]" using p(1) sub_tl(3) [of l] by (simp_all add: printable_def)
  show ?thesis
  proof (cases "k \<in> set control_keys")
    case True
    then show ?thesis using p sub_tl(1,2) [of r] bs rc unfolding s key_ref_def
      by (simp add: control_keys_def) (elim disjE; auto simp: edited_ok_iff)
  next
    case False
    have nk: "k \<noteq> 0x01" "k \<noteq> 0x06" "k \<noteq> 0x02" "k \<noteq> 0x04" "k \<noteq> 0x0b" "k \<noteq> 0x05" "k \<noteq> 0x18" "k \<noteq> 0x15" "k \<noteq> 0x08" "k \<noteq> 0x0f" "k \<noteq> 0x10" "k \<noteq> 0x0e"
      using False by (simp_all add: control_keys_def)
    show ?thesis using nk p bs ty [OF editing_key_char(1) [OF assms(2) False]] unfolding s key_ref_def by (simp add: edited_ok_def)
  qed
qed

lemma plain_key_ref:
  assumes h: "holds e s" and ok: "edited_ok s" and k: "editing_key k"
  shows "\<exists>e'. plain_key tbl d prompt k e = Some e' \<and> holds e' (key_ref k s) \<and> keeps_shown e (fst s) e' (fst (key_ref k s))"
proof -
  obtain l r ins hi where s: "s = ((l, r), ins, hi)" by (cases s) auto
  have p: "printable l" "printable r" "hist_ok hi" and e: "ed_is e l r" "ed_esc e = []" "ed_insert e = ins" "ed_hist e = hi"
    using h ok by (simp_all add: s holds_def edited_ok_def)
  have rc: "holds (key_history (hline, h') e) (recall (hline, h') ((l, r), ins, hi)) \<and>
      keeps_shown e (l, r) (key_history (hline, h') e) (fst (recall (hline, h') ((l, r), ins, hi)))"
    if "\<forall>s. hline = Some s \<longrightarrow> printable s \<and> length s < CFG_CBSIZE" for hline h'
    using moves_recall [OF e(1) that, of h'] e by (cases hline) (auto simp: moves_def holds_def keeps_shown_def recall_def)
  consider "k = 0x0f" | "k = 0x10" | "k = 0x0e" | "k \<noteq> 0x0f" "k \<noteq> 0x10" "k \<noteq> 0x0e" by blast
  then show ?thesis
  proof cases
    case 1
    have "keeps_shown e (l, r) (e\<lparr>ed_insert := \<not> ins\<rparr>) (l, r)"
      unfolding keeps_shown_def by (intro exI [of _ "[]"]) (simp add: puts_def)
    then show ?thesis using 1 e s by (simp add: plain_key_def key_ref_def holds_def ed_is_def)
  next
    case 2
    then show ?thesis using rc [of "fst (hist_prev hi)" "snd (hist_prev hi)"] hist_prev_ok [OF p(3)] e(4) s
      by (simp add: plain_key_def key_ref_def)
  next
    case 3
    then show ?thesis using rc [of "fst (hist_next hi)" "snd (hist_next hi)"] hist_next_ok [OF p(3)] e(4) s
      by (simp add: plain_key_def key_ref_def)
  next
    case 4
    from plain_key_move [OF h [unfolded s] ok [unfolded s] k 4, of tbl d prompt] obtain e' lr' where
      "plain_key tbl d prompt k e = Some e'" "key_ref k s = (lr', ins, hi)" "moves e (l, r) e' lr'" by (auto simp: s)
    then show ?thesis using moves_holds [of e l r e' lr' ins hi] h s by auto
  qed
qed

text \<open>All keys of a line.\<close>

definition typed :: "u8 list \<Rightarrow> edited \<Rightarrow> edited" where
  "typed ks s = fold key_ref ks s"

lemma keeps_shown_trans:
  assumes "keeps_shown e lr e1 lr1" "keeps_shown e1 lr1 e2 lr2"
  shows "keeps_shown e lr e2 lr2"
proof -
  from assms obtain o1 o2 where o12: "ed_con e1 = puts o1 (ed_con e)" "ed_con e2 = puts o2 (ed_con e1)"
    "\<forall>base t. shows_line base (fst lr) (snd lr) t \<longrightarrow> shows_line base (fst lr1) (snd lr1) (fold type_char o1 t)"
    "\<forall>base t. shows_line base (fst lr1) (snd lr1) t \<longrightarrow> shows_line base (fst lr2) (snd lr2) (fold type_char o2 t)"
    unfolding keeps_shown_def by blast
  have "ed_con e2 = puts (o1 @ o2) (ed_con e)" using o12(1,2) by (simp add: puts_out)
  moreover have "shows_line base (fst lr2) (snd lr2) (fold type_char (o1 @ o2) t)" if "shows_line base (fst lr) (snd lr) t" for base t
    unfolding fold_append comp_apply using o12(3,4) that by blast
  ultimately show ?thesis unfolding keeps_shown_def by blast
qed

lemma key_loop_keys:
  "holds e s \<Longrightarrow> edited_ok s \<Longrightarrow> \<forall>k \<in> set ks. editing_key k \<Longrightarrow>
   \<exists>e'. key_loop tbl d prompt (ks @ rest) e = key_loop tbl d prompt rest e' \<and> holds e' (typed ks s) \<and>
     edited_ok (typed ks s) \<and> keeps_shown e (fst s) e' (fst (typed ks s))"
proof (induction ks arbitrary: e s)
  case Nil
  have "keeps_shown e (fst s) e (fst s)" unfolding keeps_shown_def by (intro exI [of _ "[]"]) (simp add: puts_def)
  then show ?case using Nil by (auto simp: typed_def)
next
  case (Cons k ks)
  have k: "editing_key k" using Cons.prems by simp
  from plain_key_ref [OF Cons.prems(1,2) k, of tbl d prompt] obtain e1 where
    e1: "plain_key tbl d prompt k e = Some e1" "holds e1 (key_ref k s)" "keeps_shown e (fst s) e1 (fst (key_ref k s))" by blast
  have esc: "escape k e = Inr (k, e)" using Cons.prems(1) by (cases s) (auto simp: holds_def escape_def)
  from Cons.IH [OF e1(2) key_ref_ok [OF Cons.prems(2) k]] Cons.prems(3) obtain e' where
    "key_loop tbl d prompt (ks @ rest) e1 = key_loop tbl d prompt rest e'" "holds e' (typed ks (key_ref k s))"
    "edited_ok (typed ks (key_ref k s))" "keeps_shown e1 (fst (key_ref k s)) e' (fst (typed ks (key_ref k s)))" by auto
  moreover have "key_loop tbl d prompt ((k # ks) @ rest) e = key_loop tbl d prompt (ks @ rest) e1"
    using editing_key_not [OF k] esc e1(1) by simp
  ultimately show ?case using keeps_shown_trans [OF e1(3)] by (simp only: typed_def fold_simps) blast
qed

definition start :: "u8 list \<Rightarrow> history \<Rightarrow> con \<Rightarrow> editor" where
  "start buf h c = \<lparr>ed_num = 0, ed_eol = 0, ed_buf = buf, ed_insert = True, ed_esc = [], ed_con = c, ed_hist = h\<rparr>"

lemma start_holds: "length buf = CFG_CBSIZE \<Longrightarrow> holds (start buf h c) (([], []), True, h)"
  by (simp add: holds_def start_def ed_is_def)

lemma cread_line_keys:
  assumes "length buf = CFG_CBSIZE" "hist_ok h" "\<forall>k \<in> set ks. editing_key k" "con_in c = ks @ rest"
    "typed ks (([], []), True, h) = ((l, r), ins, h')"
  shows "\<exists>e. cread_line tbl d prompt buf h c = key_loop tbl d prompt rest e \<and> holds e ((l, r), ins, h') \<and>
    printable (l @ r) \<and> hist_ok h' \<and> keeps_shown (start buf h c) ([], []) e (l, r)"
proof -
  have "edited_ok (([], []), True, h)" using assms(2) by (simp add: edited_ok_def)
  from key_loop_keys [OF start_holds [OF assms(1), of h c] this assms(3), of tbl d prompt rest] assms(5) obtain e where
    "key_loop tbl d prompt (ks @ rest) (start buf h c) = key_loop tbl d prompt rest e" "holds e ((l, r), ins, h')"
    "edited_ok ((l, r), ins, h')" "keeps_shown (start buf h c) ([], []) e (l, r)" by auto
  then show ?thesis using assms(4) by (auto simp: cread_line_def start_def edited_ok_def)
qed

lemma ctext_line: "0 \<notin> set s \<Longrightarrow> ctext (s @ 0 # z) = s"
  by (induction s) (auto simp: ctext_def)

text \<open>C7: Editing a line. Typing characters and editing keys and then Return makes \<open>cread_line\<close> return the line the
  keys stand for: every key acts on the text left and right of the cursor as the list functions of
  \<open>key_ref\<close> say. The text and its length are those of the line, the rest of the input is left, and the line goes
  into the history unless it is empty or starts with an exclamation mark.\<close>

theorem cread_line_edits:
  assumes "length buf = CFG_CBSIZE" "hist_ok h" "\<forall>k \<in> set ks. editing_key k" "con_in c = ks @ nl # rest" "nl = 0x0a \<or> nl = 0x0d"
    "typed ks (([], []), True, h) = ((l, r), ins, h')" "length (l @ r) < CFG_CBSIZE"
  shows "\<exists>e. cread_line tbl d prompt buf h c = Returned 0 e \<and> ctext (ed_buf e) = l @ r \<and> ed_eol e = length (l @ r) \<and>
    con_in (ed_con e) = rest \<and>
    ed_hist e = (let h = (if l @ r = [] \<or> hd (l @ r) = 0x21 then h' else cread_add_to_hist (l @ r) h')
      in h\<lparr>hist_cur := int (hist_add_idx h)\<rparr>)"
proof -
  from cread_line_keys [OF assms(1-4,6), of tbl d prompt] obtain e where
    e: "cread_line tbl d prompt buf h c = key_loop tbl d prompt (nl # rest) e" "holds e ((l, r), ins, h')" "printable (l @ r)" by blast
  have nz: "0 \<notin> set (l @ r)" using e(3) by (rule printable_nonzero)
  from e(2) obtain z where z: "ed_buf e = l @ r @ z" "ed_eol e = length (l @ r)" "length (ed_buf e) = CFG_CBSIZE" "ed_hist e = h'"
    by (auto simp: holds_def ed_is_def)
  then obtain y z' where zz: "z = y # z'" using assms(7) by (cases z) auto
  have b: "(ed_buf e)[ed_eol e := 0] = (l @ r) @ 0 # z'" using z zz by (simp add: list_update_append)
  have hd': "((l @ r) @ 0 # z') ! 0 \<noteq> 0 \<and> ((l @ r) @ 0 # z') ! 0 \<noteq> 0x21 \<longleftrightarrow> \<not> (l @ r = [] \<or> hd (l @ r) = 0x21)"
    using nz by (cases "l @ r") auto
  have "key_loop tbl d prompt (nl # rest) e = Returned 0 (e\<lparr>ed_con := (puts [0x0a] (ed_con e))\<lparr>con_in := rest\<rparr>, ed_buf := (l @ r) @ 0 # z',
      ed_hist := (let h = (if l @ r = [] \<or> hd (l @ r) = 0x21 then h' else cread_add_to_hist (l @ r) h') in h\<lparr>hist_cur := int (hist_add_idx h)\<rparr>)\<rparr>)"
    using assms(5,7) z(2-4) b hd' ctext_line [OF nz, of z']
    by (auto simp: end_of_line_def emit_def Let_def)
  then show ?thesis using e(1) z(2) ctext_line [OF nz, of z'] by simp
qed

text \<open>C10: What the user sees. While a line is edited, a terminal that interprets the output, the prompt
  first, shows the prompt and after it the line being edited, and blanks, with the cursor at the place
  where the next key acts.\<close>

theorem cread_line_shown:
  assumes "length buf = CFG_CBSIZE" "hist_ok h" "\<forall>k \<in> set ks. editing_key k" "con_in c = ks" "printable prompt"
    "typed ks (([], []), True, h) = ((l, r), ins, h')"
  shows "\<exists>e out. cread_line tbl d prompt buf h (puts prompt c) = Waiting e \<and> con_out (ed_con e) = con_out c @ prompt @ out \<and>
    shows_line prompt l r (fold type_char (prompt @ out) ([], 0))"
proof -
  have "con_in (puts prompt c) = ks @ []" using assms(4) by (simp add: puts_out)
  from cread_line_keys [OF assms(1-3) this assms(6), of tbl d prompt] obtain e out where
    e: "cread_line tbl d prompt buf h (puts prompt c) = key_loop tbl d prompt [] e" "ed_con e = puts out (puts prompt c)"
    "\<And>base t. shows_line base [] [] t \<Longrightarrow> shows_line base l r (fold type_char out t)"
    by (auto simp: keeps_shown_def start_def)
  have "fold type_char prompt ([], 0) = (prompt @ [] @ [] @ replicate 0 0x20, length prompt + length ([] :: u8 list))"
    using type_at [OF assms(5), of "[]" 0 "[]"] by simp
  then have "shows_line prompt [] [] (fold type_char prompt ([], 0))" unfolding shows_line_def by blast
  then have "shows_line prompt l r (fold type_char (prompt @ out) ([], 0))" using e(3) by simp
  then show ?thesis using e(1,2) by (auto simp: puts_out)
qed

text \<open>A full line. The editor accepts as many characters as the buffer holds, and Return then writes the
  terminator behind its end.\<close>

theorem full_line_overruns:
  assumes "length buf = CFG_CBSIZE" "hist_ok h" "printable s" "0xff \<notin> set s" "0x7f \<notin> set s" "length s = CFG_CBSIZE" "con_in c = s @ 0x0d # rest"
  shows "cread_line tbl d prompt buf h c = Undefined"
proof -
  have "typed s ((l, []), True, h) = ((l @ s, []), True, h)" if "length l + length s \<le> CFG_CBSIZE" for l
    using that assms(3-5)
  proof (induction s arbitrary: l)
    case (Cons k s)
    have "k \<notin> set control_keys" using Cons.prems(2) control_keys_distinct [of k] by auto
    then have "key_ref k ((l, []), True, h) = ((l @ [k], []), True, h)"
      using Cons.prems by (auto simp: key_ref_def control_keys_def type_in_def)
    then show ?case using Cons.IH [of "l @ [k]"] Cons.prems by (simp add: typed_def)
  qed (simp add: typed_def)
  then have t: "typed s (([], []), True, h) = ((s, []), True, h)" using assms(6) by fastforce
  have "\<forall>k \<in> set s. editing_key k" using assms(3) by (auto simp: editing_key_def printable_def)
  from cread_line_keys [OF assms(1,2) this assms(7) t, of tbl d prompt] obtain e where
    "cread_line tbl d prompt buf h c = key_loop tbl d prompt (0x0d # rest) e" "holds e ((s, []), True, h)" by blast
  then show ?thesis using assms(6) by (simp add: end_of_line_def holds_def ed_is_def emit_def)
qed

section \<open>The invariant of the editor\<close>

definition hist_valid :: "history \<Rightarrow> bool" where
  "hist_valid h \<longleftrightarrow> length (hist_list h) = HIST_MAX \<and> hist_max h < HIST_MAX \<and> hist_add_idx h \<le> hist_max h \<and>
     - 1 \<le> hist_cur h \<and> hist_cur h \<le> int (hist_max h) \<and>
     (\<forall>line \<in> set (hist_list h). length line < CFG_CBSIZE \<and> 0 \<notin> set line)"

definition editor_ok :: "editor \<Rightarrow> bool" where
  "editor_ok e \<longleftrightarrow> ed_num e \<le> ed_eol e \<and> ed_eol e \<le> CFG_CBSIZE \<and> length (ed_buf e) = CFG_CBSIZE \<and>
     length (ed_esc e) \<le> 2 \<and> hist_valid (ed_hist e)"

text \<open>A key that does not end the line takes the editor from one state to the next.\<close>

inductive key_step :: "cmd_tbl list \<Rightarrow> mem \<Rightarrow> u8 list \<Rightarrow> u8 \<Rightarrow> editor \<Rightarrow> editor \<Rightarrow> bool"
  for tbl d prompt where
  used: "escape k e = Inl e' \<Longrightarrow> key_step tbl d prompt k e e'"
| acts: "escape k e = Inr (k', e1) \<Longrightarrow> k' \<noteq> 0x03 \<Longrightarrow> plain_key tbl d prompt k' e1 = Some e' \<Longrightarrow> key_step tbl d prompt k e e'"

inductive reaches :: "cmd_tbl list \<Rightarrow> mem \<Rightarrow> u8 list \<Rightarrow> editor \<Rightarrow> editor \<Rightarrow> bool"
  for tbl d prompt e where
  here: "reaches tbl d prompt e e"
| step: "reaches tbl d prompt e e1 \<Longrightarrow> key_step tbl d prompt k e1 e2 \<Longrightarrow> k \<noteq> 0x0a \<Longrightarrow> k \<noteq> 0x0d \<Longrightarrow> reaches tbl d prompt e e2"

inductive_cases key_stepE: "key_step tbl d prompt k e e'"

named_theorems editor_defs

lemmas [editor_defs] = editor_ok_def emit_def cbeep_def BEGINNING_OF_LINE_def ERASE_TO_EOL_def REFRESH_TO_EOL_def
  key_right_def key_left_def Let_def

lemma ok_moves:
  assumes "editor_ok e"
  shows "editor_ok (BEGINNING_OF_LINE e)" "editor_ok (ERASE_TO_EOL e)" "editor_ok (REFRESH_TO_EOL e)"
    "editor_ok (key_right e)" "editor_ok (key_left e)" "editor_ok (cbeep e)" "editor_ok (emit s e)"
  using assms by (auto simp: editor_defs)

lemma ok_add_char:
  assumes "editor_ok e"
  shows "editor_ok (cread_add_char k e)"
proof (cases "(ed_insert e \<or> ed_num e = ed_eol e) \<and> ed_eol e > MAX_CMDBUF_SIZE - 1")
  case True
  then show ?thesis using ok_moves(6) [OF assms] by (simp add: cread_add_char_def)
next
  case False
  then show ?thesis using assms
    by (auto simp: cread_add_char_def editor_ok_def emit_def Let_def MAX_CMDBUF_SIZE_def CFG_CBSIZE_def)
qed

lemma ok_add_str: "editor_ok e \<Longrightarrow> editor_ok (cread_add_str s e)"
  unfolding cread_add_str_def by (induction s arbitrary: e) (simp_all add: ok_add_char)

lemma ok_delete:
  assumes "editor_ok e"
  shows "editor_ok (key_delete e)" "editor_ok (key_backspace e)"
proof -
  show "editor_ok (key_delete e)"
  proof (cases "ed_num e < ed_eol e")
    case True
    then show ?thesis using assms by (auto simp: key_delete_def editor_ok_def emit_def Let_def)
  qed (use assms in \<open>simp add: key_delete_def\<close>)
  show "editor_ok (key_backspace e)"
  proof (cases "0 < ed_num e")
    case True
    then show ?thesis using assms by (auto simp: key_backspace_def editor_ok_def emit_def Let_def)
  qed (use assms in \<open>simp add: key_backspace_def\<close>)
qed

lemma hist_valid_nth: "hist_valid h \<Longrightarrow> i < HIST_MAX \<Longrightarrow> length (hist_list h ! i) < CFG_CBSIZE"
  by (simp add: hist_valid_def)

lemma valid_prev:
  assumes v: "hist_valid h"
  shows "hist_valid (snd (hist_prev h))" "fst (hist_prev h) = Some s \<Longrightarrow> length s < CFG_CBSIZE"
proof -
  show "hist_valid (snd (hist_prev h))" using assms by (auto simp: hist_prev_def hist_valid_def Let_def)
  assume "fst (hist_prev h) = Some s"
  then have "\<exists>i. (i = nat (hist_cur h - 1) \<or> i = hist_max h) \<and> s = hist_list h ! i"
    by (auto simp: hist_prev_def Let_def split: if_splits)
  moreover have "nat (hist_cur h - 1) < HIST_MAX" "hist_max h < HIST_MAX" using v by (auto simp: hist_valid_def)
  ultimately show "length s < CFG_CBSIZE" using hist_valid_nth [OF v] by blast
qed

lemma valid_next:
  assumes v: "hist_valid h"
  shows "hist_valid (snd (hist_next h))" "fst (hist_next h) = Some s \<Longrightarrow> length s < CFG_CBSIZE"
proof -
  show "hist_valid (snd (hist_next h))" using assms by (auto simp: hist_next_def hist_valid_def Let_def)
  assume "fst (hist_next h) = Some s"
  then have "s = [] \<or> s = hist_list h ! 0 \<or> hist_cur h + 1 \<le> int (hist_max h) \<and> s = hist_list h ! nat (hist_cur h + 1)"
    by (auto simp: hist_next_def Let_def split: if_splits)
  moreover have "hist_cur h + 1 \<le> int (hist_max h) \<Longrightarrow> nat (hist_cur h + 1) < HIST_MAX" "0 < HIST_MAX"
    using v by (auto simp: hist_valid_def HIST_MAX_def)
  ultimately consider "s = []" | i where "i < HIST_MAX" "s = hist_list h ! i" by metis
  then show "length s < CFG_CBSIZE" by cases (simp_all add: CFG_CBSIZE_def hist_valid_nth [OF v, unfolded CFG_CBSIZE_def])
qed

lemma ok_history:
  assumes "editor_ok e" "hist_valid h" "\<And>s. hline = Some s \<Longrightarrow> length s < CFG_CBSIZE"
  shows "editor_ok (key_history (hline, h) e)"
proof -
  have e: "editor_ok (e\<lparr>ed_esc := [], ed_hist := h\<rparr>)" using assms(1,2) by (simp add: editor_ok_def)
  show ?thesis
  proof (cases hline)
    case None
    then show ?thesis using ok_moves(6) [OF e] by (simp add: key_history_def)
  next
    case (Some s)
    let ?e1 = "ERASE_TO_EOL (BEGINNING_OF_LINE (e\<lparr>ed_esc := [], ed_hist := h\<rparr>))"
    have "editor_ok ?e1" by (intro ok_moves e)
    moreover have "ed_num ?e1 = 0" by (simp add: ERASE_TO_EOL_def BEGINNING_OF_LINE_def emit_def)
    ultimately have "editor_ok (?e1\<lparr>ed_buf := blit (ed_buf ?e1) 0 (s @ [0]), ed_eol := length s\<rparr>)"
      using assms(3) [OF Some] by (simp add: editor_ok_def)
    then show ?thesis using Some by (simp add: key_history_def Let_def ok_moves(3))
  qed
qed

lemma completion_fits:
  assumes "cmd_auto_complete tbl d prompt buf n c = Some (ret, Some s, c')"
  shows "n + length s < CFG_CBSIZE - 2"
  using assms by (auto simp: cmd_auto_complete_def Let_def split: if_splits bind_splits sum.splits option.splits prod.splits)

lemma length_ctext: "length (ctext buf) \<le> length buf"
  by (simp add: ctext_def length_takeWhile_le)

lemma ctext_zero: "i < length buf \<Longrightarrow> buf ! i = 0 \<Longrightarrow> length (ctext buf) \<le> i"
  unfolding ctext_def by (rule ccontr) (metis (mono_tags) not_le nth_mem set_takeWhileD takeWhile_nth)

lemma ok_tab:
  assumes "editor_ok e" "key_tab tbl d prompt e = Some e'"
  shows "editor_ok e'"
proof (cases "ed_num e < ed_eol e")
  case True
  then show ?thesis using assms ok_moves(6) [OF assms(1)] by (auto simp: key_tab_def)
next
  case False
  let ?b = "(ed_buf e)[ed_num e := 0]"
  have n: "ed_num e < length (ed_buf e)" using assms(2) False by (auto simp: key_tab_def split: if_splits)
  from False n assms(2) obtain ret added c where
    a: "cmd_auto_complete tbl d prompt (ctext ?b) (ed_num e) (ed_con e) = Some (ret, added, c)"
    and e': "e' = (case added of None \<Rightarrow> e\<lparr>ed_buf := ?b, ed_con := c\<rparr>
      | Some s \<Rightarrow> e\<lparr>ed_buf := blit ?b (length (ctext ?b)) (s @ [0]), ed_con := c, ed_num := ed_num e + length s, ed_eol := ed_eol e + length s\<rparr>)"
    by (auto simp: key_tab_def Let_def split: bind_splits option.splits)
  have cl: "length (ctext ?b) \<le> ed_num e" using n by (intro ctext_zero) simp_all
  show ?thesis
  proof (cases added)
    case None
    then show ?thesis using assms(1) e' by (simp add: editor_ok_def)
  next
    case (Some s)
    then have "ed_num e + length s < CFG_CBSIZE - 2" using completion_fits a by blast
    then show ?thesis using assms(1) e' Some False cl by (auto simp: editor_ok_def)
  qed
qed

lemma escape_cases:
  assumes "editor_ok e"
  shows "escape k e = Inl e' \<Longrightarrow> editor_ok e'" "escape k e = Inr (k', e') \<Longrightarrow> editor_ok e' \<and> ed_esc e' = []"
proof -
  have u: "editor_ok (e1\<lparr>ed_esc := esc\<rparr>)" if "editor_ok e1" "length esc \<le> 2" for e1 esc
    using that by (simp add: editor_ok_def)
  have "length (ed_esc e) \<le> 2" using assms by (simp add: editor_ok_def)
  then show "escape k e = Inl e' \<Longrightarrow> editor_ok e'" "escape k e = Inr (k', e') \<Longrightarrow> editor_ok e' \<and> ed_esc e' = []"
    using assms u ok_add_str [OF assms] by (auto simp: escape_def Let_def split: if_splits)
qed

lemma plain_key_ok:
  assumes e: "editor_ok e" and k: "plain_key tbl d prompt k e = Some e'"
  shows "editor_ok e'"
proof -
  have h: "hist_valid (ed_hist e)" using e by (simp add: editor_ok_def)
  note hs = ok_history [OF e valid_prev(1) [OF h] valid_prev(2) [OF h], of "fst (hist_prev (ed_hist e))", simplified]
    ok_history [OF e valid_next(1) [OF h] valid_next(2) [OF h], of "fst (hist_next (ed_hist e))", simplified]
  have esc: "editor_ok (e\<lparr>ed_esc := [k]\<rparr>)" "editor_ok ((emit s e)\<lparr>ed_esc := []\<rparr>)" "editor_ok (e\<lparr>ed_insert := b\<rparr>)" for s b
    using e by (simp_all add: editor_ok_def emit_def)
  show ?thesis
    using k hs ok_moves [OF e] ok_moves(2) [OF ok_moves(1) [OF e]] ok_delete [OF e] ok_add_char [OF e] ok_tab [OF e] esc
    unfolding plain_key_def by (simp split: if_splits; (elim disjE conjE)?; auto)
qed

lemma key_step_ok: "key_step tbl d prompt k e e' \<Longrightarrow> editor_ok e \<Longrightarrow> editor_ok e'"
  by (erule key_stepE) (use escape_cases plain_key_ok in \<open>blast+\<close>)

lemma reaches_ok: "reaches tbl d prompt e e' \<Longrightarrow> editor_ok e \<Longrightarrow> editor_ok e'"
  by (induction rule: reaches.induct) (auto dest: key_step_ok)

text \<open>The states \<open>key_loop\<close> goes through are reachable.\<close>

lemma key_loop_reaches:
  "key_loop tbl d prompt ks e = Waiting e' \<Longrightarrow> reaches tbl d prompt e0 e \<Longrightarrow> reaches tbl d prompt e0 e'"
proof (induction tbl d prompt ks e rule: key_loop.induct)
  case (2 tbl d prompt k ks e)
  have nl: "\<not> (k = 0x0a \<or> k = 0x0d)" using 2(3) by (auto simp: end_of_line_def Let_def split: if_splits)
  show ?case
  proof (cases "escape k e")
    case (Inl e1)
    then have "reaches tbl d prompt e0 e1" using reaches.step [OF 2(4) key_step.used] nl by blast
    then show ?thesis using 2(1) [OF nl Inl] 2(3) nl Inl by simp
  next
    case (Inr p)
    obtain k' e1 where p: "p = (k', e1)" by fastforce
    have k': "k' \<noteq> 0x03" using 2(3) nl Inr p by auto
    then obtain e2 where e2: "plain_key tbl d prompt k' e1 = Some e2" "key_loop tbl d prompt ks e2 = Waiting e'"
      using 2(3) nl Inr p by (auto split: option.splits)
    have "reaches tbl d prompt e0 e2" using reaches.step [OF 2(4) key_step.acts [OF Inr [unfolded p] k' e2(1)]] nl by blast
    then show ?thesis using 2(2) [OF nl Inr p [symmetric] k' e2(1)] e2(2) by simp
  qed
qed simp

lemma key_loop_append:
  "key_loop tbl d prompt ks e = Waiting e' \<Longrightarrow> key_loop tbl d prompt (ks @ js) e = key_loop tbl d prompt js e'"
proof (induction tbl d prompt ks e rule: key_loop.induct)
  case (2 tbl d prompt k ks e)
  have nl: "\<not> (k = 0x0a \<or> k = 0x0d)" using 2(3) by (auto simp: end_of_line_def Let_def split: if_splits)
  show ?case
  proof (cases "escape k e")
    case (Inl e1)
    then show ?thesis using 2(1) [OF nl Inl] 2(3) nl by simp
  next
    case (Inr p)
    obtain k' e1 where p: "p = (k', e1)" by fastforce
    have k': "k' \<noteq> 0x03" using 2(3) nl Inr p by auto
    then obtain e2 where e2: "plain_key tbl d prompt k' e1 = Some e2" "key_loop tbl d prompt ks e2 = Waiting e'"
      using 2(3) nl Inr p by (auto split: option.splits)
    then show ?thesis using 2(2) [OF nl Inr p [symmetric] k' e2(1) e2(2)] nl k' Inr p by simp
  qed
qed simp

lemma reaches_key_loop:
  assumes "reaches tbl d prompt e0 e"
  shows "\<exists>ks. key_loop tbl d prompt ks e0 = Waiting e"
  using assms
proof (induction rule: reaches.induct)
  case here
  then show ?case by (intro exI [of _ "[]"]) simp
next
  case (step e1 k e2)
  then obtain ks where ks: "key_loop tbl d prompt ks e0 = Waiting e1" by blast
  have "key_loop tbl d prompt [k] e1 = Waiting e2" using step(2-4) by (auto elim!: key_stepE)
  then show ?case using key_loop_append [OF ks, of "[k]"] by metis
qed

lemma waiting_reachable: "(\<exists>ks. key_loop tbl d prompt ks e0 = Waiting e) \<longleftrightarrow> reaches tbl d prompt e0 e"
  using key_loop_reaches [OF _ reaches.here] reaches_key_loop by blast

text \<open>
  The accesses behind an object of the editor: a terminator behind a full line, at Return or before a
  completion, and the undefined cases of the completion itself.
\<close>

definition overruns :: "cmd_tbl list \<Rightarrow> mem \<Rightarrow> u8 list \<Rightarrow> u8 \<Rightarrow> editor \<Rightarrow> bool" where
  "overruns tbl d prompt k e \<longleftrightarrow>
     (k = 0x0a \<or> k = 0x0d) \<and> ed_eol e = CFG_CBSIZE \<or>
     k = 0x09 \<and> ed_esc e = [] \<and> ed_num e = ed_eol e \<and>
       (ed_num e = CFG_CBSIZE \<or>
        cmd_auto_complete tbl d prompt (ctext ((ed_buf e)[ed_num e := 0])) (ed_num e) (ed_con e) = None)"

lemma hist_valid_add:
  assumes "hist_valid h" "length s < CFG_CBSIZE" "0 \<notin> set s"
  shows "hist_valid (cread_add_to_hist s h)"
proof -
  have "set ((hist_list h)[hist_add_idx h := s]) \<subseteq> insert s (set (hist_list h))" by (rule set_update_subset_insert)
  with assms have "\<forall>line \<in> set ((hist_list h)[hist_add_idx h := s]). length line < CFG_CBSIZE \<and> 0 \<notin> set line"
    by (auto simp: hist_valid_def)
  then show ?thesis using assms(1) by (auto simp: hist_valid_def cread_add_to_hist_def Let_def)
qed

lemma end_of_line_ok:
  assumes "editor_ok e" "ed_eol e < CFG_CBSIZE"
  shows "\<exists>e'. end_of_line e = Returned 0 e' \<and> editor_ok e' \<and> ed_eol e' < CFG_CBSIZE \<and> ed_buf e' ! ed_eol e' = 0"
proof -
  let ?b = "(ed_buf e)[ed_eol e := 0]"
  have l: "length (ed_buf e) = CFG_CBSIZE" and h: "hist_valid (ed_hist e)" using assms(1) by (simp_all add: editor_ok_def)
  have z: "?b ! ed_eol e = 0" using assms(2) l by simp
  have t: "length (ctext ?b) < CFG_CBSIZE" using ctext_zero [OF _ z] assms(2) l by simp
  have "0 \<notin> set (ctext ?b)" unfolding ctext_def by (auto dest: set_takeWhileD)
  then have "hist_valid (cread_add_to_hist (ctext ?b) (ed_hist e))" by (rule hist_valid_add [OF h t])
  moreover have "hist_valid (h'\<lparr>hist_cur := int (hist_add_idx h')\<rparr>)" if "hist_valid h'" for h'
    using that by (simp add: hist_valid_def)
  ultimately show ?thesis using assms z h l by (simp add: end_of_line_def Let_def editor_ok_def)
qed

lemma plain_key_undefined:
  assumes "plain_key tbl d prompt k e = None" "editor_ok e" "ed_esc e = []"
  shows "overruns tbl d prompt k e"
proof -
  have k: "k = 0x09" "key_tab tbl d prompt e = None" using assms(1) by (simp_all add: plain_key_def split: if_splits)
  then have n: "ed_num e = ed_eol e" using assms(2) by (auto simp: key_tab_def editor_ok_def split: if_splits)
  have "ed_num e = CFG_CBSIZE \<or> cmd_auto_complete tbl d prompt (ctext ((ed_buf e)[ed_num e := 0])) (ed_num e) (ed_con e) = None"
    using k(2) assms(2) n by (auto simp: key_tab_def editor_ok_def Let_def split: if_splits bind_splits)
  then show ?thesis using k(1) n assms(3) by (simp add: overruns_def)
qed

lemma key_loop_outcome:
  assumes "editor_ok e"
  shows "case key_loop tbl d prompt ks e of
      Waiting e' \<Rightarrow> editor_ok e'
    | Returned rc e' \<Rightarrow> editor_ok e' \<and> (rc = 0 \<and> ed_eol e' < CFG_CBSIZE \<and> ed_buf e' ! ed_eol e' = 0 \<or> rc = - 1)
    | Undefined \<Rightarrow> \<exists>js k rest e'. ks = js @ k # rest \<and> key_loop tbl d prompt js e = Waiting e' \<and>
        editor_ok e' \<and> overruns tbl d prompt k e'"
  using assms
proof (induction ks arbitrary: e)
  case (Cons k ks)
  let ?more = "\<lambda>js e1. \<exists>k rest e'. ks = js @ k # rest \<and> key_loop tbl d prompt js e1 = Waiting e' \<and> editor_ok e' \<and> overruns tbl d prompt k e'"
  have here: "\<exists>js k' rest e'. k # ks = js @ k' # rest \<and> key_loop tbl d prompt js e = Waiting e' \<and>
        editor_ok e' \<and> overruns tbl d prompt k' e'" if "overruns tbl d prompt k e"
    using that Cons.prems by (intro exI [of _ "[]"] exI [of _ k] exI [of _ ks] exI [of _ e]) simp
  show ?case
  proof (cases "k = 0x0a \<or> k = 0x0d")
    case nl: True
    let ?e = "(emit [0x0a] e)\<lparr>ed_con := (ed_con (emit [0x0a] e))\<lparr>con_in := ks\<rparr>\<rparr>"
    have ok: "editor_ok ?e" "ed_eol ?e = ed_eol e" using Cons.prems by (simp_all add: editor_ok_def emit_def)
    show ?thesis
    proof (cases "ed_eol e < CFG_CBSIZE")
      case True
      then show ?thesis using nl end_of_line_ok [OF ok(1)] ok(2) by auto
    next
      case False
      then have "ed_eol e = CFG_CBSIZE" using Cons.prems by (simp add: editor_ok_def)
      then have "end_of_line ?e = Undefined" "overruns tbl d prompt k e"
        using nl ok Cons.prems by (auto simp: end_of_line_def overruns_def editor_ok_def emit_def)
      then show ?thesis using nl here by simp
    qed
  next
    case nl: False
    show ?thesis
    proof (cases "escape k e")
      case (Inl e1)
      then have e1: "editor_ok e1" "\<And>js. key_loop tbl d prompt (k # js) e = key_loop tbl d prompt js e1"
        using nl escape_cases(1) [OF Cons.prems] by simp_all
      from Cons.IH [OF e1(1)] show ?thesis unfolding e1(2)
        by (cases "key_loop tbl d prompt ks e1") (auto, metis append_Cons e1(2))
    next
      case (Inr p)
      then obtain k' e1 where p: "escape k e = Inr (k', e1)" by (cases p) simp
      have e1: "editor_ok e1" "ed_esc e1 = []" using escape_cases(2) [OF Cons.prems p] by simp_all
      show ?thesis
      proof (cases "k' = 0x03")
        case True
        then show ?thesis using nl p e1(1) by (simp add: editor_ok_def)
      next
        case False
        show ?thesis
        proof (cases "plain_key tbl d prompt k' e1")
          case None
          then have o': "overruns tbl d prompt k' e1" using plain_key_undefined e1 by blast
          have "k' = k \<and> e1 = e"
            using p None by (auto simp: escape_def Let_def plain_key_def split: if_splits)
          then show ?thesis using nl p False None here o' by simp
        next
          case (Some e2)
          have e2: "editor_ok e2" "\<And>js. key_loop tbl d prompt (k # js) e = key_loop tbl d prompt js e2"
            using plain_key_ok [OF e1(1) Some] nl p False Some by simp_all
          from Cons.IH [OF e2(1)] show ?thesis unfolding e2(2)
            by (cases "key_loop tbl d prompt ks e2") (auto, metis append_Cons e2(2))
        qed
      qed
    qed
  qed
qed simp

text \<open>C22: The editor's state stays well formed under every key, escape sequences, history and completion included, as long as the code stays inside its objects, and the ways to leave them are exactly named: while more input is needed, and when the line is returned, the cursor is inside the line and the line inside its buffer, an unfinished escape sequence has at most two characters, and the indices of the history stay inside its table; a line returned is shorter than the buffer and terminated. Otherwise some key of the input, pressed in a well-formed state, is Return or a tabulator at the end of a line that fills the buffer, or a tabulator on which the completion itself is undefined.\<close>

theorem editor_invariant:
  assumes "length buf = CFG_CBSIZE" "hist_valid h"
  shows "case cread_line tbl d prompt buf h c of
      Waiting e \<Rightarrow> editor_ok e
    | Returned rc e \<Rightarrow> editor_ok e \<and> (rc = 0 \<and> ed_eol e < CFG_CBSIZE \<and> ed_buf e ! ed_eol e = 0 \<or> rc = - 1)
    | Undefined \<Rightarrow> \<exists>ks k rest e. con_in c = ks @ k # rest \<and> key_loop tbl d prompt ks (start buf h c) = Waiting e \<and>
        editor_ok e \<and> overruns tbl d prompt k e"
proof -
  have "editor_ok (start buf h c)" using assms by (simp add: editor_ok_def start_def)
  from key_loop_outcome [OF this, where tbl = tbl and d = d and prompt = prompt and ks = "con_in c"] show ?thesis by (simp add: cread_line_def start_def)
qed

section \<open>Reading returns\<close>

text \<open>Without recalled lines a key makes the line at most one character longer.\<close>

definition room :: "editor \<Rightarrow> nat \<Rightarrow> bool" where
  "room e n \<longleftrightarrow> editor_ok e \<and> hist_cur (ed_hist e) = - 1 \<and> ed_eol e + length (ed_esc e) + n < CFG_CBSIZE"

lemma eol_add_char: "ed_eol (cread_add_char k e) \<le> ed_eol e + 1" "ed_hist (cread_add_char k e) = ed_hist e"
  "ed_esc (cread_add_char k e) = ed_esc e"
  by (auto simp: cread_add_char_def Let_def emit_def cbeep_def)

lemma eol_add_str: "ed_eol (cread_add_str s e) \<le> ed_eol e + length s \<and> ed_hist (cread_add_str s e) = ed_hist e"
proof (induction s arbitrary: e)
  case (Cons k s)
  have "cread_add_str (k # s) e = cread_add_str s (cread_add_char k e)" by (simp add: cread_add_str_def)
  moreover have "ed_eol (cread_add_str s (cread_add_char k e)) \<le> ed_eol (cread_add_char k e) + length s \<and>
      ed_hist (cread_add_str s (cread_add_char k e)) = ed_hist (cread_add_char k e)" by (rule Cons.IH)
  ultimately show ?case using eol_add_char [of k e] by auto
qed (simp add: cread_add_str_def)

lemma escape_room:
  assumes "room e (n + 1)"
  shows "escape k e = Inl e' \<Longrightarrow> room e' n"
    "escape k e = Inr (k', e') \<Longrightarrow> room e' (n + 1) \<and> ed_esc e' = [] \<and> (k' = k \<or> k' \<in> {0x02, 0x06, 0x01, 0x10, 0x0e})"
proof -
  have ok: "editor_ok e" using assms by (simp add: room_def)
  assume l: "escape k e = Inl e'"
  have "editor_ok e'" using escape_cases(1) [OF ok l] .
  moreover have "hist_cur (ed_hist e') = - 1 \<and> ed_eol e' + length (ed_esc e') \<le> ed_eol e + length (ed_esc e) + 1"
    using l assms eol_add_str [of "ed_esc e" e] eol_add_str [of "ed_esc e @ [k]" e]
    by (auto simp: escape_def Let_def room_def split: if_splits)
  ultimately show "room e' n" using assms by (simp add: room_def)
next
  have ok: "editor_ok e" using assms by (simp add: room_def)
  assume r: "escape k e = Inr (k', e')"
  have "editor_ok e' \<and> ed_esc e' = []" using escape_cases(2) [OF ok r] .
  then show "room e' (n + 1) \<and> ed_esc e' = [] \<and> (k' = k \<or> k' \<in> {0x02, 0x06, 0x01, 0x10, 0x0e})"
    using r assms by (auto simp: escape_def Let_def room_def split: if_splits)
qed

lemma plain_key_room:
  assumes r: "room e (n + 1)" "ed_esc e = []" and k: "k \<noteq> 0x09"
  shows "\<exists>e'. plain_key tbl d prompt k e = Some e' \<and> room e' n"
proof -
  have "\<exists>e'. plain_key tbl d prompt k e = Some e'" using k by (simp add: plain_key_def)
  then obtain e' where e': "plain_key tbl d prompt k e = Some e'" by blast
  have ok: "editor_ok e'" using plain_key_ok e' r(1) unfolding room_def by blast
  have hp: "hist_prev (ed_hist e) = (None, ed_hist e)" "hist_next (ed_hist e) = (None, ed_hist e)"
    using r(1) by (simp_all add: room_def hist_prev_def hist_next_def)
  have len: "ed_eol (key_delete e) \<le> ed_eol e" "ed_hist (key_delete e) = ed_hist e" "ed_esc (key_delete e) = ed_esc e"
    "ed_eol (key_backspace e) \<le> ed_eol e" "ed_hist (key_backspace e) = ed_hist e" "ed_esc (key_backspace e) = ed_esc e"
    by (auto simp: key_delete_def key_backspace_def Let_def emit_def)
  have "hist_cur (ed_hist e') = - 1 \<and> ed_eol e' + length (ed_esc e') \<le> ed_eol e + 1"
    using e' r k len eol_add_char [of k e] hp
    unfolding plain_key_def by (simp add: room_def split: if_splits) (auto simp: editor_defs key_history_def)
  then show ?thesis using ok r e' by (auto simp: room_def)
qed

lemma key_loop_returns:
  assumes "nl = 0x0a \<or> nl = 0x0d"
  shows "room e (length ks) \<Longrightarrow> \<forall>k \<in> set ks. k \<noteq> 0x09 \<Longrightarrow>
    \<exists>rc e'. key_loop tbl d prompt (ks @ nl # rest) e = Returned rc e' \<and> (rc = - 1 \<or> rc = 0 \<and> ed_eol e' < CFG_CBSIZE)"
proof (induction ks arbitrary: e)
  case Nil
  then show ?case using assms by (auto simp: end_of_line_def emit_def Let_def room_def editor_ok_def)
next
  case (Cons k ks)
  have r: "room e (length ks + 1)" using Cons.prems(1) by simp
  show ?case
  proof (cases "k = 0x0a \<or> k = 0x0d")
    case True
    then show ?thesis using r by (auto simp: end_of_line_def emit_def Let_def room_def editor_ok_def)
  next
    case False
    show ?thesis
    proof (cases "escape k e")
      case (Inl e1)
      from Cons.IH [OF escape_room(1) [OF r Inl]] Cons.prems(2) False Inl show ?thesis by auto
    next
      case (Inr p)
      obtain k' e1 where p: "escape k e = Inr (k', e1)" using Inr by (cases p) auto
      note er = escape_room(2) [OF r p]
      show ?thesis
      proof (cases "k' = 0x03")
        case True
        then show ?thesis using False p by auto
      next
        case n3: False
        have "k' \<noteq> 0x09" using er Cons.prems(2) by auto
        then obtain e2 where "plain_key tbl d prompt k' e1 = Some e2" "room e2 (length ks)"
          using plain_key_room [of e1 "length ks" k'] er by blast
        then show ?thesis using Cons.IH [of e2] Cons.prems(2) False p n3 by auto
      qed
    qed
  qed
qed

text \<open>C23: Reading a line ends. On the first line after the start, once Return or line feed has been sent after
  fewer than 1024 keys, whichever keys these are, the tabulator excepted, \<open>readline\<close> returns the length
  of a line that fits its buffer, or -1 for control-C.\<close>

theorem readline_returns:
  assumes "length buf = CFG_CBSIZE" "con_in c = ks @ nl # rest" "nl = 0x0a \<or> nl = 0x0d" "\<forall>k \<in> set ks. k \<noteq> 0x09" "length ks < CFG_CBSIZE"
  shows "\<exists>rc e. readline tbl d prompt buf None c = Some (rc, e) \<and> - 1 \<le> rc \<and> rc < int CFG_CBSIZE"
proof -
  have "hist_valid hist_init" by (simp add: hist_valid_def hist_init_def HIST_MAX_def CFG_CBSIZE_def)
  then have "room (start buf hist_init (puts prompt c)) (length ks)"
    using assms(1,5) by (simp add: room_def editor_ok_def start_def hist_init_def)
  from key_loop_returns [OF assms(3) this assms(4), of tbl d prompt rest] obtain rc e where
    "cread_line tbl d prompt buf hist_init (puts prompt c) = Returned rc e" "rc = - 1 \<or> rc = 0 \<and> ed_eol e < CFG_CBSIZE"
    using assms(2) by (auto simp: cread_line_def start_def puts_out)
  then show ?thesis by (auto simp: readline_def)
qed

section \<open>The history as a list\<close>

text \<open>The place of the line \<open>j\<close> lines back, in a table in use up to index \<open>m\<close>.\<close>

definition slot :: "nat \<Rightarrow> nat \<Rightarrow> nat \<Rightarrow> nat" where
  "slot a m j = (if j \<le> a then a - j else a + m + 1 - j)"

lemma slot_0: "slot a m 0 = a"
  by (simp add: slot_def)

text \<open>The last lines, newest first, and how many of them back the user is.\<close>

definition hist_is :: "history \<Rightarrow> u8 list list \<Rightarrow> nat \<Rightarrow> bool" where
  "hist_is h past k \<longleftrightarrow> length (hist_list h) = HIST_MAX \<and> hist_max h < HIST_MAX \<and>
     hist_add_idx h \<le> hist_max h \<and> (hist_max h < HIST_MAX - 1 \<longrightarrow> hist_add_idx h = hist_max h) \<and>
     length past = hist_max h \<and> k \<le> length past \<and>
     (\<forall>i < length past. hist_list h ! slot (hist_add_idx h) (hist_max h) (i + 1) = past ! i) \<and>
     hist_cur h = int (slot (hist_add_idx h) (hist_max h) k)"

lemma hist_prev_is:
  assumes "hist_is h past k"
  shows "k < length past \<Longrightarrow> \<exists>h'. hist_prev h = (Some (past ! k), h') \<and> hist_is h' past (k + 1)"
    "\<not> k < length past \<Longrightarrow> hist_prev h = (None, h)"
proof -
  let ?a = "hist_add_idx h" and ?m = "hist_max h"
  have f: "?a \<le> ?m" "length past = ?m" "k \<le> ?m" "hist_cur h = int (slot ?a ?m k)"
    "\<And>i. i < ?m \<Longrightarrow> hist_list h ! slot ?a ?m (i + 1) = past ! i" using assms by (auto simp: hist_is_def)
  have cur: "(if hist_cur h - 1 < 0 then int ?m else hist_cur h - 1) = int (if k < ?m then slot ?a ?m (k + 1) else ?a)"
    using f(1,3,4) by (auto simp: slot_def)
  have ne: "k < ?m \<Longrightarrow> slot ?a ?m (k + 1) \<noteq> ?a" using f(1) by (auto simp: slot_def)
  have nn: "\<not> hist_cur h < 0" using f(4) by simp
  { assume k: "k < length past"
    then have "hist_prev h = (Some (past ! k), h\<lparr>hist_cur := int (slot ?a ?m (k + 1))\<rparr>)"
      using cur nn ne f(2,5) by (simp add: hist_prev_def Let_def)
    moreover have "hist_is (h\<lparr>hist_cur := int (slot ?a ?m (k + 1))\<rparr>) past (k + 1)" using assms k by (simp add: hist_is_def)
    ultimately show "\<exists>h'. hist_prev h = (Some (past ! k), h') \<and> hist_is h' past (k + 1)" by blast }
  assume "\<not> k < length past"
  then show "hist_prev h = (None, h)" using cur nn f(2) by (simp add: hist_prev_def Let_def)
qed

lemma hist_next_is:
  assumes "hist_is h past k"
  shows "0 < k \<Longrightarrow> \<exists>h'. hist_next h = (Some (if k = 1 then [] else past ! (k - 2)), h') \<and> hist_is h' past (k - 1)"
    "k = 0 \<Longrightarrow> hist_next h = (None, h)"
proof -
  let ?a = "hist_add_idx h" and ?m = "hist_max h"
  have f: "?a \<le> ?m" "length past = ?m" "k \<le> ?m" "hist_cur h = int (slot ?a ?m k)"
    "\<And>i. i < ?m \<Longrightarrow> hist_list h ! slot ?a ?m (i + 1) = past ! i" using assms by (auto simp: hist_is_def)
  show "k = 0 \<Longrightarrow> hist_next h = (None, h)" using f(4) by (simp add: hist_next_def slot_def)
  assume k: "0 < k"
  have ne: "slot ?a ?m k \<noteq> ?a" using k f(1,3) by (auto simp: slot_def)
  have cur: "(if int ?m < hist_cur h + 1 then 0 else hist_cur h + 1) = int (slot ?a ?m (k - 1))"
    using f(1,3,4) k by (auto simp: slot_def)
  have eq: "slot ?a ?m (k - 1) = ?a \<longleftrightarrow> k = 1" using k f(1,3) by (auto simp: slot_def)
  have "k \<noteq> 1 \<Longrightarrow> hist_list h ! slot ?a ?m (k - 1) = past ! (k - 2)"
    using f(5) [of "k - 2"] k f(3) by (cases k; cases "k - 1") auto
  then have "hist_next h = (Some (if k = 1 then [] else past ! (k - 2)), h\<lparr>hist_cur := int (slot ?a ?m (k - 1))\<rparr>)"
    using cur eq ne f(4) by (simp add: hist_next_def Let_def)
  moreover have "hist_is (h\<lparr>hist_cur := int (slot ?a ?m (k - 1))\<rparr>) past (k - 1)" using assms k by (auto simp: hist_is_def)
  ultimately show "\<exists>h'. hist_next h = (Some (if k = 1 then [] else past ! (k - 2)), h') \<and> hist_is h' past (k - 1)" by blast
qed

text \<open>What \<open>cread_line\<close> does with a line it returns.\<close>

definition enter_line :: "u8 list \<Rightarrow> history \<Rightarrow> history" where
  "enter_line line h = (let h = cread_add_to_hist line h in h\<lparr>hist_cur := int (hist_add_idx h)\<rparr>)"

lemma enter_line_is:
  assumes "hist_is (h\<lparr>hist_cur := int (hist_add_idx h)\<rparr>) past 0"
  shows "hist_is (enter_line line h) (take (HIST_MAX - 1) (line # past)) 0"
proof -
  let ?a = "hist_add_idx h" and ?m = "hist_max h"
  have f: "length (hist_list h) = HIST_MAX" "?m < HIST_MAX" "?a \<le> ?m" "?m < HIST_MAX - 1 \<longrightarrow> ?a = ?m" "length past = ?m"
    "\<And>i. i < ?m \<Longrightarrow> hist_list h ! slot ?a ?m (i + 1) = past ! i" using assms by (auto simp: hist_is_def)
  define a' where "a' = (if HIST_MAX \<le> ?a + 1 then 0 else ?a + 1)"
  define m' where "m' = (if ?m < a' then a' else ?m)"
  have m': "m' < HIST_MAX" "a' \<le> m'" "m' < HIST_MAX - 1 \<longrightarrow> a' = m'" "m' = min (HIST_MAX - 1) (?m + 1)"
    using f(2-4) by (auto simp: m'_def a'_def HIST_MAX_def)
  have e: "enter_line line h = h\<lparr>hist_list := (hist_list h)[?a := line], hist_add_idx := a', hist_max := m',
      hist_num := hist_num h + 1, hist_cur := int a'\<rparr>"
    by (cases h) (simp add: enter_line_def cread_add_to_hist_def Let_def a'_def m'_def)
  have nth: "(hist_list h)[?a := line] ! slot a' m' (i + 1) = (line # past) ! i" if "i < m'" for i
  proof (cases i)
    case 0
    have "slot a' m' 1 = ?a" using f(2-4) m' that by (auto simp: slot_def a'_def HIST_MAX_def split: if_splits)
    then show ?thesis using 0 f(1-3) by simp
  next
    case (Suc j)
    have "slot a' m' (i + 1) = slot ?a ?m (j + 1)" "slot ?a ?m (j + 1) \<noteq> ?a" "j < ?m"
      using f(2-4) m' that Suc by (auto simp: slot_def a'_def HIST_MAX_def split: if_splits)
    then show ?thesis using Suc f(6) by simp
  qed
  show ?thesis unfolding hist_is_def e using f(1) m' nth by (simp add: slot_def f(5))
qed

definition entered :: "u8 list list \<Rightarrow> history" where
  "entered ls = fold enter_line ls hist_init"

lemma entered_is: "ls \<noteq> [] \<Longrightarrow> hist_is (entered ls) (take (HIST_MAX - 1) (rev ls)) 0"
proof (induction ls rule: rev_induct)
  case (snoc line ls)
  have "hist_is ((entered ls)\<lparr>hist_cur := int (hist_add_idx (entered ls))\<rparr>) (take (HIST_MAX - 1) (rev ls)) 0"
  proof (cases "ls = []")
    case True
    then show ?thesis by (simp add: entered_def hist_init_def hist_is_def HIST_MAX_def slot_def)
  next
    case False
    then have "hist_is (entered ls) (take (HIST_MAX - 1) (rev ls)) 0" by (rule snoc.IH)
    moreover from this have "(entered ls)\<lparr>hist_cur := int (hist_add_idx (entered ls))\<rparr> = entered ls"
      by (cases "entered ls") (simp add: hist_is_def slot_0)
    ultimately show ?thesis by simp
  qed
  from enter_line_is [OF this, of line] have "hist_is (enter_line line (entered ls)) (take (HIST_MAX - 1) (line # take (HIST_MAX - 1) (rev ls))) 0" .
  moreover have "take (HIST_MAX - 1) (line # take (HIST_MAX - 1) (rev ls)) = take (HIST_MAX - 1) (line # rev ls)"
    by (simp add: take_Cons' min_def)
  ultimately show ?case by (simp add: entered_def)
qed simp

text \<open>A walk up (true) and down the history: the lines shown.\<close>

fun walk :: "bool list \<Rightarrow> history \<Rightarrow> u8 list option list" where
  "walk [] h = []"
| "walk (up # ms) h = (let (s, h) = (if up then hist_prev h else hist_next h) in s # walk ms h)"

fun walk_ref :: "bool list \<Rightarrow> u8 list list \<Rightarrow> nat \<Rightarrow> u8 list option list" where
  "walk_ref [] past k = []"
| "walk_ref (True # ms) past k =
     (if k < length past then Some (past ! k) # walk_ref ms past (k + 1) else None # walk_ref ms past k)"
| "walk_ref (False # ms) past k =
     (if k = 0 then None # walk_ref ms past k
      else Some (if k = 1 then [] else past ! (k - 2)) # walk_ref ms past (k - 1))"

lemma walk_is: "hist_is h past k \<Longrightarrow> walk ms h = walk_ref ms past k"
proof (induction ms past k arbitrary: h rule: walk_ref.induct)
  case (2 ms past k)
  show ?case
  proof (cases "k < length past")
    case True
    with hist_prev_is(1) [OF 2(3) True] 2(1) [OF True] show ?thesis by auto
  next
    case False
    with hist_prev_is(2) [OF 2(3) False] 2(2) [OF False 2(3)] show ?thesis by simp
  qed
next
  case (3 ms past k)
  show ?case
  proof (cases "k = 0")
    case True
    with hist_next_is(2) [OF 3(3)] 3(1) [OF True 3(3)] show ?thesis by simp
  next
    case False
    with hist_next_is(1) [OF 3(3)] 3(2) [OF False] show ?thesis by auto
  qed
qed simp

text \<open>C40: The history. After lines have been entered, going up and down in the history walks over the last 19 of
  them, newest first: it stops at the oldest of these and, below the newest, at the empty line. The
  oldest of the 20 lines in the table is never offered.\<close>

theorem history_recalls:
  assumes "ls \<noteq> []"
  shows "walk ms (entered ls) = walk_ref ms (take (HIST_MAX - 1) (rev ls)) 0"
  using entered_is [OF assms] by (rule walk_is)


section \<open>Witnesses\<close>

definition buf_0 :: "u8 list" where "buf_0 = replicate CFG_CBSIZE 0"

lemma hist_init_ok: "hist_ok hist_init" "hist_valid hist_init"
  by (simp_all add: hist_ok_def hist_valid_def hist_init_def HIST_MAX_def CFG_CBSIZE_def)

definition con_with :: "u8 list \<Rightarrow> con" where "con_with s = idle_con\<lparr>con_in := s\<rparr>"

lemma typed_abc: "typed [0x61, 0x63, 0x02, 0x62] (([], []), True, hist_init) = (([0x61, 0x62], [0x63]), True, hist_init)"
  by (simp add: typed_def key_ref_def type_in_def CFG_CBSIZE_def)

theorem cread_line_edits_witness:
  "\<exists>e. cread_line [] (\<lambda>_. 0) [] buf_0 hist_init (con_with ([0x61, 0x63, 0x02, 0x62] @ 0x0d # [0x7a])) = Returned 0 e \<and>
    ctext (ed_buf e) = [0x61, 0x62] @ [0x63] \<and> ed_eol e = length ([0x61, 0x62] @ [0x63 :: u8]) \<and> con_in (ed_con e) = [0x7a] \<and>
    ed_hist e = (let h = (if [0x61, 0x62] @ [0x63 :: u8] = [] \<or> hd ([0x61, 0x62] @ [0x63 :: u8]) = 0x21 then hist_init
        else cread_add_to_hist ([0x61, 0x62] @ [0x63]) hist_init)
      in h\<lparr>hist_cur := int (hist_add_idx h)\<rparr>)"
  by (rule cread_line_edits [OF _ hist_init_ok(1) _ _ _ typed_abc, where nl = "0x0d"])
    (simp_all add: buf_0_def con_with_def editing_key_def control_keys_def CFG_CBSIZE_def word_le_nat_alt)

theorem cread_line_shown_witness:
  "\<exists>e out. cread_line [] (\<lambda>_. 0) [0x3e] buf_0 hist_init (puts [0x3e] (con_with [0x61, 0x63, 0x02, 0x62])) = Waiting e \<and>
    con_out (ed_con e) = con_out (con_with [0x61, 0x63, 0x02, 0x62]) @ [0x3e] @ out \<and>
    shows_line [0x3e] [0x61, 0x62] [0x63] (fold type_char ([0x3e] @ out) ([], 0))"
  by (rule cread_line_shown [OF _ hist_init_ok(1) _ _ _ typed_abc])
    (simp_all add: buf_0_def con_with_def editing_key_def control_keys_def word_le_nat_alt)

theorem full_line_overruns_witness:
  "cread_line [] (\<lambda>_. 0) [] buf_0 hist_init (con_with (replicate CFG_CBSIZE 0x61 @ 0x0d # [])) = Undefined"
  by (rule full_line_overruns [OF _ hist_init_ok(1)])
    (simp_all add: buf_0_def con_with_def printable_def word_le_nat_alt)

theorem editor_invariant_witness:
  "case cread_line [] (\<lambda>_. 0) [] buf_0 hist_init (con_with [0x61, 0x1b, 0x5b]) of
      Waiting e \<Rightarrow> editor_ok e
    | Returned rc e \<Rightarrow> editor_ok e \<and> (rc = 0 \<and> ed_eol e < CFG_CBSIZE \<and> ed_buf e ! ed_eol e = 0 \<or> rc = - 1)
    | Undefined \<Rightarrow> \<exists>ks k rest e. con_in (con_with [0x61, 0x1b, 0x5b]) = ks @ k # rest \<and>
        key_loop [] (\<lambda>_. 0) [] ks (start buf_0 hist_init (con_with [0x61, 0x1b, 0x5b])) = Waiting e \<and>
        editor_ok e \<and> overruns [] (\<lambda>_. 0) [] k e"
  by (rule editor_invariant [OF _ hist_init_ok(2)]) (simp add: buf_0_def)

theorem readline_returns_witness:
  "\<exists>rc e. readline [] (\<lambda>_. 0) [] buf_0 None (con_with ([0x61, 0x1b, 0x5b, 0x41] @ 0x0d # [])) = Some (rc, e) \<and> - 1 \<le> rc \<and> rc < int CFG_CBSIZE"
  by (rule readline_returns [where ks = "[0x61, 0x1b, 0x5b, 0x41]" and nl = "0x0d" and rest = "[]"]) (simp_all add: buf_0_def con_with_def CFG_CBSIZE_def)

theorem history_recalls_witness:
  "walk [True, True, False, False] (entered [[0x61], [0x62]]) = walk_ref [True, True, False, False] (take (HIST_MAX - 1) (rev [[0x61], [0x62]])) 0"
  by (rule history_recalls) simp

end
