(* ===== verification/Net.thy ===== *)
theory Net
  imports Env
begin

text \<open>
  The sending half of \<open>net/net.c\<close>: the globals of the network stack, the addresses and their text
  form, the Internet checksum, the Ethernet, IP and UDP headers, ARP, and the timers. A frame is
  the list of its bytes; a transmitted frame is appended to \<open>eth_out\<close>, which stands for the
  driver behind \<open>eth_send\<close>. What the code prints is kept as the list of calls, the way they are made.
  Words of a packet are read and written as the little-endian target does, \<open>htons\<close> and \<open>htonl\<close> swap.
\<close>

section \<open>Words in packets\<close>

definition ntohs :: "u16 \<Rightarrow> u16" where
  "ntohs x = push_bit 8 x OR drop_bit 8 x"

abbreviation (input) htons :: "u16 \<Rightarrow> u16" where "htons \<equiv> ntohs"

text \<open>\<open>*(ushort *)p\<close> and the bytes it stores.\<close>

definition le16 :: "u8 list \<Rightarrow> nat \<Rightarrow> u16" where
  "le16 b i = ucast (b ! i) OR push_bit 8 (ucast (b ! (i + 1)))"

definition le16_bytes :: "u16 \<Rightarrow> u8 list" where
  "le16_bytes w = [ucast w, ucast (drop_bit 8 w)]"

definition poke :: "u8 list \<Rightarrow> nat \<Rightarrow> u8 \<Rightarrow> u8 list" where
  "poke b i x = blit b i [x]"

section \<open>Constants of \<open>net.h\<close> and \<open>net.c\<close>\<close>

definition ETHER_HDR_SIZE :: nat where "ETHER_HDR_SIZE = 14"
definition E802_HDR_SIZE :: nat where "E802_HDR_SIZE = 22"
definition VLAN_ETHER_HDR_SIZE :: nat where "VLAN_ETHER_HDR_SIZE = 18"
definition IP_HDR_SIZE :: nat where "IP_HDR_SIZE = 28"
definition IP_HDR_SIZE_NO_UDP :: nat where "IP_HDR_SIZE_NO_UDP = 20"
definition ARP_HDR_SIZE :: nat where "ARP_HDR_SIZE = 28"
definition PKTSIZE_ALIGN :: nat where "PKTSIZE_ALIGN = 1536"
definition PROT_IP :: u16 where "PROT_IP = 0x0800"
definition PROT_ARP :: u16 where "PROT_ARP = 0x0806"
definition PROT_RARP :: u16 where "PROT_RARP = 0x8035"
definition PROT_VLAN :: u16 where "PROT_VLAN = 0x8100"
definition VLAN_NONE :: u16 where "VLAN_NONE = 4095"
definition VLAN_IDMASK :: u16 where "VLAN_IDMASK = 0x0fff"
definition CFG_HZ :: u32 where "CFG_HZ = 1000"
definition ARP_TIMEOUT :: u32 where "ARP_TIMEOUT = 5"
definition ARP_TIMEOUT_COUNT :: int where "ARP_TIMEOUT_COUNT = 5"
definition NetBcastAddr :: "u8 list" where "NetBcastAddr = replicate 6 0xff"
definition NetEtherNullAddr :: "u8 list" where "NetEtherNullAddr = replicate 6 0"

section \<open>State\<close>

datatype netloop = NETLOOP_CONTINUE | NETLOOP_RESTART | NETLOOP_SUCCESS | NETLOOP_FAIL

text \<open>The functions that \<open>packetHandler\<close> and \<open>timeHandler\<close> are set to.\<close>

datatype rxhand = startAgainHandler | PingHandler | TftpHandler
datatype thand = startAgainTimeout | PingTimeout | TftpTimeout

text \<open>The arrays that pointers to a hardware address point to.\<close>

datatype mac_ptr = BcastPtr | ServerPtr | PingPtr

text \<open>A call of \<open>puts\<close> (of a literal or of a buffer), \<open>printf\<close> or \<open>print_size\<close>.\<close>

datatype print = Puts string | Puts_bytes "u8 list" | Printf string "varg list" | Print_size u32

definition nl :: string where "nl = [CHR 0x0A]"

record net =
  NetOurIP :: u32
  NetServerIP :: u32
  NetOurSubnetMask :: u32
  NetOurGatewayIP :: u32
  NetOurEther :: "u8 list"
  NetServerEther :: "u8 list"
  NetOurVLAN :: u16
  NetOurNativeVLAN :: u16
  NetIPID :: u32
  NetState :: netloop
  NetBootFileXferSize :: u32
  packetHandler :: "rxhand option"
  timeHandler :: "thand option"
  timeStart :: u32
  timeDelta :: u32
  NetTxPacket :: "u8 list"
  NetArpWaitPacketIP :: u32
  NetArpWaitReplyIP :: u32
  NetArpWaitPacketMAC :: "mac_ptr option"
  NetArpWaitTxPacket :: "u8 list"
  NetArpWaitTxPacketSize :: nat
  NetArpWaitTimerStart :: u32
  NetArpWaitTry :: int
  PingSeqNo :: u16
  NetPingIP :: u32
  ping_mac :: "u8 list"
  net_vars :: "u8 list \<Rightarrow> u8 list option"  \<comment> \<open>what \<open>getenv\<close> finds\<close>
  net_time :: u32                                      \<comment> \<open>\<open>get_timer(0)\<close>\<close>
  eth_out :: "u8 list list"
  eth_up :: bool
  printed :: "print list"

definition say :: "print \<Rightarrow> 'a net_scheme \<Rightarrow> 'a net_scheme" where
  "say m s = s\<lparr>printed := printed s @ [m]\<rparr>"

definition eth_send :: "u8 list \<Rightarrow> 'a net_scheme \<Rightarrow> 'a net_scheme" where
  "eth_send f s = s\<lparr>eth_out := eth_out s @ [f]\<rparr>"

definition eth_halt :: "'a net_scheme \<Rightarrow> 'a net_scheme" where
  "eth_halt s = s\<lparr>eth_up := False\<rparr>"

section \<open>Addresses as text\<close>

definition ip_to_string :: "u32 \<Rightarrow> (u8 list \<times> int \<times> (nat \<times> int) list) option" where
  "ip_to_string x =
     (let x = htonl x in
      vsprintf (ascii ''%d.%d.%d.%d'')
        [Word (drop_bit 24 x AND 0xff), Word (drop_bit 16 x AND 0xff),
         Word (drop_bit 8 x AND 0xff), Word (drop_bit 0 x AND 0xff)])"

definition string_to_ip :: "u8 list option \<Rightarrow> u32" where
  "string_to_ip so = (case so of None \<Rightarrow> 0 | Some s \<Rightarrow> htonl (ip_value s))"

definition VLAN_to_string :: "u16 \<Rightarrow> (u8 list \<times> int \<times> (nat \<times> int) list) option" where
  "VLAN_to_string x =
     (let x = ntohs x; x = (if x = - 1 then VLAN_NONE else x) in
      if x = VLAN_NONE then Some (ascii ''none'', 4, [])
      else vsprintf (ascii ''%d'') [Word (ucast (x AND VLAN_IDMASK))])"

definition string_to_VLAN :: "u8 list option \<Rightarrow> u16" where
  "string_to_VLAN so =
     (case so of None \<Rightarrow> htons VLAN_NONE
      | Some s \<Rightarrow> if deref s < 0x30 \<or> deref s > 0x39 then htons VLAN_NONE
                  else htons (ucast (fst (simple_strtoul s 10))))"

definition print_IPaddr :: "u32 \<Rightarrow> 'a net_scheme \<Rightarrow> 'a net_scheme" where
  "print_IPaddr x s = (case ip_to_string x of None \<Rightarrow> s | Some (t, _) \<Rightarrow> say (Puts_bytes t) s)"

definition getenv_IPaddr :: "string \<Rightarrow> 'a net_scheme \<Rightarrow> u32" where
  "getenv_IPaddr v s = string_to_ip (net_vars s (ascii v))"

definition getenv_VLAN :: "string \<Rightarrow> 'a net_scheme \<Rightarrow> u16" where
  "getenv_VLAN v s = string_to_VLAN (net_vars s (ascii v))"

section \<open>Checksum\<close>

text \<open>\<open>while (len-- > 0) xsum += *p++\<close>, then the two folds.\<close>

fun cksum_loop :: "u8 list \<Rightarrow> nat \<Rightarrow> nat \<Rightarrow> u32 \<Rightarrow> u32" where
  "cksum_loop b p 0 acc = acc"
| "cksum_loop b p (Suc len) acc = cksum_loop b (p + 2) len (acc + ucast (le16 b p))"

definition cksum_fold :: "u32 \<Rightarrow> u32" where
  "cksum_fold acc = (acc AND 0xffff) + drop_bit 16 acc"

definition NetCksum :: "u8 list \<Rightarrow> nat \<Rightarrow> nat \<Rightarrow> u32" where
  "NetCksum b p len = cksum_fold (cksum_fold (cksum_loop b p len 0)) AND 0xffff"

definition NetCksumOk :: "u8 list \<Rightarrow> nat \<Rightarrow> nat \<Rightarrow> bool" where
  "NetCksumOk b p len \<longleftrightarrow> (NetCksum b p len + 1) AND 0xfffe = 0"

section \<open>Headers\<close>

definition myvlanid :: "u16 \<Rightarrow> u16" where
  "myvlanid v = (let v = ntohs v in if v = - 1 then VLAN_NONE else v)"

definition NetEthHdrSize :: "'a net_scheme \<Rightarrow> nat" where
  "NetEthHdrSize s =
     (if myvlanid (NetOurVLAN s) AND VLAN_IDMASK = VLAN_NONE then ETHER_HDR_SIZE else VLAN_ETHER_HDR_SIZE)"

text \<open>The header is written at the start of the buffer; its length is returned.\<close>

definition NetSetEther :: "'a net_scheme \<Rightarrow> u8 list \<Rightarrow> u8 list \<Rightarrow> u16 \<Rightarrow> u8 list \<times> nat" where
  "NetSetEther s xet addr prot =
     (let v = myvlanid (NetOurVLAN s);
          xet = blit xet 0 addr;
          xet = blit xet 6 (NetOurEther s) in
      if v AND VLAN_IDMASK = VLAN_NONE
      then (blit xet 12 (le16_bytes (htons prot)), ETHER_HDR_SIZE)
      else (blit (blit (blit xet 12 (le16_bytes (htons PROT_VLAN)))
              14 (le16_bytes (htons (v AND VLAN_IDMASK))))
              16 (le16_bytes (htons prot)), VLAN_ETHER_HDR_SIZE))"

text \<open>The IP and UDP header at offset \<open>p\<close> of a buffer, first with a zero checksum.\<close>

definition udp_header :: "'a net_scheme \<Rightarrow> u32 \<Rightarrow> u16 \<Rightarrow> u16 \<Rightarrow> nat \<Rightarrow> u8 list" where
  "udp_header s dest dport sport len =
     [0x45, 0] @ le16_bytes (htons (word_of_nat (IP_HDR_SIZE + len)))
     @ le16_bytes (htons (ucast (NetIPID s))) @ le16_bytes (htons 0x4000) @ [255, 17] @ le16_bytes 0
     @ le32_bytes (NetOurIP s) @ le32_bytes dest
     @ le16_bytes (htons sport) @ le16_bytes (htons dport)
     @ le16_bytes (htons (word_of_nat (8 + len))) @ le16_bytes 0"

definition NetSetIP ::
    "u8 list \<Rightarrow> nat \<Rightarrow> u32 \<Rightarrow> u16 \<Rightarrow> u16 \<Rightarrow> nat \<Rightarrow> 'a net_scheme \<Rightarrow> u8 list \<times> 'a net_scheme" where
  "NetSetIP b p dest dport sport len s =
     (let b = (if odd len then poke b (p + IP_HDR_SIZE + len) 0 else b);
          b = blit b p (udp_header s dest dport sport len);
          s = s\<lparr>NetIPID := NetIPID s + 1\<rparr>;
          b = blit b (p + 10) (le16_bytes (NOT (ucast (NetCksum b p (IP_HDR_SIZE_NO_UDP div 2)))))
      in (b, s))"

section \<open>Timers and restarts\<close>

definition NetSetHandler :: "rxhand \<Rightarrow> 'a net_scheme \<Rightarrow> 'a net_scheme" where
  "NetSetHandler f s = s\<lparr>packetHandler := Some f\<rparr>"

definition NetSetTimeout :: "u32 \<Rightarrow> thand \<Rightarrow> 'a net_scheme \<Rightarrow> 'a net_scheme" where
  "NetSetTimeout iv f s =
     (if iv = 0 then s\<lparr>timeHandler := None\<rparr>
      else s\<lparr>timeHandler := Some f, timeStart := net_time s, timeDelta := iv\<rparr>)"

definition startAgainTimeout_run :: "'a net_scheme \<Rightarrow> 'a net_scheme" where
  "startAgainTimeout_run s = s\<lparr>NetState := NETLOOP_RESTART\<rparr>"

definition NetStartAgain :: "'a net_scheme \<Rightarrow> 'a net_scheme" where
  "NetStartAgain s =
     (if net_vars s (ascii ''netretry'') = Some (ascii ''no'')
      then (eth_halt s)\<lparr>NetState := NETLOOP_FAIL\<rparr>
      else NetSetHandler startAgainHandler (NetSetTimeout (10 * CFG_HZ) startAgainTimeout s))"

section \<open>ARP\<close>

definition mac_at :: "mac_ptr \<Rightarrow> 'a net_scheme \<Rightarrow> u8 list" where
  "mac_at p s = (case p of BcastPtr \<Rightarrow> NetBcastAddr | ServerPtr \<Rightarrow> NetServerEther s | PingPtr \<Rightarrow> ping_mac s)"

definition set_mac :: "mac_ptr \<Rightarrow> u8 list \<Rightarrow> 'a net_scheme \<Rightarrow> 'a net_scheme" where
  "set_mac p m s =
     (case p of BcastPtr \<Rightarrow> s | ServerPtr \<Rightarrow> s\<lparr>NetServerEther := m\<rparr> | PingPtr \<Rightarrow> s\<lparr>ping_mac := m\<rparr>)"

definition arp_request_body :: "'a net_scheme \<Rightarrow> u32 \<Rightarrow> u8 list" where
  "arp_request_body s reply =
     le16_bytes (htons 1) @ le16_bytes (htons PROT_IP) @ [6, 4] @ le16_bytes (htons 1)
     @ NetOurEther s @ le32_bytes (NetOurIP s) @ replicate 6 0 @ le32_bytes reply"

definition ArpRequest :: "'a net_scheme \<Rightarrow> 'a net_scheme" where
  "ArpRequest s =
     (let (b, n) = NetSetEther s (NetTxPacket s) NetBcastAddr PROT_ARP;
          far = NetArpWaitPacketIP s AND NetOurSubnetMask s \<noteq> NetOurIP s AND NetOurSubnetMask s;
          s = (if far \<and> NetOurGatewayIP s = 0 then say (Puts (''## Warning: gatewayip needed but not set'' @ nl)) s else s);
          s = s\<lparr>NetArpWaitReplyIP :=
                 (if far \<and> NetOurGatewayIP s \<noteq> 0 then NetOurGatewayIP s else NetArpWaitPacketIP s)\<rparr>;
          b = blit b n (arp_request_body s (NetArpWaitReplyIP s))
      in eth_send (take (n + ARP_HDR_SIZE) b) (s\<lparr>NetTxPacket := b\<rparr>))"

definition ArpTimeoutCheck :: "'a net_scheme \<Rightarrow> 'a net_scheme" where
  "ArpTimeoutCheck s =
     (if NetArpWaitPacketIP s = 0 then s
      else if net_time s - NetArpWaitTimerStart s > ARP_TIMEOUT * CFG_HZ then
        let s = s\<lparr>NetArpWaitTry := NetArpWaitTry s + 1\<rparr> in
        if NetArpWaitTry s \<ge> ARP_TIMEOUT_COUNT
        then NetStartAgain ((say (Puts (nl @ ''ARP Retry count exceeded; starting again'' @ nl)) s)\<lparr>NetArpWaitTry := 0\<rparr>)
        else ArpRequest (s\<lparr>NetArpWaitTimerStart := net_time s\<rparr>)
      else s)"

section \<open>Sending\<close>

text \<open>
  The payload stands in \<open>NetTxPacket\<close> behind the room for the headers. A frame whose hardware
  address is not known yet is built in \<open>NetArpWaitTxPacket\<close> and parked until the ARP reply.
\<close>

definition NetSendUDPPacket :: "mac_ptr \<Rightarrow> u32 \<Rightarrow> u16 \<Rightarrow> u16 \<Rightarrow> nat \<Rightarrow> 'a net_scheme \<Rightarrow> int \<times> 'a net_scheme" where
  "NetSendUDPPacket ether dest dport sport len s =
     (let dest = (if dest = 0 then 0xFFFFFFFF else dest);
          ether = (if dest = 0xFFFFFFFF then BcastPtr else ether) in
      if mac_at ether s = NetEtherNullAddr then
        let s = s\<lparr>NetArpWaitPacketIP := dest, NetArpWaitPacketMAC := Some ether\<rparr>;
            (b, n) = NetSetEther s (NetArpWaitTxPacket s) (mac_at ether s) PROT_IP;
            (b, s) = NetSetIP b n dest dport sport len s;
            b = blit b (n + IP_HDR_SIZE) (take len (drop (n + IP_HDR_SIZE) (NetTxPacket s)));
            s = s\<lparr>NetArpWaitTxPacket := b, NetArpWaitTxPacketSize := n + IP_HDR_SIZE + len,
                  NetArpWaitTry := 1, NetArpWaitTimerStart := net_time s\<rparr>
        in (1, ArpRequest s)
      else
        let (b, n) = NetSetEther s (NetTxPacket s) (mac_at ether s) PROT_IP;
            (b, s) = NetSetIP b n dest dport sport len s
        in (0, eth_send (take (n + IP_HDR_SIZE + len) b) (s\<lparr>NetTxPacket := b\<rparr>)))"

section \<open>Ping\<close>

definition icmp_echo :: "u16 \<Rightarrow> u8 list" where
  "icmp_echo seqno =
     (let m = le16_bytes (htons 0x0800) @ le16_bytes 0 @ le16_bytes 0 @ le16_bytes (htons seqno)
      in blit m 2 (le16_bytes (NOT (ucast (NetCksum m 0 4)))))"

definition ping_header :: "'a net_scheme \<Rightarrow> u8 list" where
  "ping_header s =
     (let h = [0x45, 0] @ le16_bytes (htons (word_of_nat (IP_HDR_SIZE_NO_UDP + 8)))
            @ le16_bytes (htons (ucast (NetIPID s))) @ le16_bytes (htons 0x4000) @ [255, 1] @ le16_bytes 0
            @ le32_bytes (NetOurIP s) @ le32_bytes (NetPingIP s)
      in blit h 10 (le16_bytes (NOT (ucast (NetCksum h 0 (IP_HDR_SIZE_NO_UDP div 2))))))"

definition PingSend :: "'a net_scheme \<Rightarrow> 'a net_scheme" where
  "PingSend s =
     (let s = s\<lparr>ping_mac := NetEtherNullAddr, NetArpWaitPacketIP := NetPingIP s,
                NetArpWaitPacketMAC := Some PingPtr\<rparr>;
          (b, n) = NetSetEther s (NetArpWaitTxPacket s) (ping_mac s) PROT_IP;
          b = blit b n (ping_header s);
          s = s\<lparr>NetIPID := NetIPID s + 1\<rparr>;
          b = blit b (n + IP_HDR_SIZE_NO_UDP) (icmp_echo (PingSeqNo s));
          s = s\<lparr>PingSeqNo := PingSeqNo s + 1, NetArpWaitTxPacket := b,
                NetArpWaitTxPacketSize := n + IP_HDR_SIZE_NO_UDP + 8,
                NetArpWaitTry := 1, NetArpWaitTimerStart := net_time s\<rparr>
      in ArpRequest s)"

definition PingTimeout_run :: "'a net_scheme \<Rightarrow> 'a net_scheme" where
  "PingTimeout_run s = (eth_halt s)\<lparr>NetState := NETLOOP_FAIL\<rparr>"

text \<open>
  A packet handler gets the bytes from its pointer to the end of the receive buffer, none for the
  null pointer. A load outside of them is undefined: \<open>None\<close>.
\<close>

definition PingHandler_run :: "u8 list \<Rightarrow> 'a net_scheme \<Rightarrow> 'a net_scheme option" where
  "PingHandler_run ip s =
     (if length ip < 16 then None
      else if le32 ip 12 \<noteq> NetPingIP s then Some s
      else Some (s\<lparr>NetState := NETLOOP_SUCCESS\<rparr>))"

definition PingStart :: "'a net_scheme \<Rightarrow> 'a net_scheme" where
  "PingStart s = PingSend (NetSetHandler PingHandler (NetSetTimeout (10 * CFG_HZ) PingTimeout s))"

section \<open>The ones' complement sum\<close>

text \<open>The sum of the 16-bit words of a buffer, without overflow.\<close>

definition word_sum :: "u8 list \<Rightarrow> nat \<Rightarrow> nat \<Rightarrow> nat" where
  "word_sum b p n = (\<Sum>i<n. unat (le16 b (p + 2 * i)))"

lemma unat_less_u16 [simp]: "unat (x :: u16) < 65536"
  using unsigned_less [of x] by simp

lemma word_sum_Suc: "word_sum b p (Suc n) = unat (le16 b p) + word_sum b (p + 2) n"
  unfolding word_sum_def by (simp add: sum.lessThan_Suc_shift algebra_simps del: sum.lessThan_Suc)

lemma word_sum_bound: "word_sum b p n \<le> n * 65535"
proof (induction n arbitrary: p)
  case (Suc n)
  from Suc.IH [of "p + 2"] unat_less_u16 [of "le16 b p"] show ?case
    unfolding word_sum_Suc mult_Suc by linarith
qed (simp add: word_sum_def)

lemma unat_cksum_loop:
  "unat acc + word_sum b p n < 2 ^ 32 \<Longrightarrow> unat (cksum_loop b p n acc) = unat acc + word_sum b p n"
proof (induction n arbitrary: p acc)
  case 0
  then show ?case by (simp add: word_sum_def)
next
  case (Suc n)
  have u: "unat (ucast (le16 b p) :: u32) = unat (le16 b p)"
    by (simp only: unsigned_ucast_eq) (simp add: take_bit_nat_eq_self_iff less_trans [OF unat_less_u16])
  from Suc.prems have "unat acc + unat (le16 b p) < 2 ^ 32" unfolding word_sum_Suc by simp
  then have "unat (acc + ucast (le16 b p)) = unat acc + unat (le16 b p)"
    by (simp add: unat_word_ariths u)
  with Suc.IH [of "acc + ucast (le16 b p)" "p + 2"] Suc.prems show ?case
    by (simp add: word_sum_Suc)
qed

lemma and_ffff: "(x :: u32) AND 0xffff = take_bit 16 x"
  by (simp add: take_bit_eq_mask mask_eq_exp_minus_1)

lemma unat_cksum_fold: "unat (cksum_fold x) = unat x mod 65536 + unat x div 65536"
proof -
  have a: "unat (x AND 0xffff) = unat x mod 65536"
    unfolding and_ffff unsigned_take_bit_eq by (simp only: take_bit_eq_mod) simp
  have d: "unat (drop_bit 16 x) = unat x div 65536" by (simp only: unat_drop_bit_eq) (simp add: drop_bit_eq_div)
  have "unat x < 2 ^ 32" using unsigned_less [of x] by simp
  then have "unat x mod 65536 + unat x div 65536 < 2 ^ 32" by (simp add: less_mult_imp_div_less)
  then show ?thesis unfolding cksum_fold_def by (simp add: unat_word_ariths a d)
qed

lemma fold16_mod: "(x mod 65536 + x div 65536) mod 65535 = x mod (65535 :: nat)"
proof -
  have "x = 65535 * (x div 65536) + (x mod 65536 + x div 65536)"
    using div_mult_mod_eq [of x 65536] by simp
  then show ?thesis by (metis mod_mult_self4 mult.commute)
qed

lemma fold16_eq_0: "x mod 65536 + x div 65536 = 0 \<longleftrightarrow> x = (0 :: nat)"
  using div_mult_mod_eq [of x 65536] by (metis add_eq_0_iff_both_eq_0 div_0 mod_0 mult_zero_left)

text \<open>The folded sum: the residue modulo 65535, written 65535 rather than 0 for a sum that is not 0.\<close>

definition ones_sum :: "nat \<Rightarrow> nat" where
  "ones_sum x = (if x = 0 then 0 else if x mod 65535 = 0 then 65535 else x mod 65535)"

lemma ones_sum_le: "ones_sum x \<le> 65535"
  unfolding ones_sum_def using mod_less_divisor [of 65535 x] by (simp add: less_imp_le)

lemma ones_sum_eq: "ones_sum x = 0 \<or> ones_sum x = 65535 \<longleftrightarrow> x mod 65535 = 0"
  unfolding ones_sum_def using mod_less_divisor [of 65535 x] by (cases "x = 0") (simp_all add: less_imp_neq)

lemma fold_twice:
  assumes "x < 2 ^ 32"
  defines "y \<equiv> x mod 65536 + x div 65536"
  shows "y mod 65536 + y div 65536 = ones_sum x"
proof -
  let ?z = "y mod 65536 + y div 65536"
  have y: "y \<le> 2 * 65535" unfolding y_def using assms(1) by (simp add: less_mult_imp_div_less)
  have z: "?z \<le> 65535"
  proof (cases "y < 65536")
    case False
    with y have "y div 65536 = 1" "y mod 65536 = y - 65536" by (simp_all add: div_nat_eqI mod_if)
    with y show ?thesis by simp
  qed simp
  have zm: "?z mod 65535 = x mod 65535" unfolding y_def by (simp only: fold16_mod)
  have z0: "?z = 0 \<longleftrightarrow> x = 0" unfolding y_def by (simp only: fold16_eq_0)
  show ?thesis
  proof (cases "x mod 65535 = 0")
    case True
    with zm z have "?z = 0 \<or> ?z = 65535" by (cases "?z = 65535") auto
    with z0 True show ?thesis by (auto simp: ones_sum_def)
  next
    case False
    with zm z have "?z < 65535" by (cases "?z = 65535") auto
    with zm False z0 show ?thesis by (auto simp: ones_sum_def)
  qed
qed

lemma unat_NetCksum:
  assumes "n \<le> 65536"
  shows "unat (NetCksum b p n) = ones_sum (word_sum b p n)"
proof -
  have lt: "word_sum b p n < 2 ^ 32" using word_sum_bound [of b p n] assms by simp
  let ?c = "cksum_loop b p n 0"
  have c: "unat ?c = word_sum b p n" using unat_cksum_loop [of 0 b p n] lt by simp
  have f: "unat (cksum_fold (cksum_fold ?c)) = ones_sum (word_sum b p n)"
    unfolding unat_cksum_fold c by (rule fold_twice [OF lt])
  have lt16: "ones_sum (word_sum b p n) < 2 ^ 16"
    using ones_sum_le [of "word_sum b p n"] by simp
  show ?thesis unfolding NetCksum_def and_ffff unsigned_take_bit_eq f
    by (rule take_bit_nat_eq_self [OF lt16])
qed

lemma and_fffe: "(x :: u32) AND 0xfffe = push_bit 1 (take_bit 15 (drop_bit 1 x))"
proof -
  have c: "(0xfffe :: u32) = push_bit 1 (mask 15)" by (simp add: mask_eq_exp_minus_1)
  show ?thesis unfolding c
  proof (rule bit_word_eqI)
    fix n :: nat assume "n < LENGTH(32)"
    then show "bit (x AND push_bit 1 (mask 15)) n = bit (push_bit 1 (take_bit 15 (drop_bit 1 x))) n"
      by (cases n) (simp_all only: bit_simps, auto)
  qed
qed

lemma and_fffe_eq_0:
  assumes "unat (x :: u32) < 131072"
  shows "x AND 0xfffe = 0 \<longleftrightarrow> (unat x div 2) mod 32768 = 0"
proof -
  let ?y = "take_bit 15 (drop_bit 1 x)"
  have y: "unat ?y = (unat x div 2) mod 32768"
    by (simp only: unsigned_take_bit_eq unat_drop_bit_eq) (simp add: take_bit_eq_mod drop_bit_eq_div)
  then have "unat ?y < 32768" by simp
  then have "unat (push_bit 1 ?y) = 2 * unat ?y" by (simp add: unat_word_ariths)
  then show ?thesis unfolding and_fffe unat_eq_zero [symmetric] y [symmetric] by simp
qed

lemma NetCksumOk_iff:
  assumes "n \<le> 65536"
  shows "NetCksumOk b p n \<longleftrightarrow> word_sum b p n mod 65535 = 0"
proof -
  let ?c = "unat (NetCksum b p n)"
  have c: "?c = ones_sum (word_sum b p n)" by (rule unat_NetCksum [OF assms])
  also have "\<dots> \<le> 65535" by (rule ones_sum_le)
  finally have le: "?c \<le> 65535" .
  then have u: "unat (NetCksum b p n + 1) = ?c + 1" by (simp add: unat_word_ariths)
  have "(?c + 1) div 2 \<le> 32768" using le by simp
  then have "((?c + 1) div 2) mod 32768 = 0 \<longleftrightarrow> (?c + 1) div 2 = 0 \<or> (?c + 1) div 2 = 32768"
    by (cases "(?c + 1) div 2 < 32768") auto
  also have "\<dots> \<longleftrightarrow> ?c = 0 \<or> ?c = 65535" using le by linarith
  also have "\<dots> \<longleftrightarrow> word_sum b p n mod 65535 = 0"
    unfolding c by (rule ones_sum_eq)
  finally show ?thesis unfolding NetCksumOk_def using le by (simp add: and_fffe_eq_0 u)
qed

section \<open>Storing a checksum\<close>

lemma length_le16_bytes [simp]: "length (le16_bytes w) = 2"
  by (simp add: le16_bytes_def)

lemma le16_of_bytes:
  assumes "b ! i = ucast w" "b ! (i + 1) = ucast (drop_bit 8 w)"
  shows "le16 b i = (w :: u16)"
proof (rule bit_word_eqI)
  fix n assume n: "n < LENGTH(16)"
  then show "bit (le16 b i) n = bit w n"
    unfolding le16_def assms by (cases "n < 8") (auto simp: bit_simps)
qed

lemma le16_cong: "b ! i = c ! j \<Longrightarrow> b ! (i + 1) = c ! (j + 1) \<Longrightarrow> le16 b i = le16 c j"
  by (simp add: le16_def)

lemma le16_blit_same: "i + 2 \<le> length b \<Longrightarrow> le16 (blit b i (le16_bytes w)) i = w"
  by (rule le16_of_bytes) (simp_all add: nth_blit le16_bytes_def)

lemma le16_blit_other:
  assumes "off + length xs \<le> length b" "i + 2 \<le> length b" "i + 2 \<le> off \<or> off + length xs \<le> i"
  shows "le16 (blit b off xs) i = le16 b i"
  using assms by (intro le16_cong) (auto simp: nth_blit)

lemma word_sum_update:
  assumes "k < n" "\<And>i. i < n \<Longrightarrow> i \<noteq> k \<Longrightarrow> le16 b' (p + 2 * i) = le16 b (p + 2 * i)"
  shows "word_sum b' p n + unat (le16 b (p + 2 * k)) = word_sum b p n + unat (le16 b' (p + 2 * k))"
proof -
  have s: "word_sum c p n = unat (le16 c (p + 2 * k)) + (\<Sum>i \<in> {..<n} - {k}. unat (le16 c (p + 2 * i)))" for c
    unfolding word_sum_def using assms(1) by (simp add: sum.remove)
  have "(\<Sum>i \<in> {..<n} - {k}. unat (le16 b' (p + 2 * i))) = (\<Sum>i \<in> {..<n} - {k}. unat (le16 b (p + 2 * i)))"
    using assms(2) by (intro sum.cong) auto
  then show ?thesis using s [of b] s [of b'] by simp
qed

lemma unat_NOT_u16: "unat (NOT w :: u16) = 65535 - unat w"
proof -
  have "NOT w = - 1 - w" by (simp add: not_eq_complement)
  moreover have "unat (- 1 - w) = unat (- 1 :: u16) - unat w" by (rule unat_sub) simp
  moreover have "unat (- 1 :: u16) = 65535" by (simp add: unsigned_minus_1_eq_mask mask_eq_exp_minus_1)
  ultimately show ?thesis by simp
qed

lemma ones_sum_complement: "(S + (65535 - ones_sum S)) mod 65535 = 0"
proof -
  have "ones_sum S mod 65535 = S mod 65535" unfolding ones_sum_def by simp
  then have "(S + (65535 - ones_sum S)) mod 65535 = (ones_sum S + (65535 - ones_sum S)) mod 65535"
    by (metis mod_add_left_eq)
  also have "ones_sum S + (65535 - ones_sum S) = 65535" using ones_sum_le [of S] by simp
  finally show ?thesis by simp
qed

definition cksum_field :: "u8 list \<Rightarrow> nat \<Rightarrow> nat \<Rightarrow> u16" where
  "cksum_field b p n = NOT (ucast (NetCksum b p n))"

lemma NetCksumOk_filled:
  assumes "n \<le> 65536" "k < n" "p + 2 * n \<le> length b" "le16 b (p + 2 * k) = 0"
  shows "NetCksumOk (blit b (p + 2 * k) (le16_bytes (cksum_field b p n))) p n"
proof -
  let ?b' = "blit b (p + 2 * k) (le16_bytes (cksum_field b p n))"
  have w: "le16 ?b' (p + 2 * k) = cksum_field b p n" using assms by (intro le16_blit_same) simp
  have "le16 ?b' (p + 2 * i) = le16 b (p + 2 * i)" if "i < n" "i \<noteq> k" for i
    using that assms by (intro le16_blit_other) auto
  from word_sum_update [OF assms(2) this] have s: "word_sum ?b' p n = word_sum b p n + unat (cksum_field b p n)"
    by (simp add: w assms(4))
  have "unat (ucast (NetCksum b p n) :: u16) = ones_sum (word_sum b p n)"
    using ones_sum_le [of "word_sum b p n"]
    by (simp only: unsigned_ucast_eq unat_NetCksum [OF assms(1)]) (simp add: take_bit_nat_eq_self)
  then have "unat (cksum_field b p n) = 65535 - ones_sum (word_sum b p n)"
    by (simp add: cksum_field_def unat_NOT_u16)
  then show ?thesis
    unfolding NetCksumOk_iff [OF assms(1)] s by (simp only: ones_sum_complement)
qed

text \<open>A checksum that holds fails once one of the words it covers changes, all zeros and all ones being one value.\<close>

lemma NetCksumOk_changed:
  assumes n: "n \<le> 65536" and k: "k < n" and ok: "NetCksumOk b p n"
    and same: "\<And>i. i < n \<Longrightarrow> i \<noteq> k \<Longrightarrow> le16 b' (p + 2 * i) = le16 b (p + 2 * i)"
    and new: "unat (le16 b' (p + 2 * k)) mod 65535 \<noteq> unat (le16 b (p + 2 * k)) mod 65535"
  shows "\<not> NetCksumOk b' p n"
proof
  assume ok': "NetCksumOk b' p n"
  from ok ok' have m: "word_sum b p n mod 65535 = 0" "word_sum b' p n mod 65535 = 0"
    by (simp_all add: NetCksumOk_iff [OF n])
  have "(word_sum b' p n + unat (le16 b (p + 2 * k))) mod 65535 = unat (le16 b (p + 2 * k)) mod 65535"
    using m(2) by (metis add_0 mod_add_left_eq)
  moreover have "(word_sum b p n + unat (le16 b' (p + 2 * k))) mod 65535 = unat (le16 b' (p + 2 * k)) mod 65535"
    using m(1) by (metis add_0 mod_add_left_eq)
  ultimately show False using word_sum_update [OF k same] new by simp
qed

lemma blit_blit_inside:
  "k + length ys \<le> length xs \<Longrightarrow> p + length xs \<le> length b \<Longrightarrow> blit (blit b p xs) (p + k) ys = blit b p (blit xs k ys)"
  by (rule nth_equalityI) (auto simp: nth_blit)

section \<open>The headers that are sent\<close>

text \<open>The IP and UDP header with its checksum.\<close>

definition ip_header :: "'a net_scheme \<Rightarrow> u32 \<Rightarrow> u16 \<Rightarrow> u16 \<Rightarrow> nat \<Rightarrow> u8 list" where
  "ip_header s dest dport sport len =
     (let h = udp_header s dest dport sport len in blit h 10 (le16_bytes (cksum_field h 0 10)))"

lemma length_udp_header [simp]: "length (udp_header s dest dport sport len) = 28"
  by (simp add: udp_header_def)

lemma length_ip_header [simp]: "length (ip_header s dest dport sport len) = 28"
  by (simp add: ip_header_def Let_def)

lemma cksum_loop_cong:
  "(\<And>i. i < 2 * n \<Longrightarrow> b ! (p + i) = c ! (q + i)) \<Longrightarrow> cksum_loop b p n acc = cksum_loop c q n acc"
proof (induction n arbitrary: p q acc)
  case (Suc n)
  from Suc.prems [of 0] Suc.prems [of 1] have "le16 b p = le16 c q" by (intro le16_cong) simp_all
  moreover have "b ! ((p + 2) + i) = c ! ((q + 2) + i)" if "i < 2 * n" for i
    using Suc.prems [of "2 + i"] that by (simp add: add.assoc)
  ultimately show ?case using Suc.IH [of "p + 2" "q + 2"] by simp
qed simp

lemma cksum_field_cong:
  "(\<And>i. i < 2 * n \<Longrightarrow> b ! (p + i) = c ! (q + i)) \<Longrightarrow> cksum_field b p n = cksum_field c q n"
  unfolding cksum_field_def NetCksum_def by (simp add: cksum_loop_cong [of n b p c q])

lemma NetCksumOk_cong:
  "(\<And>i. i < 2 * n \<Longrightarrow> b ! (p + i) = c ! (q + i)) \<Longrightarrow> NetCksumOk b p n = NetCksumOk c q n"
  unfolding NetCksumOk_def NetCksum_def by (simp add: cksum_loop_cong [of n b p c q])

lemma NetSetIP_header:
  assumes "p + 28 + len + len mod 2 \<le> length b"
  shows "NetSetIP b p dest dport sport len s =
    (blit (if odd len then poke b (p + 28 + len) 0 else b) p (ip_header s dest dport sport len),
     s\<lparr>NetIPID := NetIPID s + 1\<rparr>)"
proof -
  let ?b = "if odd len then poke b (p + 28 + len) 0 else b"
  let ?h = "udp_header s dest dport sport len"
  have l: "length ?b = length b" using assms by (auto simp: poke_def odd_iff_mod_2_eq_one)
  have c: "cksum_field (blit ?b p ?h) p 10 = cksum_field ?h 0 10"
    by (rule cksum_field_cong) (use assms l in \<open>simp add: nth_blit\<close>)
  have "blit (blit ?b p ?h) (p + 10) (le16_bytes (cksum_field ?h 0 10)) = blit ?b p (ip_header s dest dport sport len)"
    unfolding ip_header_def Let_def by (rule blit_blit_inside) (use assms l in simp_all)
  then show ?thesis
    unfolding NetSetIP_def Let_def IP_HDR_SIZE_def IP_HDR_SIZE_NO_UDP_def
    using c by (simp add: cksum_field_def)
qed

lemma ip_header_ok: "NetCksumOk (ip_header s dest dport sport len) 0 10"
proof -
  have z: "le16 (udp_header s dest dport sport len) (0 + 2 * 5) = 0"
    by (simp add: udp_header_def le16_def le16_bytes_def)
  show ?thesis using NetCksumOk_filled [OF _ _ _ z] by (simp add: ip_header_def Let_def)
qed

lemma ip_header_nth:
  "i < 28 \<Longrightarrow> i \<noteq> 10 \<Longrightarrow> i \<noteq> 11 \<Longrightarrow> ip_header s dest dport sport len ! i = udp_header s dest dport sport len ! i"
  by (auto simp: ip_header_def Let_def nth_blit)

lemma NetSetIP_ok:
  assumes "p + 28 + len + len mod 2 \<le> length b" and "NetSetIP b p dest dport sport len s = (b', s')"
  shows "NetCksumOk b' p 10 \<and> length b' = length b"
proof -
  let ?b = "if odd len then poke b (p + 28 + len) 0 else b"
  have l: "length ?b = length b" using assms by (auto simp: poke_def odd_iff_mod_2_eq_one)
  have b': "b' = blit ?b p (ip_header s dest dport sport len)"
    using assms(2) unfolding NetSetIP_header [OF assms(1)] by simp
  have "NetCksumOk b' p 10 = NetCksumOk (ip_header s dest dport sport len) 0 10"
    by (rule NetCksumOk_cong) (use assms(1) l b' in \<open>simp add: nth_blit\<close>)
  with ip_header_ok assms(1) l show ?thesis by (simp add: b')
qed

text \<open>C34: The header \<open>NetSetIP\<close> writes passes \<open>NetCksumOk\<close> for every address, port, length and packet number, and no longer does so once any one of its 16-bit words is replaced (all zeros and all ones being the same to the ones' complement sum).\<close>

theorem NetSetIP_checksum:
  assumes fits: "p + 28 + len + len mod 2 \<le> length b"
    and run: "NetSetIP b p dest dport sport len s = (b', s')"
  shows "NetCksumOk b' p 10 \<and>
    (\<forall>k<10. \<forall>w. unat (w :: u16) mod 65535 \<noteq> unat (le16 b' (p + 2 * k)) mod 65535 \<longrightarrow>
       \<not> NetCksumOk (blit b' (p + 2 * k) (le16_bytes w)) p 10)"
proof (intro conjI allI impI)
  note ok = NetSetIP_ok [OF fits run]
  then show "NetCksumOk b' p 10" ..
  fix k and w :: u16 assume k: "k < 10" and w: "unat w mod 65535 \<noteq> unat (le16 b' (p + 2 * k)) mod 65535"
  show "\<not> NetCksumOk (blit b' (p + 2 * k) (le16_bytes w)) p 10"
    using ok fits k w
    by (intro NetCksumOk_changed [OF _ k, of b']) (auto intro!: le16_blit_other simp: le16_blit_same)
qed

section \<open>Addresses as text\<close>

definition dec :: "u32 \<Rightarrow> u8 list" where
  "dec n = (if n = 0 then [0x30] else rev (digit_loop lower_digits 10 n))"

lemma number_int:
  "0 \<le> sint n \<Longrightarrow> number n 10 (- 1) (- 1) SIGN = Some (dec n)"
  by (simp add: number_def has_def pad_loop_def Let_def dec_def)

lemma conversion_d:
  "0 \<le> sint w \<Longrightarrow> conversion (0x64 # fmt) (Word w # args) n = Some (dec w, [], fmt, args)"
  by (simp add: conversion_def read_width_def read_precision_def is_digit_def convert_def int_format_def
      int_arg_def number_int)

lemma strtoul_dec:
  assumes "rest = [] \<or> \<not> isxdigit (hd rest) \<and> hd rest \<noteq> 0x78"
  shows "simple_strtoul (dec n @ rest) 10 = (n, rest)"
proof -
  have v: "\<forall>d \<in> set (dec n). is_digit_of 10 d" "digits_value 10 (dec n) 0 = n"
    using digit_loop_digits [of 10 n] lower_digit [of 0]
    by (auto simp: dec_def digits_value_def is_digit_of_def lower_digits_def ascii_def)
  have "rest = [] \<or> \<not> is_digit_of 10 (hd rest)" using assms by (auto simp: is_digit_of_def)
  from strtoul_loop_digits [OF v(1) this, of 0] v(2) have "strtoul_loop (dec n @ rest) 10 0 = (n, rest)" by simp
  moreover have "deref (dec n @ rest) \<noteq> 0x30" if "n \<noteq> 0"
  proof -
    from that digit_loop_digits [of 10 n]
    have "digit_loop lower_digits 10 n \<noteq> []" "last (digit_loop lower_digits 10 n) \<noteq> 0x30" by auto
    with that show ?thesis
      by (cases "digit_loop lower_digits 10 n" rule: rev_cases) (simp_all add: dec_def)
  qed
  moreover have "simple_strtoul (0x30 # rest) 10 = (0, rest)"
    using assms by (cases rest) (auto simp: simple_strtoul_def)
  ultimately show ?thesis by (cases "n = 0") (simp_all add: simple_strtoul_def dec_def)
qed

lemma length_digit_loop_base:
  "unat num < unat base ^ k \<Longrightarrow> length (digit_loop digits base num) \<le> k"
proof (induction digits base num arbitrary: k rule: digit_loop.induct)
  case (1 digits base num)
  show ?case
  proof (cases "num = 0 \<or> base < 2")
    case True
    then show ?thesis by (subst digit_loop.simps) simp
  next
    case False
    then have b: "0 < unat base" and n: "0 < unat num" by (auto simp: word_le_nat_alt unat_gt_0 not_less)
    obtain j where k: "k = Suc j" using 1(2) n by (cases k) auto
    have "unat (num div base) < unat base ^ j"
      using 1(2) b unfolding k unat_div by (simp add: less_mult_imp_div_less mult.commute)
    from 1(1) [OF False this] False k show ?thesis by (subst digit_loop.simps) simp
  qed
qed

lemma length_dec: "n < 256 \<Longrightarrow> length (dec n) \<le> 3"
  using length_digit_loop_base [of n 10 3] by (simp add: dec_def word_less_nat_alt)

text \<open>The four octets of an address, most significant first.\<close>

definition octet :: "u32 \<Rightarrow> nat \<Rightarrow> u32" where
  "octet x i = drop_bit (8 * (3 - i)) (htonl x) AND 0xff"

lemma octet_less: "octet x i < 256"
proof -
  have "octet x i \<le> 0xff" unfolding octet_def by (rule word_and_le1)
  then show ?thesis by (simp add: word_less_nat_alt word_le_nat_alt)
qed

lemma sint_octet_small: "w < 256 \<Longrightarrow> 0 \<le> sint (w :: u32)"
proof -
  assume "w < 256"
  then have "uint w < 256" "0 \<le> uint w" by (simp_all add: word_less_def)
  then have "signed_take_bit 31 (uint w) = uint w" by (intro signed_take_bit_int_eq_self order_trans [OF _ \<open>0 \<le> uint w\<close>]) simp_all
  then have "sint w = uint w" by (simp add: sint_uint)
  then show "0 \<le> sint w" by simp
qed

lemmas sint_octet = sint_octet_small [OF octet_less]

definition dotted :: "u32 \<Rightarrow> u8 list" where
  "dotted x = dec (octet x 0) @ 0x2e # dec (octet x 1) @ 0x2e # dec (octet x 2) @ 0x2e # dec (octet x 3)"

lemma ip_to_string_dotted: "ip_to_string x = Some (dotted x, int (length (dotted x)), [])"
proof -
  have f: "ascii ''%d.%d.%d.%d'' = [0x25, 0x64, 0x2e, 0x25, 0x64, 0x2e, 0x25, 0x64, 0x2e, 0x25, 0x64]"
    by (simp add: ascii_def)
  have a: "[Word (drop_bit 24 y AND 0xff), Word (drop_bit 16 y AND 0xff), Word (drop_bit 8 y AND 0xff),
      Word (drop_bit 0 y AND 0xff)] = map (\<lambda>i. Word (octet x i)) [0, 1, 2, 3]" if "y = htonl x" for y
    unfolding that octet_def by (simp only: list.map) simp
  show ?thesis
    unfolding ip_to_string_def Let_def a [OF refl] f vsprintf_def
    by (simp add: conversion_d sint_octet dotted_def del: map_eq_Cons_conv)
qed

lemma numbers_dec:
  "numbers (Suc k) 10 (dec v @ 0x2e # rest) = v # numbers k 10 rest" "numbers (Suc 0) 10 (dec v) = [v]"
  using strtoul_dec [of "0x2e # rest" v] strtoul_dec [of "[]" v]
  by (simp_all add: ctype_preds in_range_def Let_def)

lemma and_ff: "(x :: u32) AND 0xff = take_bit 8 x"
  by (simp add: take_bit_eq_mask mask_eq_exp_minus_1)

lemma byte_of_htonl:
  assumes "i < 4"
  shows "byte_of (htonl w) i = byte_of w (3 - i)"
proof (rule bit_word_eqI)
  fix n assume n: "n < LENGTH(8)"
  have m: "(0xff :: u32) = mask 8" "(0xff00 :: u32) = push_bit 8 (mask 8)" "(0xff0000 :: u32) = push_bit 16 (mask 8)"
    by (simp_all add: mask_eq_exp_minus_1)
  from assms consider "i = 0" | "i = 1" | "i = 2" | "i = 3" by linarith
  then show "bit (byte_of (htonl w) i) n = bit (byte_of w (3 - i)) n"
    using n unfolding htonl_def byte_of_def m
    by cases (auto simp: bit_simps dest: bit_imp_le_length)
qed

lemma htonl_htonl: "htonl (htonl x) = x"
  by (rule word32_eq_bytes) (simp add: byte_of_htonl)

lemma word32_octets:
  "push_bit 24 (drop_bit 24 w AND 0xff) OR push_bit 16 (drop_bit 16 w AND 0xff) OR
   push_bit 8 (drop_bit 8 w AND 0xff) OR drop_bit 0 w AND 0xff = (w :: u32)"
proof (rule bit_word_eqI)
  fix n assume n: "n < LENGTH(32)"
  then have "n < 8 \<or> 8 \<le> n \<and> n < 16 \<or> 16 \<le> n \<and> n < 24 \<or> 24 \<le> n \<and> n < 32" by auto
  then show "bit (push_bit 24 (drop_bit 24 w AND 0xff) OR push_bit 16 (drop_bit 16 w AND 0xff) OR
   push_bit 8 (drop_bit 8 w AND 0xff) OR drop_bit 0 w AND 0xff) n = bit w n"
    unfolding and_ff by (elim disjE) (auto simp: bit_simps)
qed

lemma ip_value_dotted: "ip_value (dotted x) = htonl x"
proof -
  have four: "4 = Suc (Suc (Suc (Suc 0)))" by simp
  have n: "numbers 4 10 (dotted x) = [octet x 0, octet x 1, octet x 2, octet x 3]"
    unfolding dotted_def four by (simp only: numbers_dec)
  have "ip_value (dotted x) =
      push_bit 24 (octet x 0) OR push_bit 16 (octet x 1) OR push_bit 8 (octet x 2) OR octet x 3"
    unfolding ip_value_def n by (simp add: octet_def push_bit_or push_bit_push_bit or.assoc)
  also have "\<dots> = htonl x" unfolding octet_def using word32_octets [of "htonl x"] by simp
  finally show ?thesis .
qed

text \<open>C26: Every address printed by \<open>ip_to_string\<close> fits the 16-byte buffer of \<open>print_IPaddr\<close>, and \<open>string_to_ip\<close> reads the same address back.\<close>

theorem ip_text_roundtrip:
  "\<exists>t. ip_to_string x = Some (t, int (length t), []) \<and> length t < 16 \<and> string_to_ip (Some t) = x"
proof (intro exI conjI)
  show "ip_to_string x = Some (dotted x, int (length (dotted x)), [])" by (rule ip_to_string_dotted)
  show "length (dotted x) < 16"
    using length_dec [OF octet_less, of x 0] length_dec [OF octet_less, of x 1]
      length_dec [OF octet_less, of x 2] length_dec [OF octet_less, of x 3]
    by (simp add: dotted_def)
  show "string_to_ip (Some (dotted x)) = x"
    by (simp add: string_to_ip_def ip_value_dotted htonl_htonl)
qed

text \<open>The globals as the loader starts them, with the two packet buffers of \<open>NetLoop\<close>.\<close>

definition net_reset :: net where
  "net_reset = \<lparr>NetOurIP = 0, NetServerIP = 0, NetOurSubnetMask = 0, NetOurGatewayIP = 0,
     NetOurEther = replicate 6 0, NetServerEther = replicate 6 0, NetOurVLAN = 0xFFFF, NetOurNativeVLAN = 0xFFFF,
     NetIPID = 0, NetState = NETLOOP_CONTINUE, NetBootFileXferSize = 0, packetHandler = None, timeHandler = None,
     timeStart = 0, timeDelta = 0, NetTxPacket = replicate PKTSIZE_ALIGN 0, NetArpWaitPacketIP = 0,
     NetArpWaitReplyIP = 0, NetArpWaitPacketMAC = None, NetArpWaitTxPacket = replicate PKTSIZE_ALIGN 0,
     NetArpWaitTxPacketSize = 0, NetArpWaitTimerStart = 0, NetArpWaitTry = 0, PingSeqNo = 0, NetPingIP = 0,
     ping_mac = replicate 6 0, net_vars = \<lambda>_. None, net_time = 0, eth_out = [], eth_up = True, printed = []\<rparr>"

theorem NetSetIP_checksum_witness:
  "NetCksumOk (fst (NetSetIP (NetTxPacket net_reset) 14 0x0100A8C0 69 1024 21 net_reset)) 14 10"
  using NetSetIP_checksum [of 14 21 "NetTxPacket net_reset" "0x0100A8C0" 69 1024 net_reset
      "fst (NetSetIP (NetTxPacket net_reset) 14 0x0100A8C0 69 1024 21 net_reset)"
      "snd (NetSetIP (NetTxPacket net_reset) 14 0x0100A8C0 69 1024 21 net_reset)"]
  by (simp only: prod.collapse) (simp add: net_reset_def PKTSIZE_ALIGN_def)


section \<open>What sending a datagram does\<close>

lemma snd_NetSetIP [simp]: "snd (NetSetIP b p d dp sp n s) = s\<lparr>NetIPID := NetIPID s + 1\<rparr>"
  by (simp add: NetSetIP_def Let_def)

text \<open>The fields of the network state that sending leaves alone.\<close>

lemma say_frame [simp]:
  "NetOurIP (say m s) = NetOurIP s"
  "NetServerIP (say m s) = NetServerIP s"
  "NetOurSubnetMask (say m s) = NetOurSubnetMask s"
  "NetOurGatewayIP (say m s) = NetOurGatewayIP s"
  "NetOurEther (say m s) = NetOurEther s"
  "NetServerEther (say m s) = NetServerEther s"
  "NetOurVLAN (say m s) = NetOurVLAN s"
  "NetOurNativeVLAN (say m s) = NetOurNativeVLAN s"
  "NetState (say m s) = NetState s"
  "NetBootFileXferSize (say m s) = NetBootFileXferSize s"
  "packetHandler (say m s) = packetHandler s"
  "timeHandler (say m s) = timeHandler s"
  "timeStart (say m s) = timeStart s"
  "timeDelta (say m s) = timeDelta s"
  "net_vars (say m s) = net_vars s"
  "net_time (say m s) = net_time s"
  "eth_up (say m s) = eth_up s"
  "net.more (say m s) = net.more s"
  "NetTxPacket (say m s) = NetTxPacket s"
  "NetIPID (say m s) = NetIPID s"
  "eth_out (say m s) = eth_out s"
  by (simp_all add: say_def)

lemma ArpRequest_frame [simp]:
  "NetOurIP (ArpRequest s) = NetOurIP s"
  "NetServerIP (ArpRequest s) = NetServerIP s"
  "NetOurSubnetMask (ArpRequest s) = NetOurSubnetMask s"
  "NetOurGatewayIP (ArpRequest s) = NetOurGatewayIP s"
  "NetOurEther (ArpRequest s) = NetOurEther s"
  "NetServerEther (ArpRequest s) = NetServerEther s"
  "NetOurVLAN (ArpRequest s) = NetOurVLAN s"
  "NetOurNativeVLAN (ArpRequest s) = NetOurNativeVLAN s"
  "NetState (ArpRequest s) = NetState s"
  "NetBootFileXferSize (ArpRequest s) = NetBootFileXferSize s"
  "packetHandler (ArpRequest s) = packetHandler s"
  "timeHandler (ArpRequest s) = timeHandler s"
  "timeStart (ArpRequest s) = timeStart s"
  "timeDelta (ArpRequest s) = timeDelta s"
  "net_vars (ArpRequest s) = net_vars s"
  "net_time (ArpRequest s) = net_time s"
  "eth_up (ArpRequest s) = eth_up s"
  "net.more (ArpRequest s) = net.more s"
  by (simp_all add: ArpRequest_def eth_send_def say_def Let_def case_prod_beta)

lemma send_frame [simp]:
  "NetOurIP (snd (NetSendUDPPacket p d dp sp n s)) = NetOurIP s"
  "NetServerIP (snd (NetSendUDPPacket p d dp sp n s)) = NetServerIP s"
  "NetOurSubnetMask (snd (NetSendUDPPacket p d dp sp n s)) = NetOurSubnetMask s"
  "NetOurGatewayIP (snd (NetSendUDPPacket p d dp sp n s)) = NetOurGatewayIP s"
  "NetOurEther (snd (NetSendUDPPacket p d dp sp n s)) = NetOurEther s"
  "NetServerEther (snd (NetSendUDPPacket p d dp sp n s)) = NetServerEther s"
  "NetOurVLAN (snd (NetSendUDPPacket p d dp sp n s)) = NetOurVLAN s"
  "NetOurNativeVLAN (snd (NetSendUDPPacket p d dp sp n s)) = NetOurNativeVLAN s"
  "NetState (snd (NetSendUDPPacket p d dp sp n s)) = NetState s"
  "NetBootFileXferSize (snd (NetSendUDPPacket p d dp sp n s)) = NetBootFileXferSize s"
  "packetHandler (snd (NetSendUDPPacket p d dp sp n s)) = packetHandler s"
  "timeHandler (snd (NetSendUDPPacket p d dp sp n s)) = timeHandler s"
  "timeStart (snd (NetSendUDPPacket p d dp sp n s)) = timeStart s"
  "timeDelta (snd (NetSendUDPPacket p d dp sp n s)) = timeDelta s"
  "net_vars (snd (NetSendUDPPacket p d dp sp n s)) = net_vars s"
  "net_time (snd (NetSendUDPPacket p d dp sp n s)) = net_time s"
  "eth_up (snd (NetSendUDPPacket p d dp sp n s)) = eth_up s"
  "net.more (snd (NetSendUDPPacket p d dp sp n s)) = net.more s"
  by (simp_all add: NetSendUDPPacket_def eth_send_def Let_def case_prod_beta)

text \<open>An untagged Ethernet frame with a UDP datagram.\<close>

definition ether_header :: "'a net_scheme \<Rightarrow> u8 list \<Rightarrow> u16 \<Rightarrow> u8 list" where
  "ether_header s mac prot = mac @ NetOurEther s @ le16_bytes (htons prot)"

definition udp_frame :: "'a net_scheme \<Rightarrow> u8 list \<Rightarrow> u32 \<Rightarrow> u16 \<Rightarrow> u16 \<Rightarrow> u8 list \<Rightarrow> u8 list" where
  "udp_frame s mac dest dport sport payload =
     ether_header s mac PROT_IP @ ip_header s dest dport sport (length payload) @ payload"

definition untagged :: "'a net_scheme \<Rightarrow> bool" where
  "untagged s \<longleftrightarrow> myvlanid (NetOurVLAN s) AND VLAN_IDMASK = VLAN_NONE"

text \<open>So after a reset, and when the variable is not set.\<close>

lemma no_vlan [simp]:
  "myvlanid 0xFFFF AND VLAN_IDMASK = VLAN_NONE" "myvlanid (htons VLAN_NONE) AND VLAN_IDMASK = VLAN_NONE"
  by (simp_all add: myvlanid_def ntohs_def VLAN_NONE_def VLAN_IDMASK_def)

lemma untagged_simps:
  assumes "untagged s"
  shows "myvlanid (NetOurVLAN s) AND VLAN_IDMASK = VLAN_NONE" "NetEthHdrSize s = 14"
  using assms by (simp_all add: untagged_def NetEthHdrSize_def ETHER_HDR_SIZE_def)

lemma blit_0: "blit b 0 xs = xs @ drop (length xs) b"
  by (simp add: blit_def)

lemma blit_append_off: "off = length xs \<Longrightarrow> blit (xs @ b) off ys = xs @ ys @ drop (length ys) b"
  by (simp add: blit_def)

lemma NetSetEther_untagged:
  assumes "untagged s" "length mac = 6" "length (NetOurEther s) = 6" "14 \<le> length b"
  shows "NetSetEther s b mac prot = (ether_header s mac prot @ drop 14 b, 14)"
  using assms(2-4)
  by (simp add: NetSetEther_def untagged_simps [OF assms(1)] ETHER_HDR_SIZE_def ether_header_def Let_def blit_0)
    (simp add: blit_def)

text \<open>With the hardware address known, the datagram goes out at once.\<close>

lemma take_drop_blit_before:
  "i + n \<le> off \<Longrightarrow> off \<le> length b \<Longrightarrow> take n (drop i (blit b off xs)) = take n (drop i b)"
  by (simp add: blit_def take_drop min_def)

lemma take_blit_frame:
  "take i b = e \<Longrightarrow> take n (drop (i + length h) b) = x \<Longrightarrow> i \<le> length b \<Longrightarrow>
   take (i + length h + n) (blit b i h) = e @ h @ x"
  by (auto simp: blit_def min_def)

lemma NetSendUDPPacket_sends:
  assumes u: "untagged s" and e: "length (NetOurEther s) = 6"
    and mac: "length (mac_at ether s) = 6" "mac_at ether s \<noteq> NetEtherNullAddr"
    and dest: "dest \<noteq> 0" "dest \<noteq> 0xFFFFFFFF"
    and room: "42 + length payload + length payload mod 2 \<le> length (NetTxPacket s)"
    and payload: "take (length payload) (drop 42 (NetTxPacket s)) = payload"
  shows "\<exists>b. length b = length (NetTxPacket s) \<and>
    NetSendUDPPacket ether dest dport sport (length payload) s =
    (0, s\<lparr>NetTxPacket := b, NetIPID := NetIPID s + 1,
        eth_out := eth_out s @ [udp_frame s (mac_at ether s) dest dport sport payload]\<rparr>)"
proof -
  let ?n = "length payload" and ?e = "ether_header s (mac_at ether s) PROT_IP"
  let ?b0 = "?e @ drop 14 (NetTxPacket s)"
  let ?b1 = "if odd ?n then poke ?b0 (14 + 28 + ?n) 0 else ?b0"
  let ?h = "ip_header s dest dport sport ?n"
  have le: "length ?e = 14" using mac e by (simp add: ether_header_def)
  then have l0: "length ?b0 = length (NetTxPacket s)" using room by simp
  have l1: "length ?b1 = length (NetTxPacket s)"
    using l0 room by (simp add: poke_def odd_iff_mod_2_eq_one)
  have eth: "NetSetEther s (NetTxPacket s) (mac_at ether s) PROT_IP = (?b0, 14)"
    by (rule NetSetEther_untagged) (use u mac e room in auto)
  have ip: "NetSetIP ?b0 14 dest dport sport ?n s = (blit ?b1 14 ?h, s\<lparr>NetIPID := NetIPID s + 1\<rparr>)"
    by (rule NetSetIP_header) (use room l0 in simp)
  have "take 14 ?b1 = ?e" using le by (simp add: poke_def blit_def)
  moreover have "take ?n (drop 42 ?b1) = payload"
    using payload le room by (simp add: poke_def take_drop_blit_before)
  ultimately have f: "take (14 + 28 + ?n) (blit ?b1 14 ?h) = udp_frame s (mac_at ether s) dest dport sport payload"
    using take_blit_frame [of 14 ?b1 ?e ?n ?h payload] l1 room unfolding udp_frame_def by simp
  have l2: "length (blit ?b1 14 ?h) = length (NetTxPacket s)" using l1 room by (simp add: l1)
  have d: "(if dest = 0 then 0xFFFFFFFF else dest) = dest" "(if dest = 0xFFFFFFFF then BcastPtr else ether) = ether"
    using dest by simp_all
  have "NetSendUDPPacket ether dest dport sport ?n s =
      (0, eth_send (take (14 + 28 + ?n) (blit ?b1 14 ?h)) (s\<lparr>NetIPID := NetIPID s + 1, NetTxPacket := blit ?b1 14 ?h\<rparr>))"
    by (simp only: NetSendUDPPacket_def d Let_def eth prod.case ip mac(2) if_False IP_HDR_SIZE_def)
  also have "\<dots> = (0, s\<lparr>NetTxPacket := blit ?b1 14 ?h, NetIPID := NetIPID s + 1,
        eth_out := eth_out s @ [udp_frame s (mac_at ether s) dest dport sport payload]\<rparr>)"
    unfolding f eth_send_def by (cases s) simp
  finally show ?thesis using l2 by blast
qed

end
