(* ===== verification/Tftp.thy ===== *)
theory Tftp
  imports Net
begin

text \<open>
  The TFTP client of \<open>net/tftp.c\<close>: the request, the packet handler, the timeout, and the memory
  the file is loaded to. Only one transfer is under way at a time, so its file-level variables are
  fields of the network state. The configuration has no multicast, no flash destination and no port
  variables. A load outside the receive buffer is undefined: \<open>None\<close>.
\<close>

section \<open>State\<close>

datatype tftp_state = STATE_RRQ | STATE_DATA | STATE_TOO_LARGE | STATE_BAD_MAGIC | STATE_OACK

record tftp = net +
  BootFile :: "u8 list"
  NetBootFileSize :: u16
  load_addr :: u32
  memory :: mem
  tftp_filename :: "u8 list"
  TftpServerPort :: u32
  TftpOurPort :: u32
  TftpTimeoutCount :: int
  TftpBlock :: u32
  TftpLastBlock :: u32
  TftpBlockWrap :: u32
  TftpBlockWrapOffset :: u32
  TftpState :: tftp_state
  TftpBlkSize :: u16

definition WELL_KNOWN_PORT :: u32 where "WELL_KNOWN_PORT = 69"
definition TIMEOUT :: u32 where "TIMEOUT = 5"
definition TIMEOUT_COUNT :: int where "TIMEOUT_COUNT = 10"
definition HASHES_PER_LINE :: u32 where "HASHES_PER_LINE = 65"
definition TFTP_BLOCK_SIZE :: u16 where "TFTP_BLOCK_SIZE = 512"
definition TFTP_SEQUENCE_SIZE :: u32 where "TFTP_SEQUENCE_SIZE = 0x10000"
definition TftpBlkSizeOption :: u16 where "TftpBlkSizeOption = 1468"

section \<open>Storing a block\<close>

text \<open>\<open>block\<close> bytes from \<open>off\<close> on in the packet, to where its number says.\<close>

definition store_block :: "u32 \<Rightarrow> u8 list \<Rightarrow> nat \<Rightarrow> u32 \<Rightarrow> tftp \<Rightarrow> tftp option" where
  "store_block block pkt off len s =
     (let offset = block * ucast (TftpBlkSize s) + TftpBlockWrapOffset s;
          newsize = offset + len in
      if length pkt < off + unat len then None
      else
        let s = s\<lparr>memory := overwrite (memory s) (unat (load_addr s + offset)) (take (unat len) (drop off pkt))\<rparr>
        in Some (if NetBootFileXferSize s < newsize then s\<lparr>NetBootFileXferSize := newsize\<rparr> else s))"

section \<open>Sending\<close>

definition text_of :: "string \<Rightarrow> varg list \<Rightarrow> u8 list" where
  "text_of fmt args = (case vsprintf (ascii fmt) args of None \<Rightarrow> [] | Some (t, _) \<Rightarrow> t)"

text \<open>The message for the state the transfer is in.\<close>

definition tftp_message :: "tftp \<Rightarrow> u8 list" where
  "tftp_message s =
     (case TftpState s of
        STATE_RRQ \<Rightarrow>
          le16_bytes (htons 1) @ tftp_filename s @ [0] @ ascii ''octet'' @ [0] @ ascii ''timeout'' @ [0]
          @ text_of ''%d'' [Word TIMEOUT] @ [0]
          @ text_of ''blksize%c%d%c'' [Word 0, Word (ucast TftpBlkSizeOption), Word 0]
      | STATE_OACK \<Rightarrow> le16_bytes (htons 4) @ le16_bytes (htons (ucast (TftpBlock s)))
      | STATE_DATA \<Rightarrow> le16_bytes (htons 4) @ le16_bytes (htons (ucast (TftpBlock s)))
      | STATE_TOO_LARGE \<Rightarrow> le16_bytes (htons 5) @ le16_bytes (htons 3) @ ascii ''File too large'' @ [0]
      | STATE_BAD_MAGIC \<Rightarrow> le16_bytes (htons 5) @ le16_bytes (htons 2) @ ascii ''File has bad magic'' @ [0])"

definition TftpSend :: "tftp \<Rightarrow> tftp" where
  "TftpSend s =
     (let m = tftp_message s;
          s = s\<lparr>NetTxPacket := blit (NetTxPacket s) (NetEthHdrSize s + IP_HDR_SIZE) m\<rparr>
      in snd (NetSendUDPPacket ServerPtr (NetServerIP s) (ucast (TftpServerPort s)) (ucast (TftpOurPort s))
                (length m) s))"

section \<open>Receiving\<close>

definition ld :: "u8 list \<Rightarrow> nat \<Rightarrow> u8 option" where
  "ld b i = (if i < length b then Some (b ! i) else None)"

definition ld16 :: "u8 list \<Rightarrow> nat \<Rightarrow> u16 option" where
  "ld16 b i = (if i + 1 < length b then Some (le16 b i) else None)"

text \<open>\<open>strcmp(b + i, lit) == 0\<close>\<close>

fun equals_at :: "u8 list \<Rightarrow> nat \<Rightarrow> u8 list \<Rightarrow> bool option" where
  "equals_at b i [] = Option.bind (ld b i) (\<lambda>c. Some (c = 0))"
| "equals_at b i (x # xs) = Option.bind (ld b i) (\<lambda>c. if c = x then equals_at b (i + 1) xs else Some False)"

text \<open>The loop that looks for the \<open>blksize\<close> option: its value, if it is there.\<close>

function oack_loop :: "u8 list \<Rightarrow> nat \<Rightarrow> nat \<Rightarrow> u16 option option" where
  "oack_loop b len i =
     (if i + 8 < len then
        (case equals_at b i (ascii ''blksize'') of
           None \<Rightarrow> None
         | Some True \<Rightarrow>
             (let (v, e) = simple_strtoul (drop (i + 8) b) 10 in if e = [] then None else Some (Some (ucast v)))
         | Some False \<Rightarrow> oack_loop b len (i + 1))
      else Some None)"
  by pat_completeness auto
termination by (relation "measure (\<lambda>(b, len, i). len - i)") auto

declare oack_loop.simps [simp del]

definition tftp_oack :: "u8 list \<Rightarrow> u32 \<Rightarrow> u32 \<Rightarrow> tftp \<Rightarrow> tftp option" where
  "tftp_oack pkt src len s =
     (let s = s\<lparr>TftpState := STATE_OACK, TftpServerPort := src\<rparr> in
      case oack_loop pkt (unat len) 0 of
        None \<Rightarrow> None
      | Some None \<Rightarrow> Some (TftpSend s)
      | Some (Some v) \<Rightarrow> Some (TftpSend (s\<lparr>TftpBlkSize := v\<rparr>)))"

text \<open>What is printed for a block, and the count of the blocks beyond 16 bits.\<close>

definition tftp_progress :: "tftp \<Rightarrow> tftp" where
  "tftp_progress s =
     (if TftpBlock s = 0 then
        let s = s\<lparr>TftpBlockWrap := TftpBlockWrap s + 1,
                  TftpBlockWrapOffset := TftpBlockWrapOffset s + ucast (TftpBlkSize s) * TFTP_SEQUENCE_SIZE\<rparr>
        in say (Printf (nl @ [CHR 0x09] @ '' %lu MiB received'' @ nl @ [CHR 0x09] @ '' '') [Word (drop_bit 20 (TftpBlockWrapOffset s))]) s
      else if (TftpBlock s - 1) mod 10 = 0 then say (Puts ''#'') s
      else if TftpBlock s mod (10 * HASHES_PER_LINE) = 0 then say (Puts (nl @ [CHR 0x09] @ '' '')) s
      else s)"

text \<open>The first block of a transfer: \<open>Inl\<close> when it is not block 1 and everything starts again.\<close>

definition tftp_first :: "u32 \<Rightarrow> tftp \<Rightarrow> tftp + tftp" where
  "tftp_first src s =
     (if TftpState s = STATE_RRQ \<or> TftpState s = STATE_OACK then
        let s = s\<lparr>TftpState := STATE_DATA, TftpServerPort := src, TftpLastBlock := 0, TftpBlockWrap := 0,
                  TftpBlockWrapOffset := 0\<rparr> in
        if TftpBlock s \<noteq> 1 then
          Inl (NetStartAgain (say (Printf (nl @ ''TFTP error: First block is not block 1 (%ld)'' @ nl
                 @ ''Starting again'' @ nl @ nl) [Word (TftpBlock s)]) s))
        else Inr s
      else Inr s)"

definition tftp_data :: "u8 list \<Rightarrow> u32 \<Rightarrow> u32 \<Rightarrow> tftp \<Rightarrow> tftp option" where
  "tftp_data pkt src len s =
     (if len < 2 then Some s
      else
        let len = len - 2 in
        case ld16 pkt 0 of
          None \<Rightarrow> None
        | Some w \<Rightarrow>
           (case tftp_first src (tftp_progress (s\<lparr>TftpBlock := ucast (ntohs w)\<rparr>)) of
              Inl s \<Rightarrow> Some s
            | Inr s \<Rightarrow>
                if TftpBlock s = TftpLastBlock s then Some s
                else
                  let s = NetSetTimeout (TIMEOUT * CFG_HZ) TftpTimeout (s\<lparr>TftpLastBlock := TftpBlock s\<rparr>) in
                  (case store_block (TftpBlock s - 1) pkt 2 len s of
                     None \<Rightarrow> None
                   | Some s \<Rightarrow>
                       let s = TftpSend s in
                       Some (if len < ucast (TftpBlkSize s)
                             then (say (Puts (nl @ ''done'' @ nl)) s)\<lparr>NetState := NETLOOP_SUCCESS\<rparr> else s))))"

definition tftp_error :: "u8 list \<Rightarrow> tftp \<Rightarrow> tftp option" where
  "tftp_error pkt s =
     (case ld16 pkt 0 of
        None \<Rightarrow> None
      | Some w \<Rightarrow>
          if 0 \<notin> set (drop 2 pkt) then None
          else Some (NetStartAgain (say (Puts (''Starting again'' @ nl @ nl))
                 (say (Printf (nl @ ''TFTP error: '' @ [CHR 0x27] @ ''%s'' @ [CHR 0x27] @ '' (%d)'' @ nl)
                    [Text (Some (takeWhile (\<lambda>c. c \<noteq> 0) (drop 2 pkt))), Word (ucast (ntohs w))]) s))))"

definition TftpHandler_run :: "u8 list \<Rightarrow> u32 \<Rightarrow> u32 \<Rightarrow> u32 \<Rightarrow> tftp \<Rightarrow> tftp option" where
  "TftpHandler_run pkt dest src len s =
     (if dest \<noteq> TftpOurPort s then Some s
      else if TftpState s \<noteq> STATE_RRQ \<and> src \<noteq> TftpServerPort s then Some s
      else if len < 2 then Some s
      else
        let len = len - 2 in
        case ld16 pkt 0 of
          None \<Rightarrow> None
        | Some proto \<Rightarrow>
           (let p = ntohs proto; pkt = drop 2 pkt in
            if p = 6 then tftp_oack pkt src len s
            else if p = 3 then tftp_data pkt src len s
            else if p = 5 then tftp_error pkt s
            else Some s))"

section \<open>Timeouts and the start\<close>

definition TftpTimeout_run :: "tftp \<Rightarrow> tftp" where
  "TftpTimeout_run s =
     (let s = s\<lparr>TftpTimeoutCount := TftpTimeoutCount s + 1\<rparr> in
      if TftpTimeoutCount s > TIMEOUT_COUNT
      then NetStartAgain (say (Puts (nl @ ''Retry count exceeded; starting again'' @ nl)) s)
      else TftpSend (NetSetTimeout (TIMEOUT * CFG_HZ) TftpTimeout (say (Puts ''T '') s)))"

definition TftpStart :: "tftp \<Rightarrow> tftp" where
  "TftpStart s =
     (let ip = NetOurIP s;
          s = (if deref (BootFile s) = 0 then
                 let name = text_of ''%02lX%02lX%02lX%02lX.img''
                       [Word (ip AND 0xFF), Word (drop_bit 8 ip AND 0xFF), Word (drop_bit 16 ip AND 0xFF),
                        Word (drop_bit 24 ip AND 0xFF)]
                 in say (Printf (''*** Warning: no boot file name; using '' @ [CHR 0x27] @ ''%s'' @ [CHR 0x27] @ nl)
                      [Text (Some name)]) (s\<lparr>tftp_filename := name\<rparr>)
               else s\<lparr>tftp_filename := BootFile s\<rparr>);
          s = print_IPaddr (NetServerIP s) (say (Puts ''TFTP from server '') s);
          s = print_IPaddr (NetOurIP s) (say (Puts ''; our IP address is '') s);
          s = (if NetOurGatewayIP s \<noteq> 0 \<and> NetOurSubnetMask s \<noteq> 0
                  \<and> NetOurIP s AND NetOurSubnetMask s \<noteq> NetServerIP s AND NetOurSubnetMask s
               then print_IPaddr (NetOurGatewayIP s) (say (Puts ''; sending through gateway '') s) else s);
          s = say (Puts nl) s;
          s = say (Printf (''Filename '' @ [CHR 0x27] @ ''%s'' @ [CHR 0x27] @ ''.'') [Text (Some (tftp_filename s))]) s;
          z = push_bit 9 (ucast (NetBootFileSize s)) :: u32;
          s = (if NetBootFileSize s \<noteq> 0
               then say (Print_size z) (say (Printf '' Size is 0x%x Bytes = '' [Word z]) s) else s);
          s = say (Puts nl) s;
          s = say (Printf (''Load address: 0x%lx'' @ nl) [Word (load_addr s)]) s;
          s = say (Puts (''Loading: *'' @ [CHR 0x08])) s;
          s = NetSetTimeout (TIMEOUT * CFG_HZ) TftpTimeout s;
          s = NetSetHandler TftpHandler s;
          s = s\<lparr>TftpServerPort := WELL_KNOWN_PORT, TftpTimeoutCount := 0, TftpState := STATE_RRQ,
                TftpOurPort := 1024 + net_time s mod 3072, TftpBlock := 0,
                NetServerEther := replicate 6 0, TftpBlkSize := TFTP_BLOCK_SIZE\<rparr>
      in TftpSend s)"

section \<open>What sending changes\<close>

lemma tftp_more: "net.more s = net.more (s' :: tftp) \<Longrightarrow>
   BootFile s = BootFile s' \<and> load_addr s = load_addr s' \<and> memory s = memory s' \<and> tftp_filename s = tftp_filename s'
   \<and> TftpServerPort s = TftpServerPort s' \<and> TftpOurPort s = TftpOurPort s' \<and> TftpTimeoutCount s = TftpTimeoutCount s'
   \<and> TftpBlock s = TftpBlock s' \<and> TftpLastBlock s = TftpLastBlock s' \<and> TftpBlockWrap s = TftpBlockWrap s'
   \<and> TftpBlockWrapOffset s = TftpBlockWrapOffset s' \<and> TftpState s = TftpState s' \<and> TftpBlkSize s = TftpBlkSize s'"
  by (cases s, cases s') simp

lemma say_tftp_frame [simp]:
  "load_addr (say p s) = load_addr s" "memory (say p s) = memory s" "TftpServerPort (say p s) = TftpServerPort s"
  "TftpOurPort (say p s) = TftpOurPort s" "TftpTimeoutCount (say p s) = TftpTimeoutCount s"
  "TftpBlock (say p s) = TftpBlock s" "TftpLastBlock (say p s) = TftpLastBlock s"
  "TftpBlockWrapOffset (say p s) = TftpBlockWrapOffset s" "TftpState (say p s) = TftpState s"
  "TftpBlkSize (say p s) = TftpBlkSize s" "tftp_filename (say p s) = tftp_filename s"
  by (simp_all add: say_def)

lemma more_TftpSend: "net.more (TftpSend s) = net.more s"
  by (simp add: TftpSend_def Let_def)

lemma TftpSend_frame [simp]:
  "load_addr (TftpSend s) = load_addr s" "memory (TftpSend s) = memory s"
  "TftpServerPort (TftpSend s) = TftpServerPort s" "TftpOurPort (TftpSend s) = TftpOurPort s"
  "TftpTimeoutCount (TftpSend s) = TftpTimeoutCount s" "TftpBlock (TftpSend s) = TftpBlock s"
  "TftpLastBlock (TftpSend s) = TftpLastBlock s" "TftpBlockWrap (TftpSend s) = TftpBlockWrap s"
  "TftpBlockWrapOffset (TftpSend s) = TftpBlockWrapOffset s" "TftpState (TftpSend s) = TftpState s"
  "TftpBlkSize (TftpSend s) = TftpBlkSize s" "tftp_filename (TftpSend s) = tftp_filename s"
  using tftp_more [OF more_TftpSend, of s] by auto

lemma TftpSend_net_frame [simp]:
  "NetState (TftpSend s) = NetState s" "NetBootFileXferSize (TftpSend s) = NetBootFileXferSize s"
  "NetOurVLAN (TftpSend s) = NetOurVLAN s" "NetOurEther (TftpSend s) = NetOurEther s"
  "NetServerEther (TftpSend s) = NetServerEther s" "NetServerIP (TftpSend s) = NetServerIP s"
  "NetOurIP (TftpSend s) = NetOurIP s" "packetHandler (TftpSend s) = packetHandler s"
  "timeHandler (TftpSend s) = timeHandler s" "timeStart (TftpSend s) = timeStart s"
  "timeDelta (TftpSend s) = timeDelta s" "net_vars (TftpSend s) = net_vars s"
  by (simp_all add: TftpSend_def Let_def)

section \<open>A transfer, block by block\<close>

text \<open>The bytes of block \<open>k\<close> (counted from 1) of a file sent in blocks of \<open>B\<close> bytes, and its packet.\<close>

definition file_block :: "u8 list \<Rightarrow> nat \<Rightarrow> nat \<Rightarrow> u8 list" where
  "file_block F B k = take B (drop ((k - 1) * B) F)"

definition blocks :: "u8 list \<Rightarrow> nat \<Rightarrow> nat" where
  "blocks F B = length F div B + 1"

definition data_packet :: "u8 list \<Rightarrow> nat \<Rightarrow> nat \<Rightarrow> u8 list" where
  "data_packet F B k = le16_bytes (htons 3) @ le16_bytes (htons (word_of_nat k)) @ file_block F B k"

text \<open>
  What can happen while the client waits: the next block arrives or the last one once more (with
  whatever the receive buffer holds behind it), the timer expires, or another packet comes.
\<close>

datatype arrival = Next "u8 list" | Repeat "u8 list" | Expire | Stray "u8 list" u32 u32 u32

definition arrive :: "u8 list \<Rightarrow> nat \<Rightarrow> u32 \<Rightarrow> u32 \<Rightarrow> arrival \<Rightarrow> nat \<Rightarrow> tftp \<Rightarrow> (nat \<times> tftp) option" where
  "arrive F B port tid e k s =
     (case e of
        Next tail \<Rightarrow> map_option (Pair (k + 1))
          (TftpHandler_run (data_packet F B (k + 1) @ tail) port tid
             (word_of_nat (length (data_packet F B (k + 1)))) s)
      | Repeat tail \<Rightarrow> map_option (Pair k)
          (TftpHandler_run (data_packet F B k @ tail) port tid (word_of_nat (length (data_packet F B k))) s)
      | Expire \<Rightarrow> Some (k, TftpTimeout_run s)
      | Stray pkt dest src len \<Rightarrow> map_option (Pair k) (TftpHandler_run pkt dest src len s))"

fun arrivals :: "u8 list \<Rightarrow> nat \<Rightarrow> u32 \<Rightarrow> u32 \<Rightarrow> arrival list \<Rightarrow> nat \<Rightarrow> tftp \<Rightarrow> (nat \<times> tftp) option" where
  "arrivals F B port tid [] k s = Some (k, s)"
| "arrivals F B port tid (e # es) k s =
     Option.bind (arrive F B port tid e k s) (\<lambda>(k, s). arrivals F B port tid es k s)"

text \<open>
  An orderly transfer from block \<open>k\<close> with \<open>t\<close> timeouts so far: it ends with the last block, stray
  packets are for another port or from another sender, a repeated block is not one whose number
  has wrapped to 0, and the timer expires ten times at most.
\<close>

fun orderly :: "nat \<Rightarrow> u32 \<Rightarrow> u32 \<Rightarrow> nat \<Rightarrow> nat \<Rightarrow> arrival list \<Rightarrow> bool" where
  "orderly n port tid k t [] \<longleftrightarrow> k = n"
| "orderly n port tid k t (Next tail # es) \<longleftrightarrow> k < n \<and> orderly n port tid (k + 1) t es"
| "orderly n port tid k t (Repeat tail # es) \<longleftrightarrow> k < n \<and> k mod 65536 \<noteq> 0 \<and> orderly n port tid k t es"
| "orderly n port tid k t (Expire # es) \<longleftrightarrow> k < n \<and> t < 10 \<and> orderly n port tid k (t + 1) es"
| "orderly n port tid k t (Stray pkt dest src len # es) \<longleftrightarrow>
     k < n \<and> (dest \<noteq> port \<or> 0 < k \<and> src \<noteq> tid) \<and> orderly n port tid k t es"

text \<open>The client after \<open>k\<close> blocks, the file not yet complete.\<close>

definition received :: "u8 list \<Rightarrow> nat \<Rightarrow> u32 \<Rightarrow> u32 \<Rightarrow> mem \<Rightarrow> u32 \<Rightarrow> nat \<Rightarrow> nat \<Rightarrow> tftp \<Rightarrow> bool" where
  "received F B port tid m a k t s \<longleftrightarrow>
     NetState s = NETLOOP_CONTINUE \<and> TftpOurPort s = port \<and> unat (TftpBlkSize s) = B \<and> load_addr s = a \<and>
     memory s = overwrite m (unat a) (take (k * B) F) \<and> NetBootFileXferSize s = word_of_nat (k * B) \<and>
     TftpTimeoutCount s = int t \<and>
     (if k = 0 then TftpState s = STATE_RRQ \<or> TftpState s = STATE_OACK \<and> TftpServerPort s = tid
      else TftpState s = STATE_DATA \<and> TftpServerPort s = tid \<and> TftpLastBlock s = word_of_nat (k mod 65536) \<and>
        TftpBlockWrapOffset s = word_of_nat (k div 65536 * 65536 * B))"

definition complete :: "u8 list \<Rightarrow> mem \<Rightarrow> u32 \<Rightarrow> tftp \<Rightarrow> bool" where
  "complete F m a s \<longleftrightarrow>
     load_addr s = a \<and> NetState s = NETLOOP_SUCCESS \<and> memory s = overwrite m (unat a) F \<and>
     NetBootFileXferSize s = word_of_nat (length F)"

text \<open>What of the network state decides the next datagram to the server.\<close>

definition same_net :: "tftp \<Rightarrow> tftp \<Rightarrow> bool" where
  "same_net s s' \<longleftrightarrow>
     NetOurIP s = NetOurIP s' \<and> NetServerIP s = NetServerIP s' \<and> NetOurEther s = NetOurEther s' \<and>
     NetServerEther s = NetServerEther s' \<and> NetOurVLAN s = NetOurVLAN s' \<and> NetIPID s = NetIPID s' \<and>
     NetTxPacket s = NetTxPacket s' \<and> eth_out s = eth_out s' \<and> packetHandler s = packetHandler s' \<and>
     NetArpWaitPacketIP s = NetArpWaitPacketIP s' \<and> net_time s = net_time s' \<and>
     NetOurNativeVLAN s = NetOurNativeVLAN s' \<and> net_vars s = net_vars s'"

text \<open>The timer that \<open>NetSetTimeout\<close> starts for a lost packet.\<close>

definition timer_set :: "tftp \<Rightarrow> u32 \<Rightarrow> bool" where
  "timer_set s \<tau> \<longleftrightarrow> timeHandler s = Some TftpTimeout \<and> timeStart s = \<tau> \<and> timeDelta s = TIMEOUT * CFG_HZ"

definition done_with :: "tftp \<Rightarrow> tftp" where
  "done_with s = (say (Puts (nl @ ''done'' @ nl)) s)\<lparr>NetState := NETLOOP_SUCCESS\<rparr>"

lemma length_data_packet: "length (data_packet F B k) = 4 + length (file_block F B k)"
  by (simp add: data_packet_def)

lemma length_file_block: "length (file_block F B (k + 1)) = min B (length F - k * B)"
  by (simp add: file_block_def min_def)

lemma take_file_block: "take (k * B) F @ file_block F B (k + 1) = take ((k + 1) * B) F"
  by (simp add: file_block_def take_add [symmetric] add.commute)

lemma ntohs_ntohs [simp]: "ntohs (ntohs x) = x"
proof (rule bit_word_eqI)
  fix n assume n: "n < LENGTH(16)"
  then show "bit (ntohs (ntohs x)) n = bit x n"
    unfolding ntohs_def by (cases "n < 8") (auto simp: bit_simps dest: bit_imp_le_length)
qed

lemma le16_le16_bytes: "le16 (le16_bytes w @ xs) 0 = w"
  by (rule le16_of_bytes) (simp_all add: le16_bytes_def)

lemma ld16_le16_bytes: "ld16 (le16_bytes w @ xs) 0 = Some w"
  by (simp add: ld16_def le16_le16_bytes)

lemma drop_le16_bytes [simp]: "drop 2 (le16_bytes w @ xs) = xs"
  by (simp add: le16_bytes_def)

lemma word_of_nat_u32_0: "n < 2 ^ 32 \<Longrightarrow> (word_of_nat n :: u32) = 0 \<longleftrightarrow> n = 0"
  using word_of_nat_eq_0_iff [of n, where 'a = 32] by (auto simp: dvd_imp_le nat_dvd_not_less)

lemma word_of_nat_u32_eq: "n < 2 ^ 32 \<Longrightarrow> k < 2 ^ 32 \<Longrightarrow> (word_of_nat n :: u32) = word_of_nat k \<longleftrightarrow> n = k"
  by (simp add: word_of_nat_eq_iff take_bit_nat_eq_self)

lemma Suc_div_mod_wrap:
  "Suc k mod 65536 = 0 \<Longrightarrow> Suc k div 65536 = k div 65536 + 1"
  "Suc k mod 65536 \<noteq> 0 \<Longrightarrow> Suc k div 65536 = k div 65536"
  by (simp_all add: div_Suc)

lemma ucast_unat: "(ucast (x :: u16) :: u32) = word_of_nat (unat x)"
  by (rule bit_word_eqI) (simp add: bit_simps)

text \<open>The block number counts on past 16 bits before it is compared with the last one.\<close>

lemma progress_first:
  assumes "received F B port tid m a k t s"
  shows "\<exists>s'. tftp_first tid (tftp_progress (s\<lparr>TftpBlock := word_of_nat ((k + 1) mod 65536)\<rparr>)) = Inr s' \<and>
    NetState s' = NETLOOP_CONTINUE \<and> TftpOurPort s' = port \<and> unat (TftpBlkSize s') = B \<and> load_addr s' = a \<and>
    memory s' = memory s \<and> NetBootFileXferSize s' = NetBootFileXferSize s \<and> TftpTimeoutCount s' = int t \<and>
    TftpState s' = STATE_DATA \<and> TftpServerPort s' = tid \<and>
    TftpBlock s' = word_of_nat ((k + 1) mod 65536) \<and> TftpLastBlock s' = word_of_nat (k mod 65536) \<and>
    TftpBlockWrapOffset s' = word_of_nat ((k + 1) div 65536 * 65536 * B) \<and> same_net s' s"
proof (cases "k = 0")
  case True
  with assms show ?thesis
    by (auto simp: received_def tftp_first_def tftp_progress_def say_def Let_def same_net_def)
next
  case False
  have B: "ucast (TftpBlkSize s) = (word_of_nat B :: u32)"
    using assms ucast_unat [of "TftpBlkSize s"] by (simp add: received_def)
  show ?thesis
  proof (cases "(k + 1) mod 65536 = 0")
    case True
    with assms \<open>k \<noteq> 0\<close> B show ?thesis
      by (simp add: received_def tftp_first_def tftp_progress_def say_def Let_def same_net_def Suc_div_mod_wrap
          TFTP_SEQUENCE_SIZE_def algebra_simps)
  next
    case False
    then have "(word_of_nat ((k + 1) mod 65536) :: u32) \<noteq> 0" by (subst word_of_nat_u32_0) (simp_all add: less_trans [OF mod_less_divisor])
    with False assms \<open>k \<noteq> 0\<close> show ?thesis
      by (simp add: received_def tftp_first_def tftp_progress_def say_def Let_def same_net_def Suc_div_mod_wrap)
  qed
qed

lemma unat_u32: "n < 2 ^ 32 \<Longrightarrow> unat (word_of_nat n :: u32) = n"
  by (simp add: unat_of_nat)

text \<open>Where block \<open>k + 1\<close> goes, with its number modulo 65536 and the offset of the numbers that wrapped.\<close>

lemma block_offset:
  "(word_of_nat ((k + 1) mod 65536) - 1) * word_of_nat B + word_of_nat ((k + 1) div 65536 * 65536 * B)
    = (word_of_nat (k * B) :: u32)"
proof -
  have "(k + 1) mod 65536 * B + (k + 1) div 65536 * 65536 * B = (k + 1) * B"
    by (metis add.commute add_mult_distrib div_mult_mod_eq)
  then have "(word_of_nat ((k + 1) mod 65536) * word_of_nat B + word_of_nat ((k + 1) div 65536 * 65536 * B) :: u32)
      = word_of_nat ((k + 1) * B)"
    by (metis of_nat_add of_nat_mult)
  then show ?thesis by (simp add: algebra_simps)
qed

lemma store_block_step:
  assumes s: "unat (TftpBlkSize s) = B" "load_addr s = a" "memory s = overwrite m (unat a) (take (k * B) F)"
      "NetBootFileXferSize s = word_of_nat (k * B)" "TftpBlock s = word_of_nat ((k + 1) mod 65536)"
      "TftpBlockWrapOffset s = word_of_nat ((k + 1) div 65536 * 65536 * B)"
    and fits: "unat a + length F < 2 ^ 32" and k: "k * B \<le> length F"
    and pkt: "take L (drop 2 pkt) = file_block F B (k + 1)" "2 + L \<le> length pkt"
      "L = length (file_block F B (k + 1))" "unat len = L"
  shows "store_block (TftpBlock s - 1) pkt 2 len s =
    Some (s\<lparr>memory := overwrite m (unat a) (take ((k + 1) * B) F), NetBootFileXferSize := word_of_nat (k * B + L)\<rparr>)"
proof -
  have B: "ucast (TftpBlkSize s) = (word_of_nat B :: u32)" by (simp add: ucast_unat s)
  have off: "(TftpBlock s - 1) * ucast (TftpBlkSize s) + TftpBlockWrapOffset s = word_of_nat (k * B)"
    unfolding B s by (rule block_offset)
  have kL: "k * B + L \<le> length F" using k unfolding pkt(3) length_file_block by simp
  have len: "len = word_of_nat L" using pkt(4) by (metis of_nat_unat ucast_id)
  have addr: "unat (a + word_of_nat (k * B)) = unat a + k * B"
  proof -
    have "unat (word_of_nat (k * B) :: u32) = k * B" using fits k by (intro unat_u32) simp
    with fits k show ?thesis unfolding unat_word_ariths(1) by simp
  qed
  have mem: "overwrite (memory s) (unat (load_addr s + word_of_nat (k * B))) (take L (drop 2 pkt))
      = overwrite m (unat a) (take ((k + 1) * B) F)"
    unfolding s addr pkt(1) take_file_block [symmetric]
    using overwrite_append [of m "unat a" "take (k * B) F"] k by simp
  have new: "(word_of_nat (k * B) :: u32) + word_of_nat L = word_of_nat (k * B + L)" by simp
  have lt: "k * B < 2 ^ 32" "k * B + L < 2 ^ 32" using fits kL by auto
  then have cmp: "(word_of_nat (k * B) :: u32) < word_of_nat (k * B + L) \<longleftrightarrow> 0 < L"
    unfolding word_less_nat_alt by (simp only: unat_of_nat) simp
  have size': "(if NetBootFileXferSize s' < word_of_nat (k * B) + len
      then s'\<lparr>NetBootFileXferSize := word_of_nat (k * B) + len\<rparr> else s') = s'\<lparr>NetBootFileXferSize := word_of_nat (k * B + L)\<rparr>"
    if "NetBootFileXferSize s' = word_of_nat (k * B)" for s' :: tftp
  proof (cases "0 < L")
    case True
    with cmp show ?thesis unfolding that len new by (simp only: if_True)
  next
    case False
    have "s'\<lparr>NetBootFileXferSize := word_of_nat (k * B)\<rparr> = s'" using that by (cases s') simp
    moreover have "L = 0" using False by simp
    ultimately show ?thesis unfolding len new by simp
  qed
  have "\<not> length pkt < 2 + unat len" using pkt(2,4) by simp
  then show ?thesis
    unfolding store_block_def Let_def off pkt(4) mem
    by (simp only: if_False) (subst size', use s(4) in simp_all)
qed

text \<open>The handler on a data packet from the server.\<close>

lemma TftpHandler_data:
  assumes "TftpOurPort s = port" "TftpState s = STATE_RRQ \<or> TftpServerPort s = tid" "length (file_block F B k) < 65536"
  shows "TftpHandler_run (data_packet F B k @ tail) port tid (word_of_nat (length (data_packet F B k))) s =
    tftp_data (le16_bytes (htons (word_of_nat k)) @ file_block F B k @ tail) tid
      (word_of_nat (2 + length (file_block F B k))) s"
proof -
  let ?L = "length (file_block F B k)"
  have l: "(word_of_nat (length (data_packet F B k)) :: u32) = word_of_nat (4 + ?L)" by (simp add: length_data_packet)
  have nl: "\<not> (word_of_nat (4 + ?L) :: u32) < 2"
    using assms(3) unfolding word_less_nat_alt by (subst unat_u32) simp_all
  have d: "(word_of_nat (4 + ?L) :: u32) - 2 = word_of_nat (2 + ?L)" by simp
  show ?thesis
    unfolding TftpHandler_run_def l Let_def d using assms(1,2) nl
    by (auto simp: data_packet_def ld16_le16_bytes)
qed

lemma tftp_data_next:
  assumes r: "received F B port tid m a k t s" and fits: "unat a + length F < 2 ^ 32" and k: "k * B \<le> length F"
  shows "\<exists>s'. tftp_data (le16_bytes (htons (word_of_nat (k + 1))) @ file_block F B (k + 1) @ tail) tid
      (word_of_nat (2 + length (file_block F B (k + 1)))) s = Some s' \<and>
    (if length (file_block F B (k + 1)) < B then complete F m a s' else received F B port tid m a (k + 1) t s') \<and>
    (\<exists>q. (s' = TftpSend q \<or> s' = done_with (TftpSend q)) \<and> same_net q s \<and> timer_set q (net_time s) \<and>
       TftpState q = STATE_DATA \<and> TftpServerPort q = tid \<and> TftpOurPort q = port \<and>
       TftpBlock q = word_of_nat ((k + 1) mod 65536))"
proof -
  let ?L = "length (file_block F B (k + 1))"
  let ?pkt = "le16_bytes (htons (word_of_nat (k + 1))) @ file_block F B (k + 1) @ tail"
  have B: "unat (TftpBlkSize s) = B" using r by (simp add: received_def)
  then have B16: "B < 65536" using unsigned_less [of "TftpBlkSize s", where 'a = nat] by simp
  then have L: "?L < 65536" unfolding length_file_block by simp
  have nl: "\<not> (word_of_nat (2 + ?L) :: u32) < 2"
    using L unfolding word_less_nat_alt by (subst unat_u32) simp_all
  have len: "(word_of_nat (2 + ?L) :: u32) - 2 = word_of_nat ?L" by simp
  have blk: "ucast (word_of_nat (k + 1) :: u16) = (word_of_nat ((k + 1) mod 65536) :: u32)"
    by (simp only: ucast_unat unat_of_nat) simp
  obtain s1 where s1: "tftp_first tid (tftp_progress (s\<lparr>TftpBlock := word_of_nat ((k + 1) mod 65536)\<rparr>)) = Inr s1"
      "NetState s1 = NETLOOP_CONTINUE" "TftpOurPort s1 = port" "unat (TftpBlkSize s1) = B" "load_addr s1 = a"
      "memory s1 = memory s" "NetBootFileXferSize s1 = NetBootFileXferSize s" "TftpTimeoutCount s1 = int t"
      "TftpState s1 = STATE_DATA" "TftpServerPort s1 = tid"
      "TftpBlock s1 = word_of_nat ((k + 1) mod 65536)" "TftpLastBlock s1 = word_of_nat (k mod 65536)"
      "TftpBlockWrapOffset s1 = word_of_nat ((k + 1) div 65536 * 65536 * B)" "same_net s1 s"
    using progress_first [OF r] by blast
  have fresh: "TftpBlock s1 \<noteq> TftpLastBlock s1"
  proof -
    have "(k + 1) mod 65536 \<noteq> k mod 65536" by (simp add: mod_Suc)
    then show ?thesis unfolding s1
      by (subst word_of_nat_u32_eq) (simp_all add: less_trans [OF mod_less_divisor])
  qed
  let ?s2 = "NetSetTimeout (TIMEOUT * CFG_HZ) TftpTimeout (s1\<lparr>TftpLastBlock := TftpBlock s1\<rparr>)"
  let ?s3 = "?s2\<lparr>memory := overwrite m (unat a) (take ((k + 1) * B) F),
                  NetBootFileXferSize := word_of_nat (k * B + ?L)\<rparr>"
  have s2: "TftpBlock ?s2 = TftpBlock s1" by (simp add: NetSetTimeout_def)
  have st: "store_block (TftpBlock ?s2 - 1) ?pkt 2 (word_of_nat ?L) ?s2 = Some ?s3"
    by (rule store_block_step)
      (use s1 r fits k L in \<open>simp_all add: NetSetTimeout_def received_def unat_u32\<close>)
  have less: "(word_of_nat ?L :: u32) < ucast (TftpBlkSize (TftpSend ?s3)) \<longleftrightarrow> ?L < B"
  proof -
    have "TftpBlkSize (TftpSend ?s3) = TftpBlkSize s1" by (simp add: NetSetTimeout_def)
    then show ?thesis using s1(4) L B16 unfolding word_less_nat_alt ucast_unat by (simp add: unat_u32)
  qed
  let ?s4 = "TftpSend ?s3"
  let ?s5 = "if ?L < B then (say (Puts (nl @ ''done'' @ nl)) ?s4)\<lparr>NetState := NETLOOP_SUCCESS\<rparr> else ?s4"
  have run: "tftp_data ?pkt tid (word_of_nat (2 + ?L)) s = Some ?s5"
    by (simp only: tftp_data_def Let_def len ld16_le16_bytes ntohs_ntohs blk nl if_False option.case s1(1)
        sum.case fresh st less)
  have kL: "k * B + ?L = min ((k + 1) * B) (length F)" using k unfolding length_file_block by simp
  have mem: "memory ?s5 = overwrite m (unat a) (take ((k + 1) * B) F)" by (simp add: say_def)
  have x: "NetBootFileXferSize ?s5 = word_of_nat (k * B + ?L)" by (simp del: of_nat_add of_nat_mult)
  have q: "(?s5 = TftpSend ?s3 \<or> ?s5 = done_with (TftpSend ?s3)) \<and> same_net ?s3 s \<and> timer_set ?s3 (net_time s) \<and>
      TftpState ?s3 = STATE_DATA \<and> TftpServerPort ?s3 = tid \<and> TftpOurPort ?s3 = port \<and> TftpBlock ?s3 = word_of_nat ((k + 1) mod 65536)"
    using s1 by (simp add: NetSetTimeout_def same_net_def timer_set_def done_with_def TIMEOUT_def CFG_HZ_def)
  have "if ?L < B then complete F m a ?s5 else received F B port tid m a (k + 1) t ?s5"
  proof (cases "?L < B")
    case True
    with k have "length F < (k + 1) * B" unfolding length_file_block by simp
    then have "k * B + ?L = length F" "take ((k + 1) * B) F = F" using kL by simp_all
    with True mem x show ?thesis
      unfolding complete_def using s1(5) by (simp add: NetSetTimeout_def)
  next
    case False
    with kL have "k * B + ?L = (k + 1) * B" unfolding length_file_block by simp
    with x have "NetBootFileXferSize ?s5 = word_of_nat ((k + 1) * B)" by simp
    with False mem show ?thesis
      using s1 unfolding received_def by (simp add: NetSetTimeout_def)
  qed
  with run q show ?thesis by blast
qed

lemma received_B: "received F B port tid m a k t s \<Longrightarrow> B < 65536"
  using unsigned_less [of "TftpBlkSize s", where 'a = nat] by (auto simp: received_def)

lemma file_block_short: "received F B port tid m a k t s \<Longrightarrow> length (file_block F B j) < 65536"
  by (auto simp: file_block_def dest!: received_B)

lemma blocks_less:
  assumes "0 < B"
  shows "k < blocks F B \<longleftrightarrow> k * B \<le> length F"
  using assms by (simp add: blocks_def less_Suc_eq_le less_eq_div_iff_mult_less_eq)

lemma blocks_last:
  assumes "0 < B" "k < blocks F B"
  shows "length (file_block F B (k + 1)) < B \<longleftrightarrow> k + 1 = blocks F B"
proof -
  from assms have "k * B \<le> length F" by (simp add: blocks_less)
  then have "length (file_block F B (k + 1)) < B \<longleftrightarrow> \<not> (k + 1) * B \<le> length F"
    unfolding length_file_block by auto
  also have "\<dots> \<longleftrightarrow> \<not> k + 1 < blocks F B" using assms by (simp only: blocks_less)
  finally show ?thesis using assms(2) by linarith
qed

lemma received_port:
  "received F B port tid m a k t s \<Longrightarrow> TftpOurPort s = port"
  "received F B port tid m a k t s \<Longrightarrow> TftpState s = STATE_RRQ \<or> TftpServerPort s = tid"
  by (auto simp: received_def split: if_splits)

lemma arrive_next:
  assumes r: "received F B port tid m a k t s" and "unat a + length F < 2 ^ 32" and B: "0 < B" and k: "k < blocks F B"
  shows "\<exists>s'. arrive F B port tid (Next tail) k s = Some (k + 1, s') \<and>
    (if k + 1 = blocks F B then complete F m a s' else received F B port tid m a (k + 1) t s') \<and>
    (\<exists>q. (s' = TftpSend q \<or> s' = done_with (TftpSend q)) \<and> same_net q s \<and> timer_set q (net_time s) \<and>
       TftpState q = STATE_DATA \<and> TftpServerPort q = tid \<and> TftpOurPort q = port \<and>
       TftpBlock q = word_of_nat ((k + 1) mod 65536))"
proof -
  obtain s' where s': "tftp_data (le16_bytes (htons (word_of_nat (k + 1))) @ file_block F B (k + 1) @ tail) tid
      (word_of_nat (2 + length (file_block F B (k + 1)))) s = Some s'"
    "if length (file_block F B (k + 1)) < B then complete F m a s' else received F B port tid m a (k + 1) t s'"
    "\<exists>q. (s' = TftpSend q \<or> s' = done_with (TftpSend q)) \<and> same_net q s \<and> timer_set q (net_time s) \<and>
       TftpState q = STATE_DATA \<and> TftpServerPort q = tid \<and> TftpOurPort q = port \<and>
       TftpBlock q = word_of_nat ((k + 1) mod 65536)"
    using tftp_data_next [OF r assms(2), of tail] k unfolding blocks_less [OF B] by blast
  have "arrive F B port tid (Next tail) k s = Some (k + 1, s')"
    unfolding arrive_def arrival.case TftpHandler_data [OF received_port [OF r] file_block_short [OF r]] s'(1) by simp
  with s'(2,3) show ?thesis unfolding blocks_last [OF B k] by blast
qed

lemma arrive_repeat:
  assumes r: "received F B port tid m a k t s" and k: "k mod 65536 \<noteq> 0"
  shows "\<exists>s'. arrive F B port tid (Repeat tail) k s = Some (k, s') \<and> received F B port tid m a k t s' \<and> same_net s' s"
proof -
  let ?L = "length (file_block F B k)" and ?b = "word_of_nat (k mod 65536) :: u32"
  have L: "?L < 65536" by (rule file_block_short [OF r])
  then have nl: "\<not> (word_of_nat (2 + ?L) :: u32) < 2"
    unfolding word_less_nat_alt by (subst unat_u32) simp_all
  have blk: "ucast (word_of_nat k :: u16) = ?b" by (simp only: ucast_unat unat_of_nat) simp
  have b0: "?b \<noteq> 0" using k by (subst word_of_nat_u32_0) (simp_all add: less_trans [OF mod_less_divisor])
  have s: "TftpState s = STATE_DATA" "TftpLastBlock s = ?b" using r k by (auto simp: received_def)
  obtain ms where p: "tftp_progress (s\<lparr>TftpBlock := ?b\<rparr>) = s\<lparr>TftpBlock := ?b, printed := ms\<rparr>"
  proof -
    have "tftp_progress (s\<lparr>TftpBlock := ?b\<rparr>)
      = s\<lparr>TftpBlock := ?b, printed := printed (tftp_progress (s\<lparr>TftpBlock := ?b\<rparr>))\<rparr>"
      using b0 by (cases s) (simp add: tftp_progress_def say_def)
    then show thesis by (rule that)
  qed
  let ?s = "s\<lparr>TftpBlock := ?b, printed := ms\<rparr>"
  have f: "tftp_first tid ?s = Inr ?s" "TftpBlock ?s = TftpLastBlock ?s" using s by (simp_all add: tftp_first_def)
  have "arrive F B port tid (Repeat tail) k s = Some (k, ?s)"
    by (simp only: arrive_def arrival.case TftpHandler_data [OF received_port [OF r] L] tftp_data_def Let_def
      ld16_le16_bytes ntohs_ntohs blk p f nl if_False if_True option.case sum.case option.map simp_thms)
  moreover have "received F B port tid m a k t ?s \<and> same_net ?s s"
    using r by (simp add: received_def same_net_def)
  ultimately show ?thesis by blast
qed

lemma arrive_expire:
  assumes "received F B port tid m a k t s" "t < 10"
  shows "\<exists>s'. arrive F B port tid Expire k s = Some (k, s') \<and> received F B port tid m a k (t + 1) s'"
  using assms by (simp add: arrive_def TftpTimeout_run_def Let_def received_def TIMEOUT_COUNT_def NetSetTimeout_def)

lemma arrive_stray:
  assumes "received F B port tid m a k t s" "dest \<noteq> port \<or> 0 < k \<and> src \<noteq> tid"
  shows "arrive F B port tid (Stray pkt dest src len) k s = Some (k, s)"
  using assms by (auto simp: arrive_def TftpHandler_run_def received_def)

lemma transfer_from:
  assumes "orderly (blocks F B) port tid k t es" "k < blocks F B" "received F B port tid m a k t s"
    and "unat a + length F < 2 ^ 32" "0 < B"
  shows "\<exists>s'. arrivals F B port tid es k s = Some (blocks F B, s') \<and> complete F m a s'"
  using assms(1-3)
proof (induction "blocks F B" port tid k t es arbitrary: s rule: orderly.induct)
  case (2 port tid k t tail es)
  obtain s' where s': "arrive F B port tid (Next tail) k s = Some (k + 1, s')"
      "if k + 1 = blocks F B then complete F m a s' else received F B port tid m a (k + 1) t s'"
    using arrive_next [OF 2(4) assms(4,5) 2(3)] by blast
  show ?case
  proof (cases "k + 1 = blocks F B")
    case True
    moreover have "es = []" using 2(2) True by (cases es; cases "hd es") auto
    ultimately show ?thesis using s' by simp
  next
    case False
    with 2 s' show ?thesis by (simp del: One_nat_def)
  qed
next
  case (3 port tid k t tail es)
  then show ?case using arrive_repeat [OF 3(4), of tail] by auto
next
  case (4 port tid k t es)
  then show ?case using arrive_expire [OF 4(4)] by auto
next
  case (5 port tid k t pkt dest src len es)
  then show ?case using arrive_stray [OF 5(4), of dest src pkt len] by auto
qed auto

section \<open>What the client promises\<close>

text \<open>The addresses are known, there is no VLAN, and the transmit buffer is there.\<close>

definition linked :: "tftp \<Rightarrow> bool" where
  "linked s \<longleftrightarrow> untagged s \<and> length (NetOurEther s) = 6 \<and> length (NetServerEther s) = 6 \<and>
     NetServerEther s \<noteq> NetEtherNullAddr \<and> NetServerIP s \<noteq> 0 \<and> NetServerIP s \<noteq> 0xFFFFFFFF \<and>
     length (NetTxPacket s) = PKTSIZE_ALIGN"

definition to_server :: "tftp \<Rightarrow> u32 \<Rightarrow> u32 \<Rightarrow> u8 list \<Rightarrow> u8 list" where
  "to_server s port tid payload =
     udp_frame s (NetServerEther s) (NetServerIP s) (ucast tid) (ucast port) payload"

lemma TftpSend_linked:
  assumes l: "linked s" and m: "length (tftp_message s) < 1400"
  shows "\<exists>c. length c = PKTSIZE_ALIGN \<and> TftpSend s = s\<lparr>NetTxPacket := c, NetIPID := NetIPID s + 1,
    eth_out := eth_out s @ [to_server s (TftpOurPort s) (TftpServerPort s) (tftp_message s)]\<rparr>"
proof -
  let ?m = "tftp_message s" and ?b = "blit (NetTxPacket s) (NetEthHdrSize s + IP_HDR_SIZE) (tftp_message s)"
  have u: "untagged s" using l by (simp add: linked_def)
  have b: "?b = blit (NetTxPacket s) 42 ?m" by (simp add: untagged_simps [OF u] IP_HDR_SIZE_def)
  have lb: "length (blit (NetTxPacket s) 42 ?m) = 1536"
    using l m by (simp add: linked_def PKTSIZE_ALIGN_def)
  have pay: "take (length ?m) (drop 42 (blit (NetTxPacket s) 42 ?m)) = ?m"
    using l m by (simp add: linked_def PKTSIZE_ALIGN_def blit_def)
  have mac: "mac_at ServerPtr s = NetServerEther s" by (simp add: mac_at_def)
  have "length ?m mod 2 \<le> 1" by simp
  then have "\<exists>c. length c = length (NetTxPacket (s\<lparr>NetTxPacket := ?b\<rparr>)) \<and>
    NetSendUDPPacket ServerPtr (NetServerIP s) (ucast (TftpServerPort s)) (ucast (TftpOurPort s)) (length ?m)
      (s\<lparr>NetTxPacket := ?b\<rparr>) =
    (0, (s\<lparr>NetTxPacket := ?b\<rparr>)\<lparr>NetTxPacket := c, NetIPID := NetIPID (s\<lparr>NetTxPacket := ?b\<rparr>) + 1,
        eth_out := eth_out (s\<lparr>NetTxPacket := ?b\<rparr>) @
          [udp_frame (s\<lparr>NetTxPacket := ?b\<rparr>) (mac_at ServerPtr (s\<lparr>NetTxPacket := ?b\<rparr>)) (NetServerIP s)
             (ucast (TftpServerPort s)) (ucast (TftpOurPort s)) ?m]\<rparr>)"
    unfolding b using l m lb pay mac
    by (intro NetSendUDPPacket_sends) (simp_all add: linked_def untagged_def mac_at_def)
  then obtain c where "length c = PKTSIZE_ALIGN" "snd (NetSendUDPPacket ServerPtr (NetServerIP s) (ucast (TftpServerPort s)) (ucast (TftpOurPort s))
      (length ?m) (s\<lparr>NetTxPacket := ?b\<rparr>)) = (s\<lparr>NetTxPacket := ?b\<rparr>)\<lparr>NetTxPacket := c, NetIPID := NetIPID s + 1,
        eth_out := eth_out s @
          [udp_frame (s\<lparr>NetTxPacket := ?b\<rparr>) (NetServerEther s) (NetServerIP s)
             (ucast (TftpServerPort s)) (ucast (TftpOurPort s)) ?m]\<rparr>"
    using lb b by (auto simp: mac_at_def PKTSIZE_ALIGN_def)
  moreover have "udp_frame (s\<lparr>NetTxPacket := ?b\<rparr>) (NetServerEther s) (NetServerIP s)
      (ucast (TftpServerPort s)) (ucast (TftpOurPort s)) ?m = to_server s (TftpOurPort s) (TftpServerPort s) ?m"
    by (simp add: to_server_def udp_frame_def ether_header_def ip_header_def udp_header_def)
  ultimately show ?thesis unfolding TftpSend_def Let_def by (intro exI [of _ c]) simp
qed

lemma TftpSend_out:
  assumes "linked s" "length (tftp_message s) < 1400"
  shows "eth_out (TftpSend s) = eth_out s @ [to_server s (TftpOurPort s) (TftpServerPort s) (tftp_message s)]"
  using TftpSend_linked [OF assms] by auto

text \<open>The acknowledgement of block \<open>k\<close>.\<close>

definition ack :: "nat \<Rightarrow> u8 list" where
  "ack k = le16_bytes (htons 4) @ le16_bytes (htons (word_of_nat k))"

lemma TftpSend_ack:
  assumes q: "same_net q s" and l: "linked s"
    and st: "TftpState q = STATE_DATA" "TftpServerPort q = tid" "TftpOurPort q = port" "TftpBlock q = word_of_nat (k mod 65536)"
  shows "eth_out (TftpSend q) = eth_out s @ [to_server s port tid (ack k)]"
proof -
  have "(ucast (word_of_nat (k mod 65536) :: u32) :: u16) = word_of_nat k"
    by (simp add: word_unat_eq_iff unsigned_ucast_eq unat_of_nat take_bit_eq_mod mod_mod_cancel)
  then have m: "tftp_message q = ack k" by (simp add: tftp_message_def st ack_def)
  have "linked q" using q l by (simp add: linked_def same_net_def untagged_def)
  from TftpSend_out [OF this] have "eth_out (TftpSend q) = eth_out q @ [to_server q port tid (ack k)]"
    by (simp add: m st ack_def)
  then show ?thesis using q
    by (simp add: same_net_def to_server_def udp_frame_def ether_header_def ip_header_def udp_header_def)
qed

text \<open>C8: Once the request is out, a file of any size that fits in memory arrives complete in an orderly transfer: between its blocks, which come in order, the timer may expire, ten times in all, the last block may be repeated as long as its 16-bit number is not 0, and packets may come for another port or, after the first block, from another one. The client ends in success with the file at the load address, no other memory changed, and its length as the transfer size, although block numbers have only 16 bits. The other cases are not withstood: the eleventh timeout starts the transfer again, and a repeated block with the number 0 shifts what follows.\<close>

theorem tftp_transfer:
  assumes "received F B port tid m a 0 0 s" and "0 < B" and "unat a + length F < 2 ^ 32"
    and "orderly (blocks F B) port tid 0 0 es"
  shows "\<exists>s'. arrivals F B port tid es 0 s = Some (blocks F B, s') \<and>
    NetState s' = NETLOOP_SUCCESS \<and> memory s' = overwrite m (unat a) F \<and>
    NetBootFileXferSize s' = word_of_nat (length F)"
  using transfer_from [OF assms(4) _ assms(1,3,2)] by (auto simp: blocks_def complete_def)

text \<open>C35: The client acknowledges each block exactly once: the next block is answered by one datagram to the server with its number, and a repeated block, unless its number is 0, is not answered at all.\<close>

theorem tftp_acknowledges:
  assumes r: "received F B port tid m a k t s" and l: "linked s"
    and "0 < B" and "unat a + length F < 2 ^ 32" and "k < blocks F B"
  shows "(\<exists>s'. arrive F B port tid (Next tail) k s = Some (k + 1, s') \<and>
      eth_out s' = eth_out s @ [to_server s port tid (ack (k + 1))]) \<and>
    (k mod 65536 \<noteq> 0 \<longrightarrow> (\<exists>s'. arrive F B port tid (Repeat tail) k s = Some (k, s') \<and> eth_out s' = eth_out s))"
proof
  show "\<exists>s'. arrive F B port tid (Next tail) k s = Some (k + 1, s') \<and>
      eth_out s' = eth_out s @ [to_server s port tid (ack (k + 1))]"
    using arrive_next [OF r assms(4,3,5), of tail] TftpSend_ack [OF _ l, of _ tid port "k + 1"]
    by (fastforce simp: done_with_def)
  show "k mod 65536 \<noteq> 0 \<longrightarrow> (\<exists>s'. arrive F B port tid (Repeat tail) k s = Some (k, s') \<and> eth_out s' = eth_out s)"
    using arrive_repeat [OF r, of tail] by (auto simp: same_net_def)
qed

section \<open>Negotiating the block size\<close>

definition oack_packet :: "u32 \<Rightarrow> u8 list" where
  "oack_packet n = le16_bytes (htons 6) @ ascii ''blksize'' @ [0] @ dec n @ [0]"

lemma equals_at_literal:
  "0 \<notin> set lit \<Longrightarrow> equals_at (pre @ lit @ 0 # rest) (length pre) lit = Some True"
proof (induction lit arbitrary: pre)
  case (Cons x lit)
  then show ?case using Cons.IH [of "pre @ [x]"] by (simp add: ld_def)
qed (simp add: ld_def)

lemma oack_loop_blksize:
  "oack_loop (ascii ''blksize'' @ [0] @ dec n @ 0 # tail) (9 + length (dec n)) 0 = Some (Some (ucast n))"
proof -
  let ?b = "ascii ''blksize'' @ 0 # dec n @ 0 # tail"
  have e: "equals_at ?b 0 (ascii ''blksize'') = Some True"
    using equals_at_literal [of "ascii ''blksize''" "[]"] by (simp add: ascii_def)
  have "drop (0 + 8) ?b = dec n @ 0 # tail" by (simp add: ascii_def)
  then have "simple_strtoul (drop (0 + 8) ?b) 10 = (n, 0 # tail)" using strtoul_dec [of "0 # tail" n] by simp
  with e show ?thesis by (subst oack_loop.simps) simp
qed

lemma length_dec_u32: "length (dec n) \<le> 10"
proof -
  have "unat n < 10 ^ 10" using unsigned_less [of n, where 'a = nat] by simp
  then show ?thesis using length_digit_loop_base [of n 10 10] by (simp add: dec_def)
qed

lemma TftpHandler_oack:
  assumes "TftpOurPort s = port" "TftpState s = STATE_RRQ \<or> TftpServerPort s = tid"
  shows "TftpHandler_run (oack_packet n @ tail) port tid (word_of_nat (length (oack_packet n))) s =
    Some (TftpSend (s\<lparr>TftpState := STATE_OACK, TftpServerPort := tid, TftpBlkSize := ucast n\<rparr>))"
proof -
  let ?L = "9 + length (dec n)"
  have l: "length (oack_packet n) = 2 + ?L" by (simp add: oack_packet_def ascii_def)
  have nl: "\<not> (word_of_nat (2 + ?L) :: u32) < 2"
    using length_dec_u32 [of n] unfolding word_less_nat_alt by (subst unat_u32) simp_all
  have d: "(word_of_nat (2 + ?L) :: u32) - 2 = word_of_nat ?L" by simp
  have u: "unat (word_of_nat ?L :: u32) = ?L" using length_dec_u32 [of n] by (intro unat_u32) simp
  have p: "oack_packet n @ tail = le16_bytes (htons 6) @ (ascii ''blksize'' @ [0] @ dec n @ 0 # tail)"
    by (simp add: oack_packet_def)
  have "TftpHandler_run (oack_packet n @ tail) port tid (word_of_nat (length (oack_packet n))) s =
      tftp_oack (ascii ''blksize'' @ [0] @ dec n @ 0 # tail) tid (word_of_nat ?L) s"
    unfolding TftpHandler_run_def l p Let_def d using assms(1,2) nl by (auto simp: ld16_le16_bytes)
  also have "\<dots> = Some (TftpSend (s\<lparr>TftpState := STATE_OACK, TftpServerPort := tid, TftpBlkSize := ucast n\<rparr>))"
    unfolding tftp_oack_def Let_def u oack_loop_blksize by simp
  finally show ?thesis .
qed

text \<open>A server that acknowledges the \<open>blksize\<close> option gets acknowledgement 0, and the transfer goes on with the size it states, read back from its decimal text.\<close>

theorem tftp_negotiates:
  assumes r: "received F B port tid m a 0 t s" and l: "linked s" and z: "TftpBlock s = 0" and n: "n < 65536"
  shows "\<exists>s'. TftpHandler_run (oack_packet (word_of_nat n) @ tail) port tid
      (word_of_nat (length (oack_packet (word_of_nat n)))) s = Some s' \<and>
    received F n port tid m a 0 t s' \<and> eth_out s' = eth_out s @ [to_server s port tid (ack 0)]"
proof -
  let ?q = "s\<lparr>TftpState := STATE_OACK, TftpServerPort := tid, TftpBlkSize := ucast (word_of_nat n :: u32)\<rparr>"
  note run = TftpHandler_oack [OF received_port [OF r], of "word_of_nat n" tail]
  have b: "unat (ucast (word_of_nat n :: u32) :: u16) = n"
    using n by (simp add: unsigned_ucast_eq unat_of_nat take_bit_nat_eq_self)
  have m: "tftp_message ?q = ack 0" using z by (simp add: tftp_message_def ack_def)
  have "linked ?q" using l by (simp add: linked_def untagged_def)
  from TftpSend_out [OF this] have "eth_out (TftpSend ?q) = eth_out s @ [to_server s port tid (ack 0)]"
    using r unfolding m
    by (simp add: ack_def received_def to_server_def udp_frame_def ether_header_def ip_header_def udp_header_def)
  moreover have "received F n port tid m a 0 t (TftpSend ?q)" using r b by (simp add: received_def)
  ultimately show ?thesis using run by blast
qed

lemma frame_BlkSize [simp]:
  "TftpBlkSize (tftp_progress s) = TftpBlkSize s" "NetState (tftp_progress s) = NetState s"
  by (simp_all add: tftp_progress_def Let_def)

lemma NetStartAgain_BlkSize:
  "TftpBlkSize (NetStartAgain s) = TftpBlkSize s"
  "NetState s \<noteq> NETLOOP_SUCCESS \<Longrightarrow> NetState (NetStartAgain s) \<noteq> NETLOOP_SUCCESS"
  by (simp_all add: NetStartAgain_def NetSetHandler_def NetSetTimeout_def eth_halt_def)

lemma store_block_BlkSize:
  "store_block b pkt off len s = Some s' \<Longrightarrow> TftpBlkSize s' = TftpBlkSize s \<and> NetState s' = NetState s"
  by (auto simp: store_block_def Let_def split: if_splits)

lemma tftp_first_BlkSize:
  "tftp_first src s = Inl s' \<or> tftp_first src s = Inr s' \<Longrightarrow> NetState s \<noteq> NETLOOP_SUCCESS \<Longrightarrow>
   TftpBlkSize s' = TftpBlkSize s \<and> NetState s' \<noteq> NETLOOP_SUCCESS"
  by (auto simp: tftp_first_def Let_def NetStartAgain_BlkSize split: if_splits)

lemma tftp_data_zero:
  assumes "TftpBlkSize q = 0" "NetState q \<noteq> NETLOOP_SUCCESS" "tftp_data pkt src len q = Some q'"
  shows "TftpBlkSize q' = 0 \<and> NetState q' \<noteq> NETLOOP_SUCCESS"
  using assms
  by (auto simp: tftp_data_def Let_def NetSetTimeout_def split: if_splits option.splits sum.splits
      dest!: store_block_BlkSize tftp_first_BlkSize [OF disjI1] tftp_first_BlkSize [OF disjI2])

text \<open>The client accepts a block size of 0 as well; from then on no data packet ever completes the transfer, whose end is a block shorter than that.\<close>

theorem tftp_zero_blksize:
  assumes r: "received F B port tid m a 0 t s"
  shows "(\<exists>s'. TftpHandler_run (oack_packet 0 @ tail) port tid (word_of_nat (length (oack_packet 0))) s = Some s' \<and>
      TftpBlkSize s' = 0 \<and> NetState s' = NETLOOP_CONTINUE) \<and>
    (\<forall>q pkt src len q'. TftpBlkSize q = 0 \<longrightarrow> NetState q = NETLOOP_CONTINUE \<longrightarrow> tftp_data pkt src len q = Some q' \<longrightarrow>
      TftpBlkSize q' = 0 \<and> NetState q' \<noteq> NETLOOP_SUCCESS)"
  using TftpHandler_oack [OF received_port [OF r], of 0 tail] r
  by (auto simp: received_def dest!: tftp_data_zero [rotated 2])

section \<open>Where the transfer goes wrong\<close>

text \<open>Ten timeouts are the limit of the whole transfer, not of one block: after the tenth the next one starts everything again, however many blocks have arrived in between.\<close>

theorem tftp_timeouts_add_up:
  assumes "received F B port tid m a k 10 s" and "net_vars s (ascii ''netretry'') \<noteq> Some (ascii ''no'')"
  shows "\<exists>s'. arrive F B port tid Expire k s = Some (k, s') \<and>
    packetHandler s' = Some startAgainHandler \<and> timeHandler s' = Some startAgainTimeout"
  using assms by (simp add: arrive_def TftpTimeout_run_def Let_def received_def TIMEOUT_COUNT_def NetStartAgain_def
      NetSetHandler_def NetSetTimeout_def CFG_HZ_def)

lemma tftp_data_at_wrap:
  assumes "TftpState s = STATE_DATA" "TftpLastBlock s = 0" "TftpOurPort s = port" "TftpServerPort s = tid"
    and k: "k mod 65536 = 0" and off: "TftpBlockWrapOffset s = off" and L: "length (file_block F B (k + 1)) < 65536"
  shows "\<exists>s'. arrive F B port tid (Next tail) k s = Some (k + 1, s') \<and>
    memory s' = overwrite (memory s) (unat (load_addr s + off)) (file_block F B (k + 1))"
proof -
  let ?L = "length (file_block F B (k + 1))"
  let ?pkt = "le16_bytes (htons (word_of_nat (k + 1))) @ file_block F B (k + 1) @ tail"
  have nl: "\<not> (word_of_nat (2 + ?L) :: u32) < 2"
    using L unfolding word_less_nat_alt by (subst unat_u32) simp_all
  have len: "(word_of_nat (2 + ?L) :: u32) - 2 = word_of_nat ?L" by simp
  have "(k + 1) mod 65536 = 1" using k by (simp add: mod_Suc)
  then have blk: "ucast (word_of_nat (k + 1) :: u16) = (1 :: u32)"
    by (simp only: ucast_unat unat_of_nat) simp
  let ?s1 = "tftp_progress (s\<lparr>TftpBlock := 1\<rparr>)"
  have f: "tftp_first tid ?s1 = Inr ?s1" "TftpBlock ?s1 \<noteq> TftpLastBlock ?s1"
    using assms by (simp_all add: tftp_first_def tftp_progress_def say_def Let_def)
  let ?s2 = "NetSetTimeout (TIMEOUT * CFG_HZ) TftpTimeout (?s1\<lparr>TftpLastBlock := TftpBlock ?s1\<rparr>)"
  have s2: "memory ?s2 = memory s" "load_addr ?s2 = load_addr s" "(TftpBlock ?s2 - 1) * ucast (TftpBlkSize ?s2) + TftpBlockWrapOffset ?s2 = off"
    using off by (simp_all add: NetSetTimeout_def tftp_progress_def say_def Let_def)
  have u: "unat (word_of_nat ?L :: u32) = ?L" using L by (intro unat_u32) simp
  obtain s3 where s3: "store_block (TftpBlock ?s2 - 1) ?pkt 2 (word_of_nat ?L) ?s2 = Some s3"
      "memory s3 = overwrite (memory s) (unat (load_addr s + off)) (file_block F B (k + 1))"
    unfolding store_block_def Let_def s2 u by (simp split: if_splits)
  let ?s5 = "if (word_of_nat ?L :: u32) < ucast (TftpBlkSize (TftpSend s3))
    then (say (Puts (nl @ ''done'' @ nl)) (TftpSend s3))\<lparr>NetState := NETLOOP_SUCCESS\<rparr> else TftpSend s3"
  have "arrive F B port tid (Next tail) k s = Some (k + 1, ?s5)"
    by (simp only: arrive_def arrival.case TftpHandler_data [OF assms(3) disjI2, OF assms(4) L] tftp_data_def Let_def
      len ld16_le16_bytes ntohs_ntohs blk nl if_False option.case f sum.case s3 option.map)
  then show ?thesis using s3(2) by auto
qed

text \<open>A block whose number has wrapped to 0 that arrives once more is counted as another wrap before it is recognised as a repetition: the next block is then stored 65536 blocks beyond its place.\<close>

theorem tftp_repeated_wrap:
  assumes r: "received F B port tid m a k t s" and k: "k mod 65536 = 0" "0 < k"
  shows "\<exists>s1 s2. arrive F B port tid (Repeat tail) k s = Some (k, s1) \<and>
    arrive F B port tid (Next tail') k s1 = Some (k + 1, s2) \<and>
    memory s2 = overwrite (memory s) (unat (a + word_of_nat ((k + 65536) * B))) (file_block F B (k + 1))"
proof -
  let ?L = "length (file_block F B k)" and ?q = "tftp_progress (s\<lparr>TftpBlock := 0\<rparr>)"
  have L: "length (file_block F B j) < 65536" for j by (rule file_block_short [OF r])
  have nl: "\<not> (word_of_nat (2 + ?L) :: u32) < 2"
    using L [of k] unfolding word_less_nat_alt by (subst unat_u32) simp_all
  have blk: "ucast (word_of_nat k :: u16) = (0 :: u32)"
    using k(1) by (simp only: ucast_unat unat_of_nat) simp
  have s: "TftpState s = STATE_DATA" "TftpLastBlock s = 0" "TftpServerPort s = tid" "TftpOurPort s = port" "load_addr s = a"
      "TftpBlockWrapOffset s = word_of_nat (k div 65536 * 65536 * B)" "unat (TftpBlkSize s) = B"
    using r k by (auto simp: received_def)
  have f: "tftp_first tid ?q = Inr ?q" "TftpBlock ?q = TftpLastBlock ?q"
    using s by (simp_all add: tftp_first_def tftp_progress_def say_def Let_def)
  have 1: "arrive F B port tid (Repeat tail) k s = Some (k, ?q)"
    by (simp only: arrive_def arrival.case TftpHandler_data [OF received_port [OF r] L] tftp_data_def Let_def
      ld16_le16_bytes ntohs_ntohs blk f nl if_False if_True option.case sum.case option.map simp_thms)
  have "k div 65536 * 65536 = k" using k(1) by (simp add: dvd_eq_mod_eq_0 [symmetric])
  then have off: "TftpBlockWrapOffset ?q = word_of_nat ((k + 65536) * B)"
    using s(6) ucast_unat [of "TftpBlkSize s"] s(7)
    by (simp add: tftp_progress_def say_def Let_def TFTP_SEQUENCE_SIZE_def algebra_simps)
  have q: "TftpState ?q = STATE_DATA" "TftpLastBlock ?q = 0" "TftpOurPort ?q = port" "TftpServerPort ?q = tid"
      "memory ?q = memory s" "load_addr ?q = a"
    using s by (simp_all add: tftp_progress_def say_def Let_def)
  show ?thesis using 1 tftp_data_at_wrap [OF q(1-4) k(1) off L [of "k + 1"], of tail'] unfolding q by blast
qed

section \<open>Concrete runs\<close>

definition tftp_reset :: tftp where
  "tftp_reset = net.extend (net_reset\<lparr>NetOurIP := 0x0A00A8C0, NetServerIP := 0x0100A8C0, NetServerEther := [2, 0, 0, 0, 0, 1]\<rparr>)
     (tftp.fields [0x75] 0 0x84000000 (\<lambda>_. 0) [0x75] 69 1024 0 0 0 0 0 STATE_RRQ 2)"

lemma received_reset: "received F 2 1024 tid (\<lambda>_. 0) 0x84000000 0 0 tftp_reset"
  by (simp add: received_def tftp_reset_def tftp.defs net.defs net_reset_def)

lemma six_zeros: "replicate 6 (0 :: u8) = [0, 0, 0, 0, 0, 0]"
  by (simp add: numeral_eq_Suc)

lemma linked_reset: "linked tftp_reset"
  by (simp add: six_zeros linked_def tftp_reset_def tftp.defs net.defs net_reset_def untagged_def NetEtherNullAddr_def PKTSIZE_ALIGN_def)

theorem tftp_transfer_witness:
  "\<exists>s'. arrivals [7, 8, 9] 2 1024 1069 [Expire, Next [0], Repeat [], Stray [] 1024 70 0, Expire, Next []] 0 tftp_reset
       = Some (blocks [7, 8, 9 :: u8] 2, s') \<and>
    NetState s' = NETLOOP_SUCCESS \<and> memory s' = overwrite (\<lambda>_. 0) (unat (0x84000000 :: u32)) [7, 8, 9] \<and>
    NetBootFileXferSize s' = word_of_nat (length [7, 8, 9 :: u8])"
  by (rule tftp_transfer [OF received_reset]) (simp_all add: blocks_def)

text \<open>The same client between two blocks, after one block and after 65536.\<close>

definition tftp_between :: "u8 list \<Rightarrow> nat \<Rightarrow> int \<Rightarrow> tftp" where
  "tftp_between F k t = tftp_reset\<lparr>memory := overwrite (\<lambda>_. 0) 0x84000000 (take (k * 2) F),
     NetBootFileXferSize := word_of_nat (k * 2), TftpTimeoutCount := t, TftpState := STATE_DATA, TftpServerPort := 1069,
     TftpLastBlock := word_of_nat (k mod 65536), TftpBlockWrapOffset := word_of_nat (k div 65536 * 65536 * 2)\<rparr>"

lemma received_between:
  "0 < k \<Longrightarrow> received F 2 1024 1069 (\<lambda>_. 0) 0x84000000 k t (tftp_between F k (int t))"
  by (simp add: received_def tftp_between_def tftp_reset_def tftp.defs net.defs net_reset_def)

lemma linked_between: "linked (tftp_between F k t)"
  using linked_reset by (simp add: linked_def tftp_between_def untagged_def)

theorem tftp_acknowledges_witness:
  "(\<exists>s'. arrive [7, 8, 9] 2 1024 1069 (Next []) 1 (tftp_between [7, 8, 9] 1 (int 0)) = Some (1 + 1, s') \<and>
      eth_out s' = eth_out (tftp_between [7, 8, 9] 1 (int 0)) @
        [to_server (tftp_between [7, 8, 9] 1 (int 0)) 1024 1069 (ack (1 + 1))]) \<and>
   (\<exists>s'. arrive [7, 8, 9] 2 1024 1069 (Repeat []) 1 (tftp_between [7, 8, 9] 1 (int 0)) = Some (1, s') \<and>
      eth_out s' = eth_out (tftp_between [7, 8, 9] 1 (int 0)))"
  using tftp_acknowledges [OF received_between [of 1 "[7, 8, 9]" 0] linked_between, of "[]"]
  by (simp add: blocks_def)

theorem tftp_negotiates_witness:
  "\<exists>s'. TftpHandler_run (oack_packet (word_of_nat 1468) @ []) 1024 1069
      (word_of_nat (length (oack_packet (word_of_nat 1468)))) tftp_reset = Some s' \<and>
    received [7, 8, 9] 1468 1024 1069 (\<lambda>_. 0) 0x84000000 0 0 s' \<and>
    eth_out s' = eth_out tftp_reset @ [to_server tftp_reset 1024 1069 (ack 0)]"
  by (rule tftp_negotiates [OF received_reset linked_reset])
    (simp_all add: tftp_reset_def tftp.defs net.defs)

theorem tftp_zero_blksize_witness:
  "\<exists>s'. TftpHandler_run (oack_packet 0 @ []) 1024 1069 (word_of_nat (length (oack_packet 0))) tftp_reset = Some s' \<and>
    TftpBlkSize s' = 0 \<and> NetState s' = NETLOOP_CONTINUE"
  using tftp_zero_blksize [OF received_reset, of "[]" 1069] by blast

theorem tftp_timeouts_add_up_witness:
  "\<exists>s'. arrive [7, 8, 9] 2 1024 1069 Expire 1 (tftp_between [7, 8, 9] 1 (int 10)) = Some (1, s') \<and>
    packetHandler s' = Some startAgainHandler \<and> timeHandler s' = Some startAgainTimeout"
  by (rule tftp_timeouts_add_up [OF received_between])
    (simp_all add: tftp_between_def tftp_reset_def tftp.defs net.defs net_reset_def)

theorem tftp_repeated_wrap_witness:
  "\<exists>s1 s2. arrive (replicate 131074 5) 2 1024 1069 (Repeat []) 65536 (tftp_between (replicate 131074 5) 65536 (int 0))
      = Some (65536, s1) \<and>
    arrive (replicate 131074 5) 2 1024 1069 (Next []) 65536 s1 = Some (65536 + 1, s2) \<and>
    memory s2 = overwrite (memory (tftp_between (replicate 131074 5) 65536 (int 0)))
      (unat (0x84000000 + word_of_nat ((65536 + 65536) * 2) :: u32)) (file_block (replicate 131074 5) 2 (65536 + 1))"
  by (rule tftp_repeated_wrap [OF received_between]) simp_all

end
