(* ===== verification/NetLoop.thy ===== *)
theory NetLoop
  imports Tftp
begin

text \<open>
  The receiving half of \<open>net/net.c\<close> and its main loop: \<open>NetReceive\<close> takes a frame apart, answers
  ARP requests and pings, and hands datagrams to the current handler; \<open>NetLoop\<close> runs a protocol,
  here TFTP or ping, until it ends. A received frame is the list of the bytes of its buffer, which
  has \<open>PKTSIZE_ALIGN\<close> of them whatever the length of the frame. What the loop meets in one turn (the
  frames that have arrived, the abort key, the time) is a list of turns. A load outside of the
  buffer, and a call through a null pointer, is undefined: \<open>None\<close>.
\<close>

section \<open>Receiving\<close>

text \<open>\<open>(*packetHandler)(pkt, dest, src, len)\<close>\<close>

definition run_handler :: "u8 list \<Rightarrow> u32 \<Rightarrow> u32 \<Rightarrow> u32 \<Rightarrow> tftp \<Rightarrow> tftp option" where
  "run_handler pkt dest src len s =
     (case packetHandler s of
        None \<Rightarrow> None
      | Some startAgainHandler \<Rightarrow> Some s
      | Some PingHandler \<Rightarrow> PingHandler_run pkt s
      | Some TftpHandler \<Rightarrow> TftpHandler_run pkt dest src len s)"

text \<open>The protocol of a frame, where its packet starts and how long it is, and the VLAN it came on.\<close>

definition ether_protocol :: "tftp \<Rightarrow> u8 list \<Rightarrow> int \<Rightarrow> (u16 \<times> nat \<times> int \<times> u16) option" where
  "ether_protocol s et len =
     (if len < int ETHER_HDR_SIZE then None
      else
        let x = ntohs (le16 et 12) in
        if x < 1514 then Some (ntohs (le16 et 20), E802_HDR_SIZE, len - int E802_HDR_SIZE, VLAN_NONE)
        else if x \<noteq> PROT_VLAN then Some (x, ETHER_HDR_SIZE, len - int ETHER_HDR_SIZE, VLAN_NONE)
        else if len < int VLAN_ETHER_HDR_SIZE then None
        else if ntohs (NetOurVLAN s) AND VLAN_IDMASK = VLAN_NONE then None
        else Some (ntohs (le16 et 16), VLAN_ETHER_HDR_SIZE, len - int VLAN_ETHER_HDR_SIZE,
                   ntohs (le16 et 14) AND VLAN_IDMASK))"

definition vlan_accepts :: "tftp \<Rightarrow> u16 \<Rightarrow> bool" where
  "vlan_accepts s vlanid \<longleftrightarrow>
     (let my = myvlanid (NetOurVLAN s) AND VLAN_IDMASK;
          native = myvlanid (NetOurNativeVLAN s) AND VLAN_IDMASK
      in my \<noteq> VLAN_NONE \<longrightarrow> (if vlanid = VLAN_NONE then native else vlanid) = my)"

text \<open>An ARP packet at offset \<open>p\<close> of the frame: \<open>ar_data\<close> is at \<open>p + 8\<close>.\<close>

definition arp_answer :: "u8 list \<Rightarrow> nat \<Rightarrow> tftp \<Rightarrow> tftp" where
  "arp_answer et p s =
     (let (b, n) = NetSetEther s et (take 6 (drop 6 et)) PROT_ARP;
          b = blit b (p + 6) (le16_bytes (htons 2));
          b = blit b (p + 18) (take 6 (drop (p + 8) b));
          b = blit b (p + 24) (take 4 (drop (p + 14) b));
          b = blit b (p + 8) (NetOurEther s);
          b = blit b (p + 14) (le32_bytes (NetOurIP s))
      in eth_send (take (n + ARP_HDR_SIZE) b) s)"

definition arp_reply :: "u8 list \<Rightarrow> nat \<Rightarrow> tftp \<Rightarrow> tftp" where
  "arp_reply et p s =
     (case NetArpWaitPacketMAC s of
        None \<Rightarrow> s
      | Some m \<Rightarrow>
          if NetArpWaitPacketIP s = 0 then s
          else if le32 et (p + 14) = NetArpWaitReplyIP s then
            let s = set_mac m (take 6 (drop (p + 8) et)) s;
                b = blit (NetArpWaitTxPacket s) 0 (mac_at m s);
                s = eth_send (take (NetArpWaitTxPacketSize s) b) (s\<lparr>NetArpWaitTxPacket := b\<rparr>)
            in s\<lparr>NetArpWaitPacketIP := 0, NetArpWaitTxPacketSize := 0, NetArpWaitPacketMAC := None\<rparr>
          else s)"

definition bad_length :: "int \<Rightarrow> nat \<Rightarrow> tftp \<Rightarrow> tftp" where
  "bad_length len n s = say (Printf (''bad length %d < %d'' @ nl) [Word (word_of_int len), Word (word_of_nat n)]) s"

definition receive_arp :: "u8 list \<Rightarrow> nat \<Rightarrow> int \<Rightarrow> tftp \<Rightarrow> tftp" where
  "receive_arp et p len s =
     (if len < int ARP_HDR_SIZE then bad_length len ARP_HDR_SIZE s
      else if ntohs (le16 et p) \<noteq> 1 then s
      else if ntohs (le16 et (p + 2)) \<noteq> PROT_IP then s
      else if et ! (p + 4) \<noteq> 6 then s
      else if et ! (p + 5) \<noteq> 4 then s
      else if NetOurIP s = 0 then s
      else if le32 et (p + 24) \<noteq> NetOurIP s then s
      else if ntohs (le16 et (p + 6)) = 1 then arp_answer et p s
      else if ntohs (le16 et (p + 6)) = 2 then arp_reply et p s
      else s)"

definition receive_rarp :: "u8 list \<Rightarrow> nat \<Rightarrow> int \<Rightarrow> tftp \<Rightarrow> tftp option" where
  "receive_rarp et p len s =
     (if len < int ARP_HDR_SIZE then Some (bad_length len ARP_HDR_SIZE s)
      else if ntohs (le16 et (p + 6)) \<noteq> 4 \<or> ntohs (le16 et p) \<noteq> 1 \<or> ntohs (le16 et (p + 2)) \<noteq> PROT_IP
              \<or> et ! (p + 4) \<noteq> 6 \<or> et ! (p + 5) \<noteq> 4
      then Some (say (Puts (''invalid RARP header'' @ nl)) s)
      else
        let s = s\<lparr>NetOurIP := le32 et (p + 24)\<rparr>;
            s = (if NetServerIP s = 0 then s\<lparr>NetServerIP := le32 et (p + 14)\<rparr> else s);
            s = s\<lparr>NetServerEther := take 6 (drop (p + 8) et)\<rparr>
        in run_handler [] 0 0 0 s)"

text \<open>A ping from outside is turned round in its buffer and sent back.\<close>

definition echo_reply :: "u8 list \<Rightarrow> nat \<Rightarrow> int \<Rightarrow> tftp \<Rightarrow> tftp option" where
  "echo_reply et p len s =
     (let b = blit et 0 (take 6 (drop 6 et));
          b = blit b 6 (NetOurEther s);
          b = blit b (p + 10) (le16_bytes 0);
          b = blit b (p + 6) (le16_bytes 0);
          b = blit b (p + 16) (take 4 (drop (p + 12) b));
          b = blit b (p + 12) (le32_bytes (NetOurIP s));
          b = blit b (p + 10) (le16_bytes (NOT (ucast (NetCksum b p (IP_HDR_SIZE_NO_UDP div 2)))));
          b = poke b (p + 20) 0;
          b = blit b (p + 22) (le16_bytes 0);
          n = unat (drop_bit 1 (word_of_int len - word_of_nat IP_HDR_SIZE_NO_UDP :: u32))
      in if length b < p + 20 + 2 * n then None
         else
           let b = blit b (p + 22) (le16_bytes (NOT (ucast (NetCksum b (p + 20) n))))
           in Some (eth_send (take (ETHER_HDR_SIZE + nat len) b) s))"

definition receive_icmp :: "u8 list \<Rightarrow> nat \<Rightarrow> int \<Rightarrow> tftp \<Rightarrow> tftp option" where
  "receive_icmp et p len s =
     (if et ! (p + 20) = 5 then
        if et ! (p + 21) \<noteq> 1 then Some s
        else Some (say (Puts '' '') (print_IPaddr (le32 et (p + 24)) (say (Puts '' ICMP Host Redirect to '') s)))
      else if et ! (p + 20) = 0 then run_handler (drop p et) 0 0 0 s
      else if et ! (p + 20) = 8 then echo_reply et p len s
      else Some s)"

text \<open>\<open>sizeof\<close> makes the first comparison one of unsigned numbers.\<close>

definition receive_ip :: "u8 list \<Rightarrow> nat \<Rightarrow> int \<Rightarrow> tftp \<Rightarrow> tftp option" where
  "receive_ip et p len s =
     (if (word_of_int len :: u32) < word_of_nat IP_HDR_SIZE then Some s
      else
        let ip_len = uint (ntohs (le16 et (p + 2))) in
        if len < ip_len
        then Some (say (Printf (''len bad %d < %d'' @ nl) [Word (word_of_int len), Word (word_of_int ip_len)]) s)
        else
          let len = ip_len in
          if et ! p AND 0xf0 \<noteq> 0x40 then Some s
          else if le16 et (p + 6) AND htons 0x1fff \<noteq> 0 then Some s
          else if \<not> NetCksumOk et p (IP_HDR_SIZE_NO_UDP div 2) then Some (say (Puts (''checksum bad'' @ nl)) s)
          else if NetOurIP s \<noteq> 0 \<and> le32 et (p + 16) \<noteq> NetOurIP s \<and> le32 et (p + 16) \<noteq> 0xFFFFFFFF then Some s
          else if et ! (p + 9) = 1 then receive_icmp et p len s
          else if et ! (p + 9) \<noteq> 17 then Some s
          else run_handler (drop (p + IP_HDR_SIZE) et) (ucast (ntohs (le16 et (p + 22))))
                 (ucast (ntohs (le16 et (p + 20)))) (ucast (ntohs (le16 et (p + 24))) - 8) s)"

definition NetReceive :: "u8 list \<Rightarrow> int \<Rightarrow> tftp \<Rightarrow> tftp option" where
  "NetReceive inpkt len s =
     (case ether_protocol s inpkt len of
        None \<Rightarrow> Some s
      | Some (x, p, len, vlanid) \<Rightarrow>
          if \<not> vlan_accepts s vlanid then Some s
          else if x = PROT_ARP then Some (receive_arp inpkt p len s)
          else if x = PROT_RARP then receive_rarp inpkt p len s
          else if x = PROT_IP then receive_ip inpkt p len s
          else Some s)"

section \<open>The main loop\<close>

datatype proto = TFTP | PING

definition net_check_prereq :: "proto \<Rightarrow> tftp \<Rightarrow> int \<times> tftp" where
  "net_check_prereq protocol s =
     (if protocol = PING \<and> NetPingIP s = 0 then (1, say (Puts (''*** ERROR: ping address not given'' @ nl)) s)
      else if protocol = TFTP \<and> NetServerIP s = 0 then (1, say (Puts (''*** ERROR: `serverip'' @ [CHR 0x27] @ '' not set'' @ nl)) s)
      else if NetOurIP s = 0 then (1, say (Puts (''*** ERROR: `ipaddr'' @ [CHR 0x27] @ '' not set'' @ nl)) s)
      else if NetOurEther s = NetEtherNullAddr then (1, say (Puts (''*** ERROR: `ethaddr'' @ [CHR 0x27] @ '' not set'' @ nl)) s)
      else (0, s))"

text \<open>From \<open>restart\<close> to the loop: the addresses of the board information and the environment.\<close>

definition net_begin :: "proto \<Rightarrow> u8 list \<Rightarrow> u32 \<Rightarrow> tftp \<Rightarrow> int \<times> tftp" where
  "net_begin protocol mac our_ip s =
     (let s = s\<lparr>NetOurEther := mac, NetState := NETLOOP_CONTINUE, NetOurIP := our_ip,
                NetOurGatewayIP := getenv_IPaddr ''gatewayip'' s, NetOurSubnetMask := getenv_IPaddr ''netmask'' s,
                NetOurVLAN := getenv_VLAN ''vlan'' s, NetOurNativeVLAN := getenv_VLAN ''nvlan'' s\<rparr>;
          s = (if protocol = TFTP then s\<lparr>NetServerIP := getenv_IPaddr ''serverip'' s\<rparr> else s);
          (bad, s) = net_check_prereq protocol s
      in if bad = 1 then (- 1, eth_halt s)
         else (0, (case protocol of TFTP \<Rightarrow> TftpStart s | PING \<Rightarrow> PingStart s)\<lparr>NetBootFileXferSize := 0\<rparr>))"

definition run_timeout :: "thand \<Rightarrow> tftp \<Rightarrow> tftp" where
  "run_timeout f s =
     (case f of startAgainTimeout \<Rightarrow> startAgainTimeout_run s | PingTimeout \<Rightarrow> PingTimeout_run s
      | TftpTimeout \<Rightarrow> TftpTimeout_run s)"

definition check_timeout :: "tftp \<Rightarrow> tftp" where
  "check_timeout s =
     (case timeHandler s of
        None \<Rightarrow> s
      | Some f \<Rightarrow> if net_time s - timeStart s > timeDelta s then run_timeout f (s\<lparr>timeHandler := None\<rparr>) else s)"

text \<open>The end of a transfer: the size and the address of the file become variables.\<close>

definition net_success :: "tftp \<Rightarrow> tftp" where
  "net_success s =
     eth_halt
       (if NetBootFileXferSize s > 0 then
          let n = NetBootFileXferSize s;
              s = say (Printf (''Bytes transferred = %ld (%lx hex)'' @ nl) [Word n, Word n]) s
          in s\<lparr>net_vars := (net_vars s)(ascii ''filesize'' \<mapsto> text_of ''%lX'' [Word n],
                                     ascii ''fileaddr'' \<mapsto> text_of ''%lX'' [Word (load_addr s)])\<rparr>
        else s)"

text \<open>One turn of the loop: the frames \<open>eth_rx\<close> delivers, the abort key, the time.\<close>

record turn =
  frames :: "(u8 list \<times> int) list"
  abort_key :: bool
  clock :: u32

fun receive_all :: "(u8 list \<times> int) list \<Rightarrow> tftp \<Rightarrow> tftp option" where
  "receive_all [] s = Some s"
| "receive_all ((pkt, len) # fs) s = Option.bind (NetReceive pkt len s) (receive_all fs)"

datatype outcome = Returned int tftp | Waiting tftp | Fault

fun net_turns :: "proto \<Rightarrow> u8 list \<Rightarrow> u32 \<Rightarrow> turn list \<Rightarrow> tftp \<Rightarrow> outcome" where
  "net_turns protocol ether ip [] s = Waiting s"
| "net_turns protocol ether ip (t # ts) s =
     (case receive_all (frames t) (s\<lparr>net_time := clock t\<rparr>) of
        None \<Rightarrow> Fault
      | Some s \<Rightarrow>
          if abort_key t then Returned (- 1) (say (Puts (nl @ ''Abort'' @ nl)) (eth_halt s))
          else
            let s = check_timeout (ArpTimeoutCheck s) in
            (case NetState s of
               NETLOOP_RESTART \<Rightarrow>
                 (case net_begin protocol ether ip s of (r, s) \<Rightarrow>
                    if r < 0 then Returned (- 1) s else net_turns protocol ether ip ts s)
             | NETLOOP_SUCCESS \<Rightarrow> Returned (sint (NetBootFileXferSize s)) (net_success s)
             | NETLOOP_FAIL \<Rightarrow> Returned (- 1) s
             | NETLOOP_CONTINUE \<Rightarrow> net_turns protocol ether ip ts s))"

definition NetLoop :: "proto \<Rightarrow> u8 list \<Rightarrow> u32 \<Rightarrow> bool \<Rightarrow> turn list \<Rightarrow> tftp \<Rightarrow> outcome" where
  "NetLoop protocol ether ip init_ok ts s =
     (let s = s\<lparr>NetArpWaitPacketMAC := None, NetArpWaitPacketIP := 0, NetArpWaitReplyIP := 0,
                NetArpWaitTxPacketSize := 0\<rparr>;
          s = eth_halt s
      in if \<not> init_ok then Returned (- 1) (eth_halt s)
         else
           case net_begin protocol ether ip (s\<lparr>eth_up := True\<rparr>) of (r, s) \<Rightarrow>
             if r < 0 then Returned (- 1) s else net_turns protocol ether ip ts s)"

section \<open>The commands\<close>

definition netboot_args :: "u8 list list \<Rightarrow> tftp \<Rightarrow> tftp option" where
  "netboot_args argv s =
     (let s = (case net_vars s (ascii ''loadaddr'') of
                 None \<Rightarrow> s | Some v \<Rightarrow> s\<lparr>load_addr := fst (simple_strtoul v 16)\<rparr>) in
      case argv of
        [_] \<Rightarrow> Some s
      | [_, a] \<Rightarrow> if deref a = 0x22 then Some (s\<lparr>BootFile := copy_filename a 128\<rparr>)
                 else Some (s\<lparr>load_addr := fst (simple_strtoul a 16)\<rparr>)
      | [_, a, f] \<Rightarrow> Some (s\<lparr>load_addr := fst (simple_strtoul a 16), BootFile := copy_filename f 128\<rparr>)
      | _ \<Rightarrow> None)"

definition do_ping :: "u8 list list \<Rightarrow> u8 list \<Rightarrow> u32 \<Rightarrow> bool \<Rightarrow> turn list \<Rightarrow> tftp \<Rightarrow> outcome" where
  "do_ping argv ether ip init_ok ts s =
     (case argv of
        _ # host # _ \<Rightarrow>
          (let s = s\<lparr>NetPingIP := string_to_ip (Some host)\<rparr> in
           if NetPingIP s = 0
           then Returned (- 1) (say (Printf (''Usage:'' @ nl @ ''%s'' @ nl)
                  [Text (Some (ascii ''ping'' @ [9] @ ascii ''- send ICMP ECHO_REQUEST to network host'' @ [10]))]) s)
           else
             case NetLoop PING ether ip init_ok ts s of
               Returned r s \<Rightarrow>
                 if r < 0 then Returned 1 (say (Printf (''ping failed; host %s is not alive'' @ nl) [Text (Some host)]) s)
                 else Returned 0 (say (Printf (''host %s is alive'' @ nl) [Text (Some host)]) s)
             | Waiting s \<Rightarrow> Waiting s
             | Fault \<Rightarrow> Fault)
      | _ \<Rightarrow> Returned (- 1) s)"

section \<open>Reading the headers that are sent\<close>

lemma udp_header_fields:
  fixes s :: "'a net_scheme" and dest :: u32 and sport dport :: u16 and n :: nat
  defines "h \<equiv> udp_header s dest dport sport n"
  shows "h ! 0 = 0x45" "h ! 9 = 17" "le16 h 2 = htons (word_of_nat (28 + n))" "le16 h 6 = htons 0x4000"
    "le32 h 16 = dest" "le16 h 20 = htons sport" "le16 h 22 = htons dport" "le16 h 24 = htons (word_of_nat (8 + n))"
proof -
  have l: "h = [0x45, 0] @ le16_bytes (htons (word_of_nat (28 + n))) @ le16_bytes (htons (ucast (NetIPID s))) @
      le16_bytes (htons 0x4000) @ [255, 17] @ le16_bytes 0 @ le32_bytes (NetOurIP s) @ le32_bytes dest @
      le16_bytes (htons sport) @ le16_bytes (htons dport) @ le16_bytes (htons (word_of_nat (8 + n))) @ le16_bytes 0"
    unfolding h_def udp_header_def IP_HDR_SIZE_def ..
  show "h ! 0 = 0x45" "h ! 9 = 17" by (simp_all add: l le16_bytes_def le32_bytes_def)
  show "le16 h 2 = htons (word_of_nat (28 + n))" "le16 h 6 = htons 0x4000"
    "le16 h 20 = htons sport" "le16 h 22 = htons dport" "le16 h 24 = htons (word_of_nat (8 + n))"
    by (rule le16_of_bytes; simp add: l le16_bytes_def le32_bytes_def del: of_nat_add)+
  show "le32 h 16 = dest"
    by (rule le32_of_bytes; simp add: l le16_bytes_def le32_bytes_def del: of_nat_add)
qed

text \<open>A frame in its buffer: the fields of the header behind the Ethernet header.\<close>

definition in_buffer :: "u8 list \<Rightarrow> nat \<Rightarrow> u8 list \<Rightarrow> bool" where
  "in_buffer b p h \<longleftrightarrow> (\<forall>i < length h. b ! (p + i) = h ! i)"

lemma in_bufferD:
  assumes "in_buffer b p h"
  shows "i < length h \<Longrightarrow> b ! (p + i) = h ! i"
    and "i + 1 < length h \<Longrightarrow> le16 b (p + i) = le16 h i"
    and "i + 3 < length h \<Longrightarrow> le32 b (p + i) = le32 h i"
proof -
  have n: "b ! (p + i + j) = h ! (i + j)" if "i + j < length h" for j
    using assms that unfolding in_buffer_def by (metis add.assoc)
  show "i < length h \<Longrightarrow> b ! (p + i) = h ! i" using n [of 0] by simp
  show "i + 1 < length h \<Longrightarrow> le16 b (p + i) = le16 h i"
    using n [of 0] n [of 1] unfolding le16_def by simp
  show "i + 3 < length h \<Longrightarrow> le32 b (p + i) = le32 h i"
    using n [of 0] n [of 1] n [of 2] n [of 3] unfolding le32_def by simp
qed

lemma in_buffer_append: "length xs = p \<Longrightarrow> in_buffer (xs @ h @ ys) p h"
  by (auto simp: in_buffer_def nth_append)

lemma ip_header_fields:
  fixes s :: "'a net_scheme" and dest :: u32 and sport dport :: u16 and n :: nat
  defines "h \<equiv> ip_header s dest dport sport n"
  shows "h ! 0 = 0x45" "h ! 9 = 17" "le16 h 2 = htons (word_of_nat (28 + n))" "le16 h 6 = htons 0x4000"
    "le32 h 16 = dest" "le16 h 20 = htons sport" "le16 h 22 = htons dport" "le16 h 24 = htons (word_of_nat (8 + n))"
  using udp_header_fields [of s dest dport sport n]
  unfolding h_def le16_def le32_def by (simp_all add: ip_header_nth)

section \<open>Datagrams arrive\<close>

lemma u32_len: "int n < 2 ^ 31 \<Longrightarrow> k \<le> n \<Longrightarrow> k < 2 ^ 31 \<Longrightarrow> \<not> (word_of_int (int n) :: u32) < word_of_nat k"
  by (simp add: word_less_nat_alt unat_of_nat)

text \<open>What is left to decide for an IP packet with a sound length and header.\<close>

lemma receive_ip_fields:
  assumes hd: "et ! p = 0x45" "et ! (p + 9) = 17" "le16 et (p + 2) = htons (word_of_nat (28 + n))"
      "le16 et (p + 6) = htons 0x4000" "le32 et (p + 16) = dest" "le16 et (p + 20) = htons sport"
      "le16 et (p + 22) = htons dport" "le16 et (p + 24) = htons w" "NetCksumOk et p 10"
    and n: "n \<le> 1472" and len: "int (28 + n) \<le> len" "len < 2 ^ 31" and dest: "dest = NetOurIP s"
  shows "receive_ip et p len s =
    run_handler (drop (p + 28) et) (ucast dport) (ucast sport) (ucast w - 8) s"
proof -
  have ul: "unat (word_of_nat (28 + n) :: u16) = 28 + n" using n by (simp only: unat_of_nat) simp
  have l: "uint (word_of_nat (28 + n) :: u16) = int (28 + n)"
    using ul by (metis int_eq_iff uint_nat)
  have len32: "\<not> (word_of_int len :: u32) < word_of_nat IP_HDR_SIZE"
    using u32_len [of "nat len" 28] len by (simp add: IP_HDR_SIZE_def)
  have fr: "le16 et (p + 6) AND ntohs 0x1fff = 0" unfolding hd by (simp add: ntohs_def)
  show ?thesis
    unfolding receive_ip_def Let_def hd(3) ntohs_ntohs l
    using len len32 fr dest hd(9)
    by (simp add: hd(1,2,4-8) IP_HDR_SIZE_def IP_HDR_SIZE_NO_UDP_def del: of_nat_add)
qed

lemma in_buffer_ip_header:
  assumes h: "in_buffer et p (ip_header q dest dport sport n)"
  shows "et ! p = 0x45" "et ! (p + 9) = 17" "le16 et (p + 2) = htons (word_of_nat (28 + n))"
      "le16 et (p + 6) = htons 0x4000" "le32 et (p + 16) = dest" "le16 et (p + 20) = htons sport"
      "le16 et (p + 22) = htons dport" "le16 et (p + 24) = htons (word_of_nat (8 + n))" "NetCksumOk et p 10"
proof -
  note f = ip_header_fields [of q dest dport sport n]
  show "et ! p = 0x45" "et ! (p + 9) = 17" "le16 et (p + 2) = htons (word_of_nat (28 + n))"
      "le16 et (p + 6) = htons 0x4000" "le32 et (p + 16) = dest" "le16 et (p + 20) = htons sport"
      "le16 et (p + 22) = htons dport" "le16 et (p + 24) = htons (word_of_nat (8 + n))"
    using f in_bufferD(1) [OF h, of 0] in_bufferD(1) [OF h, of 9] in_bufferD(2) [OF h, of 2] in_bufferD(2) [OF h, of 6]
      in_bufferD(2) [OF h, of 20] in_bufferD(2) [OF h, of 22] in_bufferD(2) [OF h, of 24] in_bufferD(3) [OF h, of 16]
    by simp_all
  show "NetCksumOk et p 10"
    using NetCksumOk_cong [of 10 et p "ip_header q dest dport sport n" 0] ip_header_ok [of q dest dport sport n]
      in_bufferD(1) [OF h] by simp
qed

lemma receive_ip_udp:
  assumes h: "in_buffer et p (ip_header q dest dport sport n)" and n: "n \<le> 1472"
    and len: "int (28 + n) \<le> len" "len < 2 ^ 31" and dest: "dest = NetOurIP s"
  shows "receive_ip et p len s =
    run_handler (drop (p + 28) et) (ucast dport) (ucast sport) (word_of_nat n) s"
proof -
  have u8: "unat (word_of_nat (8 + n) :: u16) = 8 + n" using n by (simp only: unat_of_nat) simp
  have "ucast (word_of_nat (8 + n) :: u16) - (8 :: u32) = word_of_nat n"
    unfolding ucast_unat u8 by simp
  with receive_ip_fields [OF in_buffer_ip_header [OF h] n len dest] show ?thesis by simp
qed

lemma ether_protocol_untagged:
  assumes "le16 et 12 = htons prot" "1514 \<le> prot" "prot \<noteq> PROT_VLAN" "14 \<le> len"
  shows "ether_protocol s et len = Some (prot, 14, len - 14, VLAN_NONE)"
  using assms
  by (simp add: ether_protocol_def Let_def ETHER_HDR_SIZE_def not_less [symmetric])

lemma le16_in_buffer: "in_buffer et p (le16_bytes w) \<Longrightarrow> le16 et p = w"
  using in_bufferD(2) [of et p "le16_bytes w" 0] le16_le16_bytes [of w "[]"] by simp

lemma vlan_untagged: "untagged s \<Longrightarrow> vlan_accepts s VLAN_NONE"
  by (simp add: vlan_accepts_def untagged_simps)

lemma in_buffer_udp_frame:
  assumes "length mac = 6" "length (NetOurEther q) = 6"
  shows "in_buffer (udp_frame q mac dest dport sport payload @ pad) 12 (le16_bytes (htons PROT_IP))"
    and "in_buffer (udp_frame q mac dest dport sport payload @ pad) 14 (ip_header q dest dport sport (length payload))"
    and "drop 42 (udp_frame q mac dest dport sport payload @ pad) = payload @ pad"
    and "length (udp_frame q mac dest dport sport payload) = 42 + length payload"
  using assms in_buffer_append [of "mac @ NetOurEther q" 12 "le16_bytes (htons PROT_IP)"]
    in_buffer_append [of "mac @ NetOurEther q @ le16_bytes (htons PROT_IP)" 14 "ip_header q dest dport sport (length payload)"]
  by (simp_all add: udp_frame_def ether_header_def)

lemma NetReceive_udp:
  assumes q: "length mac = 6" "length (NetOurEther q) = 6" and s: "untagged s" "dest = NetOurIP s"
    and n: "length payload \<le> 1472" and len: "int (42 + length payload) \<le> len" "len < 2 ^ 31"
  shows "NetReceive (udp_frame q mac dest dport sport payload @ pad) len s =
    run_handler (payload @ pad) (ucast dport) (ucast sport) (word_of_nat (length payload)) s"
proof -
  note b = in_buffer_udp_frame [OF q]
  have e: "ether_protocol s (udp_frame q mac dest dport sport payload @ pad) len = Some (PROT_IP, 14, len - 14, VLAN_NONE)"
    by (rule ether_protocol_untagged [OF le16_in_buffer [OF b(1)]]) (use len in \<open>simp_all add: PROT_IP_def PROT_VLAN_def\<close>)
  have r: "receive_ip (udp_frame q mac dest dport sport payload @ pad) 14 (len - 14) s =
      run_handler (drop (14 + 28) (udp_frame q mac dest dport sport payload @ pad)) (ucast dport) (ucast sport)
        (word_of_nat (length payload)) s"
    by (rule receive_ip_udp [OF b(2)]) (use len n s in simp_all)
  show ?thesis
    unfolding NetReceive_def e using b(3) vlan_untagged [OF s(1)]
    by (simp add: r PROT_IP_def PROT_ARP_def PROT_RARP_def)
qed

section \<open>Damaged headers\<close>

lemma receive_ip_bad_checksum:
  assumes "\<not> NetCksumOk et p 10"
  shows "\<exists>ms. receive_ip et p len s = Some (s\<lparr>printed := ms\<rparr>)"
proof -
  have same: "\<exists>ms. Some s = Some (s\<lparr>printed := ms\<rparr>)" by (rule exI [of _ "printed s"]) (cases s, simp)
  have said: "\<exists>ms. Some (say m s) = Some (s\<lparr>printed := ms\<rparr>)" for m by (auto simp: say_def)
  show ?thesis
    using assms same said unfolding receive_ip_def Let_def IP_HDR_SIZE_NO_UDP_def by simp
qed

text \<open>C33: A datagram of which any one 16-bit word of the IP header arrives changed (all zeros and all ones being the same to the checksum) is dropped: apart from what is printed, the state stays as it is.\<close>

theorem receive_damaged:
  assumes q: "length mac = 6" "length (NetOurEther q) = 6" and s: "untagged s"
    and len: "int (42 + length payload) \<le> len"
    and k: "k < 10" and w: "unat w mod 65535 \<noteq>
      unat (le16 (udp_frame q mac dest dport sport payload @ pad) (14 + 2 * k)) mod 65535"
  shows "\<exists>ms. NetReceive (blit (udp_frame q mac dest dport sport payload @ pad) (14 + 2 * k) (le16_bytes w)) len s
    = Some (s\<lparr>printed := ms\<rparr>)"
proof -
  let ?et = "udp_frame q mac dest dport sport payload @ pad"
  let ?et' = "blit ?et (14 + 2 * k) (le16_bytes w)"
  note b = in_buffer_udp_frame [OF q]
  have l: "42 \<le> length ?et" by (simp add: b(4))
  have "NetCksumOk ?et 14 10"
    using NetCksumOk_cong [of 10 ?et 14 "ip_header q dest dport sport (length payload)" 0]
      ip_header_ok [of q dest dport sport "length payload"] in_bufferD(1) [OF b(2)] by simp
  then have bad: "\<not> NetCksumOk ?et' 14 10"
    using k w l by (intro NetCksumOk_changed [OF _ k, of ?et]) (auto intro!: le16_blit_other simp: le16_blit_same)
  have "le16 ?et' 12 = htons PROT_IP"
    using k l le16_in_buffer [OF b(1)] by (simp add: le16_blit_other)
  then have e: "ether_protocol s ?et' len = Some (PROT_IP, 14, len - 14, VLAN_NONE)"
    by (rule ether_protocol_untagged) (use len in \<open>simp_all add: PROT_IP_def PROT_VLAN_def\<close>)
  show ?thesis
    unfolding NetReceive_def e using receive_ip_bad_checksum [OF bad] vlan_untagged [OF s]
    by (simp add: PROT_IP_def PROT_ARP_def PROT_RARP_def)
qed

section \<open>Address resolution\<close>

definition arp_packet :: "u16 \<Rightarrow> u8 list \<Rightarrow> u32 \<Rightarrow> u8 list \<Rightarrow> u32 \<Rightarrow> u8 list" where
  "arp_packet op sha spa tha tpa =
     le16_bytes (htons 1) @ le16_bytes (htons PROT_IP) @ [6, 4] @ le16_bytes (htons op)
     @ sha @ le32_bytes spa @ tha @ le32_bytes tpa"

definition arp_frame :: "u8 list \<Rightarrow> u16 \<Rightarrow> u8 list \<Rightarrow> u32 \<Rightarrow> u8 list \<Rightarrow> u32 \<Rightarrow> u8 list" where
  "arp_frame mac op sha spa tha tpa = mac @ sha @ le16_bytes (htons PROT_ARP) @ arp_packet op sha spa tha tpa"

lemma arp_packet_fields:
  assumes "length sha = 6" "length tha = 6"
  shows "le16 (arp_packet op sha spa tha tpa) 0 = htons 1" "le16 (arp_packet op sha spa tha tpa) 2 = htons PROT_IP"
    "arp_packet op sha spa tha tpa ! 4 = 6" "arp_packet op sha spa tha tpa ! 5 = 4"
    "le16 (arp_packet op sha spa tha tpa) 6 = htons op" "le32 (arp_packet op sha spa tha tpa) 14 = spa"
    "le32 (arp_packet op sha spa tha tpa) 24 = tpa" "length (arp_packet op sha spa tha tpa) = 28"
proof -
  obtain a0 a1 a2 a3 a4 a5 where a: "sha = [a0, a1, a2, a3, a4, a5]"
    using assms(1) by (auto simp: numeral_eq_Suc length_Suc_conv)
  obtain b0 b1 b2 b3 b4 b5 where b: "tha = [b0, b1, b2, b3, b4, b5]"
    using assms(2) by (auto simp: numeral_eq_Suc length_Suc_conv)
  note d = arp_packet_def a b le16_bytes_def le32_bytes_def
  show "le16 (arp_packet op sha spa tha tpa) 0 = htons 1" "le16 (arp_packet op sha spa tha tpa) 2 = htons PROT_IP"
    "le16 (arp_packet op sha spa tha tpa) 6 = htons op"
    by (rule le16_of_bytes; simp add: d)+
  show "le32 (arp_packet op sha spa tha tpa) 14 = spa" "le32 (arp_packet op sha spa tha tpa) 24 = tpa"
    by (rule le32_of_bytes; simp add: d)+
  show "arp_packet op sha spa tha tpa ! 4 = 6" "arp_packet op sha spa tha tpa ! 5 = 4"
    "length (arp_packet op sha spa tha tpa) = 28"
    by (simp_all add: d)
qed

lemma arp_frame_buffer:
  fixes mac sha tha pad :: "u8 list" and op :: u16 and spa tpa :: u32
  assumes "length mac = 6" "length sha = 6" "length tha = 6"
  defines "et \<equiv> arp_frame mac op sha spa tha tpa @ pad"
  shows "le16 et 12 = htons PROT_ARP" "in_buffer et 14 (arp_packet op sha spa tha tpa)"
    "length (arp_frame mac op sha spa tha tpa) = 42"
    "take 6 (drop 6 et) = sha" "take 6 (drop 22 et) = sha" "take 4 (drop 28 et) = le32_bytes spa"
proof -
  show "le16 et 12 = htons PROT_ARP"
    using assms in_buffer_append [of "mac @ sha" 12 "le16_bytes (htons PROT_ARP)"]
    by (intro le16_in_buffer) (simp add: arp_frame_def)
  show "in_buffer et 14 (arp_packet op sha spa tha tpa)"
    using assms in_buffer_append [of "mac @ sha @ le16_bytes (htons PROT_ARP)" 14 "arp_packet op sha spa tha tpa"]
    by (simp add: arp_frame_def)
  show "length (arp_frame mac op sha spa tha tpa) = 42"
    using assms by (simp add: arp_frame_def arp_packet_fields)
  show "take 6 (drop 6 et) = sha" "take 6 (drop 22 et) = sha" "take 4 (drop 28 et) = le32_bytes spa"
    using assms by (simp_all add: arp_frame_def arp_packet_def)
qed

lemma ArpRequest_untagged:
  assumes u: "untagged s" and e: "length (NetOurEther s) = 6" and b: "42 \<le> length (NetTxPacket s)"
    and near: "NetArpWaitPacketIP s AND NetOurSubnetMask s = NetOurIP s AND NetOurSubnetMask s"
  shows "\<exists>b. length b = length (NetTxPacket s) \<and> ArpRequest s = s\<lparr>NetArpWaitReplyIP := NetArpWaitPacketIP s,
    NetTxPacket := b, eth_out := eth_out s @ [arp_frame NetBcastAddr 1 (NetOurEther s) (NetOurIP s) (replicate 6 0) (NetArpWaitPacketIP s)]\<rparr>"
proof -
  let ?e = "ether_header s NetBcastAddr PROT_ARP" and ?w = "NetArpWaitPacketIP s"
  let ?a = "arp_packet 1 (NetOurEther s) (NetOurIP s) (replicate 6 0) ?w"
  let ?b = "blit (?e @ drop 14 (NetTxPacket s)) 14 ?a"
  have eth: "NetSetEther s (NetTxPacket s) NetBcastAddr PROT_ARP = (?e @ drop 14 (NetTxPacket s), 14)"
    by (rule NetSetEther_untagged) (use u e b in \<open>simp_all add: NetBcastAddr_def\<close>)
  have le: "length ?e = 14" using e by (simp add: ether_header_def NetBcastAddr_def)
  have la: "length ?a = 28" using e by (simp add: arp_packet_fields)
  have body: "arp_request_body (s\<lparr>NetArpWaitReplyIP := ?w\<rparr>) ?w = ?a"
    by (simp add: arp_request_body_def arp_packet_def)
  have far: "(NetArpWaitPacketIP s AND NetOurSubnetMask s \<noteq> NetOurIP s AND NetOurSubnetMask s) = False"
    using near by simp
  have t: "take (14 + ARP_HDR_SIZE) ?b = arp_frame NetBcastAddr 1 (NetOurEther s) (NetOurIP s) (replicate 6 0) ?w"
    using le la b by (simp add: blit_def ARP_HDR_SIZE_def arp_frame_def ether_header_def)
  have "length ?b = length (NetTxPacket s)" using le la b by simp
  moreover have "ArpRequest s = s\<lparr>NetArpWaitReplyIP := ?w, NetTxPacket := ?b,
    eth_out := eth_out s @ [arp_frame NetBcastAddr 1 (NetOurEther s) (NetOurIP s) (replicate 6 0) ?w]\<rparr>"
    unfolding ArpRequest_def Let_def eth prod.case far simp_thms if_False
    using t by (simp add: eth_send_def body)
  ultimately show ?thesis by blast
qed

text \<open>A datagram to a host whose hardware address is not known is parked, and the host is asked for.\<close>

definition unresolved :: "'a net_scheme \<Rightarrow> u32 \<Rightarrow> bool" where
  "unresolved s dest \<longleftrightarrow> untagged s \<and> length (NetOurEther s) = 6 \<and> NetServerEther s = NetEtherNullAddr \<and>
     dest \<noteq> 0 \<and> dest \<noteq> 0xFFFFFFFF \<and> dest AND NetOurSubnetMask s = NetOurIP s AND NetOurSubnetMask s \<and>
     length (NetTxPacket s) = PKTSIZE_ALIGN \<and> length (NetArpWaitTxPacket s) = PKTSIZE_ALIGN"

lemma NetSendUDPPacket_parks:
  assumes s: "unresolved s dest" and n: "length payload \<le> 1472"
    and payload: "take (length payload) (drop 42 (NetTxPacket s)) = payload"
  shows "\<exists>b c. length b = PKTSIZE_ALIGN \<and> length c = PKTSIZE_ALIGN \<and>
    take (42 + length payload) c = udp_frame s NetEtherNullAddr dest dport sport payload \<and>
    NetSendUDPPacket ServerPtr dest dport sport (length payload) s =
    (1, s\<lparr>NetArpWaitPacketIP := dest, NetArpWaitPacketMAC := Some ServerPtr, NetIPID := NetIPID s + 1,
         NetArpWaitTxPacket := c, NetArpWaitTxPacketSize := 42 + length payload, NetArpWaitTry := 1,
         NetArpWaitTimerStart := net_time s, NetArpWaitReplyIP := dest, NetTxPacket := b,
         eth_out := eth_out s @ [arp_frame NetBcastAddr 1 (NetOurEther s) (NetOurIP s) (replicate 6 0) dest]\<rparr>)"
proof -
  let ?n = "length payload" and ?e = "ether_header s NetEtherNullAddr PROT_IP"
  let ?s1 = "s\<lparr>NetArpWaitPacketIP := dest, NetArpWaitPacketMAC := Some ServerPtr\<rparr>"
  let ?b0 = "?e @ drop 14 (NetArpWaitTxPacket s)"
  let ?b1 = "if odd ?n then poke ?b0 (14 + 28 + ?n) 0 else ?b0"
  let ?h = "ip_header ?s1 dest dport sport ?n"
  let ?c = "blit (blit ?b1 14 ?h) (14 + 28) payload"
  have f: "untagged s" "length (NetOurEther s) = 6" "NetServerEther s = NetEtherNullAddr" "dest \<noteq> 0"
      "dest \<noteq> 0xFFFFFFFF" "length (NetTxPacket s) = 1536" "length (NetArpWaitTxPacket s) = 1536"
      "dest AND NetOurSubnetMask s = NetOurIP s AND NetOurSubnetMask s"
    using s by (simp_all add: unresolved_def PKTSIZE_ALIGN_def)
  have le: "length ?e = 14" using f by (simp add: ether_header_def NetEtherNullAddr_def)
  have l0: "length ?b0 = 1536" using le f by simp
  have l1: "length ?b1 = 1536" using l0 n by (simp add: poke_def)
  have lc: "length ?c = 1536" using l1 n by simp
  have eth: "NetSetEther ?s1 (NetArpWaitTxPacket s) NetEtherNullAddr PROT_IP = (?b0, 14)"
    using NetSetEther_untagged [of ?s1 NetEtherNullAddr "NetArpWaitTxPacket s" PROT_IP] f
    by (simp add: untagged_def ether_header_def NetEtherNullAddr_def)
  have "?n mod 2 \<le> 1" by simp
  then have "14 + 28 + ?n + ?n mod 2 \<le> length ?b0" using l0 n by simp
  note ip = NetSetIP_header [OF this, of dest dport sport ?s1]
  have h: "?h = ip_header s dest dport sport ?n" by (simp add: ip_header_def udp_header_def)
  have "take 14 ?b1 = ?e" using le by (simp add: poke_def blit_def)
  moreover have "take (14 + length ?h) (blit ?b1 14 ?h) = take 14 ?b1 @ ?h"
    by (rule take_blit) (simp only: l1 length_ip_header, (simp only: arith_simps)?)
  ultimately have "take (14 + 28) (blit ?b1 14 ?h) = ?e @ ?h" by (simp only: length_ip_header)
  moreover have "take (14 + 28 + ?n) ?c = take (14 + 28) (blit ?b1 14 ?h) @ payload"
    using l1 n by (intro take_blit) simp
  ultimately have t: "take (42 + ?n) ?c = udp_frame s NetEtherNullAddr dest dport sport payload"
    by (simp add: udp_frame_def h)
  let ?s2 = "?s1\<lparr>NetIPID := NetIPID s + 1, NetArpWaitTxPacket := ?c, NetArpWaitTxPacketSize := 14 + 28 + ?n,
      NetArpWaitTry := 1, NetArpWaitTimerStart := net_time s\<rparr>"
  have pay: "take ?n (drop (14 + 28) (NetTxPacket s)) = payload" using payload by simp
  have d: "(if dest = 0 then 0xFFFFFFFF else dest) = dest" "(if dest = 0xFFFFFFFF then BcastPtr else ServerPtr) = ServerPtr"
    using f by simp_all
  have send: "NetSendUDPPacket ServerPtr dest dport sport ?n s = (1, ArpRequest ?s2)"
    unfolding NetSendUDPPacket_def Let_def d IP_HDR_SIZE_def
    using f(3) by (simp add: mac_at_def eth ip payload del: One_nat_def)
  have r: "untagged ?s2" "length (NetOurEther ?s2) = 6" "42 \<le> length (NetTxPacket ?s2)"
      "NetArpWaitPacketIP ?s2 AND NetOurSubnetMask ?s2 = NetOurIP ?s2 AND NetOurSubnetMask ?s2"
    using f(1,2,6,8) by (simp_all add: untagged_def)
  obtain b where b: "length b = length (NetTxPacket ?s2)" "ArpRequest ?s2 = ?s2\<lparr>NetArpWaitReplyIP := NetArpWaitPacketIP ?s2,
    NetTxPacket := b, eth_out := eth_out ?s2 @ [arp_frame NetBcastAddr 1 (NetOurEther ?s2) (NetOurIP ?s2) (replicate 6 0) (NetArpWaitPacketIP ?s2)]\<rparr>"
    using ArpRequest_untagged [OF r] by (elim exE conjE)
  show ?thesis
    by (rule exI [of _ b], rule exI [of _ ?c])
      (use b t lc f send in \<open>simp add: PKTSIZE_ALIGN_def\<close>)
qed

lemma length6: "length xs = 6 \<Longrightarrow> \<exists>a b c d e f. xs = [a, b, c, d, e, f]"
  by (auto simp: numeral_eq_Suc length_Suc_conv)

lemma NetReceive_arp:
  assumes s: "untagged s" and l: "length mac = 6" "length sha = 6" "length tha = 6"
    and len: "42 \<le> len" and ip: "NetOurIP s = tpa" "tpa \<noteq> 0" and op: "op = 1 \<or> op = 2"
  shows "NetReceive (arp_frame mac op sha spa tha tpa @ pad) len s = Some
    (if op = 1 then arp_answer (arp_frame mac op sha spa tha tpa @ pad) 14 s
     else arp_reply (arp_frame mac op sha spa tha tpa @ pad) 14 s)"
proof -
  let ?et = "arp_frame mac op sha spa tha tpa @ pad" and ?a = "arp_packet op sha spa tha tpa"
  note b = arp_frame_buffer [OF l] and a = arp_packet_fields [OF l(2,3)]
  have e: "ether_protocol s ?et len = Some (PROT_ARP, 14, len - 14, VLAN_NONE)"
    by (rule ether_protocol_untagged [OF b(1)]) (use len in \<open>simp_all add: PROT_ARP_def PROT_VLAN_def\<close>)
  have f: "le16 ?et 14 = htons 1" "le16 ?et (14 + 2) = htons PROT_IP" "?et ! (14 + 4) = 6" "?et ! (14 + 5) = 4"
      "le16 ?et (14 + 6) = htons op" "le32 ?et (14 + 24) = tpa"
    using in_bufferD(2) [OF b(2), of 0] in_bufferD(2) [OF b(2), of 2] in_bufferD(2) [OF b(2), of 6]
      in_bufferD(1) [OF b(2), of 4] in_bufferD(1) [OF b(2), of 5] in_bufferD(3) [OF b(2), of 24]
    by (simp_all add: a)
  have "\<not> len - 14 < int ARP_HDR_SIZE" using len by (simp add: ARP_HDR_SIZE_def)
  then have "receive_arp ?et 14 (len - 14) s =
      (if op = 1 then arp_answer ?et 14 s else arp_reply ?et 14 s)"
    unfolding receive_arp_def f using ip op by auto
  then show ?thesis unfolding NetReceive_def e using vlan_untagged [OF s] by simp
qed

lemma arp_answer_frame:
  assumes s: "untagged s" "length (NetOurEther s) = 6" and l: "length mac = 6" "length sha = 6" "length tha = 6"
  shows "arp_answer (arp_frame mac op sha spa tha tpa @ pad) 14 s =
    eth_send (arp_frame sha 2 (NetOurEther s) (NetOurIP s) sha spa) s"
proof -
  let ?et = "arp_frame mac op sha spa tha tpa @ pad"
  have "length ?et = 42 + length pad" using arp_frame_buffer(3) [OF l] by simp
  then have eth: "NetSetEther s ?et sha PROT_ARP = (ether_header s sha PROT_ARP @ drop 14 ?et, 14)"
    by (intro NetSetEther_untagged) (use s l in simp_all)
  have src: "take 6 (drop 6 ?et) = sha" using arp_frame_buffer(4) [OF l] by simp
  have d: "drop 14 ?et = arp_packet op sha spa tha tpa @ pad" using l by (simp add: arp_frame_def)
  obtain a0 a1 a2 a3 a4 a5 b0 b1 b2 b3 b4 b5 e0 e1 e2 e3 e4 e5 where
    x: "sha = [a0, a1, a2, a3, a4, a5]" "tha = [b0, b1, b2, b3, b4, b5]" "NetOurEther s = [e0, e1, e2, e3, e4, e5]"
    using length6 [OF l(2)] length6 [OF l(3)] length6 [OF s(2)] by auto
  show ?thesis
    unfolding arp_answer_def Let_def src eth prod.case d
    by (simp add: x ether_header_def arp_packet_def arp_frame_def le16_bytes_def le32_bytes_def blit_def ARP_HDR_SIZE_def)
qed

lemma arp_reply_frame:
  assumes l: "length mac = 6" "length sha = 6" "length tha = 6"
    and w: "NetArpWaitPacketMAC s = Some ServerPtr" "NetArpWaitPacketIP s \<noteq> 0" "NetArpWaitReplyIP s = spa"
  shows "arp_reply (arp_frame mac op sha spa tha tpa @ pad) 14 s =
    s\<lparr>NetServerEther := sha, NetArpWaitTxPacket := blit (NetArpWaitTxPacket s) 0 sha,
      eth_out := eth_out s @ [take (NetArpWaitTxPacketSize s) (blit (NetArpWaitTxPacket s) 0 sha)],
      NetArpWaitPacketIP := 0, NetArpWaitTxPacketSize := 0, NetArpWaitPacketMAC := None\<rparr>"
proof -
  let ?et = "arp_frame mac op sha spa tha tpa @ pad"
  have "le32 ?et (14 + 14) = spa" "take 6 (drop (14 + 8) ?et) = sha"
    using in_bufferD(3) [OF arp_frame_buffer(2) [OF l], of 14] arp_frame_buffer(5) [OF l] arp_packet_fields [OF l(2,3)]
    by simp_all
  then show ?thesis
    unfolding arp_reply_def w option.case Let_def using w(2)
    by (simp add: w set_mac_def mac_at_def eth_send_def)
qed

lemma parked_frame:
  assumes "take (42 + length payload) c = udp_frame q NetEtherNullAddr dest dport sport payload"
    "42 + length payload \<le> length c" "length mac = 6"
  shows "take (42 + length payload) (blit c 0 mac) = udp_frame q mac dest dport sport payload"
proof -
  have "take (42 + length payload) (blit c 0 mac) = mac @ drop 6 (take (42 + length payload) c)"
    using assms(2,3) by (simp add: blit_def drop_take)
  then show ?thesis unfolding assms(1)
    by (simp add: udp_frame_def ether_header_def NetEtherNullAddr_def)
qed

text \<open>C12: Two hosts of one network that know each other only by address: the first datagram is parked and an ARP request sent; the other host, running the same code, answers the request; and the answer makes the first one send exactly the parked datagram to the hardware address it has learned.\<close>

theorem arp_exchange:
  assumes s: "unresolved s dest" "NetOurIP s \<noteq> 0" and t: "untagged t" "length (NetOurEther t) = 6" "NetOurIP t = dest"
    and n: "length payload \<le> 1472" "take (length payload) (drop 42 (NetTxPacket s)) = payload"
    and len: "42 \<le> len" "42 \<le> len'"
  shows "\<exists>s1 request t' answer s2.
    NetSendUDPPacket ServerPtr dest dport sport (length payload) s = (1, s1) \<and> eth_out s1 = eth_out s @ [request] \<and>
    NetReceive (request @ pad) len t = Some t' \<and> eth_out t' = eth_out t @ [answer] \<and>
    NetReceive (answer @ pad') len' s1 = Some s2 \<and>
    eth_out s2 = eth_out s1 @ [udp_frame s (NetOurEther t) dest dport sport payload] \<and>
    NetServerEther s2 = NetOurEther t \<and> NetArpWaitPacketIP s2 = 0"
proof -
  let ?zero = "replicate 6 0" and ?n = "length payload"
  let ?request = "arp_frame NetBcastAddr 1 (NetOurEther s) (NetOurIP s) ?zero dest"
  let ?answer = "arp_frame (NetOurEther s) 2 (NetOurEther t) dest (NetOurEther s) (NetOurIP s)"
  have u: "untagged s" "length (NetOurEther s) = 6" using s by (simp_all add: unresolved_def)
  have z: "length NetBcastAddr = 6" "length (?zero :: u8 list) = 6" by (simp_all add: NetBcastAddr_def)
  have d0: "dest \<noteq> 0" using s by (simp add: unresolved_def)
  obtain b c where c: "length c = PKTSIZE_ALIGN" "take (42 + ?n) c = udp_frame s NetEtherNullAddr dest dport sport payload"
    and s1: "NetSendUDPPacket ServerPtr dest dport sport ?n s =
    (1, s\<lparr>NetArpWaitPacketIP := dest, NetArpWaitPacketMAC := Some ServerPtr, NetIPID := NetIPID s + 1,
         NetArpWaitTxPacket := c, NetArpWaitTxPacketSize := 42 + ?n, NetArpWaitTry := 1,
         NetArpWaitTimerStart := net_time s, NetArpWaitReplyIP := dest, NetTxPacket := b,
         eth_out := eth_out s @ [?request]\<rparr>)" (is "_ = (1, ?s1)")
    using NetSendUDPPacket_parks [OF s(1) n] by blast
  have t': "NetReceive (?request @ pad) len t = Some (eth_send ?answer t)"
    using NetReceive_arp [OF t(1) z(1) u(2) z(2) len(1) t(3) d0, of 1]
      arp_answer_frame [OF t(1,2) z(1) u(2) z(2)] t(3) by simp
  have u1: "untagged ?s1" "NetOurIP ?s1 = NetOurIP s" using u by (simp_all add: untagged_def)
  have s2: "NetReceive (?answer @ pad') len' ?s1 = Some (arp_reply (?answer @ pad') 14 ?s1)"
    using NetReceive_arp [OF u1(1) u(2) t(2) u(2) len(2) u1(2) s(2), of 2] by simp
  have r: "arp_reply (?answer @ pad') 14 ?s1 = ?s1\<lparr>NetServerEther := NetOurEther t, NetArpWaitTxPacket := blit c 0 (NetOurEther t),
      eth_out := eth_out ?s1 @ [take (42 + ?n) (blit c 0 (NetOurEther t))],
      NetArpWaitPacketIP := 0, NetArpWaitTxPacketSize := 0, NetArpWaitPacketMAC := None\<rparr>"
    using d0 by (subst arp_reply_frame [OF u(2) t(2) u(2)]) simp_all
  have f: "take (42 + ?n) (blit c 0 (NetOurEther t)) = udp_frame s (NetOurEther t) dest dport sport payload"
    by (rule parked_frame [OF c(2)]) (use c(1) n t in \<open>simp_all add: PKTSIZE_ALIGN_def\<close>)
  show ?thesis
  proof (intro exI conjI)
    show "NetSendUDPPacket ServerPtr dest dport sport ?n s = (1, ?s1)" by (rule s1)
    show "NetReceive (?request @ pad) len t = Some (eth_send ?answer t)" by (rule t')
    show "NetReceive (?answer @ pad') len' ?s1 = Some (arp_reply (?answer @ pad') 14 ?s1)" by (rule s2)
  qed (simp_all add: r f eth_send_def)
qed

section \<open>Pings from outside\<close>

text \<open>An echo request in its buffer, \<open>L\<close> the length of its IP packet.\<close>

definition echo_request :: "u8 list \<Rightarrow> nat \<Rightarrow> tftp \<Rightarrow> bool" where
  "echo_request et L s \<longleftrightarrow>
     length et = PKTSIZE_ALIGN \<and> 28 \<le> L \<and> L \<le> 1500 \<and> le16 et 12 = htons PROT_IP \<and> et ! 14 AND 0xf0 = 0x40 \<and>
     le16 et 16 = htons (word_of_nat L) \<and> le16 et 20 AND htons 0x1fff = 0 \<and> NetCksumOk et 14 10 \<and>
     et ! 23 = 1 \<and> le32 et 30 = NetOurIP s \<and> et ! 34 = 8 \<and> untagged s \<and> length (NetOurEther s) = 6"

definition echo_ip :: "u8 list \<Rightarrow> tftp \<Rightarrow> u8 list" where
  "echo_ip et s =
     (let b = blit et 0 (take 6 (drop 6 et));
          b = blit b 6 (NetOurEther s);
          b = blit b 24 (le16_bytes 0);
          b = blit b 20 (le16_bytes 0);
          b = blit b 30 (take 4 (drop 26 b))
      in blit b 26 (le32_bytes (NetOurIP s)))"

definition echo_icmp :: "u8 list \<Rightarrow> u8 list" where
  "echo_icmp b =
     (let b = blit b 24 (le16_bytes (cksum_field b 14 10));
          b = poke b 34 0
      in blit b 36 (le16_bytes 0))"

lemma length_echo [simp]:
  "length et = 1536 \<Longrightarrow> length (NetOurEther s) = 6 \<Longrightarrow> length (echo_ip et s) = 1536"
  "length b = 1536 \<Longrightarrow> length (echo_icmp b) = 1536"
  by (simp_all add: echo_ip_def echo_icmp_def poke_def Let_def)

lemma echo_reply_frame:
  assumes l: "length et = 1536" "length (NetOurEther s) = 6" and L: "28 \<le> L" "L \<le> 1500"
  shows "echo_reply et 14 (int L) s =
    (let b = echo_icmp (echo_ip et s)
     in Some (eth_send (take (14 + L) (blit b 36 (le16_bytes (cksum_field b 34 ((L - 20) div 2))))) s))"
proof -
  have n: "unat (drop_bit 1 (word_of_int (int L) - word_of_nat IP_HDR_SIZE_NO_UDP :: u32)) = (L - 20) div 2"
  proof -
    have "(word_of_int (int L) :: u32) - word_of_nat 20 = word_of_nat (L - 20)" using L by (simp add: of_nat_diff)
    moreover have "unat (word_of_nat (L - 20) :: u32) = L - 20" using L by (intro unat_u32) simp
    ultimately show ?thesis unfolding IP_HDR_SIZE_NO_UDP_def
      by (simp only: unat_drop_bit_eq) (simp add: drop_bit_eq_div)
  qed
  have "\<not> length (echo_icmp (echo_ip et s)) < 14 + 20 + 2 * ((L - 20) div 2)" using l L by simp
  then show ?thesis
    unfolding echo_reply_def n unfolding echo_ip_def echo_icmp_def cksum_field_def Let_def IP_HDR_SIZE_NO_UDP_def
      ETHER_HDR_SIZE_def by simp
qed

lemma NetReceive_echo:
  assumes e: "echo_request et L s" and len: "int (14 + L) \<le> len" "len < 2 ^ 31"
  shows "NetReceive et len s = echo_reply et 14 (int L) s"
proof -
  note f = e [unfolded echo_request_def]
  have eth: "ether_protocol s et len = Some (PROT_IP, 14, len - 14, VLAN_NONE)"
    by (rule ether_protocol_untagged) (use f len in \<open>auto simp: PROT_IP_def PROT_VLAN_def\<close>)
  have "unat (word_of_nat L :: u16) = L" using f by (simp add: unat_of_nat)
  then have l: "uint (word_of_nat L :: u16) = int L" by (metis int_eq_iff uint_nat)
  have len32: "\<not> (word_of_int (len - 14) :: u32) < word_of_nat IP_HDR_SIZE"
  proof -
    have i: "int (nat (len - 14)) = len - 14" using len f by linarith
    have "\<not> (word_of_int (int (nat (len - 14))) :: u32) < word_of_nat 28"
      by (rule u32_len) (use len f i in \<open>simp, linarith, simp\<close>)
    then show ?thesis unfolding i IP_HDR_SIZE_def .
  qed
  have "receive_ip et 14 (len - 14) s = echo_reply et 14 (int L) s"
    unfolding receive_ip_def Let_def receive_icmp_def
    using f len len32 by (simp add: l IP_HDR_SIZE_NO_UDP_def)
  then show ?thesis unfolding NetReceive_def eth using f vlan_untagged [of s]
    by (simp add: PROT_IP_def PROT_ARP_def PROT_RARP_def)
qed

text \<open>Words next to and away from what is overwritten.\<close>

lemma le32_blit_same: "i + 4 \<le> length b \<Longrightarrow> le32 (blit b i (le32_bytes w)) i = w"
  by (rule le32_of_bytes) (simp_all add: nth_blit le32_bytes_def)

lemma le32_blit_other:
  assumes "off + length xs \<le> length b" "i + 4 \<le> length b" "i + 4 \<le> off \<or> off + length xs \<le> i"
  shows "le32 (blit b off xs) i = le32 b i"
  using assms by (auto simp: le32_def nth_blit)

lemma le32_blit_bytes: "length xs = 4 \<Longrightarrow> i + 4 \<le> length b \<Longrightarrow> le32 (blit b i xs) i = le32 xs 0"
  by (auto simp: le32_def nth_blit numeral_2_eq_2)

lemma le32_take_drop: "i + 4 \<le> length b \<Longrightarrow> le32 (take 4 (drop i b)) 0 = le32 b i"
  by (auto simp: le32_def)

lemma take_blit_before: "n \<le> off \<Longrightarrow> off \<le> length b \<Longrightarrow> take n (blit b off xs) = take n b"
  by (simp add: blit_def)

lemma drop_blit_after: "off + length xs \<le> n \<Longrightarrow> off + length xs \<le> length b \<Longrightarrow> drop n (blit b off xs) = drop n b"
  by (simp add: blit_def drop_append)

lemmas blit_reads = le16_blit_same le16_blit_other le32_blit_same le32_blit_other le32_blit_bytes le32_take_drop drop_blit_after
  take_blit_before
  take_drop_blit_before nth_blit length_blit poke_def

lemma echo_ip_reads:
  assumes l: "length et = 1536" "length (NetOurEther s) = 6"
  shows "le16 (echo_ip et s) 24 = 0" "le32 (echo_ip et s) 26 = NetOurIP s" "le32 (echo_ip et s) 30 = le32 et 26"
    "drop 38 (echo_ip et s) = drop 38 et" "take 6 (echo_ip et s) = take 6 (drop 6 et)"
  using l by (simp_all add: echo_ip_def Let_def blit_reads blit_0 le32_le32_bytes)

lemma echo_icmp_reads:
  assumes l: "length b = 1536" and z: "le16 b 24 = 0"
  shows "NetCksumOk (echo_icmp b) 14 10" "le16 (echo_icmp b) 36 = 0" "echo_icmp b ! 34 = 0"
    "le32 (echo_icmp b) 26 = le32 b 26" "le32 (echo_icmp b) 30 = le32 b 30"
    "drop 38 (echo_icmp b) = drop 38 b" "take 6 (echo_icmp b) = take 6 b"
proof -
  have "NetCksumOk (blit b (14 + 2 * 5) (le16_bytes (cksum_field b 14 10))) 14 10"
    by (rule NetCksumOk_filled) (use l z in simp_all)
  then show "NetCksumOk (echo_icmp b) 14 10"
    using NetCksumOk_cong [of 10 "echo_icmp b" 14 "blit b 24 (le16_bytes (cksum_field b 14 10))" 14] l
    by (simp add: echo_icmp_def Let_def blit_reads)
qed (use l in \<open>simp_all add: echo_icmp_def Let_def blit_reads\<close>)

text \<open>C37: A well-formed echo request to this host of even length is answered by exactly one frame: back to its sender's hardware and IP address, with both checksums right and the data as it came.\<close>

theorem ping_answered:
  assumes e: "echo_request et L s" and L: "even L" and len: "int (14 + L) \<le> len" "len < 2 ^ 31"
  shows "\<exists>f. NetReceive et len s = Some (eth_send f s) \<and> length f = 14 + L \<and>
    take 6 f = take 6 (drop 6 et) \<and> le32 f 26 = NetOurIP s \<and> le32 f 30 = le32 et 26 \<and> f ! 34 = 0 \<and>
    drop 38 f = take (L - 24) (drop 38 et) \<and>
    NetCksumOk f 14 10 \<and> NetCksumOk f 34 ((L - 20) div 2)"
proof -
  have f: "length et = 1536" "28 \<le> L" "L \<le> 1500" "length (NetOurEther s) = 6"
    using e by (simp_all add: echo_request_def PKTSIZE_ALIGN_def)
  let ?b = "echo_icmp (echo_ip et s)" and ?n = "(L - 20) div 2"
  let ?f = "take (14 + L) (blit ?b 36 (le16_bytes (cksum_field ?b 34 ?n)))"
  note i = echo_ip_reads [OF f(1,4)]
  have lb: "length ?b = 1536" "length (echo_ip et s) = 1536" using f by simp_all
  note c = echo_icmp_reads [OF lb(2) i(1)]
  have "NetCksumOk (blit ?b (34 + 2 * 1) (le16_bytes (cksum_field ?b 34 ?n))) 34 ?n"
    by (rule NetCksumOk_filled) (use f lb c(2) in simp_all)
  then have ck2: "NetCksumOk ?f 34 ?n"
    using NetCksumOk_cong [of ?n ?f 34 "blit ?b 36 (le16_bytes (cksum_field ?b 34 ?n))" 34] f L by simp
  have ck1: "NetCksumOk ?f 14 10"
    using NetCksumOk_cong [of 10 ?f 14 ?b 14] c(1) f lb by (simp add: nth_blit)
  have rd: "le32 ?f 26 = le32 ?b 26" "le32 ?f 30 = le32 ?b 30"
    using f lb by (simp_all add: le32_def nth_blit)
  have "?f ! 34 = 0" using f lb c(3) by (simp add: nth_blit)
  moreover have "take 6 ?f = take 6 (drop 6 et)" using f lb c(7) i(5) by (simp add: take_blit_before min_def)
  moreover have "drop 38 ?f = take (L - 24) (drop 38 et)"
    using f lb c(6) i(4) by (simp add: drop_take drop_blit_after)
  ultimately show ?thesis
    using NetReceive_echo [OF e len] echo_reply_frame [OF f(1,4,2,3)] ck1 ck2 rd c(4,5) i(2,3) f lb
    by (intro exI [of _ ?f]) (simp add: Let_def)
qed

text \<open>An echo request of odd length gets an answer whose ICMP checksum is wrong, unless its last byte is 0: that byte is not summed.\<close>

theorem ping_odd_length:
  assumes e: "echo_request et L s" and L: "odd L" and len: "int (14 + L) \<le> len" "len < 2 ^ 31"
    and byte: "et ! (13 + L) \<noteq> 0"
  shows "\<exists>f. NetReceive et len s = Some (eth_send f s) \<and> length f = 14 + L \<and>
    \<not> NetCksumOk (f @ [0]) 34 ((L - 20 + 1) div 2)"
proof -
  have f: "length et = 1536" "28 \<le> L" "L \<le> 1500" "length (NetOurEther s) = 6"
    using e by (simp_all add: echo_request_def PKTSIZE_ALIGN_def)
  have L29: "29 \<le> L" using f(2) L by (cases "L = 28") auto
  let ?b = "echo_icmp (echo_ip et s)" and ?n = "(L - 20) div 2"
  let ?g = "blit ?b 36 (le16_bytes (cksum_field ?b 34 ?n))"
  let ?f = "take (14 + L) ?g"
  note i = echo_ip_reads [OF f(1,4)]
  have lb: "length ?b = 1536" "length (echo_ip et s) = 1536" using f by simp_all
  note c = echo_icmp_reads [OF lb(2) i(1)]
  obtain j where "L = 2 * j + 1" using L by (rule oddE)
  then have "L = 21 + 2 * (j - 10)" using L29 by simp
  then obtain m where m: "L = 21 + 2 * m" by blast
  have n: "?n = m" "(L - 20 + 1) div 2 = Suc m" using m by simp_all
  have ck: "NetCksumOk ?g 34 m"
    using NetCksumOk_filled [of m 1 34 ?b] f lb c(2) L29 m by (simp add: n)
  have "NetCksumOk (?f @ [0]) 34 m"
    using NetCksumOk_cong [of m "?f @ [0]" 34 ?g 34] ck f lb m by (simp add: nth_append)
  then have s0: "word_sum (?f @ [0]) 34 m mod 65535 = 0" using f m by (simp add: NetCksumOk_iff)
  have "drop 38 ?b ! (13 + L - 38) = drop 38 et ! (13 + L - 38)" using c(6) i(4) by simp
  then have b: "?b ! (13 + L) = et ! (13 + L)" using L29 f lb by simp
  have g: "?g ! (13 + L) = et ! (13 + L)" using b L29 f lb by (simp add: nth_blit)
  have "le16 (?f @ [0]) (34 + 2 * m) = ucast (et ! (13 + L))"
    using g f lb m unfolding le16_def by (simp add: nth_append)
  then have "unat (le16 (?f @ [0]) (34 + 2 * m)) = unat (et ! (13 + L))"
    by (simp add: unsigned_ucast_eq take_bit_nat_eq_self_iff less_trans [OF unsigned_less])
  moreover have "0 < unat (et ! (13 + L))" "unat (et ! (13 + L)) < 256"
    using byte unsigned_less [of "et ! (13 + L)", where 'a = nat] by (simp_all add: unat_gt_0)
  moreover have "word_sum (?f @ [0]) 34 (Suc m) = word_sum (?f @ [0]) 34 m + unat (le16 (?f @ [0]) (34 + 2 * m))"
    by (simp add: word_sum_def)
  ultimately have "word_sum (?f @ [0]) 34 (Suc m) mod 65535 = unat (et ! (13 + L))"
    using mod_add_left_eq [of "word_sum (?f @ [0]) 34 m" 65535 "unat (et ! (13 + L))"] s0 by simp
  with \<open>0 < unat (et ! (13 + L))\<close> have "\<not> NetCksumOk (?f @ [0]) 34 (Suc m)"
    using f m by (simp add: NetCksumOk_iff)
  then show ?thesis
    using NetReceive_echo [OF e len] echo_reply_frame [OF f(1,4,2,3)] f lb n
    by (intro exI [of _ ?f]) (simp add: Let_def)
qed

section \<open>Lengths that are not checked\<close>

text \<open>The length in the IP header is compared with the frame but not with the size of a header: an echo request that states less than 20 bytes has its checksum taken over memory far beyond the buffer.\<close>

theorem ping_short_header:
  assumes b: "length et = PKTSIZE_ALIGN" and t: "le16 et 12 = htons PROT_IP" and v: "et ! 14 AND 0xf0 = 0x40"
    and L: "le16 et 16 = htons (word_of_nat L)" "L < 20" and fr: "le16 et 20 AND htons 0x1fff = 0"
    and ck: "NetCksumOk et 14 10" and p: "et ! 23 = 1" "et ! 34 = 8" and d: "le32 et 30 = NetOurIP s"
    and s: "untagged s" "length (NetOurEther s) = 6" and len: "42 \<le> len" "len < 2 ^ 31"
  shows "NetReceive et len s = None"
proof -
  have eth: "ether_protocol s et len = Some (PROT_IP, 14, len - 14, VLAN_NONE)"
    by (rule ether_protocol_untagged) (use t len in \<open>auto simp: PROT_IP_def PROT_VLAN_def\<close>)
  have "unat (word_of_nat L :: u16) = L" using L(2) by (simp add: unat_of_nat)
  then have l: "uint (word_of_nat L :: u16) = int L" by (metis int_eq_iff uint_nat)
  have len32: "\<not> (word_of_int (len - 14) :: u32) < word_of_nat IP_HDR_SIZE"
  proof -
    have i: "int (nat (len - 14)) = len - 14" using len by linarith
    have "\<not> (word_of_int (int (nat (len - 14))) :: u32) < word_of_nat 28"
      by (rule u32_len) (use len i in \<open>simp, linarith, simp\<close>)
    then show ?thesis unfolding i IP_HDR_SIZE_def .
  qed
  have big: "2 ^ 30 \<le> unat (drop_bit 1 (word_of_int (int L) - word_of_nat IP_HDR_SIZE_NO_UDP :: u32))"
  proof -
    have "(word_of_int (int L) :: u32) - word_of_nat 20 = word_of_nat (2 ^ 32 + L - 20)"
      using L(2) by (simp add: of_nat_diff)
    moreover have "unat (word_of_nat (2 ^ 32 + L - 20) :: u32) = 2 ^ 32 + L - 20" using L(2) by (intro unat_u32) simp
    ultimately show ?thesis unfolding IP_HDR_SIZE_NO_UDP_def
      by (simp only: unat_drop_bit_eq) (simp add: drop_bit_eq_div)
  qed
  then have "echo_reply et 14 (int L) s = None"
    using b s(2) by (simp add: echo_reply_def Let_def poke_def PKTSIZE_ALIGN_def)
  then have "receive_ip et 14 (len - 14) s = None"
    unfolding receive_ip_def Let_def receive_icmp_def
    using L v fr ck p d len len32 by (simp add: l IP_HDR_SIZE_NO_UDP_def)
  then show ?thesis unfolding NetReceive_def eth using vlan_untagged [OF s(1)]
    by (simp add: PROT_IP_def PROT_ARP_def PROT_RARP_def)
qed

text \<open>A datagram whose UDP header states another length.\<close>

lemma receive_udp_length:
  assumes q: "length mac = 6" "length (NetOurEther q) = 6" and s: "untagged s" "dest = NetOurIP s"
    and n: "length payload \<le> 1472" and len: "int (42 + length payload) \<le> len" "len < 2 ^ 31"
  shows "NetReceive (blit (udp_frame q mac dest dport sport payload @ pad) 38 (le16_bytes (htons w))) len s =
    run_handler (payload @ pad) (ucast dport) (ucast sport) (ucast w - 8) s"
proof -
  let ?e = "udp_frame q mac dest dport sport payload @ pad"
  let ?et = "blit ?e 38 (le16_bytes (htons w))"
  note b = in_buffer_udp_frame [OF q]
  note h = in_buffer_ip_header [OF b(2)]
  have l: "42 \<le> length ?e" by (simp add: b(4))
  have "le16 ?et 12 = htons PROT_IP" using l le16_in_buffer [OF b(1)] by (simp add: le16_blit_other)
  then have e: "ether_protocol s ?et len = Some (PROT_IP, 14, len - 14, VLAN_NONE)"
    by (rule ether_protocol_untagged) (use len in \<open>simp_all add: PROT_IP_def PROT_VLAN_def\<close>)
  have ck: "NetCksumOk ?et 14 10"
    using NetCksumOk_cong [of 10 ?et 14 ?e 14] h(9) l by (simp add: nth_blit)
  have "receive_ip ?et 14 (len - 14) s =
      run_handler (drop (14 + 28) ?et) (ucast dport) (ucast sport) (ucast w - 8) s"
    by (rule receive_ip_fields [OF _ _ _ _ _ _ _ _ ck])
      (use h l len n s in \<open>simp_all add: nth_blit le16_blit_other le16_blit_same le32_blit_other\<close>)
  moreover have "drop (14 + 28) ?et = payload @ pad" using l b(3) by (simp add: drop_blit_after)
  ultimately show ?thesis
    unfolding NetReceive_def e using vlan_untagged [OF s(1)]
    by (simp add: PROT_IP_def PROT_ARP_def PROT_RARP_def)
qed

lemma tftp_data_overrun:
  assumes r: "received F B port tid m a k t s" and l: "\<not> len < 4"
    and long: "length (file_block F B (k + 1) @ tail) < unat (len - 4)"
  shows "TftpHandler_run (data_packet F B (k + 1) @ tail) port tid len s = None"
proof -
  let ?pkt = "le16_bytes (htons (word_of_nat (k + 1))) @ file_block F B (k + 1) @ tail"
  have blk: "ucast (word_of_nat (k + 1) :: u16) = (word_of_nat ((k + 1) mod 65536) :: u32)"
    by (simp only: ucast_unat unat_of_nat) simp
  obtain s1 where s1: "tftp_first tid (tftp_progress (s\<lparr>TftpBlock := word_of_nat ((k + 1) mod 65536)\<rparr>)) = Inr s1"
      "TftpBlock s1 = word_of_nat ((k + 1) mod 65536)" "TftpLastBlock s1 = word_of_nat (k mod 65536)"
    using progress_first [OF r] by blast
  have fresh: "TftpBlock s1 \<noteq> TftpLastBlock s1"
  proof -
    have "(k + 1) mod 65536 \<noteq> k mod 65536" by (simp add: mod_Suc)
    then show ?thesis unfolding s1
      by (subst word_of_nat_u32_eq) (simp_all add: less_trans [OF mod_less_divisor])
  qed
  have u: "4 \<le> unat len" using l by (simp add: word_less_nat_alt)
  then have nl: "\<not> len < 2" "\<not> len - 2 < 2"
    by (simp_all add: word_less_nat_alt unat_sub word_le_nat_alt)
  have l4: "len - 2 - 2 = len - 4" by simp
  have st: "store_block b ?pkt 2 (len - 4) q = None" for b q
    using long by (simp add: store_block_def Let_def)
  have "TftpHandler_run (data_packet F B (k + 1) @ tail) port tid len s = tftp_data ?pkt tid (len - 2) s"
    unfolding TftpHandler_run_def Let_def using received_port [OF r] nl(1)
    by (auto simp: data_packet_def ld16_le16_bytes)
  also have "\<dots> = None"
    by (simp only: tftp_data_def Let_def nl if_False l4 ld16_le16_bytes ntohs_ntohs blk option.case s1(1) sum.case fresh st)
  finally show ?thesis .
qed

text \<open>The length in the UDP header is compared with nothing: when it exceeds what the buffer holds, the TFTP client copies memory behind the buffer into the file.\<close>

theorem tftp_length_unchecked:
  assumes q: "length mac = 6" "length (NetOurEther q) = 6" and s: "untagged s" "packetHandler s = Some TftpHandler"
    and r: "received F B (ucast port) (ucast tid) m a k t s" and B: "B \<le> 1468"
    and w: "12 \<le> w" "length (data_packet F B (k + 1) @ pad) + 8 < unat w" and len: "1514 \<le> len" "len < 2 ^ 31"
  shows "NetReceive (blit (udp_frame q mac (NetOurIP s) port tid (data_packet F B (k + 1)) @ pad)
      38 (le16_bytes (htons w))) len s = None"
proof -
  have "length (file_block F B (k + 1)) \<le> B" by (simp add: file_block_def)
  then have n: "length (data_packet F B (k + 1)) \<le> 1472" using B by (simp add: length_data_packet)
  let ?w = "ucast w :: u32"
  have u: "unat ?w = unat w" by (simp only: unsigned_ucast_eq) (simp add: take_bit_nat_eq_self_iff less_trans [OF unat_less_u16])
  have u12: "12 \<le> unat w" using w(1) by (simp add: word_le_nat_alt)
  then have u8: "unat (?w - 8) = unat w - 8" using u by (simp add: unat_sub word_le_nat_alt)
  then have n4: "\<not> ?w - 8 < 4" using u12 by (simp add: word_less_nat_alt)
  have "unat (?w - 8 - 4) = unat w - 12" using u u12 by (simp add: unat_sub word_le_nat_alt)
  then have "length (file_block F B (k + 1) @ pad) < unat (?w - 8 - 4)" using w(2) by (simp add: length_data_packet)
  from tftp_data_overrun [OF r n4 this] receive_udp_length [OF q s(1) refl n, of len]
  show ?thesis using len n s(2) by (simp add: run_handler_def)
qed

text \<open>A RARP reply nobody asked for is believed in the middle of a TFTP transfer: whoever sends it sets this host's address and the hardware address the rest of the acknowledgements go to.\<close>

theorem rarp_unsolicited:
  assumes l: "length mac = 6" "length sha = 6" "length tha = 6" and s: "untagged s"
    and h: "packetHandler s = Some TftpHandler" "TftpOurPort s \<noteq> 0" and len: "42 \<le> len"
  shows "\<exists>s'. NetReceive (mac @ sha @ le16_bytes (htons PROT_RARP) @ arp_packet 4 sha spa tha tpa @ pad) len s = Some s' \<and>
    NetOurIP s' = tpa \<and> NetServerEther s' = sha \<and> packetHandler s' = Some TftpHandler"
proof -
  let ?et = "mac @ sha @ le16_bytes (htons PROT_RARP) @ arp_packet 4 sha spa tha tpa @ pad"
  have p: "le16 ?et 12 = htons PROT_RARP"
    using l in_buffer_append [of "mac @ sha" 12 "le16_bytes (htons PROT_RARP)"] by (intro le16_in_buffer) simp
  have b: "in_buffer ?et 14 (arp_packet 4 sha spa tha tpa)"
    using l in_buffer_append [of "mac @ sha @ le16_bytes (htons PROT_RARP)" 14 "arp_packet 4 sha spa tha tpa"] by simp
  note a = arp_packet_fields [OF l(2,3)]
  have f: "le16 ?et 14 = htons 1" "le16 ?et (14 + 2) = htons PROT_IP" "?et ! (14 + 4) = 6" "?et ! (14 + 5) = 4"
      "le16 ?et (14 + 6) = htons 4" "le32 ?et (14 + 24) = tpa"
    using in_bufferD(2) [OF b, of 0] in_bufferD(2) [OF b, of 2] in_bufferD(2) [OF b, of 6]
      in_bufferD(1) [OF b, of 4] in_bufferD(1) [OF b, of 5] in_bufferD(3) [OF b, of 24]
    by (simp_all add: a)
  have sha: "take 6 (drop (14 + 8) ?et) = sha" using l by (simp add: arp_packet_def)
  have e: "ether_protocol s ?et len = Some (PROT_RARP, 14, len - 14, VLAN_NONE)"
    by (rule ether_protocol_untagged [OF p]) (use len in \<open>simp_all add: PROT_RARP_def PROT_VLAN_def\<close>)
  have nl: "\<not> len - 14 < int ARP_HDR_SIZE" using len by (simp add: ARP_HDR_SIZE_def)
  have run: "run_handler [] 0 0 0 q = Some q" if "packetHandler q = Some TftpHandler" "TftpOurPort q \<noteq> 0" for q
    using that by (simp add: run_handler_def TftpHandler_run_def)
  have "\<exists>s'. receive_rarp ?et 14 (len - 14) s = Some s' \<and> NetOurIP s' = tpa \<and> NetServerEther s' = sha \<and>
      packetHandler s' = Some TftpHandler"
    unfolding receive_rarp_def f sha Let_def using nl h by (simp add: run)
  then show ?thesis unfolding NetReceive_def e using vlan_untagged [OF s]
    by (simp add: PROT_IP_def PROT_ARP_def PROT_RARP_def)
qed

text \<open>C13: What \<open>NetSendUDPPacket\<close> sends to a known host is what \<open>NetReceive\<close> of that host hands to its packet handler: the ports, the length and the payload come out as they went in.\<close>

theorem udp_delivered:
  assumes s: "untagged s" "length (NetOurEther s) = 6" "length (mac_at ether s) = 6" "mac_at ether s \<noteq> NetEtherNullAddr"
      "length (NetTxPacket s) = PKTSIZE_ALIGN"
    and p: "length payload \<le> 1472" "take (length payload) (drop 42 (NetTxPacket s)) = payload"
    and d: "dest \<noteq> 0" "dest \<noteq> 0xFFFFFFFF" "dest = NetOurIP t" "untagged t"
  shows "\<exists>s' f. NetSendUDPPacket ether dest dport sport (length payload) s = (0, s') \<and> eth_out s' = eth_out s @ [f] \<and>
    length f = 42 + length payload \<and>
    (\<forall>pad len. int (length f) \<le> len \<and> len < 2 ^ 31 \<longrightarrow> NetReceive (f @ pad) len t =
       run_handler (payload @ pad) (ucast dport) (ucast sport) (word_of_nat (length payload)) t)"
proof -
  let ?f = "udp_frame s (mac_at ether s) dest dport sport payload"
  have "length payload mod 2 \<le> 1" by simp
  then have room: "42 + length payload + length payload mod 2 \<le> length (NetTxPacket s)"
    using s p by (simp add: PKTSIZE_ALIGN_def)
  obtain b where b: "NetSendUDPPacket ether dest dport sport (length payload) s =
      (0, s\<lparr>NetTxPacket := b, NetIPID := NetIPID s + 1, eth_out := eth_out s @ [?f]\<rparr>)" (is "_ = (0, ?s')")
    using NetSendUDPPacket_sends [OF s(1) s(2) s(3) s(4) d(1,2) room p(2)] by blast
  moreover have "eth_out ?s' = eth_out s @ [?f]" by simp
  moreover have "length ?f = 42 + length payload" by (rule in_buffer_udp_frame [OF s(3,2)])
  ultimately show ?thesis using NetReceive_udp [OF s(3,2) d(4,3) p(1)]
    by (intro exI [of _ ?s'] exI [of _ ?f]) simp
qed

section \<open>Concrete frames\<close>

definition host :: "u32 \<Rightarrow> u8 list \<Rightarrow> tftp" where
  "host ip mac = tftp_reset\<lparr>NetOurIP := ip, NetOurEther := mac, NetServerEther := NetEtherNullAddr\<rparr>"

lemma host_simps:
  "untagged (host ip mac)" "NetOurIP (host ip mac) = ip" "NetOurEther (host ip mac) = mac" "eth_out (host ip mac) = []"
  "NetTxPacket (host ip mac) = replicate 1536 0" "NetArpWaitTxPacket (host ip mac) = replicate 1536 0"
  "NetServerEther (host ip mac) = NetEtherNullAddr" "NetOurSubnetMask (host ip mac) = 0" "packetHandler (host ip mac) = None"
  by (simp_all add: host_def untagged_def tftp_reset_def tftp.defs net.defs net_reset_def PKTSIZE_ALIGN_def)

abbreviation sample_mac :: "u8 list" where "sample_mac \<equiv> [2, 0, 0, 0, 0, 7]"
abbreviation sample_mac2 :: "u8 list" where "sample_mac2 \<equiv> [2, 0, 0, 0, 0, 9]"

theorem udp_delivered_witness:
  "\<exists>s' f. NetSendUDPPacket ServerPtr 0x0100A8C0 69 1024 (length [0, 0, 0 :: u8]) (host 1 sample_mac\<lparr>NetServerEther := sample_mac2\<rparr>) = (0, s') \<and>
    eth_out s' = eth_out (host 1 sample_mac\<lparr>NetServerEther := sample_mac2\<rparr>) @ [f] \<and>
    NetReceive (f @ []) 45 (host 0x0100A8C0 sample_mac2) =
      run_handler ([0, 0, 0] @ []) (ucast (69 :: u16)) (ucast (1024 :: u16)) (word_of_nat (length [0, 0, 0 :: u8])) (host 0x0100A8C0 sample_mac2)"
proof -
  let ?s = "host 1 sample_mac\<lparr>NetServerEther := sample_mac2\<rparr>"
  have "untagged ?s" "length (NetOurEther ?s) = 6" "length (mac_at ServerPtr ?s) = 6" "mac_at ServerPtr ?s \<noteq> NetEtherNullAddr"
    "length (NetTxPacket ?s) = PKTSIZE_ALIGN"
    using host_simps [of 1 sample_mac]
    by (simp_all add: untagged_def mac_at_def NetEtherNullAddr_def six_zeros PKTSIZE_ALIGN_def)
  note sender = this
  have "take (length [0, 0, 0 :: u8]) (drop 42 (NetTxPacket ?s)) = [0, 0, 0]"
    using host_simps(5) [of 1 sample_mac] by (simp add: eval_nat_numeral)
  from udp_delivered [OF sender _ this, of "0x0100A8C0" "host 0x0100A8C0 sample_mac2" 69 1024]
  obtain s' f where 1: "NetSendUDPPacket ServerPtr 0x0100A8C0 69 1024 (length [0, 0, 0 :: u8]) ?s = (0, s')"
      "eth_out s' = eth_out ?s @ [f]" and f: "length f = 42 + length [0, 0, 0 :: u8]"
    and 2: "\<forall>pad len. int (length f) \<le> len \<and> len < 2 ^ 31 \<longrightarrow> NetReceive (f @ pad) len (host 0x0100A8C0 sample_mac2) =
      run_handler ([0, 0, 0] @ pad) (ucast (69 :: u16)) (ucast (1024 :: u16)) (word_of_nat (length [0, 0, 0 :: u8]))
        (host 0x0100A8C0 sample_mac2)"
    by (auto simp: host_simps)
  have "int (length f) \<le> 45 \<and> (45 :: int) < 2 ^ 31" using f by simp
  from 2 [rule_format, OF this] 1 show ?thesis by blast
qed

text \<open>An echo request from 192.168.0.1 to 192.168.0.10 with one byte of data, of stated length \<open>L\<close>.\<close>

definition ping_sample :: "u8 \<Rightarrow> u8 \<Rightarrow> u8 list" where
  "ping_sample L c =
     [2, 0, 0, 0, 0, 9, 2, 0, 0, 0, 0, 7, 8, 0,
      0x45, 0, 0, L, 0, 0, 0x40, 0, 0xff, 1, 0xfa, c, 0xc0, 0xa8, 0, 1, 0xc0, 0xa8, 0, 0x0a,
      8, 0, 0, 0, 0, 0, 0, 0, 5] @ replicate 1493 0"

abbreviation pinged :: tftp where "pinged \<equiv> host 0x0A00A8C0 sample_mac2"

lemma ping_sample_reads:
  "length (ping_sample L c) = 1536" "le16 (ping_sample L c) 12 = htons PROT_IP"
  "ping_sample L c ! 14 AND 0xf0 = 0x40" "le16 (ping_sample L c) 16 = htons (ucast L)"
  "le16 (ping_sample L c) 20 AND htons 0x1fff = 0" "ping_sample L c ! 23 = 1" "ping_sample L c ! 34 = 8"
  "le32 (ping_sample L c) 30 = 0x0A00A8C0" "ping_sample L c ! 42 = 5"
proof -
  have "drop_bit 8 (ucast L :: u16) = 0"
    by (rule bit_word_eqI) (auto simp: bit_simps dest: bit_imp_le_length)
  then show "le16 (ping_sample L c) 16 = htons (ucast L)"
    by (simp add: ping_sample_def le16_def ntohs_def)
  show "le16 (ping_sample L c) 12 = htons PROT_IP"
    by (simp add: ping_sample_def le16_def ntohs_def PROT_IP_def)
  show "le32 (ping_sample L c) 30 = 0x0A00A8C0" by (simp add: ping_sample_def le32_def)
qed (simp_all add: ping_sample_def le16_def ntohs_def)

lemma ping_sample_checksum:
  "NetCksumOk (ping_sample 28 0x84) 14 10" "NetCksumOk (ping_sample 29 0x83) 14 10" "NetCksumOk (ping_sample 0 0xa0) 14 10"
  by (simp_all add: NetCksumOk_iff word_sum_def lessThan_nat_numeral lessThan_Suc ping_sample_def le16_def)

lemma echo_sample:
  "echo_request (ping_sample 28 0x84) 28 pinged" "echo_request (ping_sample 29 0x83) 29 pinged"
  unfolding echo_request_def using ping_sample_reads ping_sample_checksum
  by (simp_all add: host_simps PKTSIZE_ALIGN_def)

theorem ping_answered_witness:
  "\<exists>f. NetReceive (ping_sample 28 0x84) 60 pinged = Some (eth_send f pinged) \<and> length f = 14 + 28 \<and>
    take 6 f = take 6 (drop 6 (ping_sample 28 0x84)) \<and> le32 f 26 = NetOurIP pinged \<and>
    le32 f 30 = le32 (ping_sample 28 0x84) 26 \<and> f ! 34 = 0 \<and>
    drop 38 f = take (28 - 24) (drop 38 (ping_sample 28 0x84)) \<and>
    NetCksumOk f 14 10 \<and> NetCksumOk f 34 ((28 - 20) div 2)"
  by (rule ping_answered [OF echo_sample(1)]) simp_all

theorem ping_odd_length_witness:
  "\<exists>f. NetReceive (ping_sample 29 0x83) 60 pinged = Some (eth_send f pinged) \<and> length f = 14 + 29 \<and>
    \<not> NetCksumOk (f @ [0]) 34 ((29 - 20 + 1) div 2)"
  by (rule ping_odd_length [OF echo_sample(2)]) (simp_all add: ping_sample_reads)

theorem ping_short_header_witness: "NetReceive (ping_sample 0 0xa0) 60 pinged = None"
  by (rule ping_short_header [where L = 0])
    (use ping_sample_reads ping_sample_checksum in \<open>simp_all add: host_simps PKTSIZE_ALIGN_def\<close>)

theorem arp_exchange_witness:
  "\<exists>s1 request t' answer s2.
    NetSendUDPPacket ServerPtr 0x0100A8C0 69 1024 (length [0 :: u8]) pinged = (1, s1) \<and> eth_out s1 = eth_out pinged @ [request] \<and>
    NetReceive (request @ []) 60 (host 0x0100A8C0 sample_mac) = Some t' \<and>
    eth_out t' = eth_out (host 0x0100A8C0 sample_mac) @ [answer] \<and>
    NetReceive (answer @ []) 60 s1 = Some s2 \<and>
    eth_out s2 = eth_out s1 @ [udp_frame pinged (NetOurEther (host 0x0100A8C0 sample_mac)) 0x0100A8C0 69 1024 [0]] \<and>
    NetServerEther s2 = NetOurEther (host 0x0100A8C0 sample_mac) \<and> NetArpWaitPacketIP s2 = 0"
  by (rule arp_exchange) (simp_all add: unresolved_def host_simps PKTSIZE_ALIGN_def)

theorem receive_damaged_witness:
  "\<exists>ms. NetReceive (blit (udp_frame pinged sample_mac 0x0100A8C0 69 1024 [] @ []) (14 + 2 * 0) (le16_bytes 0x46)) 60 pinged
    = Some (pinged\<lparr>printed := ms\<rparr>)"
proof -
  have "le16 (udp_frame pinged sample_mac 0x0100A8C0 69 1024 [] @ []) (14 + 2 * 0) = 0x45"
    using in_bufferD(2) [OF in_buffer_udp_frame(2) [of sample_mac pinged "0x0100A8C0" 69 1024 "[]" "[]"], of 0]
    by (simp add: host_simps le16_def ip_header_nth udp_header_def)
  then show ?thesis by (intro receive_damaged) (simp_all add: host_simps)
qed

definition loading :: tftp where
  "loading = tftp_reset\<lparr>packetHandler := Some TftpHandler\<rparr>"

lemma loading_received: "received F 2 (ucast (1024 :: u16)) (ucast (1069 :: u16)) (\<lambda>_. 0) 0x84000000 0 0 loading"
  by (simp add: loading_def received_def tftp_reset_def tftp.defs net.defs net_reset_def)

lemma loading_simps: "untagged loading" "packetHandler loading = Some TftpHandler" "TftpOurPort loading = 1024"
  by (simp_all add: loading_def untagged_def tftp_reset_def tftp.defs net.defs net_reset_def)

theorem tftp_length_unchecked_witness:
  "NetReceive (blit (udp_frame pinged sample_mac (NetOurIP loading) 1024 1069 (data_packet [7, 8, 9] 2 (0 + 1)) @ [])
      38 (le16_bytes (htons 0xffff))) 1514 loading = None"
  by (rule tftp_length_unchecked [OF _ _ loading_simps(1,2) loading_received])
    (simp_all add: host_simps data_packet_def file_block_def)

theorem rarp_unsolicited_witness:
  "\<exists>s'. NetReceive (sample_mac @ sample_mac2 @ le16_bytes (htons PROT_RARP) @
      arp_packet 4 sample_mac2 5 sample_mac 6 @ []) 60 loading = Some s' \<and>
    NetOurIP s' = 6 \<and> NetServerEther s' = sample_mac2 \<and> packetHandler s' = Some TftpHandler"
  by (rule rarp_unsolicited) (simp_all add: loading_simps)

end
