(* ===== verification/NetRun.thy ===== *)
theory NetRun
  imports NetLoop
begin

text \<open>
  A whole download through the main loop: \<open>NetLoop\<close> with TFTP, from the request and the address
  resolution to the last block, against a server that answers in time.
\<close>

section \<open>The loop between two blocks\<close>

definition live :: "u32 \<Rightarrow> u32 \<Rightarrow> tftp \<Rightarrow> bool" where
  "live ip \<tau> s \<longleftrightarrow>
     linked s \<and> packetHandler s = Some TftpHandler \<and> timer_set s \<tau> \<and> NetArpWaitPacketIP s = 0 \<and> NetOurIP s = ip"

text \<open>What arrives in a turn: a data frame with the rest of its buffer and its length, or nothing, and the time.\<close>

type_synonym tick = "(u8 list \<times> int) option \<times> u32"

fun turns_of :: "tftp \<Rightarrow> u8 list \<Rightarrow> u32 \<Rightarrow> u16 \<Rightarrow> u16 \<Rightarrow> u8 list \<Rightarrow> nat \<Rightarrow> nat \<Rightarrow> tick list \<Rightarrow> turn list" where
  "turns_of q mac ip port tid F B k [] = []"
| "turns_of q mac ip port tid F B k ((None, c) # es) =
     \<lparr>frames = [], abort_key = False, clock = c\<rparr> # turns_of q mac ip port tid F B k es"
| "turns_of q mac ip port tid F B k ((Some (pad, len), c) # es) =
     \<lparr>frames = [(udp_frame q mac ip port tid (data_packet F B (k + 1)) @ pad, len)], abort_key = False, clock = c\<rparr>
     # turns_of q mac ip port tid F B (k + 1) es"

text \<open>The server is in time when no idle turn comes more than the timeout after the last block.\<close>

fun timely :: "u8 list \<Rightarrow> nat \<Rightarrow> nat \<Rightarrow> u32 \<Rightarrow> tick list \<Rightarrow> bool" where
  "timely F B k \<tau> [] \<longleftrightarrow> k = blocks F B"
| "timely F B k \<tau> ((None, c) # es) \<longleftrightarrow> k < blocks F B \<and> c - \<tau> \<le> TIMEOUT * CFG_HZ \<and> timely F B k \<tau> es"
| "timely F B k \<tau> ((Some (pad, len), c) # es) \<longleftrightarrow>
     k < blocks F B \<and> 1514 \<le> len \<and> len < 2 ^ 31 \<and> timely F B (k + 1) c es"

lemma live_after_send:
  assumes q: "same_net q s" "timer_set q c" and s: "linked s" "packetHandler s = Some TftpHandler"
      "NetArpWaitPacketIP s = 0" "NetOurIP s = ip" "net_time s = c" and st: "TftpState q = STATE_DATA"
  shows "live ip c (TftpSend q)" "net_time (TftpSend q) = c" "net_vars (TftpSend q) = net_vars s"
proof -
  have l: "linked q" using q s by (simp add: same_net_def linked_def untagged_def)
  have "length (tftp_message q) < 1400" by (simp add: tftp_message_def st)
  from TftpSend_linked [OF l this] obtain b e where b: "length b = PKTSIZE_ALIGN"
      "TftpSend q = q\<lparr>NetTxPacket := b, NetIPID := NetIPID q + 1, eth_out := e\<rparr>" by blast
  show "live ip c (TftpSend q)" "net_time (TftpSend q) = c" "net_vars (TftpSend q) = net_vars s"
    unfolding b(2) using l b(1) q s by (simp_all add: live_def linked_def untagged_def same_net_def timer_set_def)
qed

lemma live_done_with:
  "live ip c (done_with s) = live ip c s" "net_time (done_with s) = net_time s" "net_vars (done_with s) = net_vars s"
  by (simp_all add: live_def done_with_def say_def linked_def untagged_def timer_set_def)

lemma live_checks:
  assumes "live ip \<tau> s" "net_time s - \<tau> \<le> TIMEOUT * CFG_HZ"
  shows "check_timeout (ArpTimeoutCheck s) = s"
  using assms by (simp add: live_def timer_set_def ArpTimeoutCheck_def check_timeout_def)

lemma turn_block:
  assumes r: "received F B (ucast port) (ucast tid) m a k 0 s" and l: "live ip \<tau> s"
    and q: "length mac = 6" "length (NetOurEther q) = 6" and B: "0 < B" "B \<le> 1468"
    and fits: "unat a + length F < 2 ^ 32" and k: "k < blocks F B" and len: "1514 \<le> len" "len < 2 ^ 31"
  shows "\<exists>s'. receive_all [(udp_frame q mac ip port tid (data_packet F B (k + 1)) @ pad, len)] (s\<lparr>net_time := c\<rparr>) = Some s' \<and>
    live ip c s' \<and> net_time s' = c \<and> net_vars s' = net_vars s \<and>
    (if k + 1 = blocks F B then complete F m a s' else received F B (ucast port) (ucast tid) m a (k + 1) 0 s')"
proof -
  let ?s = "s\<lparr>net_time := c\<rparr>" and ?p = "data_packet F B (k + 1)"
  have r': "received F B (ucast port) (ucast tid) m a k 0 ?s" using r by (simp add: received_def)
  have s: "linked ?s" "packetHandler ?s = Some TftpHandler" "NetArpWaitPacketIP ?s = 0" "NetOurIP ?s = ip" "net_time ?s = c"
    using l by (simp_all add: live_def linked_def untagged_def)
  have n: "length ?p \<le> 1472" using B by (simp add: length_data_packet file_block_def)
  then have len': "int (42 + length ?p) \<le> len" using len by simp
  obtain s' where s': "arrive F B (ucast port) (ucast tid) (Next pad) k ?s = Some (k + 1, s')"
    "if k + 1 = blocks F B then complete F m a s' else received F B (ucast port) (ucast tid) m a (k + 1) 0 s'"
    and "\<exists>q. (s' = TftpSend q \<or> s' = done_with (TftpSend q)) \<and> same_net q ?s \<and> timer_set q (net_time ?s) \<and>
       TftpState q = STATE_DATA \<and> TftpServerPort q = ucast tid \<and> TftpOurPort q = ucast port \<and>
       TftpBlock q = word_of_nat ((k + 1) mod 65536)"
    using arrive_next [OF r' fits B(1) k, of pad] by blast
  then obtain z where q': "s' = TftpSend z \<or> s' = done_with (TftpSend z)" "same_net z ?s" "timer_set z c" "TftpState z = STATE_DATA"
    by auto
  have "TftpHandler_run (?p @ pad) (ucast port) (ucast tid) (word_of_nat (length ?p)) ?s = Some s'"
    using s'(1) by (auto simp: arrive_def)
  moreover have "NetReceive (udp_frame q mac ip port tid ?p @ pad) len ?s =
      run_handler (?p @ pad) (ucast port) (ucast tid) (word_of_nat (length ?p)) ?s"
    by (rule NetReceive_udp) (use q n len len' s in \<open>simp_all add: linked_def\<close>)
  ultimately have "receive_all [(udp_frame q mac ip port tid ?p @ pad, len)] ?s = Some s'"
    using s(2) by (simp add: run_handler_def)
  moreover have "live ip c s'" "net_time s' = c" "net_vars s' = net_vars s"
    using live_after_send [OF q'(2,3) s q'(4)] q'(1) by (auto simp: live_done_with)
  ultimately show ?thesis using s'(2) by blast
qed

lemma turns_run:
  assumes "received F B (ucast port) (ucast tid) m a k 0 s" "live ip \<tau> s" "k < blocks F B" "timely F B k \<tau> es"
    and q: "length mac = 6" "length (NetOurEther q) = 6" and B: "0 < B" "B \<le> 1468"
    and fits: "unat a + length F < 2 ^ 32"
  shows "\<exists>s'. net_turns TFTP ether our (turns_of q mac ip port tid F B k es) s
      = Returned (sint (word_of_nat (length F) :: u32)) (net_success s') \<and> complete F m a s'"
  using assms
proof (induction q mac ip port tid F B k es arbitrary: s \<tau> rule: turns_of.induct)
  case (2 q mac ip port tid F B k c es)
  let ?s = "s\<lparr>net_time := c\<rparr>"
  have l: "live ip \<tau> ?s" "received F B (ucast port) (ucast tid) m a k 0 ?s" and t: "c - \<tau> \<le> TIMEOUT * CFG_HZ" "timely F B k \<tau> es"
    using 2(2,3,5) by (simp_all add: live_def linked_def untagged_def timer_set_def received_def)
  have ck: "check_timeout (ArpTimeoutCheck ?s) = ?s" by (rule live_checks [OF l(1)]) (use t in simp)
  have st: "NetState ?s = NETLOOP_CONTINUE" using l by (simp add: received_def)
  have "net_turns TFTP ether our (turns_of q mac ip port tid F B k ((None, c) # es)) s
      = net_turns TFTP ether our (turns_of q mac ip port tid F B k es) ?s"
    by (simp add: ck st Let_def del: CFG_HZ_def)
  then show ?case using 2(1) [OF l(2,1) 2(4) t(2) 2(6-10)] by simp
next
  case (3 q mac ip port tid F B k pad len c es)
  from 3(5) have t: "1514 \<le> len" "len < 2 ^ 31" "timely F B (k + 1) c es" by simp_all
  obtain s' where s': "receive_all [(udp_frame q mac ip port tid (data_packet F B (k + 1)) @ pad, len)] (s\<lparr>net_time := c\<rparr>) = Some s'"
      "live ip c s'" "net_time s' = c"
      "if k + 1 = blocks F B then complete F m a s' else received F B (ucast port) (ucast tid) m a (k + 1) 0 s'"
    using turn_block [OF 3(2,3,6,7,8,9,10,4) t(1,2)] by blast
  have ck: "check_timeout (ArpTimeoutCheck s') = s'"
    by (rule live_checks [OF s'(2)]) (simp add: s'(3))
  let ?t = "turns_of q mac ip port tid F B (k + 1) es"
  have run: "net_turns TFTP ether our (turns_of q mac ip port tid F B k ((Some (pad, len), c) # es)) s =
     (case NetState s' of
        NETLOOP_RESTART \<Rightarrow> (case net_begin TFTP ether our s' of (r, s) \<Rightarrow>
            if r < 0 then Returned (- 1) s else net_turns TFTP ether our ?t s)
      | NETLOOP_SUCCESS \<Rightarrow> Returned (sint (NetBootFileXferSize s')) (net_success s')
      | NETLOOP_FAIL \<Rightarrow> Returned (- 1) s'
      | NETLOOP_CONTINUE \<Rightarrow> net_turns TFTP ether our ?t s')"
    using s'(1) by (simp only: turns_of.simps net_turns.simps turn.simps option.case if_False Let_def ck)
  show ?case
  proof (cases "k + 1 = blocks F B")
    case True
    then have c: "complete F m a s'" using s'(4) by simp
    then show ?thesis unfolding run by (intro exI [of _ s']) (simp add: complete_def)
  next
    case False
    then have k: "k + 1 < blocks F B" using 3(4) by simp
    from False s'(4) have r: "received F B (ucast port) (ucast tid) m a (k + 1) 0 s'" by simp
    then have "NetState s' = NETLOOP_CONTINUE" by (simp add: received_def)
    then show ?thesis unfolding run using 3(1) [OF r s'(2) k t(3) 3(6-10)] by simp
  qed
qed auto

section \<open>From the command to the first block\<close>

lemma print_IPaddr_say:
  "print_IPaddr x s = s\<lparr>printed := printed s @ (case ip_to_string x of None \<Rightarrow> [] | Some (t, _) \<Rightarrow> [Puts_bytes t])\<rparr>"
  by (simp add: print_IPaddr_def say_def split: option.split prod.split)

lemma printed_ex: "\<exists>ms. s\<lparr>printed := p\<rparr> = (s :: tftp)\<lparr>printed := ms\<rparr>"
  by blast

lemma let_printed:
  assumes "\<exists>ms. x = (s :: tftp)\<lparr>printed := ms\<rparr>" "\<And>ms. \<exists>ms'. f (s\<lparr>printed := ms\<rparr>) = g ms'"
  shows "\<exists>ms'. Let x f = g ms'"
  using assms by (auto simp: Let_def)

text \<open>The state in which \<open>TftpStart\<close> sends the request for a named file.\<close>

definition tftp_asking :: "tftp \<Rightarrow> tftp" where
  "tftp_asking s = s\<lparr>packetHandler := Some TftpHandler, timeHandler := Some TftpTimeout, timeStart := net_time s,
     timeDelta := TIMEOUT * CFG_HZ, NetServerEther := NetEtherNullAddr, tftp_filename := BootFile s,
     TftpServerPort := WELL_KNOWN_PORT, TftpTimeoutCount := 0, TftpState := STATE_RRQ,
     TftpOurPort := 1024 + net_time s mod 3072, TftpBlock := 0, TftpBlkSize := TFTP_BLOCK_SIZE\<rparr>"

lemma TftpStart_named:
  assumes "deref (BootFile s) \<noteq> 0"
  shows "\<exists>ms. TftpStart s = TftpSend (tftp_asking (s\<lparr>printed := ms\<rparr>))"
proof -
  let ?s = "s\<lparr>tftp_filename := BootFile s\<rparr>"
  have z: "TIMEOUT * CFG_HZ \<noteq> 0" by (simp add: TIMEOUT_def CFG_HZ_def)
  have fin: "\<exists>ms'. f (?s\<lparr>printed := ms\<rparr>) = TftpSend (tftp_asking (s\<lparr>printed := ms'\<rparr>))"
    if "\<And>r. f r = TftpSend ((NetSetHandler TftpHandler (NetSetTimeout (TIMEOUT * CFG_HZ) TftpTimeout r))
      \<lparr>TftpServerPort := WELL_KNOWN_PORT, TftpTimeoutCount := 0, TftpState := STATE_RRQ,
       TftpOurPort := 1024 + net_time r mod 3072, TftpBlock := 0,
       NetServerEther := replicate 6 0, TftpBlkSize := TFTP_BLOCK_SIZE\<rparr>)" for f ms
    unfolding that
    by (rule exI [of _ ms], cases s)
      (simp add: z NetSetHandler_def NetSetTimeout_def tftp_asking_def NetEtherNullAddr_def)
  note step = let_printed [of _ ?s _ "\<lambda>ms. TftpSend (tftp_asking (s\<lparr>printed := ms\<rparr>))"]
  show ?thesis
    unfolding TftpStart_def
    apply (subst Let_def, rule step, rule exI [of _ "printed s"], (cases s, use assms in simp))
    apply ((rule step, force simp: print_IPaddr_say say_def printed_ex)+)
    apply (subst Let_def, (rule step, force simp: print_IPaddr_say say_def printed_ex)+)
    apply (rule fin)
    by (simp add: Let_def NetSetHandler_def NetSetTimeout_def z)
qed

lemma texts: "length (text_of ''%d'' [Word TIMEOUT]) = 1"
  "length (text_of ''blksize%c%d%c'' [Word 0, Word (ucast TftpBlkSizeOption), Word 0]) = 13"
  by code_simp+

lemma length_request:
  "TftpState s = STATE_RRQ \<Longrightarrow> length (tftp_message s) = 32 + length (tftp_filename s)"
  by (simp add: tftp_message_def texts ascii_def)

text \<open>The request to a server whose hardware address is not known yet is parked.\<close>

lemma TftpSend_parks:
  assumes s: "unresolved s (NetServerIP s)" and m: "length (tftp_message s) \<le> 1472"
  shows "\<exists>b c n. length b = PKTSIZE_ALIGN \<and> length c = PKTSIZE_ALIGN \<and>
    TftpSend s = s\<lparr>NetArpWaitPacketIP := NetServerIP s, NetArpWaitPacketMAC := Some ServerPtr, NetIPID := NetIPID s + 1,
      NetArpWaitTxPacket := c, NetArpWaitTxPacketSize := n, NetArpWaitTry := 1,
      NetArpWaitTimerStart := net_time s, NetArpWaitReplyIP := NetServerIP s, NetTxPacket := b,
      eth_out := eth_out s @ [arp_frame NetBcastAddr 1 (NetOurEther s) (NetOurIP s) (replicate 6 0) (NetServerIP s)]\<rparr>"
proof -
  let ?m = "tftp_message s" and ?b = "blit (NetTxPacket s) 42 (tftp_message s)"
  have l: "length (NetTxPacket s) = PKTSIZE_ALIGN" and u: "untagged s" using s by (simp_all add: unresolved_def)
  have s': "unresolved (s\<lparr>NetTxPacket := ?b\<rparr>) (NetServerIP s)"
    using s m by (simp add: unresolved_def untagged_def PKTSIZE_ALIGN_def)
  have "take (length ?m) (drop 42 (NetTxPacket (s\<lparr>NetTxPacket := ?b\<rparr>))) = ?m"
    using l m by (simp add: PKTSIZE_ALIGN_def blit_def)
  from NetSendUDPPacket_parks [OF s' m this, of "ucast (TftpServerPort s)" "ucast (TftpOurPort s)"]
  show ?thesis
    unfolding TftpSend_def Let_def untagged_simps [OF u] IP_HDR_SIZE_def by fastforce
qed

text \<open>What a board needs for a download: its addresses, a server on its network, no VLAN, and a file name.\<close>

definition ready :: "u8 list \<Rightarrow> u32 \<Rightarrow> u32 \<Rightarrow> tftp \<Rightarrow> bool" where
  "ready mac ip srv s \<longleftrightarrow>
     length mac = 6 \<and> mac \<noteq> NetEtherNullAddr \<and> ip \<noteq> 0 \<and> net_vars s (ascii ''vlan'') = None \<and>
     getenv_IPaddr ''serverip'' s = srv \<and> srv \<noteq> 0 \<and> srv \<noteq> 0xFFFFFFFF \<and>
     srv AND getenv_IPaddr ''netmask'' s = ip AND getenv_IPaddr ''netmask'' s \<and>
     deref (BootFile s) \<noteq> 0 \<and> length (BootFile s) \<le> 128 \<and>
     length (NetTxPacket s) = PKTSIZE_ALIGN \<and> length (NetArpWaitTxPacket s) = PKTSIZE_ALIGN"

text \<open>Between the request and the answer to it.\<close>

definition awaiting :: "u8 list \<Rightarrow> u32 \<Rightarrow> u32 \<Rightarrow> u32 \<Rightarrow> tftp \<Rightarrow> bool" where
  "awaiting mac ip srv \<tau> s \<longleftrightarrow>
     untagged s \<and> NetOurEther s = mac \<and> length mac = 6 \<and> NetOurIP s = ip \<and> ip \<noteq> 0 \<and> NetServerIP s = srv \<and> srv \<noteq> 0 \<and>
     srv \<noteq> 0xFFFFFFFF \<and> length (NetTxPacket s) = PKTSIZE_ALIGN \<and> packetHandler s = Some TftpHandler \<and> timer_set s \<tau> \<and>
     NetArpWaitPacketIP s = srv \<and> NetArpWaitReplyIP s = srv \<and> NetArpWaitPacketMAC s = Some ServerPtr"

lemma net_begin_awaits:
  assumes r: "ready mac ip srv s" and B: "B = 512" and m: "memory s = m" "load_addr s = a"
    and p: "port = 1024 + net_time s mod 3072"
  shows "\<exists>s'. net_begin TFTP mac ip s = (0, s') \<and> awaiting mac ip srv (net_time s) s' \<and>
    received F B port tid m a 0 0 s'"
proof -
  let ?s1 = "s\<lparr>NetOurEther := mac, NetState := NETLOOP_CONTINUE, NetOurIP := ip,
                NetOurGatewayIP := getenv_IPaddr ''gatewayip'' s, NetOurSubnetMask := getenv_IPaddr ''netmask'' s,
                NetOurVLAN := getenv_VLAN ''vlan'' s, NetOurNativeVLAN := getenv_VLAN ''nvlan'' s,
                NetServerIP := getenv_IPaddr ''serverip'' s\<rparr>"
  have v: "getenv_VLAN ''vlan'' s = htons VLAN_NONE"
    using r by (simp add: ready_def getenv_VLAN_def string_to_VLAN_def)
  have "deref (BootFile ?s1) \<noteq> 0" using r by (simp add: ready_def)
  then obtain ms where ms: "TftpStart ?s1 = TftpSend (tftp_asking (?s1\<lparr>printed := ms\<rparr>))"
    using TftpStart_named by blast
  let ?z = "tftp_asking (?s1\<lparr>printed := ms\<rparr>)"
  have u: "unresolved ?z (NetServerIP ?z)"
    using r v by (simp add: ready_def unresolved_def tftp_asking_def untagged_def)
  have n: "length (tftp_message ?z) \<le> 1472"
    using r by (subst length_request) (simp_all add: tftp_asking_def ready_def)
  obtain b c n where bc: "length b = PKTSIZE_ALIGN" "length c = PKTSIZE_ALIGN"
     "TftpSend ?z = ?z\<lparr>NetArpWaitPacketIP := NetServerIP ?z, NetArpWaitPacketMAC := Some ServerPtr, NetIPID := NetIPID ?z + 1,
      NetArpWaitTxPacket := c, NetArpWaitTxPacketSize := n, NetArpWaitTry := 1,
      NetArpWaitTimerStart := net_time ?z, NetArpWaitReplyIP := NetServerIP ?z, NetTxPacket := b,
      eth_out := eth_out ?z @ [arp_frame NetBcastAddr 1 (NetOurEther ?z) (NetOurIP ?z) (replicate 6 0) (NetServerIP ?z)]\<rparr>"
    using TftpSend_parks [OF u n] by blast
  have "net_begin TFTP mac ip s = (0, (TftpSend ?z)\<lparr>NetBootFileXferSize := 0\<rparr>)"
    unfolding ms [symmetric] net_begin_def Let_def
    using r by (simp add: net_check_prereq_def ready_def getenv_IPaddr_def)
  moreover have "awaiting mac ip srv (net_time s) ((TftpSend ?z)\<lparr>NetBootFileXferSize := 0\<rparr>)"
    unfolding bc(3) using r v bc(1) by (simp add: awaiting_def ready_def tftp_asking_def untagged_def timer_set_def)
  moreover have "received F B port tid m a 0 0 ((TftpSend ?z)\<lparr>NetBootFileXferSize := 0\<rparr>)"
    unfolding bc(3) using m B p by (simp add: received_def tftp_asking_def TFTP_BLOCK_SIZE_def)
  ultimately show ?thesis by blast
qed

lemma turn_resolved:
  assumes w: "awaiting mac ip srv \<tau> s" and r: "received F B port tid m a 0 0 s"
    and l: "length mac2 = 6" "mac2 \<noteq> NetEtherNullAddr" and len: "42 \<le> len"
  shows "\<exists>s'. receive_all [(arp_frame mac 2 mac2 srv mac ip @ pad, len)] (s\<lparr>net_time := c\<rparr>) = Some s' \<and>
    live ip \<tau> s' \<and> net_time s' = c \<and> net_vars s' = net_vars s \<and> received F B port tid m a 0 0 s'"
proof -
  let ?s = "s\<lparr>net_time := c\<rparr>" and ?f = "arp_frame mac 2 mac2 srv mac ip @ pad"
  have u: "untagged ?s" "length mac = 6" "NetOurIP ?s = ip" "ip \<noteq> 0"
    using w by (simp_all add: awaiting_def untagged_def)
  have "NetReceive ?f len ?s = Some (arp_reply ?f 14 ?s)"
    using NetReceive_arp [OF u(1,2) l(1) u(2) len u(3,4), of 2] by simp
  moreover have "arp_reply ?f 14 ?s = ?s\<lparr>NetServerEther := mac2, NetArpWaitTxPacket := blit (NetArpWaitTxPacket ?s) 0 mac2,
      eth_out := eth_out ?s @ [take (NetArpWaitTxPacketSize ?s) (blit (NetArpWaitTxPacket ?s) 0 mac2)],
      NetArpWaitPacketIP := 0, NetArpWaitTxPacketSize := 0, NetArpWaitPacketMAC := None\<rparr>"
    using w by (intro arp_reply_frame [OF u(2) l(1) u(2)]) (simp_all add: awaiting_def)
  ultimately show ?thesis
    using w r l by (simp add: live_def linked_def awaiting_def received_def untagged_def timer_set_def)
qed

lemma our_port: "(ucast (ucast (1024 + t mod 3072 :: u32) :: u16) :: u32) = 1024 + t mod 3072"
proof -
  have "unat (t mod 3072) < 3072" by (simp add: unat_mod)
  then have "unat (1024 + t mod 3072) < 65536" by (simp add: unat_word_ariths)
  then show ?thesis 
    by (simp add: word_unat_eq_iff unsigned_ucast_eq unsigned_take_bit_eq take_bit_nat_eq_self)
qed

lemma net_success_facts:
  assumes "complete F m a s" "length F < 2 ^ 32"
  shows "memory (net_success s) = overwrite m (unat a) F" "\<not> eth_up (net_success s)"
    "F \<noteq> [] \<Longrightarrow> net_vars (net_success s) (ascii ''filesize'') = Some (text_of ''%lX'' [Word (word_of_nat (length F))])"
proof -
  show "memory (net_success s) = overwrite m (unat a) F" "\<not> eth_up (net_success s)"
    using assms by (simp_all add: net_success_def complete_def eth_halt_def say_def Let_def)
  assume "F \<noteq> []"
  then have "(word_of_nat (length F) :: u32) \<noteq> 0" using word_of_nat_u32_0 [OF assms(2)] by simp
  then show "net_vars (net_success s) (ascii ''filesize'') = Some (text_of ''%lX'' [Word (word_of_nat (length F))])"
    using assms(1)
    by (simp add: net_success_def complete_def eth_halt_def say_def Let_def ascii_def word_neq_0_conv)
qed

lemma net_turns_download:
  assumes r: "received F B (ucast port) (ucast tid) m a 0 0 s" and w: "awaiting mac ip srv \<tau> s"
    and mac2: "length mac2 = 6" "mac2 \<noteq> NetEtherNullAddr" "42 \<le> len" and c: "c - \<tau> \<le> TIMEOUT * CFG_HZ"
    and es: "timely F B 0 \<tau> es" and q: "length (NetOurEther q) = 6" and B: "0 < B" "B \<le> 1468"
    and fits: "unat a + length F < 2 ^ 32"
  shows "\<exists>s'. net_turns TFTP mac ip (\<lparr>frames = [(arp_frame mac 2 mac2 srv mac ip @ pad, len)], abort_key = False, clock = c\<rparr>
      # turns_of q mac ip port tid F B 0 es) s = Returned (sint (word_of_nat (length F) :: u32)) (net_success s') \<and>
    complete F m a s'"
proof -
  obtain s' where s': "receive_all [(arp_frame mac 2 mac2 srv mac ip @ pad, len)] (s\<lparr>net_time := c\<rparr>) = Some s'"
    "live ip \<tau> s'" "net_time s' = c" "received F B (ucast port) (ucast tid) m a 0 0 s'"
    using turn_resolved [OF w r mac2] by blast
  have ck: "check_timeout (ArpTimeoutCheck s') = s'" by (rule live_checks [OF s'(2)]) (simp add: s'(3) c)
  have mac: "length mac = 6" using w by (simp add: awaiting_def)
  have "0 < blocks F B" by (simp add: blocks_def)
  from turns_run [OF s'(4,2) this es mac q B fits, of mac ip]
  show ?thesis
    using s'(1,4) by (simp add: ck received_def Let_def del: receive_all.simps)
qed

text \<open>C6: \<open>NetLoop\<close> with TFTP loads a file: on a board that knows its own and the server's address, once the server has answered the ARP request and sends the blocks in time, the call returns the length of the file, with the file at the load address and no other memory changed, the interface halted and \<open>filesize\<close> set.\<close>

theorem netloop_loads:
  assumes "ready mac ip srv s" "length mac2 = 6" "mac2 \<noteq> NetEtherNullAddr" "42 \<le> len"
    and "c - net_time s \<le> TIMEOUT * CFG_HZ" "timely F 512 0 (net_time s) es" "length (NetOurEther q) = 6"
    and "unat (load_addr s) + length F < 2 ^ 32"
  shows "\<exists>s'. NetLoop TFTP mac ip True (\<lparr>frames = [(arp_frame mac 2 mac2 srv mac ip @ pad, len)], abort_key = False, clock = c\<rparr>
      # turns_of q mac ip (ucast (1024 + net_time s mod 3072)) tid F 512 0 es) s
      = Returned (sint (word_of_nat (length F) :: u32)) s' \<and>
    memory s' = overwrite (memory s) (unat (load_addr s)) F \<and> \<not> eth_up s' \<and>
    (F \<noteq> [] \<longrightarrow> net_vars s' (ascii ''filesize'') = Some (text_of ''%lX'' [Word (word_of_nat (length F))]))"
proof -
  let ?s = "s\<lparr>NetArpWaitPacketMAC := None, NetArpWaitPacketIP := 0, NetArpWaitReplyIP := 0, NetArpWaitTxPacketSize := 0, eth_up := True\<rparr>"
  let ?port = "ucast (1024 + net_time s mod 3072) :: u16"
  have "ready mac ip srv ?s" using assms(1) by (simp add: ready_def getenv_IPaddr_def)
  from net_begin_awaits [OF this refl, of "memory s" "load_addr s" "ucast ?port" F "ucast tid"]
  obtain z where z: "net_begin TFTP mac ip ?s = (0, z)" "awaiting mac ip srv (net_time s) z"
      "received F 512 (ucast ?port) (ucast tid) (memory s) (load_addr s) 0 0 z"
    by (auto simp: our_port)
  from net_turns_download [OF z(3,2) assms(2-7) _ _ assms(8), of pad]
  obtain s' where s': "net_turns TFTP mac ip (\<lparr>frames = [(arp_frame mac 2 mac2 srv mac ip @ pad, len)], abort_key = False, clock = c\<rparr>
      # turns_of q mac ip ?port tid F 512 0 es) z = Returned (sint (word_of_nat (length F) :: u32)) (net_success s')"
      "complete F (memory s) (load_addr s) s'" by auto
  have "length F < 2 ^ 32" using assms(8) by simp
  note f = net_success_facts [OF s'(2) this]
  show ?thesis
    by (rule exI [of _ "net_success s'"]) (use s'(1) z(1) f in \<open>simp add: NetLoop_def eth_halt_def del: net_turns.simps\<close>)
qed

text \<open>A board at 192.168.0.10 and a server at 192.168.0.1 with a file of three bytes.\<close>

definition board :: tftp where
  "board = tftp_reset\<lparr>net_vars := [ascii ''serverip'' \<mapsto> ascii ''192.168.0.1''], BootFile := ascii ''f''\<rparr>"

lemma board_ready: "ready sample_mac2 0x0A00A8C0 0x0100A8C0 board"
proof -
  have "string_to_ip (Some (ascii ''192.168.0.1'')) = 0x0100A8C0" by code_simp
  then show ?thesis
    by (simp add: ready_def board_def getenv_IPaddr_def ascii_def string_to_ip_def NetEtherNullAddr_def six_zeros
        tftp_reset_def tftp.defs net.defs net_reset_def PKTSIZE_ALIGN_def deref_def)
qed

lemma board_simps: "net_time board = 0" "load_addr board = 0x84000000" "length (NetOurEther board) = 6" "memory board = (\<lambda>_. 0)"
  by (simp_all add: board_def tftp_reset_def tftp.defs net.defs net_reset_def)

theorem netloop_loads_witness:
  "\<exists>s'. NetLoop TFTP sample_mac2 0x0A00A8C0 True (\<lparr>frames = [(arp_frame sample_mac2 2 sample_mac 0x0100A8C0 sample_mac2 0x0A00A8C0 @ [], 60)],
        abort_key = False, clock = 1\<rparr>
      # turns_of board sample_mac2 0x0A00A8C0 (ucast (1024 + net_time board mod 3072)) 1069 [7, 8, 9] 512 0 [(None, 10), (Some ([], 1514), 20)]) board
      = Returned (sint (word_of_nat (length [7, 8, 9 :: u8]) :: u32)) s' \<and>
    memory s' = overwrite (memory board) (unat (load_addr board)) [7, 8, 9] \<and> \<not> eth_up s' \<and>
    net_vars s' (ascii ''filesize'') = Some (text_of ''%lX'' [Word (word_of_nat (length [7, 8, 9 :: u8]))])"
  using netloop_loads [OF board_ready, of sample_mac 60 1 "[7, 8, 9]" "[(None, 10), (Some ([], 1514), 20)]" board "[]" 1069]
  by (simp add: board_simps NetEtherNullAddr_def six_zeros TIMEOUT_def CFG_HZ_def blocks_def)

end
