(* ===== verification/Image.thy ===== *)
theory Image
  imports Crc32 Tftp
begin

text \<open>
  Images: the file format of \<open>include/image.h\<close>, the tool \<open>tools/mkimage.c\<close> that writes it, and the commands
  that read it (\<open>iminfo\<close> of \<open>common/cmd_bootm.c\<close>, \<open>imxtract\<close> of \<open>common/cmd_ximg.c\<close>, \<open>autoscr\<close> of
  \<open>common/cmd_autoscript.c\<close>). A header is kept as its 64 bytes, which is what the checksum is taken of.
  The files \<open>mkimage\<close> reads are lists of bytes; where it exits with an error (\<open>mmap\<close> of an empty file fails, too) there is
  no image. Its options are already numbers, and its time is a parameter. Of the shell, \<open>parse_string_outer\<close> is a parameter. The
  commands read the memory of the record \<open>boot\<close>, in which U-Boot's own variables do not lie: an image that is loaded over U-Boot
  itself is not modelled. \<open>do_imgextract\<close> and \<open>autoscript\<close> end when the table of sizes does (\<open>None\<close>: there is no end).
\<close>

section \<open>The header\<close>

abbreviation IH_MAGIC :: u32 where "IH_MAGIC \<equiv> 0x27051956"
abbreviation IH_NMLEN :: nat where "IH_NMLEN \<equiv> 32"
abbreviation HEADER_SIZE :: nat where "HEADER_SIZE \<equiv> 64"

abbreviation IH_OS_NETBSD :: u8 where "IH_OS_NETBSD \<equiv> 2"
abbreviation IH_OS_LINUX :: u8 where "IH_OS_LINUX \<equiv> 5"
abbreviation IH_OS_RTEMS :: u8 where "IH_OS_RTEMS \<equiv> 18"
abbreviation IH_CPU_SH :: u8 where "IH_CPU_SH \<equiv> 9"
abbreviation IH_TYPE_STANDALONE :: u8 where "IH_TYPE_STANDALONE \<equiv> 1"
abbreviation IH_TYPE_KERNEL :: u8 where "IH_TYPE_KERNEL \<equiv> 2"
abbreviation IH_TYPE_RAMDISK :: u8 where "IH_TYPE_RAMDISK \<equiv> 3"
abbreviation IH_TYPE_MULTI :: u8 where "IH_TYPE_MULTI \<equiv> 4"
abbreviation IH_TYPE_SCRIPT :: u8 where "IH_TYPE_SCRIPT \<equiv> 6"
abbreviation IH_COMP_NONE :: u8 where "IH_COMP_NONE \<equiv> 0"
abbreviation IH_COMP_GZIP :: u8 where "IH_COMP_GZIP \<equiv> 1"

abbreviation (input) ntohl :: "u32 \<Rightarrow> u32" where "ntohl \<equiv> htonl"

text \<open>The fields of a header, in the order of the structure.\<close>

definition ih_magic :: "u8 list \<Rightarrow> u32" where "ih_magic h = ntohl (le32 h 0)"
definition ih_hcrc :: "u8 list \<Rightarrow> u32" where "ih_hcrc h = ntohl (le32 h 4)"
definition ih_size :: "u8 list \<Rightarrow> u32" where "ih_size h = ntohl (le32 h 12)"
definition ih_load :: "u8 list \<Rightarrow> u32" where "ih_load h = ntohl (le32 h 16)"
definition ih_ep :: "u8 list \<Rightarrow> u32" where "ih_ep h = ntohl (le32 h 20)"
definition ih_dcrc :: "u8 list \<Rightarrow> u32" where "ih_dcrc h = ntohl (le32 h 24)"
definition ih_os :: "u8 list \<Rightarrow> u8" where "ih_os h = h ! 28"
definition ih_arch :: "u8 list \<Rightarrow> u8" where "ih_arch h = h ! 29"
definition ih_type :: "u8 list \<Rightarrow> u8" where "ih_type h = h ! 30"
definition ih_comp :: "u8 list \<Rightarrow> u8" where "ih_comp h = h ! 31"
definition ih_name :: "u8 list \<Rightarrow> u8 list" where "ih_name h = take IH_NMLEN (drop 32 h)"

section \<open>Writing images: \<open>mkimage\<close>\<close>

text \<open>A number in network byte order, as \<open>htonl\<close> leaves it in memory.\<close>

definition be32_bytes :: "u32 \<Rightarrow> u8 list" where "be32_bytes w = le32_bytes (htonl w)"

record mkopts =
  opt_os :: u8
  opt_arch :: u8
  opt_type :: u8
  opt_comp :: u8
  opt_addr :: u32
  opt_ep :: u32
  opt_name :: "u8 list"
  xflag :: bool

definition copy_file :: "bool \<Rightarrow> u8 list \<Rightarrow> bool \<Rightarrow> u8 list option" where
  "copy_file x datafile pad =
     (if datafile = [] then None
      else if x \<and> (length datafile < HEADER_SIZE \<or> take HEADER_SIZE datafile \<noteq> replicate HEADER_SIZE 0xff) then None
      else
        let out = drop (if x then HEADER_SIZE else 0) datafile;
            tail = length out mod 4
        in Some (out @ (if pad \<and> tail \<noteq> 0 then replicate (4 - tail) 0 else [])))"

fun copy_files :: "bool \<Rightarrow> u8 list list \<Rightarrow> u8 list option" where
  "copy_files x [] = None"
| "copy_files x [f] = copy_file x f False"
| "copy_files x (f # fs) =
     Option.bind (copy_file x f True) (\<lambda>d. map_option ((@) d) (copy_files x fs))"

definition size_table :: "u8 list list \<Rightarrow> u8 list" where
  "size_table files = concat (map (\<lambda>f. be32_bytes (word_of_nat (length f))) files) @ be32_bytes 0"

definition image_data :: "mkopts \<Rightarrow> u8 list list \<Rightarrow> u8 list option" where
  "image_data opts files =
     (if opt_type opts = IH_TYPE_MULTI \<or> opt_type opts = IH_TYPE_SCRIPT
      then map_option ((@) (size_table files)) (copy_files (xflag opts) files)
      else case files of [f] \<Rightarrow> copy_file (xflag opts) f False | _ \<Rightarrow> None)"

definition build_header :: "mkopts \<Rightarrow> u32 \<Rightarrow> u8 list \<Rightarrow> u8 list" where
  "build_header opts time data =
     (let hdr = be32_bytes IH_MAGIC @ be32_bytes 0 @ be32_bytes time @ be32_bytes (word_of_nat (length data))
            @ be32_bytes (opt_addr opts) @ be32_bytes (opt_ep opts) @ be32_bytes (crc32 0 data)
            @ [opt_os opts, opt_arch opts, opt_type opts, opt_comp opts]
            @ take IH_NMLEN (opt_name opts @ replicate IH_NMLEN 0)
      in blit hdr 4 (be32_bytes (crc32 0 hdr)))"

text \<open>An image executed in place is entered right behind its header.\<close>

definition xip_entry_ok :: "mkopts \<Rightarrow> bool" where
  "xip_entry_ok opts \<longleftrightarrow> xflag opts \<longrightarrow> opt_ep opts = opt_addr opts + 64"

definition mkimage :: "mkopts \<Rightarrow> u32 \<Rightarrow> u8 list list \<Rightarrow> u8 list option" where
  "mkimage opts time files =
     (if \<not> xip_entry_ok opts then None else map_option (\<lambda>data. build_header opts time data @ data) (image_data opts files))"

section \<open>The state of the commands\<close>

record boot =
  b_mem :: mem
  b_header :: "u8 list"                             \<comment> \<open>the global \<open>header\<close>\<close>
  b_vars :: "u8 list \<Rightarrow> u8 list option"  \<comment> \<open>what \<open>getenv\<close> finds\<close>
  b_load_addr :: u32
  b_out :: "print list"

definition tell :: "print \<Rightarrow> boot \<Rightarrow> boot" where
  "tell m s = s\<lparr>b_out := b_out s @ [m]\<rparr>"

definition ld_u32 :: "mem \<Rightarrow> u32 \<Rightarrow> u32" where
  "ld_u32 m a = le32 (bytes m (unat a) 4) 0"

definition setenv_text :: "string \<Rightarrow> string \<Rightarrow> u32 \<Rightarrow> boot \<Rightarrow> boot" where
  "setenv_text name fmt w s = s\<lparr>b_vars := (b_vars s)(ascii name \<mapsto> text_of fmt [Word w])\<rparr>"

definition verify_set :: "boot \<Rightarrow> bool" where
  "verify_set s = (case b_vars s (ascii ''verify'') of None \<Rightarrow> True | Some v \<Rightarrow> deref v \<noteq> 0x6e)"

text \<open>The header at an address, and the same with the checksum field blanked.\<close>

definition header_at :: "boot \<Rightarrow> u32 \<Rightarrow> u8 list" where
  "header_at s addr = bytes (b_mem s) (unat addr) HEADER_SIZE"

definition blank_hcrc :: "u8 list \<Rightarrow> u8 list" where
  "blank_hcrc h = blit h 4 (le32_bytes 0)"

definition hcrc_ok :: "u8 list \<Rightarrow> bool" where
  "hcrc_ok h \<longleftrightarrow> crc32 0 (blank_hcrc h) = ih_hcrc h"

definition dcrc_ok :: "u8 list \<Rightarrow> u32 \<Rightarrow> boot \<Rightarrow> bool" where
  "dcrc_ok h data s \<longleftrightarrow> crc32 0 (bytes (b_mem s) (unat data) (unat (ih_size h))) = ih_dcrc h"

section \<open>Printing a header\<close>

definition os_names :: "(u8 \<times> string) list" where
  "os_names = [(0, ''Invalid OS''), (2, ''NetBSD''), (5, ''Linux''), (14, ''VxWorks''), (16, ''QNX''), (17, ''U-Boot''), (18, ''RTEMS'')]"

definition arch_names :: "(u8 \<times> string) list" where
  "arch_names = [(0, ''Invalid CPU''), (1, ''Alpha''), (2, ''ARM''), (17, ''AVR32''), (16, ''Blackfin''), (3, ''Intel x86''),
     (4, ''IA64''), (12, ''M68K''), (14, ''Microblaze''), (6, ''MIPS 64 Bit''), (5, ''MIPS''), (15, ''Nios-II''), (13, ''Nios''),
     (7, ''PowerPC''), (8, ''IBM S390''), (9, ''SuperH''), (11, ''SPARC 64 Bit''), (10, ''SPARC''), (18, ''ST200'')]"

definition type_names :: "(u8 \<times> string) list" where
  "type_names = [(0, ''Invalid Image''), (1, ''Standalone Program''), (2, ''Kernel Image''), (3, ''RAMDisk Image''),
     (4, ''Multi-File Image''), (5, ''Firmware''), (6, ''Script''), (8, ''Flat Device Tree'')]"

definition comp_names :: "(u8 \<times> string) list" where
  "comp_names = [(0, ''uncompressed''), (1, ''gzip compressed''), (2, ''bzip2 compressed'')]"

definition name_in :: "(u8 \<times> string) list \<Rightarrow> string \<Rightarrow> u8 \<Rightarrow> varg" where
  "name_in tbl unknown c = Text (Some (ascii (case map_of tbl c of None \<Rightarrow> unknown | Some n \<Rightarrow> n)))"

definition print_type :: "u8 list \<Rightarrow> boot \<Rightarrow> boot" where
  "print_type h =
     tell (Printf ''%s %s %s (%s)''
       [name_in arch_names ''Unknown Architecture'' (ih_arch h), name_in os_names ''Unknown OS'' (ih_os h),
        name_in type_names ''Unknown Image'' (ih_type h), name_in comp_names ''unknown compression'' (ih_comp h)])"

partial_function (option) print_contents :: "u32 \<Rightarrow> u32 \<Rightarrow> boot \<Rightarrow> boot option" where
  "print_contents i len_ptr s =
     (let len = ntohl (ld_u32 (b_mem s) len_ptr) in
      if len = 0 then Some s
      else print_contents (i + 1) (len_ptr + 4)
             (tell (Puts nl) (tell (Print_size len) (tell (Printf ''   Image %d: %8ld Bytes = '' [Word i, Word len]) s))))"

definition print_fields :: "u8 list \<Rightarrow> boot \<Rightarrow> boot" where
  "print_fields h s =
     (let s = tell (Printf (''   Image Name:   %.*s'' @ nl) [Word (word_of_nat IH_NMLEN), Text (Some (takeWhile ((\<noteq>) 0) (ih_name h)))]) s;
          s = print_type h (tell (Puts ''   Image Type:   '') s);
          s = tell (Printf (nl @ ''   Data Size:    %d Bytes = '') [Word (ih_size h)]) s;
          s = tell (Puts nl) (tell (Print_size (ih_size h)) s)
      in tell (Printf (''   Load Address: %08x'' @ nl @ ''   Entry Point:  %08x'' @ nl) [Word (ih_load h), Word (ih_ep h)]) s)"

definition print_image_hdr :: "u32 \<Rightarrow> boot \<Rightarrow> boot option" where
  "print_image_hdr addr s =
     (let h = header_at s addr; s = print_fields h s
      in if ih_type h = IH_TYPE_MULTI
         then print_contents 0 (addr + 64) (tell (Puts (''   Contents:'' @ nl)) s)
         else Some s)"

section \<open>\<open>iminfo\<close>\<close>

definition image_info :: "u32 \<Rightarrow> boot \<Rightarrow> (int \<times> boot) option" where
  "image_info addr s =
     (let s = tell (Printf (nl @ ''## Checking Image at %08lx ...'' @ nl) [Word addr]) s;
          h = header_at s addr; s = s\<lparr>b_header := h\<rparr> in
      if ih_magic h \<noteq> IH_MAGIC then Some (1, tell (Puts (''   Bad Magic Number'' @ nl)) s)
      else let s = s\<lparr>b_header := blank_hcrc h\<rparr> in
      if \<not> hcrc_ok h then Some (1, tell (Puts (''   Bad Header Checksum'' @ nl)) s)
      else Option.bind (print_image_hdr addr s) (\<lambda>s.
        let s = tell (Puts ''   Verifying Checksum ... '') s in
        if \<not> dcrc_ok h (addr + 64) s then Some (1, tell (Puts (''   Bad Data CRC'' @ nl)) s)
        else Some (0, tell (Puts (''OK'' @ nl)) s)))"

fun iminfo_args :: "u8 list list \<Rightarrow> int \<Rightarrow> boot \<Rightarrow> (int \<times> boot) option" where
  "iminfo_args [] rcode s = Some (rcode, s)"
| "iminfo_args (a # argv) rcode s =
     Option.bind (image_info (fst (simple_strtoul a 16)) s) (\<lambda>(r, s). iminfo_args argv (if r \<noteq> 0 then 1 else rcode) s)"

definition do_iminfo :: "u8 list list \<Rightarrow> boot \<Rightarrow> (int \<times> boot) option" where
  "do_iminfo argv s = (if length argv < 2 then image_info (b_load_addr s) s else iminfo_args (tl argv) 0 s)"

section \<open>\<open>imxtract\<close>\<close>

text \<open>The loop over the table of sizes: the number of parts and the address of the part (or of the first one).\<close>

partial_function (option) part_loop :: "mem \<Rightarrow> bool \<Rightarrow> int \<Rightarrow> u32 \<Rightarrow> int \<Rightarrow> u32 \<Rightarrow> (int \<times> u32) option" where
  "part_loop m sel part len_ptr i data =
     (let w = ld_u32 m (len_ptr + 4 * word_of_int i) in
      if w = 0 then Some (i, data)
      else
        part_loop m sel part len_ptr (i + 1)
          (let data = data + 4 in
           if sel \<and> i < part then
             let len = ntohl w; tail = len mod 4; data = data + len in
             if tail \<noteq> 0 then data + (4 - tail) else data
           else data))"

definition do_imgextract :: "u8 list list \<Rightarrow> boot \<Rightarrow> (int \<times> boot) option" where
  "do_imgextract argv s =
     (let argc = length argv;
          addr = (if argc > 1 then fst (simple_strtoul (argv ! 1) 16) else b_load_addr s);
          part = (if argc > 2 then sint (fst (simple_strtoul (argv ! 2) 16)) else 0);
          dest = (if argc > 3 then fst (simple_strtoul (argv ! 3) 16) else 0);
          s = tell (Printf (''## Copying from image at %08lx ...'' @ nl) [Word addr]) s;
          header = header_at s addr; data = addr + 64 in
      if ih_magic header \<noteq> IH_MAGIC then Some (1, tell (Printf (''Bad Magic Number'' @ nl) []) s)
      else if \<not> hcrc_ok header then Some (1, tell (Printf (''Bad Header Checksum'' @ nl) []) s)
      else if ih_type header \<noteq> IH_TYPE_MULTI
        then Some (1, tell (Printf (''Wrong Image Type for %s command'' @ nl) [Text (Some (ascii ''imxtract''))]) s)
      else if ih_comp header \<noteq> IH_COMP_NONE
        then Some (1, tell (Printf (''Wrong Compression Type for %s command'' @ nl) [Text (Some (ascii ''imxtract''))]) s)
      else
        let s' = tell (Printf ''   Verifying Checksum ... '' []) s in
        if verify_set s \<and> \<not> dcrc_ok header data s then Some (1, tell (Printf (''Bad Data CRC'' @ nl) []) s')
        else
          let s = (if verify_set s then tell (Printf (''OK'' @ nl) []) s' else s) in
          Option.bind (part_loop (b_mem s) (argc > 2) part data 0 (data + 4)) (\<lambda>(i, from).
            if argc > 2 \<and> part \<ge> i then Some (1, tell (Printf (''Bad Image Part'' @ nl) []) s)
            else
              let len = ntohl (ld_u32 (b_mem s) (data + 4 * word_of_int part));
                  s = (if argc > 3 then s\<lparr>b_mem := memcpy (b_mem s) (unat dest) (unat from) (unat len)\<rparr> else s)
              in Some (0, setenv_text ''filesize'' ''%8lx'' len (setenv_text ''fileaddr'' ''%8lx'' from s))))"

section \<open>\<open>autoscr\<close>\<close>

text \<open>\<open>while (*len_ptr++);\<close>\<close>

partial_function (option) after_table :: "mem \<Rightarrow> u32 \<Rightarrow> u32 option" where
  "after_table m len_ptr = (if ld_u32 m len_ptr = 0 then Some (len_ptr + 4) else after_table m (len_ptr + 4))"

text \<open>The shell (\<open>parse_string_outer\<close>) and whether \<open>malloc\<close> delivers are parameters.\<close>

definition autoscript :: "(u8 list \<Rightarrow> boot \<Rightarrow> int \<times> boot) \<Rightarrow> (u32 \<Rightarrow> bool) \<Rightarrow> u32 \<Rightarrow> boot \<Rightarrow> (int \<times> boot) option" where
  "autoscript shell malloc addr s =
     (let h = header_at s addr; s = s\<lparr>b_header := h\<rparr>; data = addr + 64 in
      if ih_magic h \<noteq> IH_MAGIC then Some (1, tell (Puts (''Bad magic number'' @ nl)) s)
      else let s = s\<lparr>b_header := blank_hcrc h\<rparr> in
      if \<not> hcrc_ok h then Some (1, tell (Puts (''Bad header crc'' @ nl)) s)
      else if verify_set s \<and> \<not> dcrc_ok h data s then Some (1, tell (Puts (''Bad data crc'' @ nl)) s)
      else if ih_type h \<noteq> IH_TYPE_SCRIPT then Some (1, tell (Puts (''Bad image type'' @ nl)) s)
      else
        let len = ntohl (ld_u32 (b_mem s) data) in
        if len = 0 then Some (1, tell (Puts (''Empty Script'' @ nl)) s)
        else if \<not> malloc (len + 1) then Some (1, s)
        else map_option (\<lambda>p. shell (takeWhile ((\<noteq>) 0) (bytes (b_mem s) (unat p) (unat len))) s) (after_table (b_mem s) data))"

definition do_autoscript :: "(u8 list \<Rightarrow> boot \<Rightarrow> int \<times> boot) \<Rightarrow> (u32 \<Rightarrow> bool) \<Rightarrow> u8 list list \<Rightarrow> boot \<Rightarrow> (int \<times> boot) option" where
  "do_autoscript shell malloc argv s =
     (let addr = (case argv of _ # a # _ \<Rightarrow> fst (simple_strtoul a 16) | _ \<Rightarrow> 0x80000000)
      in autoscript shell malloc addr (tell (Printf (''## Executing script at %08lx'' @ nl) [Word addr]) s))"

section \<open>Numbers in network byte order\<close>

lemma length_be32_bytes [simp]: "length (be32_bytes w) = 4"
  by (simp add: be32_bytes_def)

lemma htonl_0 [simp]: "htonl 0 = 0"
  by (simp add: htonl_def)

lemma be32_bytes_0: "be32_bytes 0 = le32_bytes 0"
  by (simp add: be32_bytes_def)

lemma le32_be32 [simp]: "le32 (be32_bytes w @ xs) 0 = htonl w"
  by (rule le32_of_bytes) (simp_all add: be32_bytes_def le32_bytes_def)

lemma nth_skip: "length xs = n \<Longrightarrow> n \<le> i \<Longrightarrow> (xs @ ys) ! (i + k) = ys ! (i - n + k)"
  by (simp add: nth_append)

lemma le32_skip:
  assumes "length xs = n" "n \<le> i"
  shows "le32 (xs @ ys) i = le32 ys (i - n)"
  using nth_skip [OF assms, of ys 0] nth_skip [OF assms, of ys 1] nth_skip [OF assms, of ys 2] nth_skip [OF assms, of ys 3]
  unfolding le32_def by simp

lemma le32_skip4 [simp]: "4 \<le> i \<Longrightarrow> le32 (be32_bytes w @ ys) i = le32 ys (i - 4)"
  by (rule le32_skip) simp_all

lemma le32_same: "i < length xs - 3 \<Longrightarrow> (\<And>j. i \<le> j \<Longrightarrow> j < i + 4 \<Longrightarrow> xs ! j = ys ! j) \<Longrightarrow> le32 xs i = le32 ys i"
  by (simp add: le32_def)

section \<open>The header \<open>mkimage\<close> writes\<close>

definition header_rest :: "mkopts \<Rightarrow> u32 \<Rightarrow> u8 list \<Rightarrow> u8 list" where
  "header_rest opts time data =
     be32_bytes time @ be32_bytes (word_of_nat (length data)) @ be32_bytes (opt_addr opts) @ be32_bytes (opt_ep opts)
     @ be32_bytes (crc32 0 data) @ [opt_os opts, opt_arch opts, opt_type opts, opt_comp opts]
     @ take IH_NMLEN (opt_name opts @ replicate IH_NMLEN 0)"

lemma length_header_rest [simp]: "length (header_rest opts time data) = 56"
  by (simp add: header_rest_def)

lemma blit_second: "length a = 4 \<Longrightarrow> length b = 4 \<Longrightarrow> length c = 4 \<Longrightarrow> blit (a @ b @ r) 4 c = a @ c @ r"
  by (simp add: blit_def)

lemma build_header_eq:
  "build_header opts time data = be32_bytes IH_MAGIC
     @ be32_bytes (crc32 0 (be32_bytes IH_MAGIC @ be32_bytes 0 @ header_rest opts time data)) @ header_rest opts time data"
  unfolding build_header_def Let_def header_rest_def [symmetric] append_assoc
  by (simp only: blit_second length_be32_bytes header_rest_def [symmetric])

lemma blank_build_header:
  "blank_hcrc (build_header opts time data) = be32_bytes IH_MAGIC @ be32_bytes 0 @ header_rest opts time data"
  by (simp add: blank_hcrc_def build_header_eq blit_second be32_bytes_0)

lemma build_header_fields [simp]:
  fixes opts :: mkopts and time :: u32 and data :: "u8 list"
  defines "h \<equiv> build_header opts time data"
  shows "length h = 64" "ih_magic h = IH_MAGIC" "hcrc_ok h" "ih_size h = word_of_nat (length data)" "ih_load h = opt_addr opts"
    "ih_ep h = opt_ep opts" "ih_dcrc h = crc32 0 data" "ih_os h = opt_os opts" "ih_arch h = opt_arch opts"
    "ih_type h = opt_type opts" "ih_comp h = opt_comp opts"
proof -
  show "length h = 64" by (simp add: h_def build_header_eq)
  show "ih_magic h = IH_MAGIC" "ih_size h = word_of_nat (length data)" "ih_load h = opt_addr opts"
    "ih_ep h = opt_ep opts" "ih_dcrc h = crc32 0 data"
    by (simp_all add: h_def build_header_eq ih_magic_def ih_size_def ih_load_def ih_ep_def ih_dcrc_def htonl_htonl header_rest_def)
  have c: "crc32 0 (be32_bytes IH_MAGIC @ be32_bytes 0 @ header_rest opts time data) = ih_hcrc h"
    by (simp add: h_def build_header_eq ih_hcrc_def htonl_htonl)
  show "hcrc_ok h" unfolding hcrc_ok_def c [symmetric] by (simp add: h_def blank_build_header)
  show "ih_os h = opt_os opts" "ih_arch h = opt_arch opts" "ih_type h = opt_type opts" "ih_comp h = opt_comp opts"
    by (simp_all add: h_def build_header_eq ih_os_def ih_arch_def ih_type_def ih_comp_def header_rest_def nth_append)
qed

section \<open>Images in memory\<close>

definition image_at :: "boot \<Rightarrow> u32 \<Rightarrow> u8 list \<Rightarrow> bool" where
  "image_at s addr img \<longleftrightarrow> bytes (b_mem s) (unat addr) (length img) = img \<and> unat addr + length img < 2 ^ 32"

lemma bytes_add: "bytes m a (n + k) = bytes m a n @ bytes m (a + n) k"
  by (induction n arbitrary: a) (simp_all add: bytes_Suc)

lemma bytes_split:
  assumes "bytes m a (length (xs @ ys)) = xs @ ys"
  shows "bytes m a (length xs) = xs" "bytes m (a + length xs) (length ys) = ys"
  using assms unfolding length_append bytes_add by simp_all

lemma image_parts:
  assumes "image_at s addr (h @ data)" "length h = 64"
  shows "header_at s addr = h" "unat (addr + 64) = unat addr + 64" "bytes (b_mem s) (unat (addr + 64)) (length data) = data"
    "unat (word_of_nat (length data) :: u32) = length data" "unat addr + 64 + length data < 2 ^ 32"
proof -
  have b: "bytes (b_mem s) (unat addr) (length (h @ data)) = h @ data" and l: "unat addr + 64 + length data < 2 ^ 32"
    using assms by (simp_all add: image_at_def)
  show "header_at s addr = h" using bytes_split(1) [OF b] assms(2) by (simp add: header_at_def)
  show u: "unat (addr + 64) = unat addr + 64" using l by (simp add: unat_word_ariths)
  show "bytes (b_mem s) (unat (addr + 64)) (length data) = data" using bytes_split(2) [OF b] assms(2) u by simp
  show "unat (word_of_nat (length data) :: u32) = length data" using l by (simp add: unat_of_nat)
  show "unat addr + 64 + length data < 2 ^ 32" by (rule l)
qed

lemma mkimage_data:
  assumes "mkimage opts time files = Some img"
  obtains data where "image_data opts files = Some data" "img = build_header opts time data @ data"
  using assms by (auto simp: mkimage_def split: if_splits)

text \<open>Everything the checks of a command look at is right for an image \<open>mkimage\<close> wrote.\<close>

lemma mkimage_checks:
  assumes "image_at s addr (build_header opts time data @ data)"
  shows "header_at s addr = build_header opts time data" "dcrc_ok (build_header opts time data) (addr + 64) s"
  using image_parts [OF assms] by (simp_all add: dcrc_ok_def)

section \<open>Damaged images\<close>

lemma le32_update_other: "i + 4 \<le> j \<Longrightarrow> le32 (xs[j := b]) i = le32 xs i"
  by (simp add: le32_def)

lemma le32_update_other': "j < i \<Longrightarrow> le32 (xs[j := b]) i = le32 xs i"
  by (simp add: le32_def)

lemma le32_update_same:
  assumes "j < 4" "i + j < length xs" "xs ! (i + j) \<noteq> b"
  shows "le32 (xs[i + j := b]) i \<noteq> le32 xs i"
  using byte_of_le32 [OF assms(1), of "xs[i + j := b]" i] byte_of_le32 [OF assms(1), of xs i] assms(2,3) by auto

lemma htonl_inj: "htonl x = htonl y \<longleftrightarrow> x = y"
  by (metis htonl_htonl)

lemma blit_update_inside: "off \<le> i \<Longrightarrow> i < off + length c \<Longrightarrow> blit (xs[i := b]) off c = blit xs off c"
  by (simp add: blit_def)

lemma blit_update_after:
  assumes "off + length c \<le> i" "off + length c \<le> length xs"
  shows "blit (xs[i := b]) off c = (blit xs off c)[i := b]"
  using assms by (auto simp: blit_def list_update_append drop_update_swap)

text \<open>One byte of a sound header changed: some check fails.\<close>

lemma header_damaged:
  assumes h: "length h = 64" "ih_magic h = IH_MAGIC" "hcrc_ok h" and i: "i < 64" "h ! i \<noteq> b"
  shows "\<not> (ih_magic (h[i := b]) = IH_MAGIC \<and> hcrc_ok (h[i := b]))"
proof -
  consider "i < 4" | "4 \<le> i" "i < 8" | "8 \<le> i" by linarith
  then show ?thesis
  proof cases
    case 1
    then have "le32 (h[i := b]) 0 \<noteq> le32 h 0" using le32_update_same [of i 0 h b] h(1) i by simp
    then have "ih_magic (h[i := b]) \<noteq> ih_magic h" by (simp only: ih_magic_def htonl_inj not_False_eq_True)
    then show ?thesis using h by simp
  next
    case 2
    then obtain j where j: "i = 4 + j" "j < 4" using le_Suc_ex [of 4 i] by auto
    then have "ih_hcrc (h[i := b]) \<noteq> ih_hcrc h"
      using le32_update_same [of j 4 h b] h i by (simp add: ih_hcrc_def htonl_inj)
    moreover have "blank_hcrc (h[i := b]) = blank_hcrc h"
      using 2 by (simp add: blank_hcrc_def blit_update_inside)
    ultimately show ?thesis using h by (simp add: hcrc_ok_def)
  next
    case 3
    have e: "blank_hcrc (h[i := b]) = (blank_hcrc h)[i := b]"
      using 3 h by (simp add: blank_hcrc_def blit_update_after)
    have n: "length (blank_hcrc h) = 64" "blank_hcrc h ! i = h ! i"
      using 3 h i by (simp_all add: blank_hcrc_def nth_blit)
    have "crc32 0 ((blank_hcrc h)[i := b]) \<noteq> crc32 0 (blank_hcrc h)"
      by (rule crc32_byte_changed) (use n i in simp_all)
    moreover have "ih_hcrc (h[i := b]) = ih_hcrc h" using 3 by (simp add: ih_hcrc_def le32_update_other)
    ultimately show ?thesis using h by (simp add: hcrc_ok_def e)
  qed
qed

lemma image_damaged:
  assumes "image_at s addr ((build_header opts time data @ data)[i := b])" "i < 64 + length data"
    "(build_header opts time data @ data) ! i \<noteq> b"
  shows "\<not> (ih_magic (header_at s addr) = IH_MAGIC \<and> hcrc_ok (header_at s addr) \<and> dcrc_ok (header_at s addr) (addr + 64) s)"
proof (cases "i < 64")
  case True
  let ?h = "build_header opts time data"
  have "image_at s addr (?h[i := b] @ data)" using assms(1) True by (simp add: list_update_append)
  then have "header_at s addr = ?h[i := b]" using image_parts(1) by simp
  moreover have "?h ! i \<noteq> b" using assms(3) True by (simp add: nth_append)
  ultimately show ?thesis using header_damaged [of ?h i b] True by auto
next
  case False
  let ?h = "build_header opts time data" and ?d = "data[i - 64 := b]"
  have "image_at s addr (?h @ ?d)" using assms(1) False by (simp add: list_update_append)
  note p = image_parts [OF this]
  have "crc32 0 ?d \<noteq> crc32 0 data"
    by (rule crc32_byte_changed) (use assms(2,3) False in \<open>simp_all add: nth_append\<close>)
  then show ?thesis using p by (simp add: dcrc_ok_def)
qed

section \<open>Tables of sizes\<close>

lemma ld_u32_bytes:
  assumes "bytes m a n = xs @ be32_bytes w @ ys" "unat p = a + length xs" "n = length (xs @ be32_bytes w @ ys)"
  shows "ld_u32 m p = htonl w"
proof -
  have "bytes m a (length (xs @ (be32_bytes w @ ys))) = xs @ (be32_bytes w @ ys)" using assms(1) unfolding assms(3) .
  from bytes_split(2) [OF this] have "bytes m (unat p) (length (be32_bytes w @ ys)) = be32_bytes w @ ys"
    by (simp add: assms(2))
  from bytes_split(1) [OF this] have b: "bytes m (unat p) 4 = be32_bytes w" by simp
  have "le32 (be32_bytes w @ []) 0 = htonl w" by (rule le32_be32)
  then show ?thesis unfolding ld_u32_def b by simp
qed

definition table_at :: "mem \<Rightarrow> u32 \<Rightarrow> u8 list list \<Rightarrow> bool" where
  "table_at m p files \<longleftrightarrow>
     (\<forall>k<length files. ld_u32 m (p + 4 * word_of_nat k) = htonl (word_of_nat (length (files ! k)))) \<and>
     ld_u32 m (p + 4 * word_of_nat (length files)) = 0"

lemma length_size_table: "length (size_table files) = 4 * length files + 4"
  by (induction files) (simp_all add: size_table_def)

lemma size_table_nth:
  "k < length files \<Longrightarrow> \<exists>xs ys. size_table files = xs @ be32_bytes (word_of_nat (length (files ! k))) @ ys \<and> length xs = 4 * k"
proof (induction files arbitrary: k)
  case (Cons f files)
  show ?case
  proof (cases k)
    case 0
    have "size_table (f # files) = [] @ be32_bytes (word_of_nat (length f)) @ size_table files" by (simp add: size_table_def)
    with 0 show ?thesis by fastforce
  next
    case (Suc j)
    then obtain xs ys where "size_table files = xs @ be32_bytes (word_of_nat (length (files ! j))) @ ys" "length xs = 4 * j"
      using Cons.IH [of j] Cons.prems by fastforce
    then show ?thesis
      using Suc by (intro exI [of _ "be32_bytes (word_of_nat (length f)) @ xs"] exI [of _ ys]) (simp add: size_table_def)
  qed
qed simp

lemma size_table_end: "size_table files = concat (map (\<lambda>f. be32_bytes (word_of_nat (length f))) files) @ be32_bytes 0 @ []"
  by (simp add: size_table_def)

lemma table_in_memory:
  assumes "bytes m (unat p) (length (size_table files @ rest)) = size_table files @ rest"
    "unat p + length (size_table files @ rest) < 2 ^ 32"
  shows "table_at m p files"
  unfolding table_at_def
proof (intro conjI allI impI)
  have u: "unat (p + 4 * word_of_nat k) = unat p + 4 * k" if "k \<le> length files" for k
  proof -
    have "unat p + 4 * k < 2 ^ 32" using assms(2) that by (simp add: length_size_table)
    then show ?thesis by (simp add: unat_word_ariths unat_of_nat)
  qed
  fix k assume k: "k < length files"
  obtain xs ys where x: "size_table files = xs @ be32_bytes (word_of_nat (length (files ! k))) @ ys" "length xs = 4 * k"
    using size_table_nth [OF k] by blast
  show "ld_u32 m (p + 4 * word_of_nat k) = htonl (word_of_nat (length (files ! k)))"
    by (rule ld_u32_bytes [where xs = xs and ys = "ys @ rest", OF _ _ refl])
      (use assms(1) k x u in \<open>simp_all add: add.assoc\<close>)
next
  have u: "unat (p + 4 * word_of_nat (length files)) = unat p + 4 * length files"
    using assms(2) by (simp add: length_size_table unat_word_ariths unat_of_nat)
  have n: "length (concat (map (\<lambda>f. be32_bytes (word_of_nat (length f))) files)) = 4 * length files"
    by (induction files) simp_all
  have "ld_u32 m (p + 4 * word_of_nat (length files)) = htonl 0"
    by (rule ld_u32_bytes [where ys = rest, OF _ _ refl, where xs = "concat (map (\<lambda>f. be32_bytes (word_of_nat (length f))) files)"])
      (use assms(1) n u in \<open>simp_all add: size_table_def\<close>)
  then show "ld_u32 m (p + 4 * word_of_nat (length files)) = 0" by simp
qed

section \<open>The commands on images\<close>

lemma tell_simps [simp]:
  "b_mem (tell m s) = b_mem s" "b_vars (tell m s) = b_vars s" "b_header (tell m s) = b_header s"
  "b_load_addr (tell m s) = b_load_addr s" "header_at (tell m s) addr = header_at s addr"
  "dcrc_ok h addr (tell m s) = dcrc_ok h addr s" "verify_set (tell m s) = verify_set s"
  by (simp_all add: tell_def header_at_def dcrc_ok_def verify_set_def)

lemma header_update_simps [simp]:
  "header_at (s\<lparr>b_header := h\<rparr>) addr = header_at s addr" "dcrc_ok g addr (s\<lparr>b_header := h\<rparr>) = dcrc_ok g addr s"
  "verify_set (s\<lparr>b_header := h\<rparr>) = verify_set s"
  by (simp_all add: header_at_def dcrc_ok_def verify_set_def)

lemma print_contents_mem:
  assumes "print_contents i p s = Some s'"
  shows "b_mem s' = b_mem s \<and> b_header s' = b_header s \<and> b_vars s' = b_vars s"
  by (rule print_contents.raw_induct [OF _ assms, where P = "\<lambda>_ _ s s'. b_mem s' = b_mem s \<and> b_header s' = b_header s \<and> b_vars s' = b_vars s"])
    (fastforce simp: Let_def split: if_splits)

lemma print_fields_frame [simp]:
  "b_mem (print_fields h s) = b_mem s" "b_header (print_fields h s) = b_header s" "b_vars (print_fields h s) = b_vars s"
  by (simp_all add: print_fields_def print_type_def Let_def)

lemma print_image_hdr_mem:
  "print_image_hdr addr s = Some s' \<Longrightarrow> b_mem s' = b_mem s \<and> b_header s' = b_header s \<and> b_vars s' = b_vars s"
  by (auto simp: print_image_hdr_def Let_def dest: print_contents_mem split: if_splits)

lemma word_of_nat_len: "0 < n \<Longrightarrow> n < 2 ^ 32 \<Longrightarrow> (word_of_nat n :: u32) \<noteq> 0"
  by (metis bot_nat_0.not_eq_extremum nat_less_le word_of_nat_u32_0)

lemma table_at_Cons:
  assumes "table_at m p (f # files)"
  shows "ld_u32 m p = htonl (word_of_nat (length f))" "table_at m (p + 4) files"
proof -
  show "ld_u32 m p = htonl (word_of_nat (length f))"
    using conjunct1 [OF assms [unfolded table_at_def], rule_format, of 0] by simp
  show "table_at m (p + 4) files"
    unfolding table_at_def
  proof (intro conjI allI impI)
    fix k assume "k < length files"
    then have "ld_u32 m (p + 4 * word_of_nat (Suc k)) = htonl (word_of_nat (length ((f # files) ! Suc k)))"
      using assms unfolding table_at_def by (simp del: of_nat_Suc)
    then show "ld_u32 m (p + 4 + 4 * word_of_nat k) = htonl (word_of_nat (length (files ! k)))"
      by (simp add: algebra_simps)
  next
    show "ld_u32 m (p + 4 + 4 * word_of_nat (length files)) = 0"
      using assms by (simp add: table_at_def algebra_simps)
  qed
qed

lemma size_word_nonzero: "f \<noteq> [] \<Longrightarrow> length f < 2 ^ 32 \<Longrightarrow> htonl (word_of_nat (length f)) \<noteq> 0"
  by (metis htonl_0 htonl_inj length_greater_0_conv word_of_nat_len)

lemma print_contents_table:
  assumes "table_at (b_mem s) p files" "\<forall>f\<in>set files. f \<noteq> [] \<and> length f < 2 ^ 32"
  shows "\<exists>s'. print_contents i p s = Some s'"
  using assms
proof (induction files arbitrary: i p s)
  case Nil
  then show ?case by (subst print_contents.simps) (simp add: table_at_def)
next
  case (Cons f files)
  have "(word_of_nat (length f) :: u32) \<noteq> 0" using Cons.prems(2) by (intro word_of_nat_len) simp_all
  then show ?case
    using Cons.IH [of _ "p + 4"] table_at_Cons [OF Cons.prems(1)] Cons.prems(2)
    by (subst print_contents.simps) (simp add: htonl_htonl Let_def)
qed

lemma image_info_checks:
  "image_info addr s = Some (0, s') \<Longrightarrow>
    ih_magic (header_at s addr) = IH_MAGIC \<and> hcrc_ok (header_at s addr) \<and> dcrc_ok (header_at s addr) (addr + 64) s"
  by (auto simp: image_info_def Let_def dcrc_ok_def dest!: print_image_hdr_mem split: if_splits bind_splits)

lemma do_imgextract_checks:
  "do_imgextract argv s = Some (0, s') \<Longrightarrow> verify_set s \<Longrightarrow> 1 < length argv \<Longrightarrow> addr = fst (simple_strtoul (argv ! 1) 16) \<Longrightarrow>
    ih_magic (header_at s addr) = IH_MAGIC \<and> hcrc_ok (header_at s addr) \<and> dcrc_ok (header_at s addr) (addr + 64) s"
  by (auto simp: do_imgextract_def Let_def split: if_splits)

lemma multi_table:
  assumes "image_at s addr (build_header opts time data @ data)" "image_data opts files = Some data"
    "opt_type opts = IH_TYPE_MULTI \<or> opt_type opts = IH_TYPE_SCRIPT"
  shows "table_at (b_mem s) (addr + 64) files"
    "\<exists>body. data = size_table files @ body \<and> copy_files (xflag opts) files = Some body"
proof -
  show b: "\<exists>body. data = size_table files @ body \<and> copy_files (xflag opts) files = Some body"
    using assms(2,3) by (auto simp: image_data_def)
  then obtain body where body: "data = size_table files @ body" by blast
  note p = image_parts [OF assms(1) build_header_fields(1)]
  show "table_at (b_mem s) (addr + 64) files"
    by (rule table_in_memory [where rest = body]) (use p body in simp_all)
qed

section \<open>Where the parts of an image are\<close>

definition padded :: "nat \<Rightarrow> nat" where
  "padded n = n + (if n mod 4 \<noteq> 0 then 4 - n mod 4 else 0)"

definition part_offset :: "u8 list list \<Rightarrow> nat \<Rightarrow> nat" where
  "part_offset files k = (\<Sum>j<k. padded (length (files ! j)))"

lemma part_offset_Suc: "part_offset (f # files) (Suc k) = padded (length f) + part_offset files k"
  unfolding part_offset_def sum.lessThan_Suc_shift by simp

lemma length_copy_padded: "copy_file False f True = Some d \<Longrightarrow> d = f @ drop (length f) d \<and> length d = padded (length f)"
  by (auto simp: copy_file_def Let_def padded_def split: if_splits)

lemma copy_files_part:
  "copy_files False files = Some body \<Longrightarrow> k < length files \<Longrightarrow>
    \<exists>pre post. body = pre @ files ! k @ post \<and> length pre = part_offset files k"
proof (induction "False" files arbitrary: k body rule: copy_files.induct)
  case (2 f)
  then have "body = [] @ f @ []" by (simp add: copy_file_def Let_def split: if_splits)
  with 2 show ?case by (intro exI [of _ "[]"]) (simp add: part_offset_def)
next
  case (3 f g fs)
  then obtain d rest where d: "copy_file False f True = Some d" "copy_files False (g # fs) = Some rest" "body = d @ rest"
    by (auto split: bind_splits)
  note l = length_copy_padded [OF d(1)]
  show ?case
  proof (cases k)
    case 0
    have "body = [] @ f @ (drop (length f) d @ rest)" using l d(3) by (metis append.assoc append_Nil)
    with 0 show ?thesis
      by (intro exI [of _ "[]"] exI [of _ "drop (length f) d @ rest"]) (simp add: part_offset_def)
  next
    case (Suc j)
    then obtain pre post where "rest = pre @ (g # fs) ! j @ post" "length pre = part_offset (g # fs) j"
      using 3(1) [OF d(1,2), of j] 3(3) by auto
    then show ?thesis
      using Suc d(3) l by (intro exI [of _ "d @ pre"] exI [of _ post]) (simp add: part_offset_Suc)
  qed
qed simp

lemma padded_word:
  fixes d :: u32
  assumes "l < 2 ^ 32"
  shows "(let len = word_of_nat l; tail = len mod 4; data = d + len in if tail \<noteq> 0 then data + (4 - tail) else data)
    = d + word_of_nat (padded l)"
proof -
  have m: "(word_of_nat l :: u32) mod 4 = word_of_nat (l mod 4)"
    using assms by (simp add: word_unat_eq_iff unat_mod unat_of_nat)
  have "l mod 4 < 2 ^ 32" by (rule le_less_trans [of _ 3]) simp_all
  then have z: "(word_of_nat (l mod 4) :: u32) = 0 \<longleftrightarrow> l mod 4 = 0" by (rule word_of_nat_u32_0)
  have "4 - (word_of_nat (l mod 4) :: u32) = word_of_nat (4 - l mod 4)" by (simp add: of_nat_diff)
  then show ?thesis by (simp add: m z padded_def Let_def add.assoc)
qed

lemma part_loop_table:
  assumes t: "table_at m p files" "\<forall>f\<in>set files. f \<noteq> [] \<and> length f < 2 ^ 32" and i: "i \<le> length files"
  shows "part_loop m sel part p (int i) d = Some (int (length files), d + 4 * word_of_nat (length files - i) +
    word_of_nat (\<Sum>j = i..<length files. if sel \<and> int j < part then padded (length (files ! j)) else 0))"
  using i
proof (induction arbitrary: d rule: inc_induct)
  case base
  have "ld_u32 m (p + 4 * word_of_int (int (length files))) = 0" using t(1) by (simp add: table_at_def)
  then show ?case by (subst part_loop.simps) (simp add: Let_def)
next
  case (step n)
  have len: "files ! n \<noteq> []" "length (files ! n) < 2 ^ 32" using t(2) step(2) by auto
  have w: "ld_u32 m (p + 4 * word_of_int (int n)) = htonl (word_of_nat (length (files ! n)))"
    using t(1) step(2) by (simp add: table_at_def)
  have nz: "htonl (word_of_nat (length (files ! n))) \<noteq> 0"
    using len by (rule size_word_nonzero)
  let ?d = "d + 4 + (if sel \<and> int n < part then word_of_nat (padded (length (files ! n))) else 0)"
  have step_data: "(let data = d + 4 in if sel \<and> int n < part then
      let len = htonl (htonl (word_of_nat (length (files ! n)))); tail = len mod 4; data = data + len in
      if tail \<noteq> 0 then data + (4 - tail) else data else data) = ?d"
    using padded_word [OF len(2), of "d + 4"] unfolding htonl_htonl Let_def by (cases "sel \<and> int n < part") (simp_all only: if_True if_False, simp_all)
  have "part_loop m sel part p (int n) d = part_loop m sel part p (int n + 1) ?d"
    by (subst part_loop.simps) (simp only: w Let_def [of "htonl (word_of_nat (length (files ! n)))"] nz if_False step_data)
  then have "part_loop m sel part p (int n) d = part_loop m sel part p (int (Suc n)) ?d" by (simp add: add.commute)
  moreover have "length files - n = Suc (length files - Suc n)" using step(2) by simp
  ultimately show ?case
    using step(3) step(2) by (simp add: sum.atLeast_Suc_lessThan algebra_simps)
qed

lemma part_address:
  assumes "table_at m p files" "\<forall>f\<in>set files. f \<noteq> [] \<and> length f < 2 ^ 32" "k < length files"
  shows "part_loop m True (int k) p 0 d = Some (int (length files), d + 4 * word_of_nat (length files) + word_of_nat (part_offset files k))"
proof -
  have "(\<Sum>j = 0..<length files. if int j < int k then padded (length (files ! j)) else 0) = part_offset files k"
    using assms(3) by (simp add: part_offset_def sum.If_cases lessThan_atLeast0 Collect_conj_eq [symmetric])
      (rule sum.cong; auto)
  then show ?thesis using part_loop_table [OF assms(1,2), of 0 True "int k" d] by simp
qed

lemma image_files:
  assumes img: "image_at s addr (build_header opts time data @ data)" "image_data opts files = Some data"
    and opts: "opt_type opts = IH_TYPE_MULTI \<or> opt_type opts = IH_TYPE_SCRIPT" "\<not> xflag opts" and k: "k < length files"
  defines "from \<equiv> addr + 64 + (4 + 4 * word_of_nat (length files)) + word_of_nat (part_offset files k)"
  shows "length files < 2 ^ 30" "length (files ! k) < 2 ^ 32" "unat addr < unat from"
    "unat from + length (files ! k) \<le> unat addr + 64 + length data"
    "bytes (b_mem s) (unat from) (length (files ! k)) = files ! k"
proof -
  obtain body where body: "data = size_table files @ body" "copy_files False files = Some body"
    using multi_table(2) [OF img opts(1)] opts(2) by auto
  obtain pre post where part: "body = pre @ files ! k @ post" "length pre = part_offset files k"
    using copy_files_part [OF body(2) k] by blast
  note p = image_parts [OF img(1) build_header_fields(1)]
  let ?pre = "size_table files @ pre"
  have n: "length ?pre = 4 + 4 * length files + part_offset files k" using part(2) by (simp add: length_size_table)
  have l: "unat addr + 64 + (length ?pre + (length (files ! k) + length post)) < 2 ^ 32"
    using p(5) body(1) part(1) by simp
  then show "length files < 2 ^ 30" "length (files ! k) < 2 ^ 32" using n by simp_all
  have "unat from = unat addr + 64 + (4 + 4 * length files) + part_offset files k"
    using l n unfolding from_def by (simp add: unat_word_ariths unat_of_nat)
  then have u: "unat from = unat (addr + 64) + length ?pre" using n p(2) by simp
  then show "unat addr < unat from" "unat from + length (files ! k) \<le> unat addr + 64 + length data"
    using p(2) body(1) part(1) by simp_all
  have b: "bytes (b_mem s) (unat (addr + 64)) (length (?pre @ (files ! k @ post))) = ?pre @ (files ! k @ post)"
    using p(3) body(1) part(1) by simp
  from bytes_split(1) [OF bytes_split(2) [OF b]] u
  show "bytes (b_mem s) (unat from) (length (files ! k)) = files ! k" by simp
qed

lemma copy_files_nonempty: "copy_files x files = Some body \<Longrightarrow> f \<in> set files \<Longrightarrow> f \<noteq> []"
  by (induction x files arbitrary: body rule: copy_files.induct) (auto simp: copy_file_def split: bind_splits if_splits)

lemma files_fit:
  assumes "image_at s addr (build_header opts time data @ data)" "image_data opts files = Some data"
    "opt_type opts = IH_TYPE_MULTI \<or> opt_type opts = IH_TYPE_SCRIPT" "\<not> xflag opts"
  shows "\<forall>f\<in>set files. f \<noteq> [] \<and> length f < 2 ^ 32"
  using image_files(2) [OF assms] multi_table(2) [OF assms(1-3)] copy_files_nonempty
  by (fastforce simp: in_set_conv_nth)

lemma mkimage_prints:
  assumes img: "image_at s addr (build_header opts time data @ data)" and d: "image_data opts files = Some data"
    and "opt_type opts = IH_TYPE_MULTI \<longrightarrow> \<not> xflag opts" and r: "b_mem r = b_mem s"
  shows "\<exists>s'. print_image_hdr addr r = Some s'"
proof (cases "opt_type opts = IH_TYPE_MULTI")
  case True
  then have "\<forall>f\<in>set files. f \<noteq> [] \<and> length f < 2 ^ 32" using files_fit [OF img d] assms(3) by simp
  with multi_table(1) [OF img d] True r show ?thesis
    unfolding print_image_hdr_def Let_def by (auto intro!: print_contents_table)
next
  case False
  moreover have "header_at r addr = build_header opts time data" using mkimage_checks(1) [OF img] r by (simp add: header_at_def)
  ultimately show ?thesis by (simp add: print_image_hdr_def Let_def)
qed

text \<open>What \<open>mkimage\<close> writes is accepted: at any address of memory, \<open>iminfo\<close> finds the magic number and both checksums of the image right, whatever its type and however many files it has; only of a multi-file image made for execution in place nothing is said.\<close>

theorem mkimage_accepted:
  assumes "mkimage opts time files = Some img" and "image_at s addr img"
    and "opt_type opts = IH_TYPE_MULTI \<longrightarrow> \<not> xflag opts"
  shows "\<exists>s'. image_info addr s = Some (0, s') \<and> b_mem s' = b_mem s"
proof -
  obtain data where d: "image_data opts files = Some data" "img = build_header opts time data @ data"
    using mkimage_data [OF assms(1)] .
  let ?h = "build_header opts time data"
  have img: "image_at s addr (?h @ data)" using assms(2) d(2) by simp
  note ck = mkimage_checks [OF img]
  obtain s' where s': "print_image_hdr addr ((tell (Printf (nl @ ''## Checking Image at %08lx ...'' @ nl) [Word addr]) s)
      \<lparr>b_header := ?h, b_header := blank_hcrc ?h\<rparr>) = Some s'"
    using mkimage_prints [OF img d(1) assms(3)] by fastforce
  from print_image_hdr_mem [OF this] have "b_mem s' = b_mem s" by simp
  then show ?thesis
    using s' ck by (simp add: image_info_def Let_def dcrc_ok_def)
qed

text \<open>One changed byte anywhere in an image, header or data, is noticed: \<open>iminfo\<close> never reports it good, \<open>imxtract\<close> extracts nothing, and \<open>autoscr\<close> does not call the shell (the latter two unless \<open>verify\<close> is set to no).\<close>

theorem damage_refused:
  assumes "mkimage opts time files = Some img" and "i < length img" "img ! i \<noteq> b" and "image_at s addr (img[i := b])"
    and "verify_set s" and "fst (simple_strtoul a 16) = addr"
  shows "image_info addr s \<noteq> Some (0, s') \<and> do_imgextract (c # a # args) s \<noteq> Some (0, s') \<and>
    autoscript shell malloc addr s = autoscript shell' malloc addr s"
proof (intro conjI)
  obtain data where d: "img = build_header opts time data @ data" using mkimage_data [OF assms(1)] .
  have bad: "\<not> (ih_magic (header_at s addr) = IH_MAGIC \<and> hcrc_ok (header_at s addr) \<and> dcrc_ok (header_at s addr) (addr + 64) s)"
    by (rule image_damaged [where i = i and b = b]) (use assms(2-4) d in simp_all)
  show "image_info addr s \<noteq> Some (0, s')" using bad image_info_checks by blast
  show "do_imgextract (c # a # args) s \<noteq> Some (0, s')"
    using bad do_imgextract_checks [of "c # a # args" s s' addr] assms(5,6) by auto
  show "autoscript shell malloc addr s = autoscript shell' malloc addr s"
    using bad assms(5) unfolding autoscript_def Let_def by auto
qed

text \<open>A small image in an otherwise empty memory.\<close>

definition demo_opts :: "u8 \<Rightarrow> mkopts" where
  "demo_opts ty = \<lparr>opt_os = IH_OS_LINUX, opt_arch = IH_CPU_SH, opt_type = ty, opt_comp = IH_COMP_NONE,
     opt_addr = 0x80010000, opt_ep = 0x80011000, opt_name = ascii ''demo'', xflag = False\<rparr>"

definition demo_boot :: "u32 \<Rightarrow> u8 list \<Rightarrow> boot" where
  "demo_boot addr img = \<lparr>b_mem = overwrite (\<lambda>_. 0) (unat addr) img, b_header = replicate 64 0,
     b_vars = [ascii ''bootargs'' \<mapsto> ascii ''hwaddr=00:00:00:00:00:00 x''], b_load_addr = 0, b_out = []\<rparr>"

lemma bytes_stored: "bytes (overwrite m a xs) a (length xs) = xs"
  by (auto simp: bytes_def overwrite_def intro: nth_equalityI)

lemma image_at_stored: "unat addr + length img < 2 ^ 32 \<Longrightarrow> image_at (demo_boot addr img) addr img"
  by (simp add: image_at_def demo_boot_def bytes_stored)

lemma length_build_header: "length (build_header opts time data) = 64"
  by (rule build_header_fields)

definition demo_files :: "u8 list list" where
  "demo_files = [[1, 2, 3], [4, 5]]"

lemma demo_image: "\<exists>img. mkimage (demo_opts IH_TYPE_MULTI) 0 demo_files = Some img \<and> length img = 82"
  by (simp add: mkimage_def xip_entry_ok_def demo_opts_def image_data_def demo_files_def copy_file_def size_table_def
      length_build_header Let_def)

lemma demo_numbers:
  "fst (simple_strtoul (ascii ''82000000'') 16) = 0x82000000" "fst (simple_strtoul (ascii ''83000000'') 16) = 0x83000000"
  "fst (simple_strtoul (ascii ''1'') 16) = 1"
  by code_simp+

lemma memcpy_copies:
  "unat dest \<le> unat src \<or> unat src + n \<le> unat dest \<Longrightarrow>
    memcpy m (unat (dest :: u32)) (unat (src :: u32)) n = overwrite m (unat dest) (bytes m (unat src) n)"
  by (rule memcpy_overwrite)



text \<open>A part number with its top bit set passes for one: with -1 \<open>imxtract\<close> reports success on every uncompressed multi-file image, takes the last four bytes of the image's name for the length, and copies that many bytes of the first file and whatever is behind it.\<close>

theorem imxtract_negative_part:
  assumes "mkimage opts time files = Some img" and "image_at s addr img"
    and opts: "opt_type opts = IH_TYPE_MULTI" "opt_comp opts = IH_COMP_NONE" "\<not> xflag opts"
    and args: "fst (simple_strtoul a 16) = addr" "fst (simple_strtoul n 16) = - 1"
  shows "\<exists>s'. do_imgextract [c, a, n] s = Some (0, s') \<and>
    b_vars s' (ascii ''filesize'') = Some (text_of ''%8lx'' [Word (ntohl (ld_u32 (b_mem s) (addr + 60)))])"
proof -
  obtain data where data: "image_data opts files = Some data" "img = build_header opts time data @ data"
    using mkimage_data [OF assms(1)] .
  let ?h = "build_header opts time data"
  have img: "image_at s addr (?h @ data)" using assms(2) data(2) by simp
  have m: "opt_type opts = IH_TYPE_MULTI \<or> opt_type opts = IH_TYPE_SCRIPT" using opts(1) by simp
  note ck = mkimage_checks [OF img]
  note t = multi_table(1) [OF img data(1) m] and fit = files_fit [OF img data(1) m opts(3)]
  obtain src where loop: "part_loop (b_mem s) True (- 1) (addr + 64) 0 (68 + addr) = Some (int (length files), src)"
    using part_loop_table [OF t fit, of 0 True "- 1" "68 + addr"] by auto
  have "sint (- 1 :: u32) = - 1" by simp
  then show ?thesis
    by (simp add: do_imgextract_def args ck opts loop setenv_text_def ascii_def Let_def add.commute [of 60 addr])
qed

lemma after_table_step:
  "after_table m p = (if ld_u32 m p = 0 then Some (p + 4) else after_table m (p + 4))"
  by (rule after_table.simps)

text \<open>A script packed by \<open>mkimage\<close> reaches the shell as it was written, up to its first zero byte, from wherever in memory the image is.\<close>

theorem script_runs:
  assumes "mkimage opts time [script] = Some img" and "image_at s addr img"
    and "opt_type opts = IH_TYPE_SCRIPT" "\<not> xflag opts" and "malloc (word_of_nat (length script) + 1)"
  shows "\<exists>s'. autoscript shell malloc addr s = Some (shell (takeWhile ((\<noteq>) 0) script) s') \<and> b_mem s' = b_mem s \<and> b_vars s' = b_vars s"
proof -
  obtain data where data: "image_data opts [script] = Some data" "img = build_header opts time data @ data"
    using mkimage_data [OF assms(1)] .
  let ?h = "build_header opts time data"
  have img: "image_at s addr (?h @ data)" using assms(2) data(2) by simp
  have m: "opt_type opts = IH_TYPE_MULTI \<or> opt_type opts = IH_TYPE_SCRIPT" using assms(3) by simp
  note ck = mkimage_checks [OF img] and t = multi_table(1) [OF img data(1) m]
  define src where "src = addr + 64 + (4 + 4 * word_of_nat (length [script])) + word_of_nat (part_offset [script] 0)"
  note f = image_files [OF img data(1) m assms(4), of 0, folded src_def, simplified]
  have ne: "script \<noteq> []" using files_fit [OF img data(1) m assms(4)] by simp
  have nz: "(word_of_nat (length script) :: u32) \<noteq> 0" using word_of_nat_len [of "length script"] f(2) ne by simp
  have nz': "htonl (word_of_nat (length script)) \<noteq> 0" using size_word_nonzero [of script] ne f(2) by simp
  have ld: "ld_u32 (b_mem s) (addr + 64) = htonl (word_of_nat (length script))" "ld_u32 (b_mem s) (addr + 64 + 4) = 0"
    using t by (auto simp: table_at_def)
  have "src = addr + 64 + 4 + 4" by (simp add: src_def part_offset_def)
  then have tbl: "after_table (b_mem s) (addr + 64) = Some src"
    using ld nz' by (simp only: after_table_step [of _ "addr + 64"] after_table_step [of _ "addr + 64 + 4"] if_False if_True simp_thms)
  have "unat (word_of_nat (length script) :: u32) = length script" using f(2) by (simp add: unat_u32)
  then show ?thesis
    using assms(5) f(5)
    by (intro exI [of _ "s\<lparr>b_header := blank_hcrc ?h\<rparr>"]) (simp add: autoscript_def ck assms(3) ld htonl_htonl nz tbl Let_def)
qed

end
