(* ===== verification/Bootm.thy ===== *)
theory Bootm
  imports Image
begin

text \<open>
  Booting: \<open>do_bootm\<close> and \<open>gunzip\<close> of \<open>common/cmd_bootm.c\<close> and \<open>do_bootm_linux\<close> of \<open>lib_sh/sh_linux.c\<close>, in 32-bit (SE) mode,
  without the watchdog, bzip2 and ELF. The decompressor of zlib, the stack pointer and what the flash holds as hardware
  address are the record \<open>platform\<close>. A boot ends in a return to the shell, a reset, or the entry of the
  program that was loaded; caches, interrupts and the memory mapping are left out.
\<close>

section \<open>State and results\<close>

record platform =
  zlib_init :: int                                                 \<comment> \<open>what \<open>inflateInit2\<close> returns\<close>
  zlib_inflate :: "u8 list \<Rightarrow> nat \<Rightarrow> int \<times> u8 list"   \<comment> \<open>\<open>inflate\<close>: the data and the room\<close>
  stack_pointer :: u32
  flash_mac :: "u8 list"                                           \<comment> \<open>what \<open>ReadSPIFlashDataToBuffer\<close> reads\<close>

datatype target = Kernel | Application "u8 list list" | Netbsd u32 "u8 list" | Rtems

datatype booted = Done int boot | Reset boot | Enter u32 target boot

abbreviation CFG_SDRAM_BASE :: u32 where "CFG_SDRAM_BASE \<equiv> 0x80000000"
abbreviation CFG_MEMTEST_END :: u32 where "CFG_MEMTEST_END \<equiv> 0x8FD00000"
abbreviation CFG_BOOTMAPSZ :: u32 where "CFG_BOOTMAPSZ \<equiv> 0x01000000"

definition PHYSADDR :: "u32 \<Rightarrow> u32" where
  "PHYSADDR a = (a AND 0x0fffffff) OR 0x40000000"

definition st_u32 :: "u32 \<Rightarrow> u32 \<Rightarrow> boot \<Rightarrow> boot" where
  "st_u32 a w s = s\<lparr>b_mem := overwrite (b_mem s) (unat a) (le32_bytes w)\<rparr>"

section \<open>\<open>gunzip\<close>\<close>

text \<open>\<open>while (src[i++] != 0);\<close>\<close>

partial_function (option) after_nul :: "mem \<Rightarrow> nat \<Rightarrow> nat \<Rightarrow> nat option" where
  "after_nul m src i = (if m (src + i) = 0 then Some (i + 1) else after_nul m src (i + 1))"

definition gunzip_header :: "mem \<Rightarrow> nat \<Rightarrow> nat option" where
  "gunzip_header m src =
     (let flags = m (src + 3);
          i = (if flags AND 4 \<noteq> 0 then 12 + unat (m (src + 10)) + 256 * unat (m (src + 11)) else 10) in
      Option.bind (if flags AND 8 \<noteq> 0 then after_nul m src i else Some i) (\<lambda>i.
      Option.bind (if flags AND 0x10 \<noteq> 0 then after_nul m src i else Some i) (\<lambda>i.
      Some (if flags AND 2 \<noteq> 0 then i + 2 else i))))"

definition gunzip :: "platform \<Rightarrow> u32 \<Rightarrow> u32 \<Rightarrow> u32 \<Rightarrow> u32 \<Rightarrow> boot \<Rightarrow> (int \<times> u32 \<times> boot) option" where
  "gunzip pf dst dstlen src len s =
     (let m = b_mem s; p = unat src in
      if m (p + 2) \<noteq> 8 \<or> m (p + 3) AND 0xe0 \<noteq> 0
      then Some (- 1, len, tell (Puts (''Error: Bad gzipped data'' @ nl)) s)
      else Option.bind (gunzip_header m p) (\<lambda>i.
        if unat len \<le> i then Some (- 1, len, tell (Puts (''Error: gunzip out of data in header'' @ nl)) s)
        else if zlib_init pf \<noteq> 0
        then Some (- 1, len, tell (Printf (''Error: inflateInit2() returned %d'' @ nl) [Word (word_of_int (zlib_init pf))]) s)
        else
          let (r, out) = zlib_inflate pf (bytes m (p + i) (unat len - i)) (unat dstlen);
              s = s\<lparr>b_mem := overwrite m (unat dst) out\<rparr> in
          if r \<noteq> 0 \<and> r \<noteq> 1 then Some (- 1, len, tell (Printf (''Error: inflate() returned %d'' @ nl) [Word (word_of_int r)]) s)
          else Some (0, word_of_nat (length out), s)))"

section \<open>Loading\<close>

text \<open>The loop over the table of sizes from its second entry: \<open>data\<close> moves with it.\<close>

partial_function (option) skip_sizes :: "mem \<Rightarrow> u32 \<Rightarrow> u32 \<Rightarrow> u32 option" where
  "skip_sizes m p data = (if ld_u32 m p = 0 then Some data else skip_sizes m (p + 4) (data + 4))"

text \<open>The size a gzip file states in its last four bytes, taken at the end of the image.\<close>

definition gzip_size :: "mem \<Rightarrow> u32 \<Rightarrow> u32 \<Rightarrow> u32" where
  "gzip_size m data csize = ld_u32 m (data + csize - 4)"

text \<open>The tests of the room for the decompressed image: the message of the first that fails.\<close>

definition gzip_room :: "u32 \<Rightarrow> u32 \<Rightarrow> u32 \<Rightarrow> u32 \<Rightarrow> print option" where
  "gzip_room Cload Csize Uload Usize =
     (let Cend = Cload + Csize - 1; Uend = Uload + Usize - 1 in
      if PHYSADDR Uload < PHYSADDR CFG_SDRAM_BASE
      then Some (Printf (nl @ ''ERROR: Uncompressed image (0x%08x) is below RAM (0x%08x)'' @ nl) [Word Uload, Word CFG_SDRAM_BASE])
      else if PHYSADDR Uend \<ge> PHYSADDR CFG_MEMTEST_END
      then Some (Printf (nl @ ''ERROR: Uncompressed image (0x%08x) is beyond safe RAM (0x%08x)'' @ nl) [Word Uend, Word CFG_MEMTEST_END])
      else if \<not> (PHYSADDR Cload > PHYSADDR Uend \<or> PHYSADDR Uload > PHYSADDR Cend)
      then Some (Printf (nl @ ''ERROR: Overlapping images (0x%08x..0x%08x) and (0x%08x..0x%08x)'' @ nl)
             [Word Cload, Word Cend, Word Uload, Word Uend])
      else None)"

text \<open>Moves or decompresses the image: the result of the command, or the length and the state to go on with.\<close>

definition load_image :: "platform \<Rightarrow> string \<Rightarrow> u32 \<Rightarrow> u32 \<Rightarrow> u32 \<Rightarrow> boot \<Rightarrow> (booted + u32 \<times> boot) option" where
  "load_image pf name addr data len s =
     (let h = b_header s in
      if ih_comp h = IH_COMP_NONE then
        Some (Inr (len,
          if ih_load h = addr then tell (Printf ''   XIP %s ... '' [Text (Some (ascii name))]) s
          else s\<lparr>b_mem := memmove (b_mem s) (unat (ih_load h)) (unat data) (unat len)\<rparr>))
      else if ih_comp h = IH_COMP_GZIP then
        let s = tell (Printf ''   Uncompressing %s ... '' [Text (Some (ascii name))]) s;
            usize = gzip_size (b_mem s) data (ih_size h) in
        (case gzip_room data (ih_size h) (ih_load h) usize of
           Some msg \<Rightarrow> Some (Inl (Done 1 (tell msg s)))
         | None \<Rightarrow> Option.bind (gunzip pf (ih_load h) usize data len s) (\<lambda>(r, len, s).
             Some (if r \<noteq> 0 then Inl (Reset (tell (Puts (''GUNZIP ERROR - must RESET board to recover'' @ nl)) s)) else Inr (len, s))))
      else Some (Inl (Done 1 (tell (Printf (''Unimplemented compression type %d'' @ nl) [Word (ucast (ih_comp h))]) s))))"

section \<open>\<open>do_bootm_linux\<close>\<close>

text \<open>The initial RAM disk: its address (0 for none) and length, or a reset.\<close>

definition linux_initrd :: "u8 list list \<Rightarrow> u32 \<Rightarrow> bool \<Rightarrow> boot \<Rightarrow> (boot + u32 \<times> u32 \<times> boot) option" where
  "linux_initrd argv len_ptr verify s =
     (if length argv \<ge> 3 then
        let addr = fst (simple_strtoul (argv ! 2) 16); h = header_at s addr; s = s\<lparr>b_header := h\<rparr> in
        if ih_magic h \<noteq> IH_MAGIC then Some (Inl (tell (Printf (''Bad Magic Number'' @ nl) []) s))
        else let s = s\<lparr>b_header := blank_hcrc h\<rparr> in
        if \<not> hcrc_ok h then Some (Inl (tell (Printf (''Bad Header Checksum'' @ nl) []) s))
        else if ih_type h = IH_TYPE_MULTI then None
        else
          let s = print_fields h s; s' = tell (Printf ''   Verifying Checksum ... '' []) s; data = addr + 64 in
          if verify \<and> \<not> dcrc_ok h data s then Some (Inl (tell (Printf (''Bad Data CRC'' @ nl) []) s'))
          else
            let s = (if verify then tell (Printf (''OK'' @ nl) []) s' else s) in
            if ih_os h \<noteq> IH_OS_LINUX \<or> ih_arch h \<noteq> IH_CPU_SH \<or> ih_type h \<noteq> IH_TYPE_RAMDISK
            then Some (Inl (tell (Printf (''No Linux SH Ramdisk Image'' @ nl) []) s))
            else Some (Inr (data, ih_size h, s))
      else
        let size0 = ntohl (ld_u32 (b_mem s) len_ptr); size1 = ld_u32 (b_mem s) (len_ptr + 4); tail = size0 mod 4 in
        if ih_type (b_header s) = IH_TYPE_MULTI \<and> size1 \<noteq> 0 then
          map_option (\<lambda>data. let data = data + size0; data = (if tail \<noteq> 0 then data + (4 - tail) else data)
              in Inr (data, ntohl size1, s))
            (skip_sizes (b_mem s) (len_ptr + 4) (len_ptr + 8))
        else Some (Inr (0, 0, s)))"

text \<open>Places the RAM disk below the end of the memory Linux maps at first, and tells the kernel.\<close>

definition initrd_address :: "u32 \<Rightarrow> u32 \<Rightarrow> u32" where
  "initrd_address sp len =
     (let sp = sp - 2048;
          sp = (if sp > CFG_SDRAM_BASE + CFG_BOOTMAPSZ then CFG_SDRAM_BASE + CFG_BOOTMAPSZ else sp);
          sp = sp AND NOT 0xF
      in (sp - len) AND NOT 4095)"

definition place_initrd :: "u32 \<Rightarrow> u32 \<Rightarrow> u32 \<Rightarrow> u32 \<Rightarrow> boot \<Rightarrow> boot" where
  "place_initrd sp param data len s =
     (if data \<noteq> 0 then
        let initrd_start = initrd_address sp len;
            s = tell (Printf ''   Loading Ramdisk to %08lx, length %08lx ... '' [Word initrd_start, Word len]) s;
            s = s\<lparr>b_mem := memmove (b_mem s) (unat initrd_start) (unat data) (unat len)\<rparr>;
            s = tell (Puts (''OK'' @ nl)) s
        in st_u32 (param + 0x14) len (st_u32 (param + 0x10) (initrd_start - (param - 0x1000)) (st_u32 (param + 0xc) 1 s))
      else st_u32 (param + 0x14) 0 (st_u32 (param + 0x10) 0 (st_u32 (param + 0xc) 0 s)))"

text \<open>The search for the keyword in the command line: \<open>for (i = 0; i < n; i++)\<close>.\<close>

function hw_loop :: "mem \<Rightarrow> u32 \<Rightarrow> u32 \<Rightarrow> u32 \<Rightarrow> u32" where
  "hw_loop m p n i =
     (if i < n then if bytes m (unat (p + i)) 6 = ascii ''hwaddr'' then i else hw_loop m p n (i + 1) else i)"
  by auto
termination
proof (relation "measure (\<lambda>(m, p, n, i). unat n - unat i)")
  fix m :: mem and p n i :: u32
  assume "i < n"
  then show "((m, p, n, i + 1), (m, p, n, i)) \<in> measure (\<lambda>(m, p, n, i). unat n - unat i)"
    using unsigned_less [where w = n and ?'a = nat] by (simp add: word_less_nat_alt unat_word_ariths)
qed simp

definition hw_text :: "u8 list \<Rightarrow> u8 list" where
  "hw_text mac =
     (if take 3 mac = [0xff, 0xff, 0xff] then []
      else takeWhile ((\<noteq>) 0) (text_of ''hwaddr:%c%c:%c%c:%c%c:%c%c:%c%c:%c%c'' (map (\<lambda>c. Word (ucast c)) (take 12 mac))))"

definition set_hwaddr :: "platform \<Rightarrow> u32 \<Rightarrow> boot \<Rightarrow> boot option" where
  "set_hwaddr pf p s =
     Option.bind (strlen (b_mem s) (unat p)) (\<lambda>n.
       let CMDLen = word_of_nat n;
           s = tell (Printf (''CMDLen=%d'' @ nl) [Word CMDLen]) s;
           i = hw_loop (b_mem s) p (CMDLen - 6) 0;
           s = tell (if i = CMDLen - 6 then Printf (''There is no '' @ [CHR 0x22] @ ''hwaddr'' @ [CHR 0x22] @ '' keywords!'' @ nl) []
                     else Printf (''There is  '' @ [CHR 0x22] @ ''hwaddr'' @ [CHR 0x22] @ '' keywords! Position=%d'' @ nl) [Word i]) s;
           s = tell (Printf (''Read MacAddr=%s'' @ nl) [Text (Some (takeWhile ((\<noteq>) 0) (take 12 (flash_mac pf))))]) s;
           s = (if take 3 (flash_mac pf) = [0xff, 0xff, 0xff]
                then tell (Printf (''There is no valid MAC in spi Flash!'' @ nl) []) s else s)
       in Some (s\<lparr>b_mem := overwrite (b_mem s) (unat (p + i)) (hw_text (flash_mac pf))\<rparr>))"

definition do_bootm_linux :: "platform \<Rightarrow> u8 list list \<Rightarrow> u32 \<Rightarrow> bool \<Rightarrow> boot \<Rightarrow> booted option" where
  "do_bootm_linux pf argv len_ptr verify s =
     (let kernel = ih_ep (b_header s); param = ih_load (b_header s) in
      Option.bind (linux_initrd argv len_ptr verify s) (\<lambda>r. case r of
        Inl s \<Rightarrow> Some (Reset s)
      | Inr (data, len, s) \<Rightarrow>
          let s = place_initrd (stack_pointer pf) param data len s;
              se_mode = ld_u32 (b_mem s) (param + 0x18);
              marked = (se_mode AND 0xFFFFFF00 = 0x53453F00) in
          if marked \<and> se_mode AND 0xFF \<noteq> 32
          then Some (Done 1 (tell (Printf (nl @ ''Error: A %2u-bit Kernel is incompatible with this %2u-bit U-Boot!'' @ nl @
                 ''Please re-configure and re-build vmlinux or u-boot.'' @ nl @
                 ''Aborting the Boot process - Boot FAILED.  (SE_MODE=0x%08x)'' @ nl) [Word 29, Word 32, Word se_mode]) s))
          else
            let s = (if marked then s else tell (Printf (nl @ ''Warning: Unable to determine if kernel is built for 29- or 32-bit mode!'' @ nl) []) s) in
            Option.bind (b_vars s (ascii ''bootargs'')) (\<lambda>commandline.
              let s = s\<lparr>b_mem := overwrite (b_mem s) (unat (param + 0x100)) (commandline @ [0])\<rparr> in
              Option.bind (set_hwaddr pf (param + 0x100) s) (\<lambda>s.
                Option.bind (strlen (b_mem s) (unat (param + 0x100))) (\<lambda>n.
                  Some (Enter kernel Kernel
                    (tell (Printf (nl @ ''[iptv_kernel]:Starting kernel %s - 0x%08x - %d ...'' @ nl @ nl)
                       [Text (Some (bytes (b_mem s) (unat (param + 0x100)) n)), Word (ld_u32 (b_mem s) (param + 0x10)),
                        Word (ld_u32 (b_mem s) (param + 0x14))]) s)))))))"

section \<open>\<open>do_bootm\<close>\<close>

definition do_bootm_netbsd :: "u8 list list \<Rightarrow> u32 \<Rightarrow> u32 \<Rightarrow> boot \<Rightarrow> booted" where
  "do_bootm_netbsd argv addr len_ptr s =
     (let h = b_header s;
          img_addr = (if ih_type h = IH_TYPE_MULTI \<and> ld_u32 (b_mem s) (len_ptr + 4) \<noteq> 0 then addr else 0);
          cmdline = (if length argv > 2 then concat (map (\<lambda>a. a @ [0x20]) (butlast (drop 2 argv))) @ last argv
                     else case b_vars s (ascii ''bootargs'') of None \<Rightarrow> [] | Some v \<Rightarrow> v)
      in Enter (ih_ep h) (Netbsd img_addr cmdline)
           (tell (Printf (''## Transferring control to NetBSD stage-2 loader (at address %08lx) ...'' @ nl) [Word (ih_ep h)]) s))"

definition do_bootm_rtems :: "boot \<Rightarrow> booted" where
  "do_bootm_rtems s =
     Enter (ih_ep (b_header s)) Rtems
       (tell (Printf (''## Transferring control to RTEMS (at address %08lx) ...'' @ nl) [Word (ih_ep (b_header s))]) s)"

text \<open>What is started once the image is in its place.\<close>

definition start_image :: "platform \<Rightarrow> u8 list list \<Rightarrow> u32 \<Rightarrow> u32 \<Rightarrow> bool \<Rightarrow> u32 \<Rightarrow> boot \<Rightarrow> booted option" where
  "start_image pf argv addr len_ptr verify len s =
     (let h = b_header s in
      if ih_type h = IH_TYPE_STANDALONE then
        Some (if b_vars s (ascii ''autostart'') = Some (ascii ''no'') then Done 0 (setenv_text ''filesize'' ''%lX'' len s)
              else Enter (ih_ep h) (Application (tl argv)) s)
      else if ih_os h = IH_OS_NETBSD then Some (do_bootm_netbsd argv addr len_ptr s)
      else if ih_os h = IH_OS_RTEMS then Some (do_bootm_rtems s)
      else do_bootm_linux pf argv len_ptr verify s)"

text \<open>The type of the image: its name and the piece to be loaded; a second argument replaces the load address of a program.\<close>

definition select_part :: "u8 list list \<Rightarrow> u32 \<Rightarrow> boot \<Rightarrow> (string \<times> u32 \<times> u32 \<times> boot) option option" where
  "select_part argv data s =
     (let h = b_header s in
      if ih_type h = IH_TYPE_STANDALONE then
        Some (Some (''Standalone Application'', data, ih_size h,
          if length argv > 2 then s\<lparr>b_header := blit h 16 (be32_bytes (fst (simple_strtoul (argv ! 2) 16)))\<rparr> else s))
      else if ih_type h = IH_TYPE_KERNEL then Some (Some (''Kernel Image'', data, ih_size h, s))
      else if ih_type h = IH_TYPE_MULTI then
        map_option (\<lambda>d. Some (''Multi-File Image'', d, ntohl (ld_u32 (b_mem s) data), s)) (skip_sizes (b_mem s) (data + 4) (data + 8))
      else Some None)"

text \<open>An image whose checksums are right: the rest of the command.\<close>

definition boot_checked :: "platform \<Rightarrow> u8 list list \<Rightarrow> u32 \<Rightarrow> bool \<Rightarrow> boot \<Rightarrow> booted option" where
  "boot_checked pf argv addr verify s =
     (let h = b_header s; data = addr + 64 in
      if ih_arch h \<noteq> IH_CPU_SH
      then Some (Done 1 (tell (Printf (''Unsupported Architecture 0x%x'' @ nl) [Word (ucast (ih_arch h))]) s))
      else Option.bind (select_part argv data s) (\<lambda>part. case part of
        None \<Rightarrow> Some (Done 1 (tell (Printf (''Wrong Image Type for %s command'' @ nl) [Text (Some (ascii ''bootm''))]) s))
      | Some (name, from, len, s) \<Rightarrow>
          Option.bind (load_image pf name addr from len s) (\<lambda>r. case r of
            Inl e \<Rightarrow> Some e
          | Inr (len, s) \<Rightarrow> start_image pf argv addr data verify len (tell (Puts (''OK'' @ nl)) s))))"

definition do_bootm :: "platform \<Rightarrow> u8 list list \<Rightarrow> boot \<Rightarrow> booted option" where
  "do_bootm pf argv s =
     (let verify = verify_set s;
          addr = (if length argv < 2 then b_load_addr s else fst (simple_strtoul (argv ! 1) 16));
          s = tell (Printf (''## Booting image at %08lx ...'' @ nl) [Word addr]) s;
          h = header_at s addr; s = s\<lparr>b_header := h\<rparr> in
      if ih_magic h \<noteq> IH_MAGIC then Some (Done 1 (tell (Puts (''Bad Magic Number'' @ nl)) s))
      else let s = s\<lparr>b_header := blank_hcrc h\<rparr> in
      if \<not> hcrc_ok h then Some (Done 1 (tell (Puts (''Bad Header Checksum'' @ nl)) s))
      else Option.bind (print_image_hdr addr s) (\<lambda>s.
        let s' = tell (Puts ''   Verifying Checksum ... '') s in
        if verify \<and> \<not> dcrc_ok h (addr + 64) s then Some (Done 1 (tell (Printf (''Bad Data CRC'' @ nl) []) s'))
        else boot_checked pf argv addr verify (if verify then tell (Puts (''OK'' @ nl)) s' else s)))"

section \<open>Only checked images\<close>

lemma blank_fields [simp]:
  assumes "length h = 64"
  shows "length (blank_hcrc h) = 64" "ih_size (blank_hcrc h) = ih_size h" "ih_load (blank_hcrc h) = ih_load h"
    "ih_ep (blank_hcrc h) = ih_ep h" "ih_os (blank_hcrc h) = ih_os h" "ih_arch (blank_hcrc h) = ih_arch h"
    "ih_type (blank_hcrc h) = ih_type h" "ih_comp (blank_hcrc h) = ih_comp h"
proof -
  have n: "blank_hcrc h ! j = h ! j" if "8 \<le> j" "j < 64" for j
    using assms that by (simp add: blank_hcrc_def nth_blit)
  show "length (blank_hcrc h) = 64" using assms by (simp add: blank_hcrc_def)
  show "ih_size (blank_hcrc h) = ih_size h" "ih_load (blank_hcrc h) = ih_load h" "ih_ep (blank_hcrc h) = ih_ep h"
    "ih_os (blank_hcrc h) = ih_os h" "ih_arch (blank_hcrc h) = ih_arch h"
    "ih_type (blank_hcrc h) = ih_type h" "ih_comp (blank_hcrc h) = ih_comp h"
    by (simp_all add: ih_size_def ih_load_def ih_ep_def ih_os_def ih_arch_def ih_type_def ih_comp_def le32_def n)
qed

lemma length_header_at [simp]: "length (header_at s addr) = 64"
  by (simp add: header_at_def)

lemma print_image_hdr_None: "print_image_hdr addr s = None \<Longrightarrow> ih_type (header_at s addr) = IH_TYPE_MULTI"
  by (auto simp: print_image_hdr_def Let_def split: if_splits)

text \<open>Either a check fails, with nothing changed in memory, or all of them hold.\<close>

lemma dcrc_ok_mem: "b_mem s' = b_mem s \<Longrightarrow> dcrc_ok h addr s' = dcrc_ok h addr s"
  by (simp add: dcrc_ok_def)

lemma boot_checked_arch:
  "boot_checked pf argv addr verify s = Some r \<Longrightarrow> ih_arch (b_header s) \<noteq> IH_CPU_SH \<Longrightarrow> \<exists>s'. r = Done 1 s' \<and> b_mem s' = b_mem s"
  by (auto simp: boot_checked_def)

lemma do_bootm_cases:
  assumes "do_bootm pf argv s = r" "1 < length argv" "fst (simple_strtoul (argv ! 1) 16) = addr"
  obtains (bad) s' where "r = Some (Done 1 s')" "b_mem s' = b_mem s"
    "\<not> (ih_magic (header_at s addr) = IH_MAGIC \<and> hcrc_ok (header_at s addr) \<and> (verify_set s \<longrightarrow> dcrc_ok (header_at s addr) (addr + 64) s))"
  | (endless) s' where "r = None" "print_image_hdr addr s' = None" "b_mem s' = b_mem s" "ih_magic (header_at s addr) = IH_MAGIC" "hcrc_ok (header_at s addr)" "ih_type (header_at s addr) = IH_TYPE_MULTI"
  | (good) s' where "r = boot_checked pf argv addr (verify_set s) s'" "b_mem s' = b_mem s" "b_vars s' = b_vars s"
      "b_header s' = blank_hcrc (header_at s addr)"
      "ih_magic (header_at s addr) = IH_MAGIC" "hcrc_ok (header_at s addr)" "verify_set s \<longrightarrow> dcrc_ok (header_at s addr) (addr + 64) s"
proof -
  let ?h = "header_at s addr"
  define s1 where "s1 = (tell (Printf (''## Booting image at %08lx ...'' @ nl) [Word addr]) s)\<lparr>b_header := blank_hcrc ?h\<rparr>"
  have s1: "b_mem s1 = b_mem s" "b_header s1 = blank_hcrc ?h" "b_vars s1 = b_vars s" "header_at s1 addr = ?h" by (simp_all add: s1_def)
  show ?thesis
  proof (cases "ih_magic ?h = IH_MAGIC \<and> hcrc_ok ?h")
    case False
    then have "\<exists>s'. r = Some (Done 1 s') \<and> b_mem s' = b_mem s" using assms by (auto simp: do_bootm_def Let_def)
    then show ?thesis using bad False by blast
  next
    case True
    have r: "r = Option.bind (print_image_hdr addr s1) (\<lambda>s'.
        let s'' = tell (Puts ''   Verifying Checksum ... '') s' in
        if verify_set s \<and> \<not> dcrc_ok ?h (addr + 64) s' then Some (Done 1 (tell (Printf (''Bad Data CRC'' @ nl) []) s''))
        else boot_checked pf argv addr (verify_set s) (if verify_set s then tell (Puts (''OK'' @ nl)) s'' else s'))"
      using True assms by (auto simp: do_bootm_def Let_def s1_def)
    show ?thesis
    proof (cases "print_image_hdr addr s1")
      case None
      then have "r = None" "ih_type ?h = IH_TYPE_MULTI" using r s1(4) by (auto dest: print_image_hdr_None)
      then show ?thesis using endless [OF _ None s1(1)] True by blast
    next
      case (Some s2)
      note m = print_image_hdr_mem [OF this]
      then have d: "dcrc_ok ?h (addr + 64) s2 = dcrc_ok ?h (addr + 64) s" using s1 by (intro dcrc_ok_mem) simp
      show ?thesis
      proof (cases "verify_set s \<and> \<not> dcrc_ok ?h (addr + 64) s")
        case True
        then have "\<exists>s'. r = Some (Done 1 s') \<and> b_mem s' = b_mem s" using r Some d m s1(1) by (simp add: Let_def)
        then show ?thesis using bad True by blast
      next
        case False
        have "\<exists>s'. r = boot_checked pf argv addr (verify_set s) s' \<and> b_mem s' = b_mem s \<and> b_vars s' = b_vars s \<and> b_header s' = blank_hcrc ?h"
          using r Some d m s1(1-3) False by (auto simp: Let_def)
        then show ?thesis using good True False by blast
      qed
    qed
  qed
qed

text \<open>C14: One changed byte anywhere in an image that \<open>mkimage\<close> made keeps \<open>bootm\<close> from starting it: unless \<open>verify\<close> is set to no, whatever \<open>bootm\<close> returns is the error 1 with memory as it was, and it does return unless the image is a multi-file one, whose table is printed before the checksum over it is verified.\<close>

theorem bootm_damaged:
  assumes "mkimage opts time files = Some img" and "i < length img" "img ! i \<noteq> b" and "image_at s addr (img[i := b])"
    and "verify_set s" and "fst (simple_strtoul a 16) = addr"
  shows "(do_bootm pf (c # a # args) s = None \<longrightarrow> opt_type opts = IH_TYPE_MULTI) \<and>
    (\<forall>r. do_bootm pf (c # a # args) s = Some r \<longrightarrow> (\<exists>s'. r = Done 1 s' \<and> b_mem s' = b_mem s))"
proof -
  obtain data where d: "img = build_header opts time data @ data" using mkimage_data [OF assms(1)] .
  let ?h = "header_at s addr"
  have bad: "\<not> (ih_magic ?h = IH_MAGIC \<and> hcrc_ok ?h \<and> dcrc_ok ?h (addr + 64) s)"
    by (rule image_damaged [where i = i and b = b]) (use assms(2-4) d in simp_all)
  have "\<exists>s'. r = Done 1 s' \<and> b_mem s' = b_mem s" if r: "do_bootm pf (c # a # args) s = Some r" for r
    by (rule do_bootm_cases [OF r, of addr]) (use bad assms(5,6) in auto)
  moreover have "opt_type opts = IH_TYPE_MULTI" if none: "do_bootm pf (c # a # args) s = None"
  proof -
    have n: "ih_magic ?h = IH_MAGIC" "hcrc_ok ?h" "ih_type ?h = IH_TYPE_MULTI"
      by (rule do_bootm_cases [OF none, of addr]; use bad assms(5,6) in auto)+
    have "\<not> i < 64"
    proof
      assume i: "i < 64"
      then have "image_at s addr ((build_header opts time data)[i := b] @ data)"
        using assms(4) d by (simp add: list_update_append)
      then have "?h = (build_header opts time data)[i := b]" by (rule image_parts) simp
      then show False
        using header_damaged [of "build_header opts time data" i b] i n(1,2) assms(3) d by (simp add: nth_append)
    qed
    then have "image_at s addr (build_header opts time data @ data[i - 64 := b])"
      using assms(4) d by (simp add: list_update_append)
    then have "?h = build_header opts time data" by (rule image_parts) simp
    then show ?thesis using n(3) by simp
  qed
  ultimately show ?thesis by blast
qed

definition demo_platform :: platform where
  "demo_platform = \<lparr>zlib_init = 0, zlib_inflate = (\<lambda>_ _. (0, [])), stack_pointer = 0x8F000000, flash_mac = ascii ''001122334455''\<rparr>"

lemma demo_program: "\<exists>h. mkimage (demo_opts IH_TYPE_KERNEL) 0 [[1, 2, 3]] = Some (h @ [1, 2, 3]) \<and> length h = 64"
  by (simp add: mkimage_def xip_entry_ok_def demo_opts_def image_data_def copy_file_def length_build_header Let_def)

theorem bootm_damaged_witness:
  "\<exists>img s'. mkimage (demo_opts IH_TYPE_KERNEL) 0 [[1, 2, 3]] = Some img \<and>
    do_bootm demo_platform [ascii ''bootm'', ascii ''82000000''] (demo_boot 0x82000000 (img[65 := 9])) = Some (Done 1 s')"
proof -
  obtain h where h: "mkimage (demo_opts IH_TYPE_KERNEL) 0 [[1, 2, 3]] = Some (h @ [1, 2, 3])" "length h = 64"
    using demo_program by blast
  let ?s = "demo_boot 0x82000000 ((h @ [1, 2, 3])[65 := 9])"
  have "(do_bootm demo_platform [ascii ''bootm'', ascii ''82000000''] ?s = None \<longrightarrow> opt_type (demo_opts IH_TYPE_KERNEL) = IH_TYPE_MULTI) \<and>
    (\<forall>r. do_bootm demo_platform [ascii ''bootm'', ascii ''82000000''] ?s = Some r \<longrightarrow> (\<exists>s'. r = Done 1 s' \<and> b_mem s' = b_mem ?s))"
    by (rule bootm_damaged [OF h(1) _ _ image_at_stored _ demo_numbers(1)])
      (simp_all add: h(2) nth_append verify_set_def demo_boot_def ascii_def)
  moreover have "opt_type (demo_opts IH_TYPE_KERNEL) \<noteq> IH_TYPE_MULTI" by (simp add: demo_opts_def)
  ultimately obtain s' where "do_bootm demo_platform [ascii ''bootm'', ascii ''82000000''] ?s = Some (Done 1 s')"
    by (metis not_None_eq)
  then show ?thesis using h(1) by blast
qed

section \<open>The hardware address in the command line\<close>

lemma conversion_char: "conversion (0x63 # fmt) (Word w # args) n = Some ([ucast w], [], fmt, args)"
  by (simp add: conversion_def read_width_def read_precision_def convert_def put_char_def deref_def is_digit_def Let_def has_def)

lemma hw_text_value:
  assumes "mac = [a, b, c, d, e, f, g, h, i, j, k, l]" "0 \<notin> set mac" "take 3 mac \<noteq> [0xff, 0xff, 0xff]"
  shows "hw_text mac = ascii ''hwaddr:'' @ [a, b, 0x3a, c, d, 0x3a, e, f, 0x3a, g, h, 0x3a, i, j, 0x3a, k, l]"
proof -
  have "text_of ''hwaddr:%c%c:%c%c:%c%c:%c%c:%c%c:%c%c'' (map (\<lambda>c. Word (ucast c)) (take 12 mac))
    = ascii ''hwaddr:'' @ [a, b, 0x3a, c, d, 0x3a, e, f, 0x3a, g, h, 0x3a, i, j, 0x3a, k, l]"
    by (simp add: assms(1) text_of_def vsprintf_def ascii_def conversion_char)
  moreover have "takeWhile ((\<noteq>) 0) (ascii ''hwaddr:'' @ [a, b, 0x3a, c, d, 0x3a, e, f, 0x3a, g, h, 0x3a, i, j, 0x3a, k, l])
    = ascii ''hwaddr:'' @ [a, b, 0x3a, c, d, 0x3a, e, f, 0x3a, g, h, 0x3a, i, j, 0x3a, k, l]"
    using assms(1,2) by (simp add: ascii_def)
  ultimately show ?thesis using assms(3) by (simp add: hw_text_def)
qed
text \<open>The placeholder's replacement: the keyword and the twelve characters of the flash in pairs.\<close>

definition mac_text :: "u8 list \<Rightarrow> u8 list" where
  "mac_text mac = ascii ''hwaddr:'' @ take 2 mac @ concat (map (\<lambda>i. 0x3a # take 2 (drop (2 * i) mac)) [1, 2, 3, 4, 5])"

definition mac_valid :: "u8 list \<Rightarrow> bool" where
  "mac_valid mac \<longleftrightarrow> length mac = 12 \<and> 0 \<notin> set mac \<and> take 3 mac \<noteq> [0xff, 0xff, 0xff]"

lemma hw_text_mac: "mac_valid mac \<Longrightarrow> hw_text mac = mac_text mac"
proof -
  assume v: "mac_valid mac"
  then obtain a b c d e f g h i j k l where m: "mac = [a, b, c, d, e, f, g, h, i, j, k, l]"
    by (auto simp: mac_valid_def numeral_eq_Suc length_Suc_conv)
  show ?thesis using v hw_text_value [OF m] by (simp add: m mac_valid_def mac_text_def)
qed

lemma mac_text_facts:
  assumes "mac_valid mac"
  shows "length (mac_text mac) = 24" "0 \<notin> set (mac_text mac)"
proof -
  obtain a b c d e f g h i j k l where m: "mac = [a, b, c, d, e, f, g, h, i, j, k, l]"
    using assms by (auto simp: mac_valid_def numeral_eq_Suc length_Suc_conv)
  show "length (mac_text mac) = 24" "0 \<notin> set (mac_text mac)"
    using assms by (simp_all add: m mac_valid_def mac_text_def ascii_def)
qed

declare hw_loop.simps [simp del]

lemma hw_loop_first:
  assumes "i \<le> k" "k \<le> n" "n < 2 ^ 32" "\<forall>j. i \<le> j \<and> j < k \<longrightarrow> bytes m (unat (p + word_of_nat j)) 6 \<noteq> ascii ''hwaddr''"
    "k = n \<or> bytes m (unat (p + word_of_nat k)) 6 = ascii ''hwaddr''"
  shows "hw_loop m p (word_of_nat n) (word_of_nat i) = word_of_nat k"
  using assms(1,4)
proof (induction rule: inc_induct)
  case base
  then show ?case using assms(5) by (subst hw_loop.simps) auto
next
  case (step j)
  have "(word_of_nat j :: u32) < word_of_nat n" using step(2) assms(2,3) by (simp add: word_less_nat_alt unat_u32)
  moreover have "hw_loop m p (word_of_nat n) (word_of_nat (Suc j)) = word_of_nat k"
    by (rule step(3)) (use step(4) in auto)
  ultimately show ?case using step(2,4) by (subst hw_loop.simps) (simp add: add.commute)
qed

lemma hw_at:
  fixes p :: u32
  assumes "cstr m (unat p) cmd" "unat p + length cmd < 2 ^ 32" "j + 6 \<le> length cmd"
  shows "bytes m (unat (p + word_of_nat j)) 6 = take 6 (drop j cmd)" "unat (p + word_of_nat j) = unat p + j"
proof -
  show u: "unat (p + word_of_nat j) = unat p + j" using assms(2,3) by (simp add: unat_word_ariths unat_of_nat)
  show "bytes m (unat (p + word_of_nat j)) 6 = take 6 (drop j cmd)"
    unfolding u by (rule bytes_cstr [OF assms(1,3)])
qed

text \<open>The text is written where the keyword first stands, or over the last six characters.\<close>

lemma set_hwaddr_at:
  assumes c: "cstr (b_mem s) (unat p) cmd" "unat p + length cmd < 2 ^ 32" and k: "k + 6 \<le> length cmd"
    and none: "\<forall>j<k. take 6 (drop j cmd) \<noteq> ascii ''hwaddr''"
    and "k + 6 = length cmd \<or> take 6 (drop k cmd) = ascii ''hwaddr''"
  shows "\<exists>s'. set_hwaddr pf p s = Some s' \<and> b_mem s' = overwrite (b_mem s) (unat p + k) (hw_text (flash_mac pf)) \<and>
    b_vars s' = b_vars s \<and> b_header s' = b_header s"
proof -
  have n: "(word_of_nat (length cmd) :: u32) - 6 = word_of_nat (length cmd - 6)" using k by (simp add: of_nat_diff)
  have "hw_loop (b_mem s) p (word_of_nat (length cmd - 6)) (word_of_nat 0) = word_of_nat k"
    by (rule hw_loop_first) (use k assms(5) none c(2) hw_at(1) [OF c] in auto)
  then have i: "hw_loop (b_mem s) p (word_of_nat (length cmd) - 6) 0 = word_of_nat k" by (simp add: n)
  show ?thesis
    by (simp add: set_hwaddr_def strlen_cstr [OF c(1)] i hw_at(2) [OF c k] Let_def)
qed

lemma overwrite_within:
  assumes "length y = length z"
  shows "overwrite (overwrite m a (x @ y @ w)) (a + length x) z = overwrite m a (x @ z @ w)"
  using assms by (intro ext) (auto simp: overwrite_def nth_append)

lemma overwrite_over: "length xs \<le> length ys \<Longrightarrow> overwrite (overwrite m a xs) a ys = overwrite m a ys"
  by (rule ext) (auto simp: overwrite_def)

lemma cstr_written: "0 \<notin> set xs \<Longrightarrow> cstr (overwrite m a (xs @ [0])) a xs"
  by (rule cstrI) (auto simp: overwrite_def nth_append)

lemma st_u32_simps [simp]:
  "b_mem (st_u32 a w s) = overwrite (b_mem s) (unat a) (le32_bytes w)" "b_vars (st_u32 a w s) = b_vars s"
  "b_header (st_u32 a w s) = b_header s"
  by (simp_all add: st_u32_def)

lemma memmove_overwrite: "memmove m dest src n = overwrite m dest (bytes m src n)"
  by (simp add: memmove_def memcpy_overwrite memmove_down_overwrite)

text \<open>The three words of the parameter block.\<close>

lemma params_overwrite:
  assumes "unat param + 0x18 < 2 ^ 32"
  shows "overwrite (overwrite (overwrite m (unat (param + 0xc)) (le32_bytes a)) (unat (param + 0x10)) (le32_bytes b))
      (unat (param + 0x14)) (le32_bytes (c :: u32)) = overwrite m (unat (param :: u32) + 0xc) (le32_bytes a @ le32_bytes b @ le32_bytes c)"
proof -
  have u: "unat (param + 0xc) = unat param + 0xc" "unat (param + 0x10) = unat param + 0xc + length (le32_bytes a)"
    "unat (param + 0x14) = unat param + 0xc + length (le32_bytes a @ le32_bytes b)"
    using assms by (simp_all add: unat_word_ariths)
  show ?thesis unfolding u overwrite_append by simp
qed

lemma place_initrd_frame [simp]:
  "b_vars (place_initrd sp param data len s) = b_vars s" "b_header (place_initrd sp param data len s) = b_header s"
  by (simp_all add: place_initrd_def Let_def)

definition initrd_params :: "u32 \<Rightarrow> u32 \<Rightarrow> u32 \<Rightarrow> u8 list" where
  "initrd_params loader start len = le32_bytes loader @ le32_bytes start @ le32_bytes len"

lemma place_initrd_mem:
  assumes "unat param + 0x18 < 2 ^ 32"
  shows "b_mem (place_initrd sp param data len s) =
    (if data = 0 then overwrite (b_mem s) (unat param + 0xc) (initrd_params 0 0 0)
     else overwrite (overwrite (b_mem s) (unat (initrd_address sp len)) (bytes (b_mem s) (unat data) (unat len)))
       (unat param + 0xc) (initrd_params 1 (initrd_address sp len - (param - 0x1000)) len))"
  using assms by (simp add: place_initrd_def Let_def params_overwrite initrd_params_def memmove_overwrite)

text \<open>With a kernel of the right mode and a command line with a placeholder, Linux is entered.\<close>

lemma linux_enters:
  assumes i: "linux_initrd argv len_ptr verify s = Some (Inr (data, len, s1))" "b_vars s1 = b_vars s"
    and se: "ld_u32 (b_mem (place_initrd (stack_pointer pf) (ih_load (b_header s)) data len s1)) (ih_load (b_header s) + 0x18) = 0x53453F20"
    and args: "b_vars s (ascii ''bootargs'') = Some (pre @ ascii ''hwaddr'' @ old @ post)" "0 \<notin> set (pre @ ascii ''hwaddr'' @ old @ post)"
      "\<forall>j<length pre. take 6 (drop j (pre @ ascii ''hwaddr'' @ old @ post)) \<noteq> ascii ''hwaddr''" "length old = 18"
    and mac: "mac_valid (flash_mac pf)"
    and fits: "unat (ih_load (b_header s)) + 0x100 + length (pre @ ascii ''hwaddr'' @ old @ post) < 2 ^ 32"
  shows "\<exists>s'. do_bootm_linux pf argv len_ptr verify s = Some (Enter (ih_ep (b_header s)) Kernel s') \<and>
    b_mem s' = overwrite (b_mem (place_initrd (stack_pointer pf) (ih_load (b_header s)) data len s1))
      (unat (ih_load (b_header s)) + 0x100) ((pre @ mac_text (flash_mac pf) @ post) @ [0])"
proof -
  let ?param = "ih_load (b_header s)" and ?cmd = "pre @ ascii ''hwaddr'' @ old @ post" and ?mac = "mac_text (flash_mac pf)"
  let ?s2 = "place_initrd (stack_pointer pf) ?param data len s1"
  let ?p = "?param + 0x100"
  let ?s3 = "?s2\<lparr>b_mem := overwrite (b_mem ?s2) (unat ?p) (?cmd @ [0])\<rparr>"
  have p: "unat ?p = unat ?param + 0x100" using fits by (simp add: unat_word_ariths)
  have c: "cstr (b_mem ?s3) (unat ?p) ?cmd" using cstr_written [OF args(2)] by simp
  have k: "length pre + 6 \<le> length ?cmd" and h: "take 6 (drop (length pre) ?cmd) = ascii ''hwaddr''"
    by (simp_all add: ascii_def)
  have l: "unat ?p + length ?cmd < 2 ^ 32" using fits p by simp
  from set_hwaddr_at [OF c l k args(3) disjI2 [OF h], of pf]
  obtain s4 where s4: "set_hwaddr pf ?p ?s3 = Some s4"
    "b_mem s4 = overwrite (b_mem ?s3) (unat ?p + length pre) (hw_text (flash_mac pf))" by blast
  have "b_mem s4 = overwrite (overwrite (b_mem ?s2) (unat ?p) (pre @ (ascii ''hwaddr'' @ old) @ (post @ [0]))) (unat ?p + length pre) ?mac"
    unfolding s4(2) hw_text_mac [OF mac] by simp
  also have "\<dots> = overwrite (b_mem ?s2) (unat ?p) (pre @ ?mac @ (post @ [0]))"
    by (rule overwrite_within) (simp add: mac_text_facts [OF mac] args(4), simp add: ascii_def)
  finally have m: "b_mem s4 = overwrite (b_mem ?s2) (unat ?p) ((pre @ ?mac @ post) @ [0])" by simp
  have "0 \<notin> set (pre @ ?mac @ post)" using args(2) mac_text_facts [OF mac] by simp
  then have len: "strlen (b_mem s4) (unat ?p) = Some (length (pre @ ?mac @ post))"
    unfolding m by (intro strlen_cstr cstr_written)
  have marked: "(0x53453F20 :: u32) AND 0xFFFFFF00 = 0x53453F00" "(0x53453F20 :: u32) AND 0xFF = 32" by simp_all
  have "do_bootm_linux pf argv len_ptr verify s = Some (Enter (ih_ep (b_header s)) Kernel
      (tell (Printf (nl @ ''[iptv_kernel]:Starting kernel %s - 0x%08x - %d ...'' @ nl @ nl)
         [Text (Some (bytes (b_mem s4) (unat ?p) (length (pre @ ?mac @ post)))), Word (ld_u32 (b_mem s4) (?param + 0x10)),
          Word (ld_u32 (b_mem s4) (?param + 0x14))]) s4))"
    unfolding do_bootm_linux_def Let_def i(1) bind.bind_lunit sum.case prod.case se marked
    using args(1) i(2) s4(1) len by simp
  then show ?thesis using m p by simp
qed

section \<open>A kernel from \<open>mkimage\<close> to its entry\<close>

lemma unmarked_words:
  fixes m :: mem and load :: u32 and kern ps :: "u8 list"
  assumes "28 \<le> length kern" "length ps = 12" "unat load + 0x1c < 2 ^ 32"
    and "\<forall>i<4. m (unat load + 0x18 + i) = kern ! (0x18 + i)"
  shows "ld_u32 (overwrite m (unat load + 0xc) ps) (load + 0x18) = le32 kern 0x18"
proof -
  have u: "unat (load + 0x18) = unat load + 0x18" using assms(3) by (simp add: unat_word_ariths)
  have "overwrite m (unat load + 0xc) ps (unat load + 0x18 + i) = kern ! (0x18 + i)" if "i < 4" for i
    using assms(2,4) that by (simp add: overwrite_def)
  from this [of 0] this [of 1] this [of 2] this [of 3]
  show ?thesis unfolding ld_u32_def le32_def u by simp
qed

lemma length_initrd_params [simp]: "length (initrd_params a b c) = 12"
  by (simp add: initrd_params_def)

lemma boot_checked_loads:
  assumes "ih_arch (b_header s) = IH_CPU_SH" "select_part argv (addr + 64) s = Some (Some (name, from, len, s))"
    "ih_comp (b_header s) = IH_COMP_NONE" "ih_load (b_header s) \<noteq> addr" "ih_type (b_header s) \<noteq> IH_TYPE_STANDALONE"
    "ih_os (b_header s) = IH_OS_LINUX"
  shows "boot_checked pf argv addr verify s = do_bootm_linux pf argv (addr + 64) verify
    (tell (Puts (''OK'' @ nl)) (s\<lparr>b_mem := overwrite (b_mem s) (unat (ih_load (b_header s))) (bytes (b_mem s) (unat from) (unat len))\<rparr>))"
  using assms by (simp add: boot_checked_def load_image_def start_image_def memmove_overwrite Let_def)

lemma select_kernel:
  "ih_type (b_header s) = IH_TYPE_KERNEL \<Longrightarrow> select_part argv data s = Some (Some (''Kernel Image'', data, ih_size (b_header s), s))"
  by (simp add: select_part_def Let_def)

lemma select_multi:
  "ih_type (b_header s) = IH_TYPE_MULTI \<Longrightarrow> skip_sizes (b_mem s) (data + 4) (data + 8) = Some from \<Longrightarrow>
    ld_u32 (b_mem s) data = htonl len \<Longrightarrow> select_part argv data s = Some (Some (''Multi-File Image'', from, len, s))"
  by (simp add: select_part_def Let_def htonl_htonl)

text \<open>A sound image gets past all checks.\<close>

lemma do_bootm_mkimage:
  assumes at: "image_at s addr (build_header opts time data @ data)" "image_data opts files = Some data"
    and "opt_type opts = IH_TYPE_MULTI \<longrightarrow> \<not> xflag opts" and arg: "fst (simple_strtoul a 16) = addr"
  obtains s1 where "do_bootm pf (c # a # args) s = boot_checked pf (c # a # args) addr (verify_set s) s1" "b_mem s1 = b_mem s"
      "b_vars s1 = b_vars s" "b_header s1 = blank_hcrc (build_header opts time data)"
proof -
  have arg': "1 < length (c # a # args)" "fst (simple_strtoul ((c # a # args) ! 1) 16) = addr" using arg by simp_all
  note ck = mkimage_checks [OF at(1)]
  show ?thesis
  proof (cases rule: do_bootm_cases [OF refl arg', of pf s, case_names bad endless good])
    case (bad s')
    then show ?thesis using ck by simp
  next
    case (endless s')
    then show ?thesis using mkimage_prints [OF at assms(3)] by fastforce
  next
    case (good s')
    then show ?thesis using ck that by simp
  qed
qed

text \<open>From \<open>mkimage\<close> to the kernel: \<open>bootm\<close> on an uncompressed Linux kernel packed by \<open>mkimage\<close> enters it at its entry point, with the kernel at its load address, no RAM disk in its parameter block, and the boot arguments as its command line in which the placeholder for the hardware address has been replaced by the one in the flash; nothing else in memory is changed.\<close>

theorem bootm_kernel:
  assumes "mkimage opts time [kern] = Some img" and "image_at s addr img"
    and opts: "opt_type opts = IH_TYPE_KERNEL" "opt_comp opts = IH_COMP_NONE" "opt_arch opts = IH_CPU_SH" "opt_os opts = IH_OS_LINUX"
      "\<not> xflag opts" "opt_addr opts \<noteq> addr"
    and kern: "28 \<le> length kern" "le32 kern 0x18 = 0x53453F20"
    and cmd: "b_vars s (ascii ''bootargs'') = Some (pre @ ascii ''hwaddr'' @ old @ post)" "0 \<notin> set (pre @ ascii ''hwaddr'' @ old @ post)"
      "\<forall>j<length pre. take 6 (drop j (pre @ ascii ''hwaddr'' @ old @ post)) \<noteq> ascii ''hwaddr''" "length old = 18"
    and mac: "mac_valid (flash_mac pf)"
    and fits: "unat (opt_addr opts) + 0x100 + length (pre @ ascii ''hwaddr'' @ old @ post) < 2 ^ 32"
    and arg: "fst (simple_strtoul a 16) = addr"
  shows "\<exists>s'. do_bootm pf [c, a] s = Some (Enter (opt_ep opts) Kernel s') \<and>
    b_mem s' = overwrite (overwrite (overwrite (b_mem s) (unat (opt_addr opts)) kern) (unat (opt_addr opts) + 0xc) (initrd_params 0 0 0))
      (unat (opt_addr opts) + 0x100) ((pre @ mac_text (flash_mac pf) @ post) @ [0])"
proof -
  let ?h = "build_header opts time kern" and ?load = "opt_addr opts"
  have d: "image_data opts [kern] = Some kern" using opts(1,5) kern(1) by (auto simp: image_data_def copy_file_def Let_def)
  then have img: "img = ?h @ kern" using assms(1) by (simp add: mkimage_def split: if_splits)
  with assms(2) have at: "image_at s addr (?h @ kern)" by simp
  note ck = mkimage_checks [OF at] and ip = image_parts [OF at build_header_fields(1)]
  obtain s1 where s1: "do_bootm pf [c, a] s = boot_checked pf [c, a] addr (verify_set s) s1" "b_mem s1 = b_mem s"
      "b_vars s1 = b_vars s" "b_header s1 = blank_hcrc ?h"
    using do_bootm_mkimage [OF at d _ arg, of pf c "[]"] opts(1) by auto
  let ?m = "overwrite (b_mem s) (unat ?load) kern"
  let ?s2 = "tell (Puts (''OK'' @ nl)) (s1\<lparr>b_mem := ?m\<rparr>)"
  have boot: "boot_checked pf [c, a] addr (verify_set s) s1 = do_bootm_linux pf [c, a] (addr + 64) (verify_set s) ?s2"
    by (subst boot_checked_loads [OF _ select_kernel]) (use ip s1(2,4) opts in simp_all)
  have i: "linux_initrd [c, a] (addr + 64) (verify_set s) ?s2 = Some (Inr (0, 0, ?s2))"
    using s1(4) opts(1) by (simp add: linux_initrd_def Let_def)
  have f: "unat ?load + 0x18 < 2 ^ 32" "unat ?load + 0x1c < 2 ^ 32" using fits by simp_all
  have mem: "b_mem (place_initrd (stack_pointer pf) ?load 0 0 ?s2) = overwrite ?m (unat ?load + 0xc) (initrd_params 0 0 0)"
    by (simp add: place_initrd_mem [OF f(1)])
  have se: "ld_u32 (b_mem (place_initrd (stack_pointer pf) ?load 0 0 ?s2)) (?load + 0x18) = 0x53453F20"
    unfolding mem kern(2) [symmetric]
    by (rule unmarked_words) (use kern(1) f(2) in \<open>simp_all add: overwrite_def\<close>)
  have h: "ih_load (b_header ?s2) = ?load" "ih_ep (b_header ?s2) = opt_ep opts" using s1(4) by simp_all
  have v: "b_vars ?s2 (ascii ''bootargs'') = Some (pre @ ascii ''hwaddr'' @ old @ post)" using cmd(1) s1(3) by simp
  from linux_enters [OF i refl, unfolded h, OF se v cmd(2-4) mac fits]
  show ?thesis unfolding s1(1) boot mem by blast
qed

lemma skip_sizes_table:
  assumes "table_at m p files" "\<forall>f\<in>set files. f \<noteq> [] \<and> length f < 2 ^ 32"
  shows "skip_sizes m p d = Some (d + 4 * word_of_nat (length files))"
  using assms
proof (induction files arbitrary: p d)
  case Nil
  then show ?case by (subst skip_sizes.simps) (simp add: table_at_def)
next
  case (Cons f files)
  have "ld_u32 m p \<noteq> 0" using table_at_Cons(1) [OF Cons.prems(1)] Cons.prems(2) size_word_nonzero [of f] by simp
  then show ?case
    using Cons.IH [OF table_at_Cons(2) [OF Cons.prems(1)]] Cons.prems(2)
    by (subst skip_sizes.simps) (simp add: algebra_simps)
qed

lemma image_at_kept:
  assumes "image_at s addr img" "b_mem s' = overwrite (b_mem s) p xs" "p + length xs \<le> unat addr \<or> unat addr + length img \<le> p"
  shows "image_at s' addr img"
proof -
  have "bytes (b_mem s') (unat addr) (length img) = bytes (b_mem s) (unat addr) (length img)"
    using assms(2,3) by (auto simp: bytes_def overwrite_def)
  then show ?thesis using assms(1) by (simp add: image_at_def)
qed

text \<open>The tables and the parts of a multi-file image that is in memory, as \<open>bootm\<close> walks over them.\<close>

lemma multi_walk:
  fixes kern disk :: "u8 list"
  assumes at: "image_at s addr (build_header opts time data @ data)" and d: "image_data opts (kern # disk # rest) = Some data"
    and opts: "opt_type opts = IH_TYPE_MULTI" "\<not> xflag opts"
  defines "n \<equiv> 12 + 4 * word_of_nat (length rest)"
  defines "src \<equiv> addr + 64 + n + word_of_nat (padded (length kern))"
  shows "skip_sizes (b_mem s) (addr + 64 + 4) (addr + 64 + 8) = Some (addr + 64 + n)"
    "ld_u32 (b_mem s) (addr + 64) = htonl (word_of_nat (length kern))"
    "ld_u32 (b_mem s) (addr + 64 + 4) = htonl (word_of_nat (length disk))"
    "bytes (b_mem s) (unat (addr + 64 + n)) (length kern) = kern"
    "bytes (b_mem s) (unat src) (length disk) = disk" "src \<noteq> 0" "length kern < 2 ^ 32" "length disk < 2 ^ 32" "disk \<noteq> []"
proof -
  let ?files = "kern # disk # rest"
  have m: "opt_type opts = IH_TYPE_MULTI \<or> opt_type opts = IH_TYPE_SCRIPT" using opts(1) by simp
  note t = multi_table(1) [OF at d m] and fit = files_fit [OF at d m opts(2)]
  note t1 = table_at_Cons [OF t] and f = image_files [OF at d m opts(2)]
  show "ld_u32 (b_mem s) (addr + 64) = htonl (word_of_nat (length kern))" by (rule t1(1))
  show "ld_u32 (b_mem s) (addr + 64 + 4) = htonl (word_of_nat (length disk))" by (rule table_at_Cons(1) [OF t1(2)])
  show "length kern < 2 ^ 32" "length disk < 2 ^ 32" "disk \<noteq> []" using fit by simp_all
  have "skip_sizes (b_mem s) (addr + 64 + 4) (addr + 64 + 8) = Some (addr + 64 + 8 + 4 * word_of_nat (length (disk # rest)))"
    by (rule skip_sizes_table [OF t1(2)]) (use fit in simp)
  then show "skip_sizes (b_mem s) (addr + 64 + 4) (addr + 64 + 8) = Some (addr + 64 + n)" by (simp add: n_def algebra_simps)
  have o: "part_offset ?files 0 = 0" "part_offset ?files 1 = padded (length kern)" by (simp_all add: part_offset_def)
  have e: "addr + 64 + (4 + 4 * word_of_nat (length ?files)) + word_of_nat (part_offset ?files 0) = addr + 64 + n"
    "addr + 64 + (4 + 4 * word_of_nat (length ?files)) + word_of_nat (part_offset ?files 1) = src"
    unfolding o by (simp_all add: n_def src_def algebra_simps)
  show "bytes (b_mem s) (unat (addr + 64 + n)) (length kern) = kern" using f(5) [of 0] unfolding e by simp
  show "bytes (b_mem s) (unat src) (length disk) = disk" "src \<noteq> 0" using f(5) [of 1] f(3) [of 1] unfolding e by auto
qed

text \<open>C9: A multi-file image boots with its RAM disk: from an uncompressed image that \<open>mkimage\<close> made of a kernel, a RAM disk and any other files, \<open>bootm\<close> loads the kernel, copies exactly the RAM disk to the page-aligned address below the end of the first memory, tells the kernel its offset and length, puts the boot arguments with the hardware address from the flash in place of their placeholder behind its parameters, and enters it; no other memory changes. The kernel must be marked as a 32-bit one, its place must overlap neither the image nor the place of the RAM disk and not be the address of the image, the arguments must contain a placeholder of full length, and the flash an address.\<close>

theorem bootm_multi:
  fixes kern disk :: "u8 list"
  assumes "mkimage opts time (kern # disk # rest) = Some img" and "image_at s addr img"
    and opts: "opt_type opts = IH_TYPE_MULTI" "opt_comp opts = IH_COMP_NONE" "opt_arch opts = IH_CPU_SH" "opt_os opts = IH_OS_LINUX"
      "\<not> xflag opts" "opt_addr opts \<noteq> addr"
    and kern: "28 \<le> length kern" "le32 kern 0x18 = 0x53453F20"
    and room: "unat (opt_addr opts) + length kern \<le> unat addr \<or> unat addr + length img \<le> unat (opt_addr opts)"
      "unat (opt_addr opts) + length kern \<le> unat (initrd_address (stack_pointer pf) (word_of_nat (length disk)))"
    and cmd: "b_vars s (ascii ''bootargs'') = Some (pre @ ascii ''hwaddr'' @ old @ post)" "0 \<notin> set (pre @ ascii ''hwaddr'' @ old @ post)"
      "\<forall>j<length pre. take 6 (drop j (pre @ ascii ''hwaddr'' @ old @ post)) \<noteq> ascii ''hwaddr''" "length old = 18"
    and mac: "mac_valid (flash_mac pf)"
    and fits: "unat (opt_addr opts) + 0x100 + length (pre @ ascii ''hwaddr'' @ old @ post) < 2 ^ 32"
    and arg: "fst (simple_strtoul a 16) = addr"
  defines "start \<equiv> initrd_address (stack_pointer pf) (word_of_nat (length disk))"
  shows "\<exists>s'. do_bootm pf [c, a] s = Some (Enter (opt_ep opts) Kernel s') \<and>
    b_mem s' = overwrite (overwrite (overwrite (overwrite (b_mem s) (unat (opt_addr opts)) kern) (unat start) disk)
        (unat (opt_addr opts) + 0xc) (initrd_params 1 (start - (opt_addr opts - 0x1000)) (word_of_nat (length disk))))
      (unat (opt_addr opts) + 0x100) ((pre @ mac_text (flash_mac pf) @ post) @ [0])"
proof -
  obtain data where data: "image_data opts (kern # disk # rest) = Some data" "img = build_header opts time data @ data"
    using mkimage_data [OF assms(1)] .
  let ?h = "build_header opts time data" and ?load = "opt_addr opts" and ?len = "word_of_nat (length disk) :: u32"
  have at: "image_at s addr (?h @ data)" using assms(2) data(2) by simp
  note ck = mkimage_checks [OF at] and w = multi_walk [OF at data(1) opts(1,5)]
  obtain s1 where s1: "do_bootm pf [c, a] s = boot_checked pf [c, a] addr (verify_set s) s1" "b_mem s1 = b_mem s"
      "b_vars s1 = b_vars s" "b_header s1 = blank_hcrc ?h"
    using do_bootm_mkimage [OF at data(1) _ arg, of pf c "[]"] opts(5) by auto
  define m1 where "m1 = overwrite (b_mem s) (unat ?load) kern"
  let ?s2 = "tell (Puts (''OK'' @ nl)) (s1\<lparr>b_mem := m1\<rparr>)"
  have u: "unat (word_of_nat (length kern) :: u32) = length kern" using w(7) by (simp add: unat_u32)
  have sel: "select_part [c, a] (addr + 64) s1 = Some (Some (''Multi-File Image'', addr + 64 + (12 + 4 * word_of_nat (length rest)), word_of_nat (length kern), s1))"
    by (rule select_multi) (use s1(2,4) opts(1) w(1,2) in \<open>simp_all only: blank_fields build_header_fields\<close>)
  have boot: "boot_checked pf [c, a] addr (verify_set s) s1 = do_bootm_linux pf [c, a] (addr + 64) (verify_set s) ?s2"
    by (subst boot_checked_loads [OF _ sel]) (use s1(2,4) opts w(4) u in \<open>simp_all add: m1_def add.assoc\<close>)
  have at2: "image_at ?s2 addr (?h @ data)"
    by (rule image_at_kept [OF at]) (use s1(2) room(1) data(2) in \<open>simp_all add: m1_def\<close>)
  note w2 = multi_walk [OF at2 data(1) opts(1,5)]
  define src where "src = addr + 64 + (12 + 4 * word_of_nat (length rest)) + word_of_nat (padded (length kern))"
  have nz: "htonl (word_of_nat (length disk)) \<noteq> 0" using w(8,9) by (intro size_word_nonzero) simp_all
  have i: "linux_initrd [c, a] (addr + 64) (verify_set s) ?s2 = Some (Inr (src, ?len, ?s2))"
  proof -
    have n: "\<not> 3 \<le> length [c, a]" and ty: "ih_type (b_header ?s2) = IH_TYPE_MULTI" using s1(4) opts(1) by simp_all
    note pad = padded_word [OF w(7), of "addr + 64 + (12 + 4 * word_of_nat (length rest))", unfolded Let_def, folded src_def]
    show ?thesis
      by (simp only: linux_initrd_def Let_def n ty w2(1-3) htonl_htonl nz if_False if_True simp_thms option.map pad not_False_eq_True)
  qed
  have v: "b_vars ?s2 (ascii ''bootargs'') = Some (pre @ ascii ''hwaddr'' @ old @ post)" using cmd(1) s1(3) by simp
  have f: "unat ?load + 0x18 < 2 ^ 32" "unat ?load + 0x1c < 2 ^ 32" using fits by simp_all
  have lu: "unat ?len = length disk" using w(8) by (simp add: unat_u32)
  have mem: "b_mem (place_initrd (stack_pointer pf) ?load src ?len ?s2) =
      overwrite (overwrite m1 (unat start) disk) (unat ?load + 0xc) (initrd_params 1 (start - (?load - 0x1000)) ?len)"
    using w2(5,6) by (simp add: place_initrd_mem [OF f(1)] lu start_def src_def)
  have kept: "overwrite m1 (unat start) disk (unat ?load + 0x18 + i) = kern ! (0x18 + i)" if "i < 4" for i
  proof -
    have "unat ?load + 0x18 + i < unat start" using that kern(1) room(2) unfolding start_def by linarith
    then show ?thesis using that kern(1) by (simp add: m1_def overwrite_def)
  qed
  have se: "ld_u32 (b_mem (place_initrd (stack_pointer pf) ?load src ?len ?s2)) (?load + 0x18) = 0x53453F20"
    unfolding mem kern(2) [symmetric]
    using unmarked_words [OF kern(1) length_initrd_params f(2)] kept by blast
  have h: "ih_load (b_header ?s2) = ?load" "ih_ep (b_header ?s2) = opt_ep opts" using s1(4) by simp_all
  from linux_enters [OF i refl, unfolded h, OF se v cmd(2-4) mac fits]
  show ?thesis unfolding s1(1) boot mem unfolding m1_def .
qed

definition demo_kernel :: "u8 list" where
  "demo_kernel = replicate 24 0 @ le32_bytes 0x53453F20"

lemma demo_kernel_facts: "length demo_kernel = 28" "le32 demo_kernel 0x18 = 0x53453F20" "demo_kernel \<noteq> []"
  by code_simp+

lemma demo_start: "initrd_address 0x8F000000 3 = 0x80FFF000"
  by code_simp

lemma demo_multi: "\<exists>img. mkimage (demo_opts IH_TYPE_MULTI) 0 [demo_kernel, [7, 8, 9]] = Some img \<and> length img = 107"
  by (simp add: mkimage_def xip_entry_ok_def demo_opts_def image_data_def demo_kernel_facts copy_file_def size_table_def
      length_build_header Let_def)

theorem bootm_multi_witness:
  "\<exists>img s'. mkimage (demo_opts IH_TYPE_MULTI) 0 [demo_kernel, [7, 8, 9]] = Some img \<and>
    do_bootm demo_platform [ascii ''bootm'', ascii ''82000000''] (demo_boot 0x82000000 img) = Some (Enter 0x80011000 Kernel s') \<and>
    b_mem s' = overwrite (overwrite (overwrite (overwrite (b_mem (demo_boot 0x82000000 img)) 0x80010000 demo_kernel) 0x80FFF000 [7, 8, 9])
        0x8001000C (initrd_params 1 0x00FF0000 3)) 0x80010100 (ascii ''hwaddr:00:11:22:33:44:55 x'' @ [0])"
proof -
  obtain img where img: "mkimage (demo_opts IH_TYPE_MULTI) 0 [demo_kernel, [7, 8, 9]] = Some img" "length img = 107"
    using demo_multi by blast
  have at: "image_at (demo_boot 0x82000000 img) 0x82000000 img" by (rule image_at_stored) (simp add: img(2))
  have bootargs: "ascii ''hwaddr=00:00:00:00:00:00 x'' = [] @ ascii ''hwaddr'' @ ascii ''=00:00:00:00:00:00'' @ ascii '' x''"
    by (simp add: ascii_def)
  have mac: "mac_text (ascii ''001122334455'') = ascii ''hwaddr:00:11:22:33:44:55''" "mac_valid (ascii ''001122334455'')"
    by code_simp+
  let ?o = "demo_opts IH_TYPE_MULTI" and ?s = "demo_boot 0x82000000 img"
  let ?start = "initrd_address (stack_pointer demo_platform) (word_of_nat (length [7, 8, 9 :: u8]))"
  have start: "?start = 0x80FFF000" using demo_start by (simp add: demo_platform_def)
  have "\<exists>s'. do_bootm demo_platform [ascii ''bootm'', ascii ''82000000''] ?s = Some (Enter (opt_ep ?o) Kernel s') \<and>
    b_mem s' = overwrite (overwrite (overwrite (overwrite (b_mem ?s) (unat (opt_addr ?o)) demo_kernel) (unat ?start) [7, 8, 9])
        (unat (opt_addr ?o) + 0xc) (initrd_params 1 (?start - (opt_addr ?o - 0x1000)) (word_of_nat (length [7, 8, 9 :: u8]))))
      (unat (opt_addr ?o) + 0x100) (([] @ mac_text (flash_mac demo_platform) @ ascii '' x'') @ [0])"
    by (rule bootm_multi [OF img(1) at, where old = "ascii ''=00:00:00:00:00:00''"])
      (use start mac(2) in \<open>simp_all add: demo_numbers demo_kernel_facts img(2) demo_opts_def demo_platform_def demo_boot_def bootargs,
        simp_all add: ascii_def\<close>)
  then show ?thesis
    using img(1) unfolding start by (auto simp: demo_opts_def demo_platform_def mac(1)) (simp add: ascii_def)
qed

end
