(* ===== verification/Spec2Isabelle.thy ===== *)
theory Spec2Isabelle
  imports Ecc Crc32 Sha1 Spi SwUpdate CString Vsprintf Env Console SRecord Kermit CircBuf Command CmdLine LineEdit Net Tftp NetLoop NetRun Image Bootm
begin

text \<open>
  A verification development for the U-Boot boot loader of an ST set-top platform (board
  \<open>pdk7105\<close>, CPU SH-4). The code is under \<open>src/src\<close>; file names below are relative to it. The
  configuration is that of \<open>include/configs/pdk7105.h\<close>: 32-bit little endian, signed \<open>char\<close>,
  a serial flash on a bit-banged SPI bus, no NOR flash, and one Ethernet driver.

  \<^bold>\<open>The program and its parts.\<close> After reset the board reads its environment from the serial flash
  (\<open>cpu/sh/env_eeprom.c\<close>, \<open>common/env_common.c\<close>), runs the update procedure of the vendor
  (\<open>board/st/pdk7105/swUpdate.c\<close>: images from a USB stick or the network, checked by CRC and
  SHA-1, are written through the SPI driver \<open>cpu/sh/spi.c\<close>), and then reads commands from the serial
  console: \<open>common/console.c\<close> delivers characters, the line editor and the command line of
  \<open>common/main.c\<close> make lines and words of them (boards with \<open>CFG_HUSH_PARSER\<close>, this one among them, replace the second by \<open>common/hush.c\<close>),
  \<open>common/command.c\<close> finds the command. The commands
  modelled read and set variables (\<open>common/cmd_nvedit.c\<close>), load files over the serial line as S-records or
  with Kermit (\<open>common/cmd_load.c\<close>, \<open>common/s_record.c\<close>) and over Ethernet (\<open>common/cmd_net.c\<close>, \<open>net/net.c\<close>,
  \<open>net/tftp.c\<close>), and check, unpack and boot the images that were loaded (\<open>common/cmd_bootm.c\<close>, \<open>common/cmd_ximg.c\<close>,
  \<open>common/cmd_autoscript.c\<close>, \<open>lib_sh/sh_linux.c\<close>), which \<open>tools/mkimage.c\<close> makes on the host. The text and number routines of \<open>lib_generic\<close> are used by all of them.

  \<^bold>\<open>Theories.\<close> Each holds the definitions of one part in the order of its source and then its lemmas.

  \<^item> \<open>Prelude\<close>: machine words, loads and stores of words in byte memory, \<open>xsum\<close>, overwriting a
    range of memory, the locale \<open>digest_stream\<close> of a digest fed in pieces, interpreted by the CRC and by SHA-1.
  \<^item> \<open>Ecc\<close>: \<open>cpu/sh/ecc.c\<close>. \<open>ecc_gen\<close> and \<open>ecc_correct\<close>; one wrong bit is corrected, two are detected.
  \<^item> \<open>Crc32\<close>: \<open>lib_generic/crc32.c\<close>. Table-driven CRC against the bit-serial polynomial division.
  \<^item> \<open>Sha1\<close>: the digest of \<open>swUpdate.c\<close>, against a functional statement of FIPS 180, in one piece and streamed.
  \<^item> \<open>Spi\<close>: \<open>cpu/sh/spi.c\<close>, and the helpers of \<open>common/cmd_spi.c\<close> and \<open>common/cmd_eeprom.c\<close>. The pins of the
    port are a parameter; \<open>m25p\<close> states what a serial flash chip does on them (its data sheet).
  \<^item> \<open>SwUpdate\<close>: the update procedure. USB, FAT, ext2, the shell and the allocator are the operations of the
    record \<open>env\<close>; an image that fails its check is never flashed.
  \<^item> \<open>CString\<close>, \<open>Vsprintf\<close>: \<open>lib_generic\<close>'s \<open>string.c\<close>, \<open>ctype.c\<close>, \<open>vsprintf.c\<close>, \<open>ldiv.c\<close>, \<open>div64.c\<close>.
    Memory is a function from addresses to bytes; a loop that may run on is a \<open>partial_function\<close>.
  \<^item> \<open>Env\<close>: the environment as the packed bytes the code keeps, refined by a map from names to values;
    the locale \<open>kv_store\<close> states the laws of such a map, its interpretation proves them of the packed bytes.
  \<^item> \<open>Console\<close>, \<open>SRecord\<close>, \<open>Kermit\<close>, \<open>CircBuf\<close>, \<open>Command\<close>, \<open>CmdLine\<close>, \<open>LineEdit\<close>: the console and the
    command line. \<open>CircBuf\<close> states its contract as the locale \<open>bounded_queue\<close>; \<open>LineEdit\<close> relates the key handler to an
    inductive step relation of an abstract editor.
  \<^item> \<open>Net\<close>, \<open>Tftp\<close>, \<open>NetLoop\<close>, \<open>NetRun\<close>: \<open>net/net.c\<close> (sending; receiving and the main loop), \<open>net/tftp.c\<close>, and a
    whole download through the loop. The driver is the list \<open>eth_out\<close> of frames sent and the list of frames
    of each turn; the state of the stack is the record \<open>net\<close>, extended by \<open>tftp\<close>.
  \<^item> \<open>Image\<close>, \<open>Bootm\<close>: the image format of \<open>include/image.h\<close> with \<open>mkimage\<close>, which writes it, and \<open>iminfo\<close>, \<open>imxtract\<close> and
    \<open>autoscr\<close>, which read it; \<open>bootm\<close> up to the entry of the kernel, in the 32-bit (SE) build. The zlib decompressor, the stack pointer and the hardware
    address in the flash are the record \<open>platform\<close>.

  \<^bold>\<open>How code becomes definitions.\<close> A global or a structure is a record passed through and returned; a C string in
  memory is a list of bytes without its terminator, or an address where aliasing or overreading matters;
  an \<open>int\<close> is a word, or an \<open>int\<close> where it is used as a count that cannot wrap (stated where it is done). \<open>None\<close> stands for an
  access outside the objects the code owns, or for a loop that does not end; error codes are values.
  What is printed is kept as the list of calls where it is part of the behaviour, and left out where it is diagnostics.

  \<^bold>\<open>Bounds and fuel.\<close> \<open>readline\<close> consumes a list of keys and the Kermit and S-record receivers a list of
  characters: the list is the fuel, and a run that needs more is a value of its own. The network loop takes a list of turns, each with the
  frames that arrived, the abort key and the time; \<open>Waiting\<close> is the loop when they are used up, and \<open>netloop_loads\<close>
  shows that a server that answers in time makes it return. One call of \<open>get_timer\<close> per turn gives the time of
  the whole turn. The loops of the flash driver and of the update procedure that wait for hardware are
  partial functions, and the theorems about them show that they return.

  \<^bold>\<open>What is shown.\<close> The updater itself writes only images that passed its checks, and nothing else at start-up but boot
  scripts changes the flash; \<open>spi_write\<close> leaves exactly the data in the flash (safety, refinement). \<open>setenv\<close>, \<open>getenv\<close>, \<open>saveenv\<close> and a restart behave as a map that survives power
  off. The editor shows what it holds and does what an abstract editor does. Kermit, S-record and TFTP transfers
  deliver the file: TFTP through at most ten timeouts, repeated blocks (not those numbered 0) and packets of others; Kermit
  through packets damaged in any way the receiver notices, under the conditions on sequence numbers that \<open>Kermit\<close>
  states, together with what happens outside them. Printing and reading of numbers and addresses, encoding and decoding of
  frames and records are inverse. What \<open>mkimage\<close> packs, \<open>imxtract\<close> takes out and \<open>bootm\<close> starts, kernel, RAM disk and command line
  included, and an image with a changed byte is not started while \<open>verify\<close> is on. CRC, SHA-1, division and \<open>test\<close> agree with reference definitions. Where the code does less
  than it means to, the theorem states what it does: an update image longer than what is checked, a failed \<open>setenv\<close>
  that breaks the checksum, a Kermit packet lost when the next is cut short, the terminator \<open>getenv_r\<close> writes behind its buffer, a line of full length, block numbers that wrap,
  lengths of packets that are believed, a negative part number of \<open>imxtract\<close>.

  \<^bold>\<open>Not modelled.\<close>
  \<^item> Hardware: start-up assembler, clocks, memory controllers, timers, UARTs, Ethernet, USB, SATA, NAND and video
    drivers (\<open>cpu\<close>, \<open>drivers\<close>, \<open>lib_sh\<close>, most of \<open>board/st\<close>): register accesses without an algorithm of their own.
    Other processors and boards (\<open>cpu\<close>, \<open>board\<close>, \<open>lib_arm\<close>, \<open>lib_ppc\<close> and so on) are not part of this program's configuration.
  \<^item> Third-party code: \<open>zlib.c\<close>, \<open>bzlib*.c\<close>, \<open>libfdt\<close>, \<open>dlmalloc.c\<close>, the bios emulator, the file systems of \<open>fs\<close>.
  \<^item> Of \<open>net\<close>: the BOOTP/DHCP, RARP, NFS and SNTP clients; of \<open>net.c\<close> CDP and the network console, which are not configured.
  \<^item> Of \<open>common\<close>: the shell \<open>hush.c\<close>, \<open>xyzModem.c\<close>, and the commands of \<open>cmd_*.c\<close> not named above; \<open>imls\<close>, \<open>bootd\<close> and \<open>bootelf\<close>; of \<open>bootm\<close> bzip2, caches, interrupts
    and the change of the memory mapping before the kernel; of \<open>mkimage\<close> the reading of options and the listing of images.
  \<^item> Of the files modelled: the branches of other configurations, messages that are diagnostics, \<open>askenv\<close>, the change of the baud rate,
    \<open>main_loop\<close>, the assignment of consoles, and in \<open>net.c\<close> the globals only BOOTP sets and \<open>show_boot_progress\<close>.
    The variables a transfer sets are an update of the variables the network code sees.
\<close>

end
